(* ===== verification/Prelude.thy ===== *)
theory Prelude
  imports Complex_Main "HOL-Library.Word"
begin

text \<open>
  Shared vocabulary of the development: machine integers, the faults a C routine can run
  into, and the parts of the C library the sources use on NUL-terminated strings
  (strncmp, strchr, strstr, strtok, strtol, atoi, strcasecmp, snprintf).

  A C string is the list of its characters before the NUL, so no model string contains
  CHR 0x00. Plain char is unsigned on aarch64, the platform of the server.
\<close>

unbundle bit_operations_syntax

type_synonym u8 = "8 word"
type_synonym u16 = "16 word"
type_synonym u32 = "32 word"
type_synonym u64 = "64 word"

type_synonym addr = nat
type_synonym ptr = "addr option"

named_theorems cstr_simps \<open>characterisations of the C string routines\<close>
named_theorems run_simps \<open>evaluation of sequenced C statements\<close>

section \<open>Faults and sequencing\<close>

text \<open>
  A routine that does not return normally: a thread that locks a (default, non-recursive)
  mutex it already holds, a dereference of NULL or of freed memory, an array access out of
  range, or a loop that never ends.
\<close>

datatype fault = Deadlock | BadPointer | OutOfRange | Diverges

type_synonym 'a run = "fault + 'a"

fun bindR :: "'a run \<Rightarrow> ('a \<Rightarrow> 'b run) \<Rightarrow> 'b run" where
  "bindR (Inl f) k = Inl f"
| "bindR (Inr a) k = k a"

declare bindR.simps [run_simps]

lemma bindR_Inr_iff: "bindR r k = Inr b \<longleftrightarrow> (\<exists>a. r = Inr a \<and> k a = Inr b)"
  by (cases r) auto

lemma bindR_Inl_iff: "bindR r k = Inl f \<longleftrightarrow> r = Inl f \<or> (\<exists>a. r = Inr a \<and> k a = Inl f)"
  by (cases r) auto

lemma bindR_cong [fundef_cong]:
  "r = r' \<Longrightarrow> (\<And>a. r' = Inr a \<Longrightarrow> k a = k' a) \<Longrightarrow> bindR r k = bindR r' k'"
  by (cases r') auto

section \<open>C integers\<close>

text \<open>The conversion of a wider value to a 32-bit int, as gcc defines it.\<close>

definition to_int32 :: "int \<Rightarrow> int" where
  "to_int32 x = signed_take_bit 31 x"

lemma to_int32_range: "- (2 ^ 31) \<le> to_int32 x" "to_int32 x < 2 ^ 31"
  using signed_take_bit_int_greater_eq_minus_exp [of 31 x]
    signed_take_bit_int_less_exp [of 31 x]
  by (simp_all add: to_int32_def)

lemma to_int32_id: "- (2 ^ 31) \<le> x \<Longrightarrow> x < 2 ^ 31 \<Longrightarrow> to_int32 x = x"
  by (simp add: to_int32_def signed_take_bit_int_eq_self)

text \<open>A product of longs as gcc compiles it: the low 64 bits.\<close>

definition to_int64 :: "int \<Rightarrow> int" where
  "to_int64 x = signed_take_bit 63 x"

lemma to_int64_range: "- (2 ^ 63) \<le> to_int64 x" "to_int64 x < 2 ^ 63"
  using signed_take_bit_int_greater_eq_minus_exp [of 63 x]
    signed_take_bit_int_less_exp [of 63 x]
  by (simp_all add: to_int64_def)

text \<open>Division and remainder of C round towards zero.\<close>

definition c_div :: "int \<Rightarrow> int \<Rightarrow> int" where
  "c_div a b = sgn a * sgn b * (\<bar>a\<bar> div \<bar>b\<bar>)"

definition c_mod :: "int \<Rightarrow> int \<Rightarrow> int" where
  "c_mod a b = a - b * c_div a b"

lemma c_mod_nonneg: "0 \<le> a \<Longrightarrow> 0 < b \<Longrightarrow> c_mod a b = a mod b"
  by (cases "a = 0") (simp_all add: c_mod_def c_div_def minus_mult_div_eq_mod)

section \<open>Characters\<close>

definition isspace :: "char \<Rightarrow> bool" where
  "isspace c \<longleftrightarrow> (let n = (of_char c :: nat) in n = 32 \<or> (9 \<le> n \<and> n \<le> 13))"

definition isdigit :: "char \<Rightarrow> bool" where
  "isdigit c \<longleftrightarrow> (let n = (of_char c :: nat) in 48 \<le> n \<and> n \<le> 57)"

definition isalnum :: "char \<Rightarrow> bool" where
  "isalnum c \<longleftrightarrow> (let n = (of_char c :: nat) in
     (48 \<le> n \<and> n \<le> 57) \<or> (65 \<le> n \<and> n \<le> 90) \<or> (97 \<le> n \<and> n \<le> 122))"

definition tolower :: "char \<Rightarrow> char" where
  "tolower c = (let n = (of_char c :: nat) in if 65 \<le> n \<and> n \<le> 90 then char_of (n + 32) else c)"

section \<open>String routines\<close>

text \<open>\<open>strncmp s t n == 0\<close> on strings without NUL.\<close>

definition strncmp_eq :: "string \<Rightarrow> string \<Rightarrow> nat \<Rightarrow> bool" where
  "strncmp_eq s t n \<longleftrightarrow> take n s = take n t"

text \<open>\<open>strncmp (s, pre, strlen pre) == 0\<close>.\<close>

definition starts_with :: "string \<Rightarrow> string \<Rightarrow> bool" where
  "starts_with pre s \<longleftrightarrow> take (length pre) s = pre"

lemma starts_with_append [simp]: "starts_with pre (pre @ s)"
  by (simp add: starts_with_def)

lemma starts_with_iff [cstr_simps]: "starts_with pre s \<longleftrightarrow> (\<exists>t. s = pre @ t)"
  by (metis starts_with_def append_take_drop_id starts_with_append)

definition strcasecmp_eq :: "string \<Rightarrow> string \<Rightarrow> bool" where
  "strcasecmp_eq s t \<longleftrightarrow> List.map tolower s = List.map tolower t"

text \<open>strchr and strstr return a pointer into the string: here the suffix it points at.\<close>

fun strchr :: "string \<Rightarrow> char \<Rightarrow> string option" where
  "strchr [] c = None"
| "strchr (x # xs) c = (if x = c then Some (x # xs) else strchr xs c)"

fun strrchr :: "string \<Rightarrow> char \<Rightarrow> string option" where
  "strrchr [] c = None"
| "strrchr (x # xs) c =
     (case strrchr xs c of Some t \<Rightarrow> Some t
      | None \<Rightarrow> if x = c then Some (x # xs) else None)"

fun strstr :: "string \<Rightarrow> string \<Rightarrow> string option" where
  "strstr [] needle = (if needle = [] then Some [] else None)"
| "strstr (x # xs) needle =
     (if starts_with needle (x # xs) then Some (x # xs) else strstr xs needle)"

text \<open>The characters of \<open>s\<close> before the position that the suffix \<open>t\<close> points at.\<close>

definition before :: "string \<Rightarrow> string \<Rightarrow> string" where
  "before s t = take (length s - length t) s"

lemma strchr_Some: "strchr s c = Some t \<Longrightarrow> s = takeWhile (\<lambda>x. x \<noteq> c) s @ t \<and> (\<exists>u. t = c # u)"
  by (induction s c rule: strchr.induct) (auto split: if_splits)

lemma strchr_None [cstr_simps]: "strchr s c = None \<longleftrightarrow> c \<notin> set s"
  by (induction s c rule: strchr.induct) auto

lemma strrchr_None [cstr_simps]: "c \<notin> set s \<Longrightarrow> strrchr s c = None"
  by (induction s) auto

lemma strchr_before: "strchr s c = Some t \<Longrightarrow> before s t = takeWhile (\<lambda>x. x \<noteq> c) s"
proof -
  assume "strchr s c = Some t"
  then have s: "s = takeWhile (\<lambda>x. x \<noteq> c) s @ t" using strchr_Some by blast
  have "before (takeWhile (\<lambda>x. x \<noteq> c) s @ t) t = takeWhile (\<lambda>x. x \<noteq> c) s"
    by (simp add: before_def)
  with s show ?thesis by simp
qed

lemma strchr_append [simp]: "c \<notin> set p \<Longrightarrow> strchr (p @ c # t) c = Some (c # t)"
  by (induction p) auto

lemma strstr_Some: "strstr s p = Some t \<Longrightarrow> \<exists>u v. s = u @ t \<and> t = p @ v"
proof (induction s)
  case Nil
  then show ?case by (auto split: if_splits)
next
  case (Cons x s)
  show ?case
  proof (cases "starts_with p (x # s)")
    case True
    with Cons.prems show ?thesis by (auto simp: starts_with_iff)
  next
    case False
    with Cons.prems have "strstr s p = Some t" by simp
    then obtain u v where "s = u @ t" "t = p @ v" using Cons.IH by blast
    then show ?thesis by (metis append_Cons)
  qed
qed

lemma strstr_found: "strstr (u @ p @ v) p \<noteq> None"
proof (induction u)
  case Nil
  show ?case
  proof (cases "p @ v")
    case Nil
    then show ?thesis by simp
  next
    case (Cons x xs)
    then have "starts_with p (x # xs)" by (metis starts_with_append)
    with Cons show ?thesis by simp
  qed
next
  case (Cons x u)
  then show ?case by simp
qed

lemma strstr_None [cstr_simps]: "strstr s p = None \<longleftrightarrow> (\<nexists>u v. s = u @ p @ v)"
proof
  assume "strstr s p = None"
  then show "\<nexists>u v. s = u @ p @ v" using strstr_found by blast
next
  assume n: "\<nexists>u v. s = u @ p @ v"
  show "strstr s p = None"
  proof (cases "strstr s p")
    case (Some t)
    then obtain u v where "s = u @ t" "t = p @ v" using strstr_Some by blast
    with n show ?thesis by blast
  qed
qed

text \<open>
  strtok with a fixed delimiter set, called until it returns NULL, yields the maximal
  delimiter-free runs of the string in order.
\<close>

function strtok_all :: "char set \<Rightarrow> string \<Rightarrow> string list" where
  "strtok_all ds s =
     (let s' = dropWhile (\<lambda>c. c \<in> ds) s
      in if s' = [] then []
         else takeWhile (\<lambda>c. c \<notin> ds) s' # strtok_all ds (dropWhile (\<lambda>c. c \<notin> ds) s'))"
  by pat_completeness auto
termination
proof (relation "measure (\<lambda>(ds, s). length s)", goal_cases)
  case 1
  show ?case by simp
next
  case (2 ds s t)
  from 2 have "hd t \<notin> ds" using hd_dropWhile by blast
  with 2(2) have "length (dropWhile (\<lambda>c. c \<notin> ds) t) < length t"
    by (cases t) (auto simp: length_dropWhile_le le_imp_less_Suc)
  also have "\<dots> \<le> length s" using 2(1) length_dropWhile_le by simp
  finally show ?case by simp
qed

declare strtok_all.simps [simp del]

lemma strtok_all_Nil [simp]: "strtok_all ds [] = []"
  by (simp add: strtok_all.simps)

lemma strtok_all_ne: "t \<in> set (strtok_all ds s) \<Longrightarrow> t \<noteq> [] \<and> set t \<inter> ds = {}"
proof (induction ds s rule: strtok_all.induct)
  case (1 ds s)
  let ?s = "dropWhile (\<lambda>c. c \<in> ds) s"
  show ?case
  proof (cases "?s = []")
    case True
    with 1(2) show ?thesis by (simp add: strtok_all.simps [of ds s])
  next
    case False
    then have hd: "hd ?s \<notin> ds" using hd_dropWhile by blast
    have "strtok_all ds s = takeWhile (\<lambda>c. c \<notin> ds) ?s # strtok_all ds (dropWhile (\<lambda>c. c \<notin> ds) ?s)"
      by (subst strtok_all.simps) (simp only: Let_def False if_False)
    with 1(2) consider "t = takeWhile (\<lambda>c. c \<notin> ds) ?s"
      | "t \<in> set (strtok_all ds (dropWhile (\<lambda>c. c \<notin> ds) ?s))"
      by auto
    then show ?thesis
    proof cases
      case 1
      with False hd show ?thesis by (cases ?s) (auto dest: set_takeWhileD)
    next
      case 2
      with 1(1) [OF refl False] show ?thesis by simp
    qed
  qed
qed

text \<open>strtok of one word, and of a word followed by a delimiter.\<close>

lemma dropWhile_none: "\<forall>c\<in>set w. \<not> P c \<Longrightarrow> dropWhile P (w @ s) = (if w = [] then dropWhile P s else w @ s)"
  by (cases w) auto

lemma strtok_all_word: "w \<noteq> [] \<Longrightarrow> set w \<inter> ds = {} \<Longrightarrow> strtok_all ds w = [w]"
proof -
  assume w: "w \<noteq> []" "set w \<inter> ds = {}"
  then have "\<forall>c\<in>set w. \<not> c \<in> ds" by auto
  with w have d: "dropWhile (\<lambda>c. c \<in> ds) w = w"
    using dropWhile_none [of w "\<lambda>c. c \<in> ds" "[]"] by simp
  from w have t: "takeWhile (\<lambda>c. c \<notin> ds) w = w" and e: "dropWhile (\<lambda>c. c \<notin> ds) w = []"
    by (auto simp: takeWhile_eq_all_conv dropWhile_eq_Nil_conv)
  show ?thesis by (subst strtok_all.simps) (simp only: d t e Let_def w if_False strtok_all_Nil)
qed

lemma strtok_all_cons:
  assumes "w \<noteq> []" "set w \<inter> ds = {}" "d \<in> ds"
  shows "strtok_all ds (w @ d # s) = w # strtok_all ds s"
proof -
  have d: "dropWhile (\<lambda>c. c \<in> ds) (w @ d # s) = w @ d # s"
    using assms dropWhile_none [of w "\<lambda>c. c \<in> ds" "d # s"] by auto
  have t: "takeWhile (\<lambda>c. c \<notin> ds) (w @ d # s) = w" "dropWhile (\<lambda>c. c \<notin> ds) (w @ d # s) = d # s"
    using assms by (auto simp: takeWhile_append dropWhile_append)
  have "strtok_all ds (d # s) = strtok_all ds s"
    using assms by (simp add: strtok_all.simps [of ds "d # s"] strtok_all.simps [of ds s])
  with d t show ?thesis using assms by (simp add: strtok_all.simps [of ds "w @ d # s"])
qed

section \<open>Numbers in text\<close>

definition digit_val :: "char \<Rightarrow> int" where
  "digit_val c = of_char c - 48"

definition digits_val :: "string \<Rightarrow> int" where
  "digits_val s = foldl (\<lambda>v c. 10 * v + digit_val c) 0 s"

definition clamp_long :: "int \<Rightarrow> int" where
  "clamp_long v = max (- (2 ^ 63)) (min (2 ^ 63 - 1) v)"

text \<open>
  strtol in base 10: the value and the rest of the string that endptr points at; without
  digits the value is 0 and endptr is the start. The value saturates at the range of long.
\<close>

definition strtol10 :: "string \<Rightarrow> int \<times> string" where
  "strtol10 s =
     (let t = dropWhile isspace s;
          neg = (t \<noteq> [] \<and> hd t = CHR ''-'');
          u = (if t \<noteq> [] \<and> (hd t = CHR ''-'' \<or> hd t = CHR ''+'') then tl t else t);
          ds = takeWhile isdigit u
      in if ds = [] then (0, s)
         else (clamp_long (if neg then - digits_val ds else digits_val ds), dropWhile isdigit u))"

definition atoi :: "string \<Rightarrow> int" where
  "atoi s = to_int32 (fst (strtol10 s))"

lemma atoi_range: "- (2 ^ 31) \<le> atoi s" "atoi s < 2 ^ 31"
  using to_int32_range by (simp_all add: atoi_def)

lemma strtol10_range: "- (2 ^ 63) \<le> fst (strtol10 s) \<and> fst (strtol10 s) < 2 ^ 63"
proof -
  have "- (2 ^ 63) \<le> clamp_long v \<and> clamp_long v < 2 ^ 63" for v
    by (auto simp: clamp_long_def max_def min_def)
  then show ?thesis by (simp add: strtol10_def Let_def)
qed

text \<open>Decimal and hexadecimal printing (\<open>%d\<close>, \<open>%ld\<close>, \<open>%zu\<close>, \<open>%zx\<close>, \<open>%02x\<close>).\<close>

definition digit_char :: "nat \<Rightarrow> char" where
  "digit_char d = char_of (if d < 10 then 48 + d else 87 + d)"

fun print_base :: "nat \<Rightarrow> nat \<Rightarrow> string" where
  "print_base b n = (if n < b \<or> b < 2 then [digit_char n] else print_base b (n div b) @ [digit_char (n mod b)])"

declare print_base.simps [simp del]

definition print_nat :: "nat \<Rightarrow> string" where
  "print_nat = print_base 10"

definition print_hex :: "nat \<Rightarrow> string" where
  "print_hex = print_base 16"

definition print_int :: "int \<Rightarrow> string" where
  "print_int i = (if i < 0 then CHR ''-'' # print_nat (nat (- i)) else print_nat (nat i))"

definition print_hex2 :: "nat \<Rightarrow> string" where
  "print_hex2 n = [digit_char (n div 16), digit_char (n mod 16)]"

text \<open>snprintf into a buffer of \<open>n > 0\<close> bytes keeps the first \<open>n - 1\<close> characters.\<close>

definition snprintf :: "nat \<Rightarrow> string \<Rightarrow> string" where
  "snprintf n s = take (n - 1) s"

lemma snprintf_fits: "length s < n \<Longrightarrow> snprintf n s = s"
  by (simp add: snprintf_def)

text \<open>
  \<open>len += snprintf (buf + len, n - len, ...)\<close> on a buffer of \<open>n\<close> bytes: \<open>len\<close> counts what did
  not fit as well, and once it exceeds \<open>n\<close> the size wraps around and the text goes behind the
  buffer.
\<close>

definition snprintf_at :: "nat \<Rightarrow> string \<Rightarrow> string \<times> nat \<Rightarrow> (string \<times> nat) run" where
  "snprintf_at n s b =
     (let (buf, len) = b in if len > n then Inl OutOfRange else Inr (snprintf n (buf @ s), len + length s))"

lemma snprintf_at_fits: "length buf + length s < n \<Longrightarrow> snprintf_at n s (buf, length buf) = Inr (buf @ s, length (buf @ s))"
  by (simp add: snprintf_at_def snprintf_def)

lemma print_base_ne [simp]: "print_base b n \<noteq> []"
  by (subst print_base.simps) simp

definition crlf :: string where
  "crlf = [CHR 0x0D, CHR 0x0A]"

section \<open>Numbers are read back\<close>

lemma digit_char_props:
  "d < 10 \<Longrightarrow> isdigit (digit_char d)" "d < 10 \<Longrightarrow> digit_val (digit_char d) = int d"
  "d < 10 \<Longrightarrow> \<not> isspace (digit_char d)" "d < 10 \<Longrightarrow> digit_char d \<noteq> CHR ''-'' \<and> digit_char d \<noteq> CHR ''+''"
proof -
  assume d: "d < 10"
  then have n: "(of_char (digit_char d) :: nat) = 48 + d" by (simp add: digit_char_def)
  then show "isdigit (digit_char d)" "\<not> isspace (digit_char d)"
    using d by (simp_all add: isdigit_def isspace_def Let_def)
  have "(of_char (digit_char d) :: int) = int (of_char (digit_char d))" by (simp add: of_nat_of_char)
  with n have "(of_char (digit_char d) :: int) = 48 + int d" by simp
  then show "digit_val (digit_char d) = int d" by (simp add: digit_val_def)
  have "(of_char CHR ''-'' :: nat) = 45" "(of_char CHR ''+'' :: nat) = 43" by simp_all
  with n show "digit_char d \<noteq> CHR ''-'' \<and> digit_char d \<noteq> CHR ''+''" by auto
qed

lemma digits_val_snoc: "digits_val (s @ [c]) = 10 * digits_val s + digit_val c"
  by (simp add: digits_val_def)

lemma print_nat_step: "print_nat n = (if n < 10 then [digit_char n] else print_nat (n div 10) @ [digit_char (n mod 10)])"
  by (simp add: print_nat_def print_base.simps [of 10 n])

lemma print_nat_digits: "list_all isdigit (print_nat n) \<and> digits_val (print_nat n) = int n"
proof (induction n rule: less_induct)
  case (less n)
  show ?case
  proof (cases "n < 10")
    case True
    then show ?thesis by (simp add: print_nat_step [of n] digit_char_props digits_val_def)
  next
    case False
    with less [of "n div 10"] have "digits_val (print_nat n) = 10 * int (n div 10) + int (n mod 10)"
      and "list_all isdigit (print_nat n)"
      by (simp_all add: print_nat_step [of n] digit_char_props digits_val_snoc)
    then show ?thesis by (metis mult_div_mod_eq of_nat_add of_nat_mult of_nat_numeral)
  qed
qed

lemma print_nat_hd: "\<exists>d ds. d < 10 \<and> print_nat n = digit_char d # ds"
proof (induction n rule: less_induct)
  case (less n)
  show ?case
  proof (cases "n < 10")
    case True
    then show ?thesis by (auto simp: print_nat_step [of n])
  next
    case False
    with less [of "n div 10"] show ?thesis by (auto simp: print_nat_step [of n])
  qed
qed

lemma strtol10_print_nat:
  assumes "s = [] \<or> \<not> isdigit (hd s)" "int n < 2 ^ 63"
  shows "strtol10 (print_nat n @ s) = (int n, s)"
proof -
  obtain d ds where d: "d < 10" "print_nat n = digit_char d # ds" using print_nat_hd by blast
  have all: "list_all isdigit (print_nat n)" "digits_val (print_nat n) = int n" using print_nat_digits by auto
  have tw: "takeWhile isdigit (print_nat n @ s) = print_nat n" "dropWhile isdigit (print_nat n @ s) = s"
    using all(1) assms(1) by (cases s; auto simp: takeWhile_append dropWhile_append list_all_iff)+
  have hd: "dropWhile isspace (print_nat n @ s) = print_nat n @ s" "hd (print_nat n @ s) = digit_char d" "print_nat n @ s \<noteq> []"
    using d digit_char_props(3) [OF d(1)] by simp_all
  have "clamp_long (int n) = int n" using assms(2) by (simp add: clamp_long_def)
  then show ?thesis
    using digit_char_props(4) [OF d(1)] all(2) tw hd d(2) by (simp add: strtol10_def Let_def)
qed

lemma atoi_print_int: "0 \<le> p \<Longrightarrow> p < 2 ^ 31 \<Longrightarrow> atoi (print_int p) = p"
  using strtol10_print_nat [of "[]" "nat p"] by (simp add: atoi_def print_int_def to_int32_id)

lemma print_int_digits: "0 \<le> p \<Longrightarrow> list_all isdigit (print_int p)"
  using print_nat_digits by (simp add: print_int_def)

end
