(* ===== verification/Bandwidth.thy ===== *)
theory Bandwidth
  imports Prelude
begin

text \<open>
  Bandwidth limiting (src/utils/bandwidth.c): the rule table and its lookup, the
  token-bucket controller of one connection, the three controlled transmission loops and
  the global statistics. A size_t is a 64-bit word, a struct timeval a pair of integers
  read from the clock, which is an argument of every operation that calls gettimeofday.
  fnmatch is a parameter. Allocation is taken to succeed.
\<close>

section \<open>Rules and configuration\<close>

datatype bandwidth_unit_t = BANDWIDTH_UNIT_BPS | BANDWIDTH_UNIT_KBPS | BANDWIDTH_UNIT_MBPS

record bandwidth_rule =
  path_pattern :: "string option"
  rule_mime_type :: "string option"
  client_ip_pattern :: "string option"
  rule_rate_limit :: u64
  rule_unit :: bandwidth_unit_t
  rule_burst_size :: u64
  rule_enabled :: bool

record bandwidth_config =
  enable_bandwidth_limit :: bool
  default_rate_limit :: u64
  default_burst_size :: u64
  bw_min_file_size :: u64
  bw_rules :: "bandwidth_rule list"
  rules_count :: int

definition bandwidth_config_create :: bandwidth_config where
  "bandwidth_config_create =
     \<lparr>enable_bandwidth_limit = False, default_rate_limit = 1048576,
      default_burst_size = 65536, bw_min_file_size = 1024 * 1024,
      bw_rules = [], rules_count = 0\<rparr>"

fun bandwidth_convert_to_bytes_per_second :: "u64 \<Rightarrow> bandwidth_unit_t \<Rightarrow> u64" where
  "bandwidth_convert_to_bytes_per_second v BANDWIDTH_UNIT_BPS = v"
| "bandwidth_convert_to_bytes_per_second v BANDWIDTH_UNIT_KBPS = v * 1024"
| "bandwidth_convert_to_bytes_per_second v BANDWIDTH_UNIT_MBPS = v * 1024 * 1024"

fun bandwidth_unit_to_string :: "bandwidth_unit_t \<Rightarrow> string" where
  "bandwidth_unit_to_string BANDWIDTH_UNIT_BPS = ''B/s''"
| "bandwidth_unit_to_string BANDWIDTH_UNIT_KBPS = ''KB/s''"
| "bandwidth_unit_to_string BANDWIDTH_UNIT_MBPS = ''MB/s''"

definition bandwidth_parse_unit :: "string option \<Rightarrow> bandwidth_unit_t" where
  "bandwidth_parse_unit unit_str =
     (case unit_str of None \<Rightarrow> BANDWIDTH_UNIT_BPS
      | Some s \<Rightarrow>
          if length s = 0 then BANDWIDTH_UNIT_BPS
          else let u = dropWhile (\<lambda>c. c = CHR '' '' \<or> c = CHR 0x09) s in
            if strcasecmp_eq u ''k'' \<or> strcasecmp_eq u ''kb'' \<or> strcasecmp_eq u ''kbps''
            then BANDWIDTH_UNIT_KBPS
            else if strcasecmp_eq u ''m'' \<or> strcasecmp_eq u ''mb'' \<or> strcasecmp_eq u ''mbps''
            then BANDWIDTH_UNIT_MBPS
            else BANDWIDTH_UNIT_BPS)"

definition bandwidth_config_add_rule ::
  "bandwidth_config \<Rightarrow> string option \<Rightarrow> string option \<Rightarrow> string option \<Rightarrow> u64 \<Rightarrow>
   bandwidth_unit_t \<Rightarrow> u64 \<Rightarrow> int \<times> bandwidth_config" where
  "bandwidth_config_add_rule config path mime ip rate u burst =
     (let rule = \<lparr>path_pattern = path, rule_mime_type = mime, client_ip_pattern = ip,
                  rule_rate_limit = bandwidth_convert_to_bytes_per_second rate u,
                  rule_unit = u,
                  rule_burst_size = (if burst > 0 then burst else default_burst_size config),
                  rule_enabled = True\<rparr>
      in (0, config\<lparr>bw_rules := rule # bw_rules config,
                    rules_count := rules_count config + 1\<rparr>))"

definition bandwidth_match_pattern ::
  "(string \<Rightarrow> string \<Rightarrow> bool) \<Rightarrow> string option \<Rightarrow> string option \<Rightarrow> bool" where
  "bandwidth_match_pattern fnmatch p s =
     (case (p, s) of (Some pat, Some str) \<Rightarrow> fnmatch pat str | _ \<Rightarrow> False)"

definition bandwidth_match_ip_pattern :: "string option \<Rightarrow> string option \<Rightarrow> bool" where
  "bandwidth_match_ip_pattern p s =
     (case (p, s) of
        (Some pat, Some ip) \<Rightarrow>
          if pat = ''*'' then True
          else if pat = ip then True
          else if strstr pat ''*'' \<noteq> None \<and> last pat = CHR ''*''
          then strncmp_eq pat ip (length pat - 1)
          else False
      | _ \<Rightarrow> False)"

fun find_rule_from ::
  "(string \<Rightarrow> string \<Rightarrow> bool) \<Rightarrow> bandwidth_rule list \<Rightarrow> string option \<Rightarrow> string option \<Rightarrow>
   string option \<Rightarrow> bandwidth_rule option" where
  "find_rule_from fnmatch [] path mime ip = None"
| "find_rule_from fnmatch (rule # rest) path mime ip =
     (if \<not> rule_enabled rule then find_rule_from fnmatch rest path mime ip
      else if path_pattern rule \<noteq> None \<and> path \<noteq> None \<and>
              \<not> bandwidth_match_pattern fnmatch (path_pattern rule) path
      then find_rule_from fnmatch rest path mime ip
      else if rule_mime_type rule \<noteq> None \<and> mime \<noteq> None \<and>
              \<not> bandwidth_match_pattern fnmatch (rule_mime_type rule) mime
      then find_rule_from fnmatch rest path mime ip
      else if client_ip_pattern rule \<noteq> None \<and> ip \<noteq> None \<and>
              \<not> bandwidth_match_ip_pattern (client_ip_pattern rule) ip
      then find_rule_from fnmatch rest path mime ip
      else Some rule)"

definition bandwidth_config_find_rule ::
  "(string \<Rightarrow> string \<Rightarrow> bool) \<Rightarrow> bandwidth_config \<Rightarrow> string option \<Rightarrow> string option \<Rightarrow>
   string option \<Rightarrow> bandwidth_rule option" where
  "bandwidth_config_find_rule fnmatch config path mime ip =
     (if \<not> enable_bandwidth_limit config then None
      else find_rule_from fnmatch (bw_rules config) path mime ip)"

definition bandwidth_parse_config_directive ::
  "bandwidth_config \<Rightarrow> string \<Rightarrow> string \<Rightarrow> int \<times> bandwidth_config" where
  "bandwidth_parse_config_directive config key v =
     (if key = ''enable_bandwidth_limit''
      then (0, config\<lparr>enable_bandwidth_limit := (v = ''on'')\<rparr>)
      else if key = ''default_rate_limit'' \<and> fst (strtol10 v) > 0
      then (0, config\<lparr>default_rate_limit :=
                 bandwidth_convert_to_bytes_per_second (word_of_int (fst (strtol10 v)))
                   (bandwidth_parse_unit (Some (snd (strtol10 v))))\<rparr>)
      else if key = ''default_burst_size'' \<and> fst (strtol10 v) > 0
      then (0, config\<lparr>default_burst_size := word_of_int (fst (strtol10 v))\<rparr>)
      else if key = ''min_file_size'' \<and> fst (strtol10 v) > 0
      then (0, config\<lparr>bw_min_file_size := word_of_int (fst (strtol10 v))\<rparr>)
      else (-1, config))"

section \<open>The token-bucket controller\<close>

record timeval =
  tv_sec :: int
  tv_usec :: int

record bandwidth_controller =
  rate_limit :: u64
  burst_size :: u64
  tokens :: u64
  last_update :: timeval
  bytes_sent :: u64
  start_time :: timeval
  active :: bool

definition bandwidth_controller_init ::
  "timeval \<Rightarrow> u64 \<Rightarrow> u64 \<Rightarrow> bandwidth_controller" where
  "bandwidth_controller_init now rate burst =
     (let b = (if burst > 0 then burst else 65536)
      in \<lparr>rate_limit = (if rate > 0 then rate else 1048576), burst_size = b, tokens = b,
          last_update = now, bytes_sent = 0, start_time = now, active = True\<rparr>)"

definition time_diff_usec :: "timeval \<Rightarrow> timeval \<Rightarrow> int" where
  "time_diff_usec now since =
     (tv_sec now - tv_sec since) * 1000000 + (tv_usec now - tv_usec since)"

definition bandwidth_controller_update_tokens ::
  "timeval \<Rightarrow> bandwidth_controller \<Rightarrow> bandwidth_controller" where
  "bandwidth_controller_update_tokens now c =
     (if \<not> active c then c
      else if time_diff_usec now (last_update c) \<le> 0 then c
      else let tokens_to_add = (rate_limit c * word_of_int (time_diff_usec now (last_update c))) div 1000000;
               t = tokens c + tokens_to_add
           in c\<lparr>tokens := (if t > burst_size c then burst_size c else t), last_update := now\<rparr>)"

definition bandwidth_controller_acquire ::
  "timeval \<Rightarrow> bandwidth_controller \<Rightarrow> u64 \<Rightarrow> nat \<times> bandwidth_controller" where
  "bandwidth_controller_acquire now c bytes =
     (if \<not> active c \<or> bytes = 0 then (0, c)
      else let c = bandwidth_controller_update_tokens now c in
        if tokens c \<ge> bytes
        then (0, c\<lparr>tokens := tokens c - bytes, bytes_sent := bytes_sent c + bytes\<rparr>)
        else let needed_tokens = bytes - tokens c;
                 wait = (needed_tokens * 1000000) div rate_limit c;
                 wait = (if wait < 1000 then 1000 else wait);
                 wait = (if wait > 100000 then 100000 else wait)
             in (unat wait, c))"

definition bandwidth_controller_calculate_delay ::
  "timeval \<Rightarrow> bandwidth_controller \<Rightarrow> u64 \<Rightarrow> u64 \<times> bandwidth_controller" where
  "bandwidth_controller_calculate_delay now c bytes =
     (if \<not> active c \<or> bytes = 0 then (0, c)
      else let c = bandwidth_controller_update_tokens now c in
        if tokens c \<ge> bytes then (0, c)
        else (((bytes - tokens c) * 1000000) div rate_limit c, c))"

definition bandwidth_controller_can_send ::
  "timeval \<Rightarrow> bandwidth_controller \<Rightarrow> u64 \<Rightarrow> bool \<times> bandwidth_controller" where
  "bandwidth_controller_can_send now c bytes =
     (if \<not> active c then (True, c)
      else let c = bandwidth_controller_update_tokens now c in (tokens c \<ge> bytes, c))"

section \<open>Statistics and the controlled transmission loops\<close>

record bandwidth_stats =
  total_connections :: u64
  limited_connections :: u64
  total_bytes_sent :: u64
  total_bytes_limited :: u64
  avg_transfer_rate :: rat
  bw_last_updated :: int

definition bandwidth_reset_stats :: bandwidth_stats where
  "bandwidth_reset_stats =
     \<lparr>total_connections = 0, limited_connections = 0, total_bytes_sent = 0,
      total_bytes_limited = 0, avg_transfer_rate = 0, bw_last_updated = 0\<rparr>"

definition bandwidth_get_stats :: "int \<Rightarrow> bandwidth_stats \<Rightarrow> bandwidth_stats" where
  "bandwidth_get_stats now s =
     (let s = s\<lparr>bw_last_updated := now\<rparr>
      in if total_connections s > 0
         then s\<lparr>avg_transfer_rate := of_nat (unat (total_bytes_sent s)) / of_nat (unat (total_connections s))\<rparr>
         else s)"

definition bandwidth_update_stats :: "u64 \<Rightarrow> bool \<Rightarrow> bandwidth_stats \<Rightarrow> bandwidth_stats" where
  "bandwidth_update_stats sent limited s =
     (let s = s\<lparr>total_bytes_sent := total_bytes_sent s + sent\<rparr>;
          s = (if limited
               then s\<lparr>total_bytes_limited := total_bytes_limited s + sent,
                      limited_connections := limited_connections s + 1\<rparr>
               else s)
      in s\<lparr>total_connections := total_connections s + 1\<rparr>)"

text \<open>
  What the transport (send, sendfile, SSL_write) answers: a positive number of bytes, a
  retry condition (EAGAIN, EWOULDBLOCK, SSL_ERROR_WANT_*) or an error. One iteration of a
  loop reads the clock at most twice and the transport once; a list of such readings is
  the behaviour of the environment. \<open>None\<close> as a result: the loop is still running when
  the readings end.
\<close>

datatype send_result = Sent nat | WouldBlock | SendError

type_synonym io_step = "timeval \<times> timeval \<times> send_result"

definition take_tokens ::
  "timeval \<Rightarrow> timeval \<Rightarrow> bandwidth_controller option \<Rightarrow> u64 \<Rightarrow> bandwidth_controller option" where
  "take_tokens now1 now2 ctl to_send =
     (case ctl of None \<Rightarrow> None
      | Some c \<Rightarrow>
          let (delay, c1) = bandwidth_controller_acquire now1 c to_send in
          if delay > 0 then Some (snd (bandwidth_controller_acquire now2 c1 to_send))
          else Some c1)"

fun controlled_loop ::
  "nat \<Rightarrow> nat \<Rightarrow> nat \<Rightarrow> bandwidth_controller option \<Rightarrow> bandwidth_stats \<Rightarrow> io_step list \<Rightarrow>
   int option \<times> nat \<times> bandwidth_controller option \<times> bandwidth_stats" where
  "controlled_loop chunk_size sz total_sent ctl st steps =
     (if total_sent < sz then
        (case steps of [] \<Rightarrow> (None, total_sent, ctl, st)
         | (now1, now2, res) # rest \<Rightarrow>
             let to_send = (if sz - total_sent > chunk_size then chunk_size else sz - total_sent);
                 ctl = take_tokens now1 now2 ctl (of_nat to_send)
             in (case res of
                   Sent n \<Rightarrow> controlled_loop chunk_size sz (total_sent + n) ctl
                              (bandwidth_update_stats (of_nat n) (ctl \<noteq> None) st) rest
                 | WouldBlock \<Rightarrow> controlled_loop chunk_size sz total_sent ctl st rest
                 | SendError \<Rightarrow> (Some (-1), total_sent, ctl, st)))
      else (Some (to_int32 (int total_sent)), total_sent, ctl, st))"

declare controlled_loop.simps [simp del]

definition bandwidth_controlled_send ::
  "nat \<Rightarrow> bandwidth_controller option \<Rightarrow> bandwidth_stats \<Rightarrow> io_step list \<Rightarrow>
   int option \<times> nat \<times> bandwidth_controller option \<times> bandwidth_stats" where
  "bandwidth_controlled_send sz ctl st steps =
     (if sz = 0 then (Some 0, 0, ctl, st) else controlled_loop 8192 sz 0 ctl st steps)"

definition bandwidth_controlled_sendfile ::
  "nat \<Rightarrow> int \<Rightarrow> bandwidth_controller option \<Rightarrow> bandwidth_stats \<Rightarrow> io_step list \<Rightarrow>
   int option \<times> int \<times> bandwidth_controller option \<times> bandwidth_stats" where
  "bandwidth_controlled_sendfile count offset ctl st steps =
     (if count = 0 then (Some 0, offset, ctl, st)
      else let (r, total_sent, ctl', st') = controlled_loop 65536 count 0 ctl st steps
           in (r, (if r = None \<or> r = Some (-1) \<and> total_sent < count then offset else offset + int total_sent),
               ctl', st'))"

definition bandwidth_controlled_ssl_send ::
  "bool \<Rightarrow> nat \<Rightarrow> bandwidth_controller option \<Rightarrow> bandwidth_stats \<Rightarrow> io_step list \<Rightarrow>
   int option \<times> nat \<times> bandwidth_controller option \<times> bandwidth_stats" where
  "bandwidth_controlled_ssl_send has_ssl sz ctl st steps =
     (if \<not> has_ssl \<or> sz = 0 then (Some 0, 0, ctl, st)
      else controlled_loop 8192 sz 0 ctl st steps)"

section \<open>Word arithmetic of the bucket\<close>

lemma unat_mult_le: "unat (a * b) \<le> unat a * unat (b :: u64)"
  by (metis mod_less_eq_dividend unat_word_ariths(2))

lemma unat_add_le: "unat (a + b) \<le> unat a + unat (b :: u64)"
  by (metis mod_less_eq_dividend unat_word_ariths(1))

lemma unat_word_of_int_le: "0 \<le> d \<Longrightarrow> int (unat (word_of_int d :: u64)) \<le> d"
  by (simp add: uint_word_of_int zmod_le_nonneg_dividend flip: uint_nat)

lemma tokens_to_add_le:
  fixes r :: u64
  assumes "0 \<le> d"
  shows "1000000 * int (unat ((r * word_of_int d) div 1000000)) \<le> int (unat r) * d"
proof -
  let ?p = "unat (r * word_of_int d)"
  have "1000000 * (?p div 1000000) \<le> ?p" by simp
  moreover have "unat ((r * word_of_int d) div 1000000) = ?p div 1000000"
    by (simp add: unat_div)
  ultimately have "1000000 * int (unat ((r * word_of_int d) div 1000000)) \<le> int ?p"
    by (metis of_nat_le_iff of_nat_mult of_nat_numeral)
  also have "int ?p \<le> int (unat r) * int (unat (word_of_int d :: u64))"
    using unat_mult_le [of r "word_of_int d"] by (metis of_nat_le_iff of_nat_mult)
  also have "\<dots> \<le> int (unat r) * d"
    by (intro mult_left_mono unat_word_of_int_le assms) simp
  finally show ?thesis .
qed

section \<open>The contract of a rate limiter\<close>

text \<open>
  Steps of a limiter, run in sequence, and the bytes they grant in total. The interface
  asks for a credit that a step can only raise by the rate times the time it moves the
  limiter's clock forward, and that every grant is paid from.
\<close>

fun run_steps :: "('op \<Rightarrow> 'c \<Rightarrow> nat \<times> 'c) \<Rightarrow> 'op list \<Rightarrow> 'c \<Rightarrow> nat \<times> 'c" where
  "run_steps step [] c = (0, c)"
| "run_steps step (x # xs) c =
     (let (g, c') = step x c; (g', c'') = run_steps step xs c' in (g + g', c''))"

locale rate_limiter =
  fixes step :: "'op \<Rightarrow> 'c \<Rightarrow> nat \<times> 'c"
    and inv :: "'c \<Rightarrow> bool"
    and credit :: "'c \<Rightarrow> int"
    and clock :: "'c \<Rightarrow> int"
    and rate :: "'c \<Rightarrow> int"
  assumes inv_step: "inv c \<Longrightarrow> inv (snd (step x c))"
    and credit_nonneg: "inv c \<Longrightarrow> 0 \<le> credit c"
    and rate_const: "inv c \<Longrightarrow> rate (snd (step x c)) = rate c"
    and credit_step: "inv c \<Longrightarrow>
      credit (snd (step x c)) + 1000000 * int (fst (step x c))
        \<le> credit c + rate c * (clock (snd (step x c)) - clock c)"
begin

lemma run_inv: "inv c \<Longrightarrow> inv (snd (run_steps step xs c))"
  by (induction xs arbitrary: c) (auto simp: split_def Let_def inv_step)

lemma run_rate: "inv c \<Longrightarrow> rate (snd (run_steps step xs c)) = rate c"
  by (induction xs arbitrary: c) (auto simp: split_def Let_def inv_step rate_const)

lemma run_credit: "inv c \<Longrightarrow>
    credit (snd (run_steps step xs c)) + 1000000 * int (fst (run_steps step xs c))
      \<le> credit c + rate c * (clock (snd (run_steps step xs c)) - clock c)"
proof (induction xs arbitrary: c)
  case Nil
  then show ?case by simp
next
  case (Cons x xs)
  let ?c = "snd (step x c)"
  have "credit (snd (run_steps step xs ?c)) + 1000000 * int (fst (run_steps step xs ?c))
      \<le> credit ?c + rate c * (clock (snd (run_steps step xs ?c)) - clock ?c)"
    using Cons.IH [of ?c] Cons.prems inv_step rate_const by simp
  with credit_step [OF Cons.prems, of x] show ?case
    by (simp add: split_def Let_def algebra_simps)
qed

lemma run_granted: "inv c \<Longrightarrow>
    1000000 * int (fst (run_steps step xs c))
      \<le> credit c + rate c * (clock (snd (run_steps step xs c)) - clock c)"
  using run_credit [of c xs] credit_nonneg [OF run_inv, of c xs] by linarith

end

section \<open>The controller is a rate limiter\<close>

text \<open>The calls a connection makes on its controller, each with the time it reads.\<close>

datatype ctl_op = OpUpdate timeval | OpAcquire timeval u64 | OpDelay timeval u64 | OpCanSend timeval u64

fun ctl_step :: "ctl_op \<Rightarrow> bandwidth_controller \<Rightarrow> nat \<times> bandwidth_controller" where
  "ctl_step (OpUpdate now) c = (0, bandwidth_controller_update_tokens now c)"
| "ctl_step (OpAcquire now b) c =
     (let (d, c') = bandwidth_controller_acquire now c b in (if d = 0 then unat b else 0, c'))"
| "ctl_step (OpDelay now b) c = (0, snd (bandwidth_controller_calculate_delay now c b))"
| "ctl_step (OpCanSend now b) c = (0, snd (bandwidth_controller_can_send now c b))"

definition bucket_inv :: "bandwidth_controller \<Rightarrow> bool" where
  "bucket_inv c \<longleftrightarrow> active c \<and> 0 < rate_limit c \<and> 0 < burst_size c \<and> tokens c \<le> burst_size c"

definition usec_of :: "timeval \<Rightarrow> int" where
  "usec_of t = tv_sec t * 1000000 + tv_usec t"

lemma time_diff_usec_of: "time_diff_usec now since = usec_of now - usec_of since"
  by (simp add: time_diff_usec_def usec_of_def algebra_simps)

lemma bucket_inv_init: "bucket_inv (bandwidth_controller_init now r b)"
  by (auto simp: bucket_inv_def bandwidth_controller_init_def Let_def word_gt_0)

lemma update_frame [simp]:
  "rate_limit (bandwidth_controller_update_tokens now c) = rate_limit c"
  "burst_size (bandwidth_controller_update_tokens now c) = burst_size c"
  "active (bandwidth_controller_update_tokens now c) = active c"
  "bytes_sent (bandwidth_controller_update_tokens now c) = bytes_sent c"
  "start_time (bandwidth_controller_update_tokens now c) = start_time c"
  by (simp_all add: bandwidth_controller_update_tokens_def Let_def)

lemma update_inv: "bucket_inv c \<Longrightarrow> bucket_inv (bandwidth_controller_update_tokens now c)"
  by (auto simp: bucket_inv_def bandwidth_controller_update_tokens_def Let_def)

lemma update_credit:
  "1000000 * int (unat (tokens (bandwidth_controller_update_tokens now c)))
     \<le> 1000000 * int (unat (tokens c)) +
       int (unat (rate_limit c)) *
         (usec_of (last_update (bandwidth_controller_update_tokens now c)) - usec_of (last_update c))"
proof (cases "active c \<and> 0 < time_diff_usec now (last_update c)")
  case True
  let ?d = "time_diff_usec now (last_update c)"
  let ?add = "(rate_limit c * word_of_int ?d) div 1000000"
  let ?t = "tokens (bandwidth_controller_update_tokens now c)"
  have "?t \<le> tokens c + ?add"
    using True by (auto simp: bandwidth_controller_update_tokens_def Let_def)
  then have "unat ?t \<le> unat (tokens c + ?add)" by (rule word_le_nat_alt [THEN iffD1])
  also have "\<dots> \<le> unat (tokens c) + unat ?add" by (rule unat_add_le)
  finally have "unat ?t \<le> unat (tokens c) + unat ?add" .
  then have "int (unat ?t) \<le> int (unat (tokens c)) + int (unat ?add)"
    by (metis of_nat_add of_nat_le_iff)
  moreover have "last_update (bandwidth_controller_update_tokens now c) = now"
    using True by (simp add: bandwidth_controller_update_tokens_def Let_def)
  moreover have "1000000 * int (unat ?add) \<le> int (unat (rate_limit c)) * ?d"
    using True by (intro tokens_to_add_le) simp
  ultimately show ?thesis
    by (simp only: time_diff_usec_of [symmetric] distrib_left)
next
  case False
  then have "bandwidth_controller_update_tokens now c = c"
    by (auto simp: bandwidth_controller_update_tokens_def)
  then show ?thesis by simp
qed

lemma acquire_cases:
  fixes now :: timeval and c :: bandwidth_controller and b :: u64
  assumes "active c" "b \<noteq> 0"
  defines "u \<equiv> bandwidth_controller_update_tokens now c"
  obtains (grant) "b \<le> tokens u"
      "bandwidth_controller_acquire now c b =
         (0, u\<lparr>tokens := tokens u - b, bytes_sent := bytes_sent u + b\<rparr>)"
    | (wait) d where "tokens u < b" "bandwidth_controller_acquire now c b = (d, u)"
        "1000 \<le> d" "d \<le> 100000"
proof (cases "b \<le> tokens u")
  case True
  with assms show ?thesis
    by (intro grant) (simp_all add: bandwidth_controller_acquire_def u_def Let_def)
next
  case False
  let ?w = "((b - tokens u) * 1000000) div rate_limit c"
  let ?w1 = "if ?w < 1000 then 1000 else ?w"
  let ?w2 = "if ?w1 > 100000 then 100000 else ?w1"
  have eq: "bandwidth_controller_acquire now c b = (unat ?w2, u)"
    using False assms by (simp add: bandwidth_controller_acquire_def u_def Let_def)
  have "1000 \<le> ?w2" "?w2 \<le> 100000" by auto
  then have "1000 \<le> unat ?w2" "unat ?w2 \<le> 100000"
    by (simp_all only: word_le_nat_alt unat_numeral) simp_all
  with eq False show ?thesis by (intro wait) auto
qed

lemma acquire_inv: "bucket_inv c \<Longrightarrow> bucket_inv (snd (bandwidth_controller_acquire now c b))"
proof (cases "b = 0")
  case False
  assume inv: "bucket_inv c"
  then have u: "bucket_inv (bandwidth_controller_update_tokens now c)" by (rule update_inv)
  from inv have "active c" by (simp add: bucket_inv_def)
  from this False show ?thesis
  proof (cases rule: acquire_cases [where now = now])
    case grant
    with u show ?thesis
      by (auto simp: bucket_inv_def intro: order_trans [OF word_sub_le])
  next
    case (wait d)
    with u show ?thesis by simp
  qed
qed (simp add: bandwidth_controller_acquire_def)

lemma peek_cases:
  "ctl_step (OpDelay now b) c \<in> {(0, c), (0, bandwidth_controller_update_tokens now c)}"
  "ctl_step (OpCanSend now b) c \<in> {(0, c), (0, bandwidth_controller_update_tokens now c)}"
  by (auto simp: bandwidth_controller_calculate_delay_def bandwidth_controller_can_send_def Let_def)

lemma ctl_step_cases:
  assumes "bucket_inv c"
  obtains (same) "ctl_step x c = (0, c)"
    | (update) now where "ctl_step x c = (0, bandwidth_controller_update_tokens now c)"
    | (grant) now b where
        "b \<le> tokens (bandwidth_controller_update_tokens now c)"
        "ctl_step x c = (unat b, (bandwidth_controller_update_tokens now c)
           \<lparr>tokens := tokens (bandwidth_controller_update_tokens now c) - b,
            bytes_sent := bytes_sent (bandwidth_controller_update_tokens now c) + b\<rparr>)"
proof (cases x)
  case (OpUpdate now)
  then show ?thesis using update by simp
next
  case (OpDelay now b)
  then show ?thesis using peek_cases(1) [of now b c] same update by auto
next
  case (OpCanSend now b)
  then show ?thesis using peek_cases(2) [of now b c] same update by auto
next
  case (OpAcquire now b)
  show ?thesis
  proof (cases "b = 0")
    case True
    with OpAcquire show ?thesis by (intro same) (simp add: bandwidth_controller_acquire_def)
  next
    case False
    from assms have "active c" by (simp add: bucket_inv_def)
    from this False show ?thesis
    proof (cases rule: acquire_cases [where now = now])
      case grant
      with OpAcquire that(3) show ?thesis by simp
    next
      case (wait d)
      with OpAcquire show ?thesis by (intro update [of now]) simp
    qed
  qed
qed

lemma ctl_step_inv: "bucket_inv c \<Longrightarrow> bucket_inv (snd (ctl_step x c))"
proof (cases x)
  case (OpAcquire now b)
  assume "bucket_inv c"
  with OpAcquire acquire_inv [of c now b] show ?thesis by (simp add: split_def Let_def)
next
  case (OpDelay now b)
  assume "bucket_inv c"
  with OpDelay peek_cases(1) [of now b c] update_inv show ?thesis by auto
next
  case (OpCanSend now b)
  assume "bucket_inv c"
  with OpCanSend peek_cases(2) [of now b c] update_inv show ?thesis by auto
qed (auto intro: update_inv)

lemma ctl_step_rate: "bucket_inv c \<Longrightarrow> rate_limit (snd (ctl_step x c)) = rate_limit c"
  by (erule ctl_step_cases [where x = x]) auto

lemma ctl_step_credit:
  assumes "bucket_inv c"
  shows "1000000 * int (unat (tokens (snd (ctl_step x c)))) + 1000000 * int (fst (ctl_step x c))
    \<le> 1000000 * int (unat (tokens c)) + int (unat (rate_limit c)) *
        (usec_of (last_update (snd (ctl_step x c))) - usec_of (last_update c))"
  using assms
proof (cases rule: ctl_step_cases [where x = x])
  case (update now)
  then show ?thesis using update_credit [of now c] by (simp only: fst_conv snd_conv)
next
  case (grant now b)
  let ?u = "bandwidth_controller_update_tokens now c"
  have "unat (tokens ?u - b) + unat b = unat (tokens ?u)"
    using grant(1) by (simp add: unat_sub word_le_nat_alt)
  then have "int (unat (tokens ?u - b)) + int (unat b) = int (unat (tokens ?u))"
    by (metis of_nat_add)
  note unspent = this
  have eqs: "tokens (snd (ctl_step x c)) = tokens ?u - b"
    "fst (ctl_step x c) = unat b" "last_update (snd (ctl_step x c)) = last_update ?u"
    using grant(2) by simp_all
  show ?thesis unfolding eqs using unspent update_credit [of now c] by linarith
qed simp

interpretation bucket: rate_limiter ctl_step bucket_inv
  "\<lambda>c. 1000000 * int (unat (tokens c))" "\<lambda>c. usec_of (last_update c)"
  "\<lambda>c. int (unat (rate_limit c))"
  by unfold_locales (rule ctl_step_inv, assumption, simp, simp only: ctl_step_rate, rule ctl_step_credit)


text \<open>A request on a well-formed controller is granted exactly when the refilled bucket
  holds enough tokens, and then pays for itself; otherwise the controller keeps its tokens and
  the caller is told to wait between one and one hundred milliseconds.\<close>

theorem bandwidth_acquire_spec:
  assumes "bucket_inv c" "b \<noteq> 0"
  shows "let u = bandwidth_controller_update_tokens now c;
             (d, c') = bandwidth_controller_acquire now c b
         in bucket_inv c' \<and>
            (if b \<le> tokens u
             then d = 0 \<and> tokens c' = tokens u - b \<and> bytes_sent c' = bytes_sent c + b
             else c' = u \<and> 1000 \<le> d \<and> d \<le> 100000)"
proof -
  from assms have "active c" by (simp add: bucket_inv_def)
  from this assms(2) show ?thesis
  proof (cases rule: acquire_cases [where now = now])
    case grant
    with acquire_inv [OF assms(1), of now b] show ?thesis by (simp add: Let_def)
  next
    case (wait d)
    with acquire_inv [OF assms(1), of now b] show ?thesis by (simp add: Let_def)
  qed
qed

theorem bandwidth_acquire_spec_witness:
  "let t = \<lparr>tv_sec = 7, tv_usec = 0\<rparr>; c = bandwidth_controller_init t 1000 500;
       (d, c') = bandwidth_controller_acquire t c 501
   in bucket_inv c \<and> bucket_inv c' \<and> d = 1000"
proof -
  let ?t = "\<lparr>tv_sec = 7, tv_usec = 0\<rparr>" and ?c = "bandwidth_controller_init \<lparr>tv_sec = 7, tv_usec = 0\<rparr> 1000 500"
  have "bandwidth_controller_acquire ?t ?c 501 = (1000, ?c)"
    by (simp add: bandwidth_controller_init_def bandwidth_controller_acquire_def
        bandwidth_controller_update_tokens_def time_diff_usec_def)
  moreover have "bucket_inv ?c" by (rule bucket_inv_init)
  moreover have "bucket_inv (snd (bandwidth_controller_acquire ?t ?c 501))"
    using bandwidth_acquire_spec [OF bucket_inv_init, of 501 ?t ?t 1000 500]
    by (auto simp: Let_def split: prod.splits if_splits)
  ultimately show ?thesis by (simp add: Let_def)
qed

section \<open>Rules\<close>

definition rule_applies ::
  "(string \<Rightarrow> string \<Rightarrow> bool) \<Rightarrow> string option \<Rightarrow> string option \<Rightarrow> string option \<Rightarrow> bandwidth_rule \<Rightarrow> bool" where
  "rule_applies fnmatch path mime ip rule \<longleftrightarrow> rule_enabled rule \<and>
     (\<forall>p s. path_pattern rule = Some p \<and> path = Some s \<longrightarrow> fnmatch p s) \<and>
     (\<forall>p s. rule_mime_type rule = Some p \<and> mime = Some s \<longrightarrow> fnmatch p s) \<and>
     (client_ip_pattern rule \<noteq> None \<and> ip \<noteq> None \<longrightarrow>
        bandwidth_match_ip_pattern (client_ip_pattern rule) ip)"

lemma find_rule_from_find:
  "find_rule_from fnmatch rules path mime ip = find (rule_applies fnmatch path mime ip) rules"
  by (induction rules)
    (auto simp: rule_applies_def bandwidth_match_pattern_def split: option.splits)

text \<open>With limiting enabled, the rule added last decides first: after a rule is added, a
  lookup returns that rule (its rate converted to bytes per second, a zero burst size replaced
  by the default) exactly when its patterns accept the request, and the answer of the older
  table otherwise.\<close>

theorem bandwidth_add_rule_lookup:
  "let (r, config') = bandwidth_config_add_rule config path mime ip rate u burst;
       rule = hd (bw_rules config')
   in r = 0 \<and> rules_count config' = rules_count config + 1 \<and>
      rule_rate_limit rule = bandwidth_convert_to_bytes_per_second rate u \<and>
      rule_burst_size rule = (if burst > 0 then burst else default_burst_size config) \<and>
      bandwidth_config_find_rule fnmatch config' p m a =
        (if enable_bandwidth_limit config \<and> rule_applies fnmatch p m a rule then Some rule
         else bandwidth_config_find_rule fnmatch config p m a)"
  by (simp add: bandwidth_config_add_rule_def bandwidth_config_find_rule_def Let_def
      find_rule_from_find)

text \<open>A client pattern that ends in a star accepts exactly the addresses that begin with
  the text before the star, a pattern without a star accepts only itself, and a star that is
  not at the end is never a wildcard.\<close>

theorem bandwidth_ip_pattern_spec:
  "(bandwidth_match_ip_pattern (Some (pre @ ''*'')) (Some ip) \<longleftrightarrow> (\<exists>t. ip = pre @ t)) \<and>
   (pat = [] \<or> last pat \<noteq> CHR ''*'' \<longrightarrow>
     bandwidth_match_ip_pattern (Some pat) (Some ip) = (ip = pat))"
proof
  have "take (length pre) ip = pre \<longleftrightarrow> (\<exists>t. ip = pre @ t)"
    by (metis starts_with_def starts_with_iff)
  then show "bandwidth_match_ip_pattern (Some (pre @ ''*'')) (Some ip) \<longleftrightarrow> (\<exists>t. ip = pre @ t)"
    using strstr_found [of pre "''*''" "[]"]
    by (auto simp: bandwidth_match_ip_pattern_def strncmp_eq_def)
  show "pat = [] \<or> last pat \<noteq> CHR ''*'' \<longrightarrow>
     bandwidth_match_ip_pattern (Some pat) (Some ip) = (ip = pat)"
    by (auto simp: bandwidth_match_ip_pattern_def)
qed

theorem bandwidth_ip_pattern_spec_witness:
  "bandwidth_match_ip_pattern (Some ''192.168.1.*'') (Some ''192.168.1.7'') \<and>
   \<not> bandwidth_match_ip_pattern (Some ''192.*.1.7'') (Some ''192.168.1.7'')"
  using bandwidth_ip_pattern_spec [of "''192.168.1.''" "''192.168.1.7''" "''192.*.1.7''"]
  by simp

section \<open>The transmission loops\<close>

text \<open>The transport never reports more bytes than it was given, and never fails.\<close>

fun honest :: "nat \<Rightarrow> nat \<Rightarrow> nat \<Rightarrow> io_step list \<Rightarrow> bool" where
  "honest chunk_size sz total_sent [] = True"
| "honest chunk_size sz total_sent ((now1, now2, res) # rest) =
     (case res of
        Sent n \<Rightarrow> 0 < n \<and> n \<le> min chunk_size (sz - total_sent) \<and>
                  (total_sent + n < sz \<longrightarrow> honest chunk_size sz (total_sent + n) rest)
      | WouldBlock \<Rightarrow> honest chunk_size sz total_sent rest
      | SendError \<Rightarrow> False)"

definition sent_steps :: "io_step list \<Rightarrow> nat" where
  "sent_steps steps = length (filter (\<lambda>(_, _, r). case r of Sent n \<Rightarrow> True | _ \<Rightarrow> False) steps)"

lemma controlled_loop_done: "sz \<le> total_sent \<Longrightarrow>
    controlled_loop k sz total_sent ctl st steps = (Some (to_int32 (int total_sent)), total_sent, ctl, st)"
  by (subst controlled_loop.simps) simp

lemma controlled_loop_honest:
  assumes "honest chunk_size sz total_sent steps" "total_sent < sz"
    and "sz - total_sent \<le> sent_steps steps"
  shows "\<exists>ctl' st'. controlled_loop chunk_size sz total_sent ctl st steps =
           (Some (to_int32 (int sz)), sz, ctl', st')"
  using assms
proof (induction steps arbitrary: total_sent ctl st)
  case Nil
  then show ?case by (simp add: sent_steps_def)
next
  case (Cons x rest)
  obtain now1 now2 res where x: "x = (now1, now2, res)" by (cases x)
  show ?case
  proof (cases res)
    case (Sent n)
    with Cons.prems x have n: "0 < n" "n \<le> sz - total_sent"
      and h: "total_sent + n < sz \<longrightarrow> honest chunk_size sz (total_sent + n) rest"
      and l: "sz - (total_sent + n) \<le> sent_steps rest"
      by (auto simp: sent_steps_def)
    show ?thesis
    proof (cases "total_sent + n < sz")
      case True
      with Cons.IH [OF _ True l] h Sent x Cons.prems(2) show ?thesis
        by (subst controlled_loop.simps) (simp add: Let_def)
    next
      case False
      with n have "total_sent + n = sz" by simp
      with Sent x Cons.prems(2) show ?thesis
        by (subst controlled_loop.simps) (simp add: Let_def controlled_loop_done)
    qed
  next
    case WouldBlock
    with Cons x show ?thesis
      by (subst controlled_loop.simps) (simp add: Let_def sent_steps_def)
  next
    case SendError
    with Cons.prems x show ?thesis by simp
  qed
qed

text \<open>A controlled send over a transport that answers honestly and makes progress as often
  as there are bytes returns after transmitting exactly the requested bytes, whatever the
  controller says.\<close>

theorem bandwidth_controlled_send_complete:
  assumes "honest 8192 sz 0 steps" "sz \<le> sent_steps steps"
  shows "\<exists>ctl' st'. bandwidth_controlled_send sz ctl st steps =
           (Some (to_int32 (int sz)), sz, ctl', st')"
  using controlled_loop_honest [of 8192 sz 0 steps ctl st] assms
  by (auto simp: bandwidth_controlled_send_def to_int32_def)

theorem bandwidth_controlled_send_complete_witness:
  "let t = \<lparr>tv_sec = 7, tv_usec = 0\<rparr> in
   \<exists>ctl' st'. bandwidth_controlled_send 3 None bandwidth_reset_stats
     [(t, t, Sent 2), (t, t, WouldBlock), (t, t, Sent 1), (t, t, Sent 1)] = (Some 3, 3, ctl', st')"
  using bandwidth_controlled_send_complete [of 3 "let t = \<lparr>tv_sec = 7, tv_usec = 0\<rparr> in
     [(t, t, Sent 2), (t, t, WouldBlock), (t, t, Sent 1), (t, t, Sent 1)]" None bandwidth_reset_stats]
  by (simp add: sent_steps_def to_int32_def Let_def)

text \<open>A controller whose burst size is below a chunk never pays for a chunk, yet the loop
  transmits it after a single wait.\<close>

lemma acquire_too_big:
  assumes "bucket_inv c" "burst_size c < b"
  shows "\<exists>d. 0 < d \<and> bandwidth_controller_acquire now c b = (d, bandwidth_controller_update_tokens now c)"
proof -
  from assms have "active c" by (simp add: bucket_inv_def)
  moreover have "b \<noteq> 0" using assms(2) by auto
  ultimately show ?thesis
  proof (cases rule: acquire_cases [where now = now])
    case grant
    have "tokens (bandwidth_controller_update_tokens now c) \<le> burst_size c"
      using update_inv [OF assms(1), of now] by (simp add: bucket_inv_def)
    with grant(1) assms(2) show ?thesis by simp
  next
    case (wait d)
    then show ?thesis by (intro exI [of _ d]) simp
  qed
qed

lemma take_tokens_too_big:
  assumes "bucket_inv c" "burst_size c < b"
  shows "\<exists>c'. take_tokens now1 now2 (Some c) b = Some c' \<and> bucket_inv c' \<and>
    burst_size c' = burst_size c \<and> bytes_sent c' = bytes_sent c"
proof -
  let ?u = "bandwidth_controller_update_tokens now1 c"
  obtain d where d: "0 < d" "bandwidth_controller_acquire now1 c b = (d, ?u)"
    using acquire_too_big [OF assms] by blast
  obtain d' where d': "bandwidth_controller_acquire now2 ?u b =
      (d', bandwidth_controller_update_tokens now2 ?u)"
    using acquire_too_big [OF update_inv [OF assms(1)], where b = b and now = now2] assms(2) by auto
  from d d' show ?thesis
    by (simp add: take_tokens_def update_inv assms(1))
qed

text \<open>The rate limit is not enforced on chunks larger than the burst size: with a burst
  size under 8192 bytes, a send of any number of whole chunks completes with one transport
  call per chunk, while the controller books none of the bytes.\<close>

theorem bandwidth_send_overruns_small_burst:
  assumes "bucket_inv c" "burst_size c < 8192" "length clocks = Suc k"
  shows "\<exists>c' st'. bandwidth_controlled_send (8192 * Suc k) (Some c) st
            (List.map (\<lambda>(t1, t2). (t1, t2, Sent 8192)) clocks) =
          (Some (to_int32 (int (8192 * Suc k))), 8192 * Suc k, Some c', st') \<and>
        bytes_sent c' = bytes_sent c"
proof -
  have "\<exists>c' st'. controlled_loop 8192 (8192 * n) (8192 * i) (Some c) st
            (List.map (\<lambda>(t1, t2). (t1, t2, Sent 8192)) clocks) =
          (Some (to_int32 (int (8192 * n))), 8192 * n, Some c', st') \<and>
        bytes_sent c' = bytes_sent c"
    if "bucket_inv c" "burst_size c < 8192" "n = i + length clocks" for n i c st
    using that
  proof (induction clocks arbitrary: i c st)
    case Nil
    then show ?case by (simp add: controlled_loop_done)
  next
    case (Cons x clocks)
    obtain t1 t2 where x: "x = (t1, t2)" by (cases x)
    have chunk: "(if 8192 * n - 8192 * i > 8192 then 8192 else 8192 * n - 8192 * i) = 8192"
      "8192 * i < 8192 * n"
      using Cons.prems(3) by auto
    obtain c' where c': "take_tokens t1 t2 (Some c) 8192 = Some c'" "bucket_inv c'"
        "burst_size c' = burst_size c" "bytes_sent c' = bytes_sent c"
      using take_tokens_too_big [OF Cons.prems(1,2), of t1 t2] by blast
    have "controlled_loop 8192 (8192 * n) (8192 * i) (Some c) st
            (List.map (\<lambda>(t1, t2). (t1, t2, Sent 8192)) (x # clocks)) =
          controlled_loop 8192 (8192 * n) (8192 * Suc i) (Some c')
            (bandwidth_update_stats 8192 True st)
            (List.map (\<lambda>(t1, t2). (t1, t2, Sent 8192)) clocks)"
      using chunk x c'(1) by (subst controlled_loop.simps) (simp add: Let_def add.commute)
    with Cons.IH [of c' "Suc i"] c' Cons.prems show ?case by simp
  qed
  from this [OF assms(1,2), of "Suc k" 0 st] assms(3) show ?thesis
    by (simp add: bandwidth_controlled_send_def)
qed

theorem bandwidth_send_overruns_small_burst_witness:
  "let t = \<lparr>tv_sec = 7, tv_usec = 0\<rparr> in
   \<exists>c' st'. bandwidth_controlled_send 16384 (Some (bandwidth_controller_init t 10 100))
     bandwidth_reset_stats [(t, t, Sent 8192), (t, t, Sent 8192)] =
       (Some 16384, 16384, Some c', st') \<and> bytes_sent c' = 0"
proof -
  let ?t = "\<lparr>tv_sec = 7, tv_usec = 0\<rparr>"
  have "burst_size (bandwidth_controller_init ?t 10 100) < 8192"
    "bytes_sent (bandwidth_controller_init ?t 10 100) = 0"
    by (simp_all add: bandwidth_controller_init_def)
  then show ?thesis
    using bandwidth_send_overruns_small_burst [OF bucket_inv_init [of ?t 10 100], of "[(?t, ?t), (?t, ?t)]" 1
        bandwidth_reset_stats]
    by (simp add: to_int32_def Let_def)
qed

text \<open>A controller that is polled before a whole token has accrued never gains one: as long
  as each reading of the clock is closer to the previous one than a token takes, the
  tokens stay where they are, however much time passes in total.\<close>

theorem bandwidth_tokens_starve:
  assumes "0 < time_diff_usec now (last_update c)"
    and "int (unat (rate_limit c)) * time_diff_usec now (last_update c) < 1000000"
    and "bucket_inv c"
  shows "tokens (bandwidth_controller_update_tokens now c) = tokens c \<and>
         last_update (bandwidth_controller_update_tokens now c) = now"
proof -
  let ?d = "time_diff_usec now (last_update c)"
  let ?add = "(rate_limit c * word_of_int ?d) div 1000000"
  have "1000000 * int (unat ?add) < 1000000"
    using tokens_to_add_le [of ?d "rate_limit c"] assms(1,2) by linarith
  then have "unat ?add = 0" by linarith
  then have "?add = 0" by (simp only: unat_eq_zero)
  with assms show ?thesis
    by (auto simp: bandwidth_controller_update_tokens_def Let_def bucket_inv_def)
qed

theorem bandwidth_tokens_starve_witness:
  "let t = \<lparr>tv_sec = 7, tv_usec = 0\<rparr>; c = bandwidth_controller_init t 1000 500
   in tokens (bandwidth_controller_update_tokens \<lparr>tv_sec = 7, tv_usec = 999\<rparr> c) = 500"
  using bandwidth_tokens_starve [OF _ _ bucket_inv_init [of "\<lparr>tv_sec = 7, tv_usec = 0\<rparr>" 1000 500],
      of "\<lparr>tv_sec = 7, tv_usec = 999\<rparr>"]
  by (simp add: bandwidth_controller_init_def time_diff_usec_def Let_def)

end
