(* ===== verification/MimeTypes.thy ===== *)
theory MimeTypes
  imports Prelude
begin

text \<open>
  The contract of the two lists of MIME types, that of the cache (cache_config_add_type) and
  that of the compressor (compress_config_add_mime_type): at most fifty entries, no duplicates,
  in the order they were added. The configuration parser refills either list from a directive.
\<close>

locale mime_list =
  fixes add :: "'c \<Rightarrow> string option \<Rightarrow> int \<times> 'c"
    and types :: "'c \<Rightarrow> string list"
  assumes add_null: "add c None = (-1, c)"
    and add_full: "50 \<le> length (types c) \<Longrightarrow> add c (Some t) = (-1, c)"
    and add_again: "length (types c) < 50 \<Longrightarrow> t \<in> set (types c) \<Longrightarrow> add c (Some t) = (0, c)"
    and add_new: "length (types c) < 50 \<Longrightarrow> t \<notin> set (types c) \<Longrightarrow>
      fst (add c (Some t)) = 0 \<and> types (snd (add c (Some t))) = types c @ [t]"
begin

definition load :: "string list \<Rightarrow> 'c \<Rightarrow> 'c" where
  "load ts c = foldl (\<lambda>c t. snd (add c (Some t))) c ts"

lemma load_simps: "load [] c = c" "load (t # ts) c = load ts (snd (add c (Some t)))"
  by (simp_all add: load_def)

lemma add_cases:
  "types (snd (add c (Some t))) =
     (if length (types c) < 50 \<and> t \<notin> set (types c) then types c @ [t] else types c)"
  using add_full [of c t] add_again [of c t] add_new [of c t] by (cases "50 \<le> length (types c)") auto

lemma load_distinct: "distinct (types c) \<Longrightarrow> distinct (types (load ts c))"
  by (induction ts arbitrary: c) (simp_all add: load_simps add_cases)

lemma load_bounded: "length (types c) \<le> 50 \<Longrightarrow> length (types (load ts c)) \<le> 50"
  by (induction ts arbitrary: c) (simp_all add: load_simps add_cases)

lemma load_fits:
  "distinct (types c @ ts) \<Longrightarrow> length (types c @ ts) \<le> 50 \<Longrightarrow> types (load ts c) = types c @ ts"
  by (induction ts arbitrary: c) (auto simp: load_simps add_cases)

text \<open>Every loaded type is kept as long as there is room for all of them.\<close>

lemma load_set:
  "length (types c) + length ts \<le> 50 \<Longrightarrow> set (types (load ts c)) = set (types c) \<union> set ts"
proof (induction ts arbitrary: c)
  case (Cons t ts)
  have "length (types (snd (add c (Some t)))) + length ts \<le> 50" using Cons.prems by (simp add: add_cases)
  from Cons.IH [OF this] Cons.prems show ?case by (auto simp: load_simps add_cases)
qed (simp add: load_simps)

end

end
