(* ===== verification/Compress.thy ===== *)
theory Compress
  imports MimeTypes
begin

text \<open>
  Compression settings (src/utils/compress.c): the configuration with its MIME types, the test
  of a content type and of a client. The zlib stream itself is a library the source calls: the
  context functions are modelled around \<open>deflate\<close>, a parameter that returns zlib's status and
  the bytes it wrote.
\<close>

section \<open>Configuration\<close>

record compress_config =
  enable_compression :: bool
  level :: int
  min_length :: u64
  mime_types :: "string list"
  enable_vary :: bool
  compression_buffer_size :: u64

definition compress_config_add_mime_type :: "compress_config \<Rightarrow> string option \<Rightarrow> int \<times> compress_config" where
  "compress_config_add_mime_type config mime_type =
     (case mime_type of None \<Rightarrow> (-1, config)
      | Some t \<Rightarrow>
          if length (mime_types config) \<ge> 50 then (-1, config)
          else if t \<in> set (mime_types config) then (0, config)
          else (0, config\<lparr>mime_types := mime_types config @ [t]\<rparr>))"

definition compress_default_types :: "string list" where
  "compress_default_types =
     [''text/html'', ''text/css'', ''text/plain'', ''text/javascript'',
      ''application/javascript'', ''application/json'', ''application/xml'',
      ''text/xml'', ''application/x-javascript'']"

definition compress_config_create :: compress_config where
  "compress_config_create =
     foldl (\<lambda>c t. snd (compress_config_add_mime_type c (Some t)))
       \<lparr>enable_compression = True, level = 6, min_length = 1024, mime_types = [],
        enable_vary = True, compression_buffer_size = 64 * 1024\<rparr> compress_default_types"

definition should_compress_mime_type :: "compress_config \<Rightarrow> string option \<Rightarrow> bool" where
  "should_compress_mime_type config mime_type =
     (case mime_type of None \<Rightarrow> False
      | Some t \<Rightarrow> \<exists>p\<in>set (mime_types config). strncmp_eq p t (length p))"

definition client_accepts_compression :: "string option \<Rightarrow> bool" where
  "client_accepts_compression accept_encoding =
     (case accept_encoding of None \<Rightarrow> False | Some s \<Rightarrow> strstr s ''gzip'' \<noteq> None)"

interpretation compress_types: mime_list compress_config_add_mime_type mime_types
  by unfold_locales (auto simp: compress_config_add_mime_type_def)

lemma compress_default: "mime_types compress_config_create = compress_default_types"
proof -
  let ?c = "\<lparr>enable_compression = True, level = 6, min_length = 1024, mime_types = [],
    enable_vary = True, compression_buffer_size = 64 * 1024\<rparr>"
  have "mime_types (compress_types.load compress_default_types ?c) = mime_types ?c @ compress_default_types"
    by (rule compress_types.load_fits) (simp_all add: compress_default_types_def)
  then show ?thesis by (simp add: compress_config_create_def compress_types.load_def)
qed

section \<open>Contexts\<close>

record compress_context =
  buffer_size :: u64
  initialized :: bool

definition compress_context_create :: "(int \<Rightarrow> bool) \<Rightarrow> compress_config \<Rightarrow> compress_context option" where
  "compress_context_create deflate_init config =
     (if deflate_init (level config)
      then Some \<lparr>buffer_size = compression_buffer_size config, initialized = True\<rparr> else None)"

text \<open>The status of zlib and the output, whose length replaces the caller's buffer length.\<close>

definition compress_data ::
  "(string \<Rightarrow> nat \<Rightarrow> int \<Rightarrow> int \<times> string) \<Rightarrow> compress_context \<Rightarrow> string \<Rightarrow> nat \<Rightarrow> int \<Rightarrow> int \<times> string option" where
  "compress_data deflate ctx inp out_len flush =
     (if \<not> initialized ctx then (-1, None)
      else let (ret, out) = deflate inp out_len flush
           in if ret < 0 then (ret, None) else (ret, Some (take out_len out)))"

lemma should_compress_prefix:
  "should_compress_mime_type config (Some t) \<longleftrightarrow> (\<exists>p\<in>set (mime_types config). \<exists>u. t = p @ u)"
proof -
  have "strncmp_eq p t (length p) \<longleftrightarrow> (\<exists>u. t = p @ u)" for p
    using starts_with_iff [of p t] by (auto simp: strncmp_eq_def starts_with_def)
  then show ?thesis by (simp add: should_compress_mime_type_def)
qed

end
