(* ===== verification/Cache.thy ===== *)
theory Cache
  imports MimeTypes
begin

text \<open>
  The response cache (src/utils/cache.c). Entries live in a heap, as the C structs do, and
  are linked by their lru_next, lru_prev and hash_next fields, so that what the pointer
  updates of the code really do is visible: a manager holds the head and the tail of the
  LRU list, the table of hash chains, the statistics and its mutex. The mutex is a default
  one: a thread that locks it again waits for itself (\<^const>\<open>Deadlock\<close>). time(NULL) is the
  argument \<open>now\<close>, the MD5 digest of OpenSSL the argument \<open>md5\<close> (None where EVP fails).
  Allocation is taken to succeed, and doubles are rationals.
\<close>

section \<open>Data\<close>

datatype cache_strategy_t = CACHE_STRATEGY_LRU | CACHE_STRATEGY_LFU | CACHE_STRATEGY_FIFO

record cache_config =
  enable_cache :: bool
  max_size :: u64
  max_entries :: u64
  default_ttl :: int
  strategy :: cache_strategy_t
  cacheable_types :: "string list"
  min_file_size :: u64
  max_file_size :: u64
  enable_etag :: bool
  enable_last_modified :: bool

record cache_entry =
  key :: string
  etag :: "string option"
  last_modified :: int
  expires :: int
  last_access :: int
  access_count :: u64
  content_length :: u64
  content_type :: "string option"
  content :: string
  is_compressed :: bool
  lru_next :: ptr
  lru_prev :: ptr
  hash_next :: ptr

record cache_stats =
  hits :: u64
  misses :: u64
  evictions :: u64
  current_size :: u64
  current_entries :: u64
  hit_ratio :: rat

record cache_manager =
  c_config :: cache_config
  head :: ptr
  tail :: ptr
  hash_table :: "nat \<Rightarrow> ptr"
  hash_size :: nat
  stats :: cache_stats
  locked :: bool
  heap :: "addr \<Rightarrow> cache_entry option"
  next_addr :: addr

record cache_response =
  is_cached :: bool
  is_fresh :: bool
  needs_validation :: bool
  r_etag :: "string option"
  r_last_modified :: int
  r_content :: "string option"
  r_content_length :: u64
  r_content_type :: "string option"
  r_is_compressed :: bool

section \<open>Configuration\<close>

definition cache_config_add_type :: "cache_config \<Rightarrow> string option \<Rightarrow> int \<times> cache_config" where
  "cache_config_add_type config mime_type =
     (case mime_type of None \<Rightarrow> (-1, config)
      | Some t \<Rightarrow>
          if length (cacheable_types config) \<ge> 50 then (-1, config)
          else if t \<in> set (cacheable_types config) then (0, config)
          else (0, config\<lparr>cacheable_types := cacheable_types config @ [t]\<rparr>))"

definition cache_config_defaults :: cache_config where
  "cache_config_defaults =
     \<lparr>enable_cache = True, max_size = 64 * 1024 * 1024, max_entries = 10000,
      default_ttl = 3600, strategy = CACHE_STRATEGY_LRU, cacheable_types = [],
      min_file_size = 1024, max_file_size = 10 * 1024 * 1024,
      enable_etag = True, enable_last_modified = True\<rparr>"

definition cache_default_types :: "string list" where
  "cache_default_types =
     [''text/html'', ''text/css'', ''text/javascript'', ''text/plain'',
      ''application/javascript'', ''application/json'', ''application/xml'',
      ''text/xml'', ''image/jpeg'', ''image/png'', ''image/gif'', ''image/webp'',
      ''image/svg+xml'', ''application/pdf'', ''font/woff'', ''font/woff2'']"

definition cache_config_create :: cache_config where
  "cache_config_create =
     foldl (\<lambda>c t. snd (cache_config_add_type c (Some t))) cache_config_defaults cache_default_types"

definition cache_config_is_cacheable :: "cache_config \<Rightarrow> string option \<Rightarrow> u64 \<Rightarrow> bool" where
  "cache_config_is_cacheable config mime_type sz =
     (case mime_type of None \<Rightarrow> False
      | Some t \<Rightarrow>
          if \<not> enable_cache config then False
          else if sz < min_file_size config \<or> sz > max_file_size config then False
          else t \<in> set (cacheable_types config))"

interpretation cache_types: mime_list cache_config_add_type cacheable_types
  by unfold_locales (auto simp: cache_config_add_type_def)

lemma cache_default: "cacheable_types cache_config_create = cache_default_types"
proof -
  have "cacheable_types (cache_types.load cache_default_types cache_config_defaults)
      = cacheable_types cache_config_defaults @ cache_default_types"
    by (rule cache_types.load_fits) (simp_all add: cache_default_types_def cache_config_defaults_def)
  then show ?thesis by (simp add: cache_config_create_def cache_types.load_def cache_config_defaults_def)
qed

section \<open>Manager, mutex and memory\<close>

definition zero_stats :: cache_stats where
  "zero_stats = \<lparr>hits = 0, misses = 0, evictions = 0, current_size = 0,
                 current_entries = 0, hit_ratio = 0\<rparr>"

definition cache_manager_create :: "cache_config \<Rightarrow> cache_manager" where
  "cache_manager_create config =
     \<lparr>c_config = config, head = None, tail = None, hash_table = (\<lambda>_. None), hash_size = 1024,
      stats = zero_stats, locked = False, heap = (\<lambda>_. None), next_addr = 0\<rparr>"

definition mutex_lock :: "cache_manager \<Rightarrow> cache_manager run" where
  "mutex_lock m = (if locked m then Inl Deadlock else Inr (m\<lparr>locked := True\<rparr>))"

definition mutex_unlock :: "cache_manager \<Rightarrow> cache_manager" where
  "mutex_unlock m = m\<lparr>locked := False\<rparr>"

definition deref :: "cache_manager \<Rightarrow> addr \<Rightarrow> cache_entry run" where
  "deref m a = (case heap m a of None \<Rightarrow> Inl BadPointer | Some e \<Rightarrow> Inr e)"

definition store :: "addr \<Rightarrow> cache_entry \<Rightarrow> cache_manager \<Rightarrow> cache_manager" where
  "store a e m = m\<lparr>heap := (heap m)(a := Some e)\<rparr>"

definition cache_entry_free :: "addr \<Rightarrow> cache_manager \<Rightarrow> cache_manager" where
  "cache_entry_free a m = m\<lparr>heap := (heap m)(a := None)\<rparr>"

definition hash_string :: "string \<Rightarrow> u32" where
  "hash_string str = foldl (\<lambda>hash c. (push_bit 5 hash + hash) + of_nat (of_char c)) 5381 str"

definition bucket :: "cache_manager \<Rightarrow> string \<Rightarrow> nat" where
  "bucket m k = unat (hash_string k) mod hash_size m"

section \<open>The LRU list\<close>

definition cache_remove_from_list :: "cache_manager \<Rightarrow> addr \<Rightarrow> cache_manager run" where
  "cache_remove_from_list m a =
     bindR (deref m a) (\<lambda>entry.
     bindR (case lru_prev entry of
              Some p \<Rightarrow> bindR (deref m p) (\<lambda>pe. Inr (store p (pe\<lparr>lru_next := lru_next entry\<rparr>) m))
            | None \<Rightarrow> Inr (m\<lparr>head := lru_next entry\<rparr>)) (\<lambda>m.
     bindR (deref m a) (\<lambda>entry.
     case lru_next entry of
       Some n \<Rightarrow> bindR (deref m n) (\<lambda>ne. Inr (store n (ne\<lparr>lru_prev := lru_prev entry\<rparr>) m))
     | None \<Rightarrow> Inr (m\<lparr>tail := lru_prev entry\<rparr>))))"

definition cache_move_to_head :: "cache_manager \<Rightarrow> addr \<Rightarrow> cache_manager run" where
  "cache_move_to_head m a =
     (if head m = Some a then Inr m
      else bindR (cache_remove_from_list m a) (\<lambda>m.
           bindR (deref m a) (\<lambda>entry.
           let m = store a (entry\<lparr>lru_prev := None, lru_next := head m\<rparr>) m in
           bindR (case head m of
                    Some h \<Rightarrow> bindR (deref m h) (\<lambda>he. Inr (store h (he\<lparr>lru_prev := Some a\<rparr>) m))
                  | None \<Rightarrow> Inr m) (\<lambda>m.
           let m = m\<lparr>head := Some a\<rparr> in
           Inr (if tail m = None then m\<lparr>tail := Some a\<rparr> else m)))))"

section \<open>The hash chains\<close>

text \<open>
  Chains are followed with a fuel of one more than the number of addresses ever allocated:
  a walk of allocated entries that is longer visits one twice and so never ends.
\<close>

fun find_in_chain :: "nat \<Rightarrow> cache_manager \<Rightarrow> string \<Rightarrow> ptr \<Rightarrow> ptr run" where
  "find_in_chain _ m k None = Inr None"
| "find_in_chain 0 m k (Some a) = Inl Diverges"
| "find_in_chain (Suc n) m k (Some a) =
     bindR (deref m a) (\<lambda>entry.
       if key entry = k then Inr (Some a) else find_in_chain n m k (hash_next entry))"

definition cache_find_entry :: "cache_manager \<Rightarrow> string \<Rightarrow> ptr run" where
  "cache_find_entry m k = find_in_chain (Suc (next_addr m)) m k (hash_table m (bucket m k))"

fun find_with_prev :: "nat \<Rightarrow> cache_manager \<Rightarrow> string \<Rightarrow> ptr \<Rightarrow> ptr \<Rightarrow> (ptr \<times> addr) option run" where
  "find_with_prev _ m k prev None = Inr None"
| "find_with_prev 0 m k prev (Some a) = Inl Diverges"
| "find_with_prev (Suc n) m k prev (Some a) =
     bindR (deref m a) (\<lambda>entry.
       if key entry = k then Inr (Some (prev, a))
       else find_with_prev n m k (Some a) (hash_next entry))"

definition cache_remove :: "cache_manager \<Rightarrow> string \<Rightarrow> (int \<times> cache_manager) run" where
  "cache_remove m k =
     bindR (mutex_lock m) (\<lambda>m.
     bindR (find_with_prev (Suc (next_addr m)) m k None (hash_table m (bucket m k))) (\<lambda>found.
     case found of
       None \<Rightarrow> Inr (-1, mutex_unlock m)
     | Some (prev, a) \<Rightarrow>
         bindR (deref m a) (\<lambda>entry.
         bindR (case prev of
                  Some p \<Rightarrow> bindR (deref m p) (\<lambda>pe. Inr (store p (pe\<lparr>hash_next := hash_next entry\<rparr>) m))
                | None \<Rightarrow> Inr (m\<lparr>hash_table := (hash_table m)(bucket m k := hash_next entry)\<rparr>)) (\<lambda>m.
         bindR (cache_remove_from_list m a) (\<lambda>m.
         bindR (deref m a) (\<lambda>entry.
         let m = m\<lparr>stats := (stats m)\<lparr>current_entries := current_entries (stats m) - 1,
                     current_size := current_size (stats m) - content_length entry\<rparr>\<rparr>
         in Inr (0, mutex_unlock (cache_entry_free a m))))))))"

section \<open>Lookup\<close>

definition cache_is_fresh :: "int \<Rightarrow> cache_entry \<Rightarrow> bool" where
  "cache_is_fresh now entry \<longleftrightarrow> now < expires entry"

definition cache_validate_etag :: "string option \<Rightarrow> string option \<Rightarrow> bool" where
  "cache_validate_etag etag1 etag2 =
     (case (etag1, etag2) of (Some a, Some b) \<Rightarrow> a = b | _ \<Rightarrow> False)"

definition cache_validate_modified_since :: "int \<Rightarrow> int \<Rightarrow> bool" where
  "cache_validate_modified_since lm since \<longleftrightarrow> lm \<le> since"

definition cache_response_create :: cache_response where
  "cache_response_create =
     \<lparr>is_cached = False, is_fresh = False, needs_validation = False, r_etag = None,
      r_last_modified = 0, r_content = None, r_content_length = 0, r_content_type = None,
      r_is_compressed = False\<rparr>"

definition count_hit :: "cache_stats \<Rightarrow> cache_stats" where
  "count_hit s = s\<lparr>hits := hits s + 1\<rparr>"

definition count_miss :: "cache_stats \<Rightarrow> cache_stats" where
  "count_miss s = s\<lparr>misses := misses s + 1\<rparr>"

definition cache_get ::
  "int \<Rightarrow> cache_manager \<Rightarrow> string \<Rightarrow> string option \<Rightarrow> int \<Rightarrow> (cache_response option \<times> cache_manager) run" where
  "cache_get now m k if_none_match if_modified_since =
     bindR (mutex_lock m) (\<lambda>m.
     bindR (cache_find_entry m k) (\<lambda>found.
     case found of
       None \<Rightarrow> Inr (None, mutex_unlock (m\<lparr>stats := count_miss (stats m)\<rparr>))
     | Some a \<Rightarrow>
         bindR (deref m a) (\<lambda>entry.
         if \<not> cache_is_fresh now entry
         then bindR (cache_remove m k) (\<lambda>(_, m).
                Inr (None, mutex_unlock (m\<lparr>stats := count_miss (stats m)\<rparr>)))
         else
           let m = store a (entry\<lparr>last_access := now, access_count := access_count entry + 1\<rparr>) m in
           bindR (cache_move_to_head m a) (\<lambda>m.
           bindR (deref m a) (\<lambda>entry.
           let response = cache_response_create\<lparr>is_cached := True, is_fresh := True\<rparr> in
           if if_none_match \<noteq> None \<and> etag entry \<noteq> None \<and>
              cache_validate_etag (etag entry) if_none_match
           then Inr (Some (response\<lparr>needs_validation := True\<rparr>),
                     mutex_unlock (m\<lparr>stats := count_hit (stats m)\<rparr>))
           else if if_modified_since > 0 \<and>
              cache_validate_modified_since (last_modified entry) if_modified_since
           then Inr (Some (response\<lparr>needs_validation := True\<rparr>),
                     mutex_unlock (m\<lparr>stats := count_hit (stats m)\<rparr>))
           else
             let response = response\<lparr>r_content := Some (content entry),
                   r_content_length := content_length entry, r_content_type := content_type entry,
                   r_etag := etag entry, r_last_modified := last_modified entry,
                   r_is_compressed := is_compressed entry\<rparr>;
                 s = count_hit (stats m);
                 s = s\<lparr>hit_ratio := of_nat (unat (hits s)) / of_nat (unat (hits s + misses s))\<rparr>
             in Inr (Some response, mutex_unlock (m\<lparr>stats := s\<rparr>)))))))"

section \<open>Insertion\<close>

definition cache_evict_lru :: "cache_manager \<Rightarrow> cache_manager run" where
  "cache_evict_lru m =
     (case tail m of None \<Rightarrow> Inr m
      | Some victim \<Rightarrow>
          bindR (deref m victim) (\<lambda>entry.
          bindR (cache_remove m (key entry)) (\<lambda>(_, m).
          Inr (m\<lparr>stats := (stats m)\<lparr>evictions := evictions (stats m) + 1\<rparr>\<rparr>))))"

definition needs_room :: "u64 \<Rightarrow> cache_manager \<Rightarrow> bool" where
  "needs_room len m \<longleftrightarrow> current_entries (stats m) \<ge> max_entries (c_config m) \<or>
     current_size (stats m) + len > max_size (c_config m)"

text \<open>The eviction loop of cache_put; None: it never ends.\<close>

partial_function (option) make_room :: "u64 \<Rightarrow> cache_manager \<Rightarrow> cache_manager run option" where
  "make_room len m =
     (if needs_room len m
      then (case cache_evict_lru m of Inl f \<Rightarrow> Some (Inl f) | Inr m' \<Rightarrow> make_room len m')
      else Some (Inr m))"

definition cache_generate_etag ::
  "(string \<Rightarrow> string option) \<Rightarrow> string \<Rightarrow> int \<Rightarrow> u64 \<Rightarrow> string option" where
  "cache_generate_etag md5 path mtime sz =
     (case md5 (snprintf 1024 (path @ ''-'' @ print_int mtime @ ''-'' @ print_nat (unat sz))) of
        None \<Rightarrow> None
      | Some hash \<Rightarrow>
          Some (snprintf 64 (''\"'' @ concat (List.map (\<lambda>c. print_hex2 (of_char c)) (take 8 hash)) @ ''\"'')))"

definition cache_put ::
  "(string \<Rightarrow> string option) \<Rightarrow> int \<Rightarrow> cache_manager \<Rightarrow> string \<Rightarrow> string \<Rightarrow> string option \<Rightarrow> int \<Rightarrow>
   int \<Rightarrow> bool \<Rightarrow> (int \<times> cache_manager) run" where
  "cache_put md5 now m k cont ctype lmod ttl compressed =
     bindR (mutex_lock m) (\<lambda>m.
     bindR (case make_room (of_nat (length cont)) m of None \<Rightarrow> Inl Diverges | Some r \<Rightarrow> r) (\<lambda>m.
     let a = next_addr m;
         entry = \<lparr>key = k,
                  etag = (if enable_etag (c_config m)
                          then cache_generate_etag md5 k lmod (of_nat (length cont)) else None),
                  last_modified = lmod,
                  expires = now + (if ttl > 0 then ttl else default_ttl (c_config m)),
                  last_access = now, access_count = 1, content_length = of_nat (length cont),
                  content_type = ctype, content = cont, is_compressed = compressed,
                  lru_next = None, lru_prev = None, hash_next = hash_table m (bucket m k)\<rparr>;
         m = (store a entry m)\<lparr>next_addr := Suc a\<rparr>;
         m = m\<lparr>hash_table := (hash_table m)(bucket m k := Some a)\<rparr>
     in bindR (cache_move_to_head m a) (\<lambda>m.
        let s = (stats m)\<lparr>current_entries := current_entries (stats m) + 1,
                  current_size := current_size (stats m) + of_nat (length cont)\<rparr>
        in Inr (0, mutex_unlock (m\<lparr>stats := s\<rparr>)))))"

section \<open>Clearing and cleaning\<close>

fun free_list :: "nat \<Rightarrow> cache_manager \<Rightarrow> ptr \<Rightarrow> cache_manager run" where
  "free_list _ m None = Inr m"
| "free_list 0 m (Some a) = Inl Diverges"
| "free_list (Suc n) m (Some a) =
     bindR (deref m a) (\<lambda>entry. free_list n (cache_entry_free a m) (lru_next entry))"

definition cache_manager_clear :: "cache_manager \<Rightarrow> cache_manager run" where
  "cache_manager_clear m =
     bindR (mutex_lock m) (\<lambda>m.
     bindR (free_list (Suc (next_addr m)) m (head m)) (\<lambda>m.
     let m = m\<lparr>head := None, tail := None, hash_table := (\<lambda>_. None)\<rparr>;
         m = m\<lparr>stats := (stats m)\<lparr>current_size := 0, current_entries := 0\<rparr>\<rparr>
     in Inr (mutex_unlock m)))"

text \<open>Freeing the manager: what stays allocated afterwards is leaked.\<close>

definition cache_manager_free :: "cache_manager \<Rightarrow> (addr \<Rightarrow> cache_entry option) run" where
  "cache_manager_free m =
     bindR (mutex_lock m) (\<lambda>m. bindR (free_list (Suc (next_addr m)) m (head m)) (\<lambda>m. Inr (heap m)))"

fun cleanup_from :: "nat \<Rightarrow> int \<Rightarrow> cache_manager \<Rightarrow> ptr \<Rightarrow> cache_manager run" where
  "cleanup_from _ now m None = Inr m"
| "cleanup_from 0 now m (Some a) = Inl Diverges"
| "cleanup_from (Suc n) now m (Some a) =
     bindR (deref m a) (\<lambda>entry.
       if now \<ge> expires entry
       then bindR (cache_remove m (key entry)) (\<lambda>(_, m). cleanup_from n now m (lru_next entry))
       else cleanup_from n now m (lru_next entry))"

definition cache_cleanup_expired :: "int \<Rightarrow> cache_manager \<Rightarrow> cache_manager run" where
  "cache_cleanup_expired now m =
     bindR (mutex_lock m) (\<lambda>m.
     bindR (cleanup_from (Suc (next_addr m)) now m (head m)) (\<lambda>m. Inr (mutex_unlock m)))"

definition cache_get_stats :: "cache_manager \<Rightarrow> (cache_stats \<times> cache_manager) run" where
  "cache_get_stats m = bindR (mutex_lock m) (\<lambda>m. Inr (stats m, mutex_unlock m))"

section \<open>Chains as lists\<close>

fun chain :: "(addr \<Rightarrow> cache_entry option) \<Rightarrow> ptr \<Rightarrow> addr list \<Rightarrow> bool" where
  "chain h p [] \<longleftrightarrow> p = None"
| "chain h p (a # as) \<longleftrightarrow> p = Some a \<and> (\<exists>e. h a = Some e \<and> chain h (hash_next e) as)"

fun chain_list :: "nat \<Rightarrow> (addr \<Rightarrow> cache_entry option) \<Rightarrow> ptr \<Rightarrow> addr list" where
  "chain_list _ h None = []"
| "chain_list 0 h (Some a) = []"
| "chain_list (Suc n) h (Some a) =
     (case h a of None \<Rightarrow> [] | Some e \<Rightarrow> a # chain_list n h (hash_next e))"

lemma chain_cong:
  "(\<And>a. a \<in> set as \<Longrightarrow> map_option hash_next (h' a) = map_option hash_next (h a)) \<Longrightarrow>
   chain h' p as = chain h p as"
proof (induction as arbitrary: p)
  case Nil
  then show ?case by simp
next
  case (Cons a as)
  have "map_option hash_next (h' a) = map_option hash_next (h a)" using Cons.prems by simp
  moreover have "chain h' q as = chain h q as" for q using Cons by simp
  ultimately show ?case by (cases "h a"; cases "h' a") auto
qed

lemma chain_list_eq: "chain h p as \<Longrightarrow> length as \<le> n \<Longrightarrow> chain_list n h p = as"
proof (induction as arbitrary: n p)
  case (Cons a as)
  then obtain m where "n = Suc m" by (cases n) auto
  with Cons show ?case by auto
qed simp

lemma find_in_chain_eq:
  "chain (heap m) p as \<Longrightarrow> length as \<le> n \<Longrightarrow>
   find_in_chain n m k p = Inr (List.find (\<lambda>a. key (the (heap m a)) = k) as)"
proof (induction as arbitrary: n p)
  case (Cons a as)
  then obtain n' where "n = Suc n'" by (cases n) auto
  with Cons show ?case by (auto simp: deref_def)
qed simp

lemma find_with_prev_none:
  "chain (heap m) p as \<Longrightarrow> length as \<le> n \<Longrightarrow> \<forall>a\<in>set as. key (the (heap m a)) \<noteq> k \<Longrightarrow>
   find_with_prev n m k prev p = Inr None"
proof (induction as arbitrary: n p prev)
  case (Cons a as)
  then obtain n' where "n = Suc n'" by (cases n) auto
  with Cons show ?case by (auto simp: deref_def)
qed simp

lemma find_with_prev_some:
  "chain (heap m) p (us @ a # vs) \<Longrightarrow> length (us @ a # vs) \<le> n \<Longrightarrow>
   \<forall>u\<in>set us. key (the (heap m u)) \<noteq> k \<Longrightarrow> key (the (heap m a)) = k \<Longrightarrow>
   find_with_prev n m k prev p = Inr (Some (if us = [] then prev else Some (last us), a))"
proof (induction us arbitrary: n p prev)
  case Nil
  then obtain n' where "n = Suc n'" by (cases n) auto
  with Nil show ?case by (auto simp: deref_def)
next
  case (Cons u us)
  then obtain n' where "n = Suc n'" by (cases n) auto
  with Cons show ?case by (auto simp: deref_def)
qed

lemma chain_unlink:
  "chain h p (us @ q # a # vs) \<Longrightarrow> distinct (us @ q # a # vs) \<Longrightarrow> h q = Some eq \<Longrightarrow> h a = Some ea \<Longrightarrow>
   chain (h(q \<mapsto> eq\<lparr>hash_next := hash_next ea\<rparr>)) p (us @ q # vs)"
proof (induction us arbitrary: p)
  case Nil
  then have "chain (h(q \<mapsto> eq\<lparr>hash_next := hash_next ea\<rparr>)) (hash_next ea) vs
      = chain h (hash_next ea) vs"
    by (intro chain_cong) auto
  with Nil show ?case by (auto simp: fun_upd_def)
next
  case (Cons u us)
  then have "u \<noteq> q" by auto
  with Cons show ?case by auto
qed

section \<open>The invariant\<close>

text \<open>
  \<open>B i\<close> is the chain of bucket \<open>i\<close>. Every entry sits in the bucket its key hashes to and
  has no LRU neighbours, head and tail agree, and the two counters are the number and the
  total size of the entries, as 64-bit words.
\<close>

definition entry_ok :: "cache_manager \<Rightarrow> nat \<Rightarrow> addr \<Rightarrow> bool" where
  "entry_ok m i a \<longleftrightarrow> a < next_addr m \<and>
     (\<exists>e. heap m a = Some e \<and> bucket m (key e) = i \<and> lru_next e = None \<and> lru_prev e = None)"

definition stored_count :: "(nat \<Rightarrow> addr list) \<Rightarrow> nat \<Rightarrow> u64" where
  "stored_count B n = (\<Sum>i<n. of_nat (length (B i)))"

definition stored_size :: "(addr \<Rightarrow> cache_entry option) \<Rightarrow> (nat \<Rightarrow> addr list) \<Rightarrow> nat \<Rightarrow> u64" where
  "stored_size h B n = (\<Sum>i<n. \<Sum>a\<leftarrow>B i. content_length (the (h a)))"

definition cache_ok :: "(nat \<Rightarrow> addr list) \<Rightarrow> cache_manager \<Rightarrow> bool" where
  "cache_ok B m \<longleftrightarrow> \<not> locked m \<and> 0 < hash_size m \<and>
     (\<forall>i<hash_size m. chain (heap m) (hash_table m i) (B i) \<and> distinct (B i) \<and>
        (\<forall>a\<in>set (B i). entry_ok m i a)) \<and>
     head m = tail m \<and> (\<forall>a. head m = Some a \<longrightarrow> (\<exists>i<hash_size m. a \<in> set (B i))) \<and>
     current_entries (stats m) = stored_count B (hash_size m) \<and>
     current_size (stats m) = stored_size (heap m) B (hash_size m)"

definition cache_inv :: "cache_manager \<Rightarrow> bool" where
  "cache_inv m \<longleftrightarrow> (\<exists>B. cache_ok B m)"

text \<open>What a cache holds for a key, newest first, without the link fields.\<close>

definition entry_view :: "cache_entry \<Rightarrow> cache_entry" where
  "entry_view e = e\<lparr>lru_next := None, lru_prev := None, hash_next := None\<rparr>"

definition cache_entries :: "cache_manager \<Rightarrow> string \<Rightarrow> cache_entry list" where
  "cache_entries m k =
     List.map (\<lambda>a. entry_view (the (heap m a)))
       (filter (\<lambda>a. key (the (heap m a)) = k)
          (chain_list (Suc (next_addr m)) (heap m) (hash_table m (bucket m k))))"

lemma bucket_less: "0 < hash_size m \<Longrightarrow> bucket m k < hash_size m"
  by (simp add: bucket_def)

lemma sum_upd:
  fixes f :: "addr list \<Rightarrow> u64" and n :: nat
  assumes i: "i < n"
  shows "(\<Sum>j<n. f ((B(i := xs)) j)) = (\<Sum>j<n. f (B j)) - f (B i) + f xs"
proof -
  have "(\<Sum>j<n. f ((B(i := xs)) j)) = f xs + (\<Sum>j\<in>{..<n} - {i}. f ((B(i := xs)) j))"
    using i by (subst sum.remove [of "{..<n}" i]) auto
  also have "(\<Sum>j\<in>{..<n} - {i}. f ((B(i := xs)) j)) = (\<Sum>j\<in>{..<n} - {i}. f (B j))"
    by (intro sum.cong) auto
  also have "(\<Sum>j\<in>{..<n} - {i}. f (B j)) = (\<Sum>j<n. f (B j)) - f (B i)"
    using sum.remove [of "{..<n}" i "\<lambda>j. f (B j)"] i by simp
  finally show ?thesis by simp
qed

lemma ok_chain:
  assumes "cache_ok B m" "i < hash_size m"
  shows "chain (heap m) (hash_table m i) (B i)" "distinct (B i)" "length (B i) \<le> next_addr m"
    "a \<in> set (B i) \<Longrightarrow> entry_ok m i a"
proof -
  show "chain (heap m) (hash_table m i) (B i)" "distinct (B i)"
    "a \<in> set (B i) \<Longrightarrow> entry_ok m i a"
    using assms by (auto simp: cache_ok_def)
  have "set (B i) \<subseteq> {..<next_addr m}" using assms by (auto simp: cache_ok_def entry_ok_def)
  then have "card (set (B i)) \<le> next_addr m" using card_mono [of "{..<next_addr m}"] by fastforce
  with \<open>distinct (B i)\<close> show "length (B i) \<le> next_addr m" by (simp add: distinct_card)
qed

lemma ok_entries:
  assumes "cache_ok B m"
  shows "cache_entries m k = List.map (\<lambda>a. entry_view (the (heap m a)))
           (filter (\<lambda>a. key (the (heap m a)) = k) (B (bucket m k)))"
proof -
  have b: "bucket m k < hash_size m" using assms by (simp add: bucket_less cache_ok_def)
  from ok_chain [OF assms b] have "chain_list (Suc (next_addr m)) (heap m) (hash_table m (bucket m k)) = B (bucket m k)"
    by (intro chain_list_eq) auto
  then show ?thesis by (simp add: cache_entries_def)
qed

section \<open>The pointer operations in a well-formed cache\<close>

lemma remove_from_list_solo:
  "heap m a = Some e \<Longrightarrow> lru_next e = None \<Longrightarrow> lru_prev e = None \<Longrightarrow>
   cache_remove_from_list m a = Inr (m\<lparr>head := None, tail := None\<rparr>)"
  by (simp add: cache_remove_from_list_def deref_def)

lemma move_to_head_solo:
  assumes "heap m a = Some e" "lru_next e = None" "lru_prev e = None" "head m = tail m"
  shows "cache_move_to_head m a = Inr (m\<lparr>head := Some a, tail := Some a\<rparr>)"
proof -
  have "e\<lparr>lru_prev := None, lru_next := None\<rparr> = e" using assms by simp
  then show ?thesis
    using assms by (cases "head m = Some a")
      (auto simp: cache_move_to_head_def remove_from_list_solo deref_def store_def Let_def fun_upd_idem)
qed

section \<open>Refinement: removal\<close>

lemma stored_size_cong:
  "(\<And>i a. i < n \<Longrightarrow> a \<in> set (B i) \<Longrightarrow> content_length (the (h' a)) = content_length (the (h a))) \<Longrightarrow>
   stored_size h' B n = stored_size h B n"
  unfolding stored_size_def by (intro sum.cong refl arg_cong [where f = sum_list] map_cong) auto

text \<open>
  \<open>link_equal B h h'\<close>: on the chains of \<open>B\<close> the two heaps hold the same entries up to
  their chain pointer.
\<close>

definition link_equal ::
  "(nat \<Rightarrow> addr list) \<Rightarrow> nat \<Rightarrow> (addr \<Rightarrow> cache_entry option) \<Rightarrow> (addr \<Rightarrow> cache_entry option) \<Rightarrow> bool" where
  "link_equal B n h h' \<longleftrightarrow> (\<forall>i<n. \<forall>a\<in>set (B i).
     \<exists>e e'. h a = Some e \<and> h' a = Some e' \<and> entry_view e' = entry_view e \<and>
            lru_next e' = lru_next e \<and> lru_prev e' = lru_prev e)"

lemma entry_viewD: "entry_view e' = entry_view e \<Longrightarrow> key e' = key e \<and> content_length e' = content_length e"
  by (cases e; cases e') (simp add: entry_view_def)

lemma link_equal_entry:
  assumes "link_equal B n h h'" "i < n" "a \<in> set (B i)"
  shows "key (the (h' a)) = key (the (h a))" "content_length (the (h' a)) = content_length (the (h a))"
    "entry_view (the (h' a)) = entry_view (the (h a))"
proof -
  obtain e e' where "h a = Some e" "h' a = Some e'" "entry_view e' = entry_view e"
    using assms unfolding link_equal_def by blast
  with entry_viewD [of e' e] show "key (the (h' a)) = key (the (h a))"
    "content_length (the (h' a)) = content_length (the (h a))"
    "entry_view (the (h' a)) = entry_view (the (h a))"
    by simp_all
qed

lemma ok_split:
  assumes "cache_ok B m" "i = bucket m k" "cache_entries m k = e # es"
  obtains us a vs ea where "B i = us @ a # vs" "\<forall>u\<in>set us. key (the (heap m u)) \<noteq> k"
    "key (the (heap m a)) = k" "heap m a = Some ea" "e = entry_view ea"
    "es = List.map (\<lambda>a. entry_view (the (heap m a))) (filter (\<lambda>a. key (the (heap m a)) = k) vs)"
    "i < hash_size m"
proof -
  have i: "i < hash_size m" using assms(1,2) by (simp add: bucket_less cache_ok_def)
  let ?P = "\<lambda>a. key (the (heap m a)) = k"
  from assms have "List.map (\<lambda>a. entry_view (the (heap m a))) (filter ?P (B i)) = e # es"
    by (simp add: ok_entries)
  then obtain a as where f: "filter ?P (B i) = a # as" "e = entry_view (the (heap m a))"
      "es = List.map (\<lambda>a. entry_view (the (heap m a))) as"
    by auto
  then obtain us vs where uv: "B i = us @ a # vs" "\<forall>u\<in>set us. \<not> ?P u" "?P a" "as = filter ?P vs"
    by (auto simp: filter_eq_Cons_iff)
  moreover have "entry_ok m i a" using ok_chain(4) [OF assms(1) i, of a] uv(1) by simp
  then obtain ea where "heap m a = Some ea" by (auto simp: entry_ok_def)
  ultimately show ?thesis using that f i by auto
qed

text \<open>The state after an entry has left its chain, with the memory still allocated.\<close>

lemma unlink_run:
  assumes ok: "cache_ok B m" and i: "i < hash_size m" and B: "B i = us @ a # vs"
    and a: "heap m a = Some ea"
  obtains m' where
    "bindR (deref (m\<lparr>locked := True\<rparr>) a) (\<lambda>entry. case if us = [] then None else Some (last us) of
        Some p \<Rightarrow> bindR (deref (m\<lparr>locked := True\<rparr>) p)
                 (\<lambda>pe. Inr (store p (pe\<lparr>hash_next := hash_next entry\<rparr>) (m\<lparr>locked := True\<rparr>)))
      | None \<Rightarrow> Inr (m\<lparr>locked := True, hash_table := (hash_table m)(i := hash_next entry)\<rparr>)) = Inr m'"
    "m' = m\<lparr>locked := True, heap := heap m', hash_table := hash_table m'\<rparr>"
    "\<forall>j. j \<noteq> i \<longrightarrow> hash_table m' j = hash_table m j" "heap m' a = Some ea"
    "chain (heap m') (hash_table m' i) (us @ vs)" "link_equal B (hash_size m) (heap m) (heap m')"
    "\<forall>b. b \<notin> set (B i) \<longrightarrow> heap m' b = heap m b"
proof -
  have all: "\<And>j b. j < hash_size m \<Longrightarrow> b \<in> set (B j) \<Longrightarrow> \<exists>e. heap m b = Some e"
    using ok_chain(4) [OF ok] by (fastforce simp: entry_ok_def)
  have ch: "chain (heap m) (hash_table m i) (us @ a # vs)" and di: "distinct (us @ a # vs)"
    using ok_chain(1,2) [OF ok i] B by auto
  show ?thesis
  proof (cases us rule: rev_cases)
    case Nil
    let ?m = "m\<lparr>locked := True, hash_table := (hash_table m)(i := hash_next ea)\<rparr>"
    show ?thesis
    proof (rule that [of ?m])
      show "link_equal B (hash_size m) (heap m) (heap ?m)"
        using all by (fastforce simp: link_equal_def)
    qed (use Nil a ch in \<open>auto simp: deref_def\<close>)
  next
    case (snoc ws q)
    obtain eq where eq: "heap m q = Some eq" using all [OF i, of q] B snoc by auto
    have qa: "q \<noteq> a" using di snoc by auto
    let ?m = "store q (eq\<lparr>hash_next := hash_next ea\<rparr>) (m\<lparr>locked := True\<rparr>)"
    show ?thesis
    proof (rule that [of ?m])
      show "chain (heap ?m) (hash_table ?m i) (us @ vs)"
        using chain_unlink [of "heap m" "hash_table m i" ws q a vs eq ea] ch di snoc eq a
        by (simp add: store_def)
      show "link_equal B (hash_size m) (heap m) (heap ?m)"
        using all eq by (fastforce simp: link_equal_def store_def entry_view_def)
    qed (use snoc a eq qa B in \<open>auto simp: deref_def store_def\<close>)
  qed
qed


text \<open>Two addresses of different chains differ.\<close>

lemma ok_disjoint:
  "cache_ok B m \<Longrightarrow> i < hash_size m \<Longrightarrow> j < hash_size m \<Longrightarrow> a \<in> set (B i) \<Longrightarrow> a \<in> set (B j) \<Longrightarrow> i = j"
  using ok_chain(4) [of B m i a] ok_chain(4) [of B m j a] by (auto simp: entry_ok_def)

lemma bucket_update [simp]:
  "bucket (m\<lparr>locked := b\<rparr>) k = bucket m k" "bucket (m\<lparr>heap := h\<rparr>) k = bucket m k"
  "bucket (m\<lparr>next_addr := n\<rparr>) k = bucket m k" "bucket (m\<lparr>hash_table := t\<rparr>) k = bucket m k"
  "bucket (m\<lparr>stats := s\<rparr>) k = bucket m k" "bucket (m\<lparr>head := p\<rparr>) k = bucket m k"
  "bucket (m\<lparr>tail := q\<rparr>) k = bucket m k" "bucket (store a e m) k = bucket m k"
  by (simp_all add: bucket_def store_def)

lemma bucket_cong: "hash_size m' = hash_size m \<Longrightarrow> bucket m' k = bucket m k"
  by (simp add: bucket_def)

text \<open>The state that remains once the entry is unlinked everywhere and freed.\<close>

definition after_remove ::
  "cache_manager \<Rightarrow> addr \<Rightarrow> cache_entry \<Rightarrow> (addr \<Rightarrow> cache_entry option) \<Rightarrow> (nat \<Rightarrow> ptr) \<Rightarrow> cache_manager" where
  "after_remove m a ea h t = m\<lparr>head := None, tail := None, heap := h(a := None), hash_table := t,
     stats := (stats m)\<lparr>current_entries := current_entries (stats m) - 1,
                       current_size := current_size (stats m) - content_length ea\<rparr>\<rparr>"

lemma after_remove_sel [simp]:
  "head (after_remove m a ea h t) = None" "tail (after_remove m a ea h t) = None"
  "heap (after_remove m a ea h t) = h(a := None)" "hash_table (after_remove m a ea h t) = t"
  "hash_size (after_remove m a ea h t) = hash_size m" "next_addr (after_remove m a ea h t) = next_addr m"
  "locked (after_remove m a ea h t) = locked m" "c_config (after_remove m a ea h t) = c_config m"
  "current_entries (stats (after_remove m a ea h t)) = current_entries (stats m) - 1"
  "current_size (stats (after_remove m a ea h t)) = current_size (stats m) - content_length ea"
  "bucket (after_remove m a ea h t) k = bucket m k"
  by (simp_all add: after_remove_def bucket_def)

lemma after_remove_ok:
  assumes ok: "cache_ok B m" and i: "i < hash_size m" and B: "B i = us @ a # vs" and a: "heap m a = Some ea"
    and tab: "\<forall>j. j \<noteq> i \<longrightarrow> t j = hash_table m j" and ch: "chain h (t i) (us @ vs)"
    and le: "link_equal B (hash_size m) (heap m) h"
    and other: "\<forall>b. b \<notin> set (B i) \<longrightarrow> h b = heap m b"
  shows "cache_ok (B(i := us @ vs)) (after_remove m a ea h t)"
proof -
  let ?B = "B(i := us @ vs)" and ?m = "after_remove m a ea h t"
  have di: "distinct (us @ a # vs)" using ok_chain(2) [OF ok i] B by simp
  have na: "a \<notin> set (?B j)" if "j < hash_size m" for j
    using di ok_disjoint [OF ok i that, of a] B by (cases "j = i") auto
  have sub: "b \<in> set (B j)" if "b \<in> set (?B j)" for b j using that B by (cases "j = i") auto
  have chains: "chain (heap ?m) (hash_table ?m j) (?B j)" if j: "j < hash_size m" for j
  proof -
    have "chain (heap ?m) (t j) (?B j) = chain h (t j) (?B j)"
      using na [OF j] by (intro chain_cong) auto
    moreover have "chain h (t j) (?B j)"
    proof (cases "j = i")
      case False
      have "chain h (t j) (B j) = chain (heap m) (t j) (B j)"
        using other ok_disjoint [OF ok i j] False by (intro chain_cong) metis
      with False tab ok_chain(1) [OF ok j] show ?thesis by simp
    qed (use ch in simp)
    ultimately show ?thesis by simp
  qed
  have ents: "entry_ok ?m j b" if j: "j < hash_size m" and b: "b \<in> set (?B j)" for j b
  proof -
    have "b \<noteq> a" using na [OF j] b by auto
    obtain e e' where e: "heap m b = Some e" "h b = Some e'" "entry_view e' = entry_view e"
        "lru_next e' = lru_next e" "lru_prev e' = lru_prev e"
      using le j sub [OF b] unfolding link_equal_def by blast
    with ok_chain(4) [OF ok j sub [OF b]] \<open>b \<noteq> a\<close> entry_viewD [OF e(3)] show ?thesis
      by (simp add: entry_ok_def)
  qed
  have dist: "distinct (?B j)" if "j < hash_size m" for j
    using ok_chain(2) [OF ok that] di by (cases "j = i") auto
  have "stored_count ?B (hash_size m) = stored_count B (hash_size m) - 1"
    using sum_upd [OF i, of "\<lambda>xs. of_nat (length xs)" B "us @ vs"] B by (simp add: stored_count_def)
  moreover have "stored_size (heap ?m) ?B (hash_size m)
      = stored_size (heap m) B (hash_size m) - content_length ea"
  proof -
    have "stored_size (heap ?m) ?B (hash_size m) = stored_size (heap m) ?B (hash_size m)"
    proof (rule stored_size_cong)
      fix j b assume j: "j < hash_size m" "b \<in> set (?B j)"
      then have "b \<noteq> a" using na by auto
      with link_equal_entry(2) [OF le j(1) sub [OF j(2)]]
      show "content_length (the (heap ?m b)) = content_length (the (heap m b))" by simp
    qed
    also have "\<dots> = stored_size (heap m) B (hash_size m) - content_length ea"
      using sum_upd [OF i, of "\<lambda>xs. \<Sum>a\<leftarrow>xs. content_length (the (heap m a))" B "us @ vs"] B a
      by (simp add: stored_size_def)
    finally show ?thesis .
  qed
  ultimately show ?thesis
    using ok chains ents dist unfolding cache_ok_def by (simp del: fun_upd_apply)
qed


lemma after_remove_entries:
  assumes ok: "cache_ok B m" and i: "i = bucket m k" and B: "B i = us @ a # vs" and a: "heap m a = Some ea"
    and us: "\<forall>u\<in>set us. key (the (heap m u)) \<noteq> k" and k: "key ea = k"
    and ok': "cache_ok (B(i := us @ vs)) (after_remove m a ea h t)"
    and le: "link_equal B (hash_size m) (heap m) h"
    and es: "es = List.map (\<lambda>a. entry_view (the (heap m a))) (filter (\<lambda>a. key (the (heap m a)) = k) vs)"
  shows "cache_entries (after_remove m a ea h t) = (cache_entries m)(k := es)"
proof
  fix k'
  let ?B = "B(i := us @ vs)" and ?m = "after_remove m a ea h t" and ?j = "bucket m k'"
  have j: "?j < hash_size m" and ii: "i < hash_size m"
    using ok i by (simp_all add: bucket_less cache_ok_def)
  have di: "distinct (us @ a # vs)" using ok_chain(2) [OF ok ii] B by simp
  have na: "a \<notin> set (?B ?j)"
    using di ok_disjoint [OF ok ii j, of a] B by (cases "?j = i") auto
  have same: "key (the (heap ?m b)) = key (the (heap m b)) \<and>
              entry_view (the (heap ?m b)) = entry_view (the (heap m b))"
    if b: "b \<in> set (?B ?j)" for b
  proof -
    have "b \<in> set (B ?j)" "b \<noteq> a" using b B na by (auto split: if_splits)
    with link_equal_entry [OF le j] show ?thesis by simp
  qed
  have "cache_entries ?m k' = List.map (\<lambda>a. entry_view (the (heap m a)))
      (filter (\<lambda>a. key (the (heap m a)) = k') (?B ?j))"
    unfolding ok_entries [OF ok'] after_remove_sel(11)
    using same by (intro map_cong filter_cong) auto
  also have "\<dots> = ((cache_entries m)(k := es)) k'"
    using B us k a es i by (cases "k' = k") (auto simp: ok_entries [OF ok] filter_empty_conv)
  finally show "cache_entries ?m k' = ((cache_entries m)(k := es)) k'" .
qed

lemma cache_remove_found:
  assumes inv: "cache_inv m" and e: "cache_entries m k = e # es"
  shows "\<exists>m'. cache_remove m k = Inr (0, m') \<and> cache_inv m' \<and>
    cache_entries m' = (cache_entries m)(k := es) \<and> head m' = None \<and> tail m' = None \<and>
    stats m' = (stats m)\<lparr>current_entries := current_entries (stats m) - 1,
                        current_size := current_size (stats m) - content_length e\<rparr> \<and>
    c_config m' = c_config m"
proof -
  obtain B where ok: "cache_ok B m" using inv by (auto simp: cache_inv_def)
  define i where "i = bucket m k"
  obtain us a vs ea where *: "B i = us @ a # vs" "\<forall>u\<in>set us. key (the (heap m u)) \<noteq> k"
    "key (the (heap m a)) = k" "heap m a = Some ea" "e = entry_view ea"
    "es = List.map (\<lambda>a. entry_view (the (heap m a))) (filter (\<lambda>a. key (the (heap m a)) = k) vs)"
    "i < hash_size m"
    by (rule ok_split [OF ok i_def e], rule that)
  obtain m1 where m1: "bindR (deref (m\<lparr>locked := True\<rparr>) a) (\<lambda>entry. case if us = [] then None else Some (last us) of
        Some p \<Rightarrow> bindR (deref (m\<lparr>locked := True\<rparr>) p)
                 (\<lambda>pe. Inr (store p (pe\<lparr>hash_next := hash_next entry\<rparr>) (m\<lparr>locked := True\<rparr>)))
      | None \<Rightarrow> Inr (m\<lparr>locked := True, hash_table := (hash_table m)(i := hash_next entry)\<rparr>)) = Inr m1"
    "m1 = m\<lparr>locked := True, heap := heap m1, hash_table := hash_table m1\<rparr>"
    "\<forall>j. j \<noteq> i \<longrightarrow> hash_table m1 j = hash_table m j" "heap m1 a = Some ea"
    "chain (heap m1) (hash_table m1 i) (us @ vs)" "link_equal B (hash_size m) (heap m) (heap m1)"
    "\<forall>b. b \<notin> set (B i) \<longrightarrow> heap m1 b = heap m b"
    by (rule unlink_run [OF ok *(7,1,4)], rule that)
  have unl: "\<not> locked m" using ok by (simp add: cache_ok_def)
  have solo: "lru_next ea = None" "lru_prev ea = None"
    using ok_chain(4) [OF ok *(7), of a] *(1,4) by (auto simp: entry_ok_def)
  have ch: "chain (heap m) (hash_table m i) (us @ a # vs)" "length (us @ a # vs) \<le> Suc (next_addr m)"
    using ok_chain(1,3) [OF ok *(7)] unfolding *(1) by simp_all
  have find: "find_with_prev (Suc (next_addr m)) (m\<lparr>locked := True\<rparr>) k None (hash_table m i)
      = Inr (Some (if us = [] then None else Some (last us), a))"
    by (rule find_with_prev_some [where vs = vs]) (use ch *(2,3) in simp_all)
  define h t where "h = heap m1" and "t = hash_table m1"
  have m1': "m1 = m\<lparr>locked := True, heap := h, hash_table := t\<rparr>" "h a = Some ea"
    using m1(2,4) by (simp_all add: h_def t_def)
  let ?m = "after_remove m a ea h t"
  have d: "deref (m\<lparr>locked := True\<rparr>) a = Inr ea" by (simp add: deref_def *(4))
  have link: "(case if us = [] then None else Some (last us) of
        Some p \<Rightarrow> bindR (deref (m\<lparr>locked := True\<rparr>) p)
                 (\<lambda>pe. Inr (store p (pe\<lparr>hash_next := hash_next ea\<rparr>) (m\<lparr>locked := True\<rparr>)))
      | None \<Rightarrow> Inr (m\<lparr>locked := True, hash_table := (hash_table m)(i := hash_next ea)\<rparr>)) = Inr m1"
    using m1(1) unfolding d bindR.simps .
  have lst: "cache_remove_from_list m1 a = Inr (m1\<lparr>head := None, tail := None\<rparr>)"
    using m1' solo by (intro remove_from_list_solo) auto
  define q where "q = (if us = [] then None else Some (last us))"
  have d1: "deref (m1\<lparr>head := None, tail := None\<rparr>) a = Inr ea" using m1' by (simp add: deref_def)
  have fin: "mutex_unlock (cache_entry_free a (m1\<lparr>head := None, tail := None,
      stats := (stats m1)\<lparr>current_entries := current_entries (stats m1) - 1,
                         current_size := current_size (stats m1) - content_length ea\<rparr>\<rparr>)) = ?m"
    using unl by (simp add: m1' after_remove_def mutex_unlock_def cache_entry_free_def)
  have run: "cache_remove m k = Inr (0, ?m)"
    using link [folded q_def] lst d1 fin [symmetric] find [folded q_def] d unl
    by (simp add: cache_remove_def mutex_lock_def i_def [symmetric] Let_def cong: option.case_cong)
  have ok': "cache_ok (B(i := us @ vs)) ?m"
    unfolding h_def t_def by (rule after_remove_ok [OF ok *(7,1,4) m1(3,5,6,7)])
  moreover have "cache_entries ?m = (cache_entries m)(k := es)"
    by (rule after_remove_entries [OF ok i_def *(1,4,2) _ ok' _ *(6)])
      (use *(3,4) m1(6) in \<open>simp_all add: h_def\<close>)
  ultimately show ?thesis
    using run *(5) by (auto simp: cache_inv_def after_remove_def entry_view_def)
qed


lemma cache_remove_missing:
  assumes inv: "cache_inv m" and e: "cache_entries m k = []"
  shows "cache_remove m k = Inr (-1, m)"
proof -
  obtain B where ok: "cache_ok B m" using inv by (auto simp: cache_inv_def)
  have i: "bucket m k < hash_size m" and unl: "\<not> locked m" using ok by (simp_all add: bucket_less cache_ok_def)
  have no: "\<forall>a\<in>set (B (bucket m k)). key (the (heap m a)) \<noteq> k"
    using e by (simp add: ok_entries [OF ok] filter_empty_conv)
  have "find_with_prev (Suc (next_addr m)) (m\<lparr>locked := True\<rparr>) k None (hash_table m (bucket m k)) = Inr None"
    by (rule find_with_prev_none [where as = "B (bucket m k)"]) (use ok_chain(1,3) [OF ok i] no in simp_all)
  moreover have "m\<lparr>locked := False\<rparr> = m" using unl by (cases m) simp
  ultimately show ?thesis
    using unl by (simp add: cache_remove_def mutex_lock_def mutex_unlock_def bucket_def)
qed

section \<open>Refinement: insertion\<close>

definition new_entry ::
  "(string \<Rightarrow> string option) \<Rightarrow> int \<Rightarrow> cache_manager \<Rightarrow> string \<Rightarrow> string \<Rightarrow> string option \<Rightarrow> int \<Rightarrow>
   int \<Rightarrow> bool \<Rightarrow> cache_entry" where
  "new_entry md5 now m k cont ctype lmod ttl compressed =
     \<lparr>key = k, etag = (if enable_etag (c_config m)
                 then cache_generate_etag md5 k lmod (of_nat (length cont)) else None),
      last_modified = lmod, expires = now + (if ttl > 0 then ttl else default_ttl (c_config m)),
      last_access = now, access_count = 1, content_length = of_nat (length cont),
      content_type = ctype, content = cont, is_compressed = compressed,
      lru_next = None, lru_prev = None, hash_next = None\<rparr>"

text \<open>The manager after a put that had room.\<close>

definition after_put :: "cache_manager \<Rightarrow> cache_entry \<Rightarrow> cache_manager" where
  "after_put m e =
     (let a = next_addr m; i = bucket m (key e) in
      m\<lparr>head := Some a, tail := Some a, heap := (heap m)(a := Some (e\<lparr>hash_next := hash_table m i\<rparr>)),
        next_addr := Suc a, hash_table := (hash_table m)(i := Some a),
        stats := (stats m)\<lparr>current_entries := current_entries (stats m) + 1,
                          current_size := current_size (stats m) + content_length e\<rparr>\<rparr>)"

lemma after_put_sel [simp]:
  "head (after_put m e) = Some (next_addr m)" "tail (after_put m e) = Some (next_addr m)"
  "heap (after_put m e) = (heap m)(next_addr m := Some (e\<lparr>hash_next := hash_table m (bucket m (key e))\<rparr>))"
  "hash_table (after_put m e) = (hash_table m)(bucket m (key e) := Some (next_addr m))"
  "hash_size (after_put m e) = hash_size m" "next_addr (after_put m e) = Suc (next_addr m)"
  "locked (after_put m e) = locked m" "c_config (after_put m e) = c_config m"
  "current_entries (stats (after_put m e)) = current_entries (stats m) + 1"
  "current_size (stats (after_put m e)) = current_size (stats m) + content_length e"
  "bucket (after_put m e) k = bucket m k"
  by (simp_all add: after_put_def bucket_def Let_def)

lemma cache_put_room:
  assumes ok: "cache_ok B m" and room: "\<not> needs_room (of_nat (length cont)) m"
  shows "cache_put md5 now m k cont ctype lmod ttl gz =
           Inr (0, after_put m (new_entry md5 now m k cont ctype lmod ttl gz))"
proof -
  have unl: "\<not> locked m" and ht: "head m = tail m" using ok by (simp_all add: cache_ok_def)
  let ?m = "m\<lparr>locked := True\<rparr>"
  have mr: "make_room (of_nat (length cont)) ?m = Some (Inr ?m)"
    using room by (subst make_room.simps) (simp add: needs_room_def)
  let ?e = "(new_entry md5 now m k cont ctype lmod ttl gz)\<lparr>hash_next := hash_table m (bucket m k)\<rparr>"
  let ?m1 = "((store (next_addr m) ?e ?m)\<lparr>next_addr := Suc (next_addr m)\<rparr>)
               \<lparr>hash_table := (hash_table m)(bucket m k := Some (next_addr m))\<rparr>"
  have mv: "cache_move_to_head ?m1 (next_addr m) = Inr (?m1\<lparr>head := Some (next_addr m), tail := Some (next_addr m)\<rparr>)"
    by (rule move_to_head_solo [where e = ?e]) (simp_all add: store_def new_entry_def ht)
  show ?thesis
    using mv unl by (simp add: cache_put_def mutex_lock_def mr new_entry_def store_def
        mutex_unlock_def after_put_def Let_def cong: if_cong split del: if_split)
qed

lemma after_put_ok:
  assumes ok: "cache_ok B m" and e: "lru_next e = None" "lru_prev e = None"
  defines "i \<equiv> bucket m (key e)"
  shows "cache_ok (B(i := next_addr m # B i)) (after_put m e)"
proof -
  let ?a = "next_addr m" and ?m = "after_put m e"
  let ?B = "B(i := ?a # B i)"
  have i: "i < hash_size m" using ok by (simp add: i_def bucket_less cache_ok_def)
  have fresh: "?a \<notin> set (B j)" if "j < hash_size m" for j
    using ok_chain(4) [OF ok that, of ?a] by (auto simp: entry_ok_def)
  have old: "chain (heap ?m) p (B j) = chain (heap m) p (B j)" if "j < hash_size m" for j p
    using fresh [OF that] by (intro chain_cong) auto
  have chains: "chain (heap ?m) (hash_table ?m j) (?B j)" if j: "j < hash_size m" for j
    using old [OF j] ok_chain(1) [OF ok j] by (cases "j = i") (simp_all add: i_def [symmetric])
  have ents: "entry_ok ?m j b" if j: "j < hash_size m" and b: "b \<in> set (?B j)" for j b
  proof (cases "b = ?a")
    case True
    with b fresh [OF j] have "j = i" by (auto split: if_splits)
    with True e show ?thesis by (simp add: entry_ok_def i_def)
  next
    case False
    with b have "b \<in> set (B j)" by (auto split: if_splits)
    from ok_chain(4) [OF ok j this] False show ?thesis by (auto simp: entry_ok_def)
  qed
  have dist: "distinct (?B j)" if "j < hash_size m" for j
    using ok_chain(2) [OF ok that] fresh [OF that] by (cases "j = i") simp_all
  have "stored_count ?B (hash_size m) = stored_count B (hash_size m) + 1"
    using sum_upd [OF i, of "\<lambda>xs. of_nat (length xs)" B "?a # B i"] by (simp add: stored_count_def)
  moreover have "stored_size (heap ?m) ?B (hash_size m) = stored_size (heap m) B (hash_size m) + content_length e"
  proof -
    have "stored_size (heap ?m) B (hash_size m) = stored_size (heap m) B (hash_size m)"
      using fresh by (intro stored_size_cong) auto
    moreover have "stored_size (heap ?m) ?B (hash_size m)
        = stored_size (heap ?m) B (hash_size m) + content_length e"
      using sum_upd [OF i, of "\<lambda>xs. \<Sum>a\<leftarrow>xs. content_length (the (heap ?m a))" B "?a # B i"]
      by (simp add: stored_size_def)
    ultimately show ?thesis by simp
  qed
  moreover have "\<exists>j<hash_size m. ?a \<in> set (?B j)" using i by (intro exI [of _ i]) simp
  ultimately show ?thesis
    using ok chains ents dist unfolding cache_ok_def by (simp del: fun_upd_apply)
qed

lemma after_put_entries:
  assumes ok: "cache_ok B m" and e: "lru_next e = None" "lru_prev e = None"
  shows "cache_entries (after_put m e) =
    (cache_entries m)(key e := entry_view e # cache_entries m (key e))"
proof
  fix k'
  let ?a = "next_addr m" and ?m = "after_put m e"
  let ?i = "bucket m (key e)"
  have ok': "cache_ok (B(?i := ?a # B ?i)) ?m" by (rule after_put_ok [OF ok e])
  have j: "bucket m k' < hash_size m" using ok by (simp add: bucket_less cache_ok_def)
  have fresh: "?a \<notin> set (B (bucket m k'))"
    using ok_chain(4) [OF ok j, of ?a] by (auto simp: entry_ok_def)
  have old: "List.map (\<lambda>a. entry_view (the (heap ?m a))) (filter (\<lambda>a. key (the (heap ?m a)) = k') (B (bucket m k')))
      = cache_entries m k'"
    unfolding ok_entries [OF ok] using fresh by (intro map_cong filter_cong) auto
  show "cache_entries ?m k' = ((cache_entries m)(key e := entry_view e # cache_entries m (key e))) k'"
  proof (cases "bucket m k' = ?i")
    case True
    have "key (the (heap ?m ?a)) = key e" "entry_view (the (heap ?m ?a)) = entry_view e"
      by (simp_all add: entry_view_def)
    with True old show ?thesis by (auto simp: ok_entries [OF ok'] simp del: after_put_sel(3))
  next
    case False
    then have "k' \<noteq> key e" by auto
    with False old show ?thesis by (simp add: ok_entries [OF ok'])
  qed
qed


section \<open>Reachable caches\<close>

text \<open>One call of the interface, made by one thread that holds no lock.\<close>

inductive cache_step :: "cache_manager \<Rightarrow> cache_manager \<Rightarrow> bool" where
  put: "cache_put md5 now m k cont ctype lmod ttl gz = Inr (r, m') \<Longrightarrow> cache_step m m'"
| get: "cache_get now m k inm ims = Inr (resp, m') \<Longrightarrow> cache_step m m'"
| remove: "cache_remove m k = Inr (r, m') \<Longrightarrow> cache_step m m'"
| clear: "cache_manager_clear m = Inr m' \<Longrightarrow> cache_step m m'"
| cleanup: "cache_cleanup_expired now m = Inr m' \<Longrightarrow> cache_step m m'"
| get_stats: "cache_get_stats m = Inr (s, m') \<Longrightarrow> cache_step m m'"

inductive_cases cache_stepE: "cache_step m m'"

inductive cache_reachable :: "cache_config \<Rightarrow> cache_manager \<Rightarrow> bool" for config where
  create: "cache_reachable config (cache_manager_create config)"
| step: "cache_reachable config m \<Longrightarrow> cache_step m m' \<Longrightarrow> cache_reachable config m'"

lemma cache_inv_create: "cache_inv (cache_manager_create config)"
  unfolding cache_inv_def
  by (rule exI [of _ "\<lambda>_. []"])
    (simp add: cache_ok_def cache_manager_create_def stored_count_def stored_size_def zero_stats_def)

lemma cache_inv_unlocked: "cache_inv m \<Longrightarrow> \<not> locked m"
  by (auto simp: cache_inv_def cache_ok_def)

lemma remove_locked [simp]: "locked m \<Longrightarrow> cache_remove m k = Inl Deadlock"
  by (simp add: cache_remove_def mutex_lock_def)

text \<open>A locked manager whose eviction loop is entered: it evicts nothing.\<close>

lemma evict_locked:
  assumes "locked m"
  shows "cache_evict_lru m = Inr m \<and> tail m = None \<or> (\<exists>f. cache_evict_lru m = Inl f) \<and> tail m \<noteq> None"
  using assms by (auto simp: cache_evict_lru_def deref_def split: option.splits)

lemma make_room_stuck:
  assumes "locked m" "needs_room len m" "tail m = None"
  shows "make_room len m = None"
proof -
  have evict: "cache_evict_lru m = Inr m" using assms(3) by (simp add: cache_evict_lru_def)
  have "l = len \<longrightarrow> z \<noteq> m" if "make_room l z = Some w" for l z w
  proof (rule make_room.raw_induct [of "\<lambda>l z w. l = len \<longrightarrow> z \<noteq> m", OF _ that])
    fix f l z w
    assume ih: "\<And>l z w. f l z = Some w \<Longrightarrow> l = len \<longrightarrow> z \<noteq> m"
      and run: "(if needs_room l z
         then case cache_evict_lru z of Inl f \<Rightarrow> Some (Inl f) | Inr m' \<Rightarrow> f l m' else Some (Inr z)) = Some w"
    show "l = len \<longrightarrow> z \<noteq> m" using ih [of l z w] run evict assms(2) by auto
  qed
  then show ?thesis by (cases "make_room len m") auto
qed

text \<open>Once the loop is entered no put returns.\<close>

lemma cache_put_stuck:
  assumes ok: "cache_inv m" and full: "needs_room (of_nat (length cont)) m"
  shows "cache_put md5 now m k cont ctype lmod ttl gz =
           Inl (if tail m = None then Diverges else Deadlock)"
proof -
  obtain B where B: "cache_ok B m" using ok by (auto simp: cache_inv_def)
  then have unl: "\<not> locked m" and ht: "head m = tail m" by (simp_all add: cache_ok_def)
  let ?m = "m\<lparr>locked := True\<rparr>"
  have full': "needs_room (of_nat (length cont)) ?m" using full by (simp add: needs_room_def)
  show ?thesis
  proof (cases "tail m")
    case None
    then show ?thesis using unl make_room_stuck [OF _ full'] by (simp add: cache_put_def mutex_lock_def)
  next
    case (Some a)
    then obtain i where "i < hash_size m" "a \<in> set (B i)" using B ht by (auto simp: cache_ok_def)
    then obtain e where "heap m a = Some e" using ok_chain(4) [OF B] by (fastforce simp: entry_ok_def)
    then have "cache_evict_lru ?m = Inl Deadlock"
      using Some by (simp add: cache_evict_lru_def deref_def)
    then have "make_room (of_nat (length cont)) ?m = Some (Inl Deadlock)"
      using full' by (subst make_room.simps) simp
    then show ?thesis using unl Some by (simp add: cache_put_def mutex_lock_def)
  qed
qed

lemma new_entry_links [simp]:
  "lru_next (new_entry md5 now m k cont ctype lmod ttl gz) = None"
  "lru_prev (new_entry md5 now m k cont ctype lmod ttl gz) = None"
  "key (new_entry md5 now m k cont ctype lmod ttl gz) = k"
  "entry_view (new_entry md5 now m k cont ctype lmod ttl gz) = new_entry md5 now m k cont ctype lmod ttl gz"
  "content_length (new_entry md5 now m k cont ctype lmod ttl gz) = of_nat (length cont)"
  by (simp_all add: new_entry_def entry_view_def)

lemma cache_put_inv:
  assumes "cache_inv m" "cache_put md5 now m k cont ctype lmod ttl gz = Inr (r, m')"
  shows "cache_inv m'"
proof -
  obtain B where B: "cache_ok B m" using assms(1) by (auto simp: cache_inv_def)
  have "\<not> needs_room (of_nat (length cont)) m" using assms cache_put_stuck [OF assms(1)] by auto
  from cache_put_room [OF B this] assms(2)
  have "m' = after_put m (new_entry md5 now m k cont ctype lmod ttl gz)" by simp
  with after_put_ok [OF B, of "new_entry md5 now m k cont ctype lmod ttl gz"]
  show ?thesis by (auto simp: cache_inv_def)
qed

lemma cache_remove_inv:
  assumes "cache_inv m" "cache_remove m k = Inr (r, m')" shows "cache_inv m'"
proof (cases "cache_entries m k")
  case Nil
  with cache_remove_missing [OF assms(1) Nil] assms show ?thesis by simp
next
  case (Cons e es)
  with cache_remove_found [OF assms(1) Cons] assms show ?thesis by auto
qed

lemma ok_stats_lock:
  assumes "cache_ok B m" "current_entries s = current_entries (stats m)" "current_size s = current_size (stats m)"
  shows "cache_ok B (m\<lparr>stats := s\<rparr>)"
  using assms unfolding cache_ok_def entry_ok_def by simp

text \<open>Overwriting the payload of an entry keeps the cache well formed.\<close>

lemma ok_touch:
  assumes ok: "cache_ok B m" and i: "i < hash_size m" "a \<in> set (B i)" and e: "heap m a = Some e"
    and e': "key e' = key e" "lru_next e' = None" "lru_prev e' = None" "hash_next e' = hash_next e"
      "content_length e' = content_length e"
  shows "cache_ok B (m\<lparr>heap := (heap m)(a := Some e'), head := Some a, tail := Some a\<rparr>)"
proof -
  let ?m = "m\<lparr>heap := (heap m)(a := Some e'), head := Some a, tail := Some a\<rparr>"
  have ch: "chain ((heap m)(a := Some e')) p as = chain (heap m) p as" for p as
    using e e' by (intro chain_cong) auto
  have "stored_size (heap ?m) B (hash_size m) = stored_size (heap m) B (hash_size m)"
    using e e' by (intro stored_size_cong) auto
  moreover have "entry_ok ?m j b" if "j < hash_size m" "b \<in> set (B j)" for j b
    using ok_chain(4) [OF ok that] e e' by (auto simp: entry_ok_def)
  ultimately show ?thesis
    using ok i ch unfolding cache_ok_def by (auto simp del: fun_upd_apply)
qed


lemma touch_entries:
  assumes ok: "cache_ok B m" and us: "B (bucket m k) = us @ a # vs" "\<forall>u\<in>set us. key (the (heap m u)) \<noteq> k"
    and e: "heap m a = Some e" "key e = k" "key e' = k" "hash_next e' = hash_next e"
    and ok': "cache_ok B m'" and m': "heap m' = (heap m)(a := Some e')" "hash_size m' = hash_size m"
  shows "cache_entries m' = (cache_entries m)(k := entry_view e' # tl (cache_entries m k))"
proof
  fix k'
  have bk: "bucket m' x = bucket m x" for x using m'(2) by (rule bucket_cong)
  have i: "bucket m k < hash_size m" using ok by (simp add: bucket_less cache_ok_def)
  have di: "distinct (us @ a # vs)" using ok_chain(2) [OF ok i] us by simp
  have key: "key (the (heap m' b)) = key (the (heap m b))" for b using e m' by simp
  have keep: "List.map (\<lambda>b. entry_view (the (heap m' b))) bs = List.map (\<lambda>b. entry_view (the (heap m b))) bs"
    if "a \<notin> set bs" for bs using that m' by (intro map_cong) auto
  show "cache_entries m' k' = ((cache_entries m)(k := entry_view e' # tl (cache_entries m k))) k'"
  proof (cases "k' = k")
    case True
    have f: "filter (\<lambda>b. key (the (heap m b)) = k) (us @ a # vs) = a # filter (\<lambda>b. key (the (heap m b)) = k) vs"
      using us(2) e by (simp add: filter_empty_conv)
    have "entry_view (the (heap m' a)) = entry_view e'" using m' by simp
    with True f keep [of "filter (\<lambda>b. key (the (heap m b)) = k) vs"] di us(1)
    show ?thesis by (simp add: ok_entries [OF ok] ok_entries [OF ok'] key bk)
  next
    case False
    have "a \<notin> set (filter (\<lambda>b. key (the (heap m b)) = k') (B (bucket m k')))" using e False by simp
    from keep [OF this] False show ?thesis by (simp add: ok_entries [OF ok] ok_entries [OF ok'] key bk)
  qed
qed

text \<open>What a hit answers: only that the client's copy is current, or the whole entry.\<close>

definition hit_response :: "cache_entry \<Rightarrow> string option \<Rightarrow> int \<Rightarrow> cache_response" where
  "hit_response e if_none_match if_modified_since =
     (if if_none_match \<noteq> None \<and> etag e = if_none_match
         \<or> 0 < if_modified_since \<and> last_modified e \<le> if_modified_since
      then cache_response_create\<lparr>is_cached := True, is_fresh := True, needs_validation := True\<rparr>
      else \<lparr>is_cached = True, is_fresh = True, needs_validation = False, r_etag = etag e,
            r_last_modified = last_modified e, r_content = Some (content e),
            r_content_length = content_length e, r_content_type = content_type e,
            r_is_compressed = is_compressed e\<rparr>)"

definition touched :: "int \<Rightarrow> cache_entry \<Rightarrow> cache_entry" where
  "touched now e = e\<lparr>last_access := now, access_count := access_count e + 1\<rparr>"

lemma cache_find_entry_eq:
  assumes ok: "cache_ok B m"
  shows "cache_find_entry (m\<lparr>locked := True\<rparr>) k
    = Inr (List.find (\<lambda>a. key (the (heap m a)) = k) (B (bucket m k)))"
proof -
  have i: "bucket m k < hash_size m" using ok by (simp add: bucket_less cache_ok_def)
  from find_in_chain_eq [of "m\<lparr>locked := True\<rparr>" "hash_table m (bucket m k)" "B (bucket m k)"
      "Suc (next_addr m)" k] ok_chain(1,3) [OF ok i]
  show ?thesis by (simp add: cache_find_entry_def)
qed

lemma find_first:
  "\<forall>u\<in>set us. \<not> P u \<Longrightarrow> P a \<Longrightarrow> List.find P (us @ a # vs) = Some a"
  by (induction us) auto

lemma cache_get_miss:
  assumes inv: "cache_inv m" and e: "cache_entries m k = []"
  shows "cache_get now m k inm ims = Inr (None, m\<lparr>stats := count_miss (stats m)\<rparr>)"
proof -
  obtain B where ok: "cache_ok B m" using inv by (auto simp: cache_inv_def)
  have unl: "\<not> locked m" using ok by (simp add: cache_ok_def)
  have "List.find (\<lambda>a. key (the (heap m a)) = k) (B (bucket m k)) = None"
    using e by (simp add: ok_entries [OF ok] filter_empty_conv find_None_iff)
  moreover have "m\<lparr>stats := s, locked := False\<rparr> = m\<lparr>stats := s\<rparr>" for s using unl by (cases m) simp
  ultimately show ?thesis using unl
    by (simp add: cache_get_def mutex_lock_def cache_find_entry_eq [OF ok] mutex_unlock_def)
qed

lemma cache_get_expired:
  assumes inv: "cache_inv m" and e: "cache_entries m k = e # es" and t: "expires e \<le> now"
  shows "cache_get now m k inm ims = Inl Deadlock"
proof -
  obtain B where ok: "cache_ok B m" using inv by (auto simp: cache_inv_def)
  have unl: "\<not> locked m" using ok by (simp add: cache_ok_def)
  obtain us a vs ea where *: "B (bucket m k) = us @ a # vs" "\<forall>u\<in>set us. key (the (heap m u)) \<noteq> k"
    "key (the (heap m a)) = k" "heap m a = Some ea" "e = entry_view ea"
    by (rule ok_split [OF ok refl e], rule that)
  have "List.find (\<lambda>a. key (the (heap m a)) = k) (B (bucket m k)) = Some a"
    unfolding *(1) using *(2,3) by (rule find_first)
  with * t unl show ?thesis
    by (simp add: cache_get_def mutex_lock_def cache_find_entry_eq [OF ok] deref_def
        cache_is_fresh_def entry_view_def)
qed


lemma cache_get_hit:
  assumes inv: "cache_inv m" and e: "cache_entries m k = e # es" and t: "now < expires e"
  shows "\<exists>m'. cache_get now m k inm ims = Inr (Some (hit_response e inm ims), m') \<and> cache_inv m' \<and>
    cache_entries m' = (cache_entries m)(k := touched now e # es) \<and>
    hits (stats m') = hits (stats m) + 1 \<and> misses (stats m') = misses (stats m)"
proof -
  obtain B where ok: "cache_ok B m" using inv by (auto simp: cache_inv_def)
  have unl: "\<not> locked m" and ht: "head m = tail m" using ok by (simp_all add: cache_ok_def)
  obtain us a vs ea where *: "B (bucket m k) = us @ a # vs" "\<forall>u\<in>set us. key (the (heap m u)) \<noteq> k"
    "key (the (heap m a)) = k" "heap m a = Some ea" "e = entry_view ea"
    "es = List.map (\<lambda>a. entry_view (the (heap m a))) (filter (\<lambda>a. key (the (heap m a)) = k) vs)"
    "bucket m k < hash_size m"
    by (rule ok_split [OF ok refl e], rule that)
  have fd: "List.find (\<lambda>a. key (the (heap m a)) = k) (B (bucket m k)) = Some a"
    unfolding *(1) using *(2,3) by (rule find_first)
  have solo: "lru_next ea = None" "lru_prev ea = None"
    using ok_chain(4) [OF ok *(7), of a] *(1,4) by (auto simp: entry_ok_def)
  define et where "et = touched now ea"
  define m1 where "m1 = m\<lparr>heap := (heap m)(a := Some et), head := Some a, tail := Some a\<rparr>"
  have et: "key et = key ea" "lru_next et = None" "lru_prev et = None" "hash_next et = hash_next ea"
    "content_length et = content_length ea" "entry_view et = touched now e" "etag et = etag e"
    "last_modified et = last_modified e" "content et = content e" "content_type et = content_type e"
    "is_compressed et = is_compressed e" "content_length et = content_length e"
    using solo *(5) by (simp_all add: et_def touched_def entry_view_def)
  have ok1: "cache_ok B m1"
    unfolding m1_def by (rule ok_touch [OF ok *(7) _ *(4) et(1-5)]) (simp add: *(1))
  have mv: "cache_move_to_head (store a et (m\<lparr>locked := True\<rparr>)) a = Inr (m1\<lparr>locked := True\<rparr>)"
    using move_to_head_solo [of "store a et (m\<lparr>locked := True\<rparr>)" a et] et ht
    by (simp add: store_def m1_def)
  have ent: "cache_entries m1 = (cache_entries m)(k := touched now e # es)"
    using touch_entries [OF ok *(1,2,4) _ _ et(4) ok1] * et e by (simp add: m1_def)
  have d: "deref (m\<lparr>locked := True\<rparr>) a = Inr ea" "deref (m1\<lparr>locked := True\<rparr>) a = Inr et"
    by (simp_all add: deref_def *(4) m1_def)
  have fresh: "cache_is_fresh now ea" using t *(5) by (simp add: cache_is_fresh_def entry_view_def)
  have run: "\<exists>s. cache_get now m k inm ims = Inr (Some (hit_response e inm ims), m1\<lparr>stats := s\<rparr>) \<and>
      hits s = hits (stats m) + 1 \<and> misses s = misses (stats m) \<and>
      current_entries s = current_entries (stats m1) \<and> current_size s = current_size (stats m1)"
  proof -
    have unl1: "m1\<lparr>stats := s, locked := False\<rparr> = m1\<lparr>stats := s\<rparr>" for s using unl by (cases m) (simp add: m1_def)
    have st: "stats m1 = stats m" by (simp add: m1_def)
    have etd: "ea\<lparr>last_access := now, access_count := access_count ea + 1\<rparr> = et"
      by (simp add: et_def touched_def)
    have c1: "(inm \<noteq> None \<and> etag et \<noteq> None \<and> cache_validate_etag (etag et) inm)
        \<longleftrightarrow> (inm \<noteq> None \<and> etag e = inm)"
      by (cases inm; cases "etag e") (auto simp: cache_validate_etag_def et)
    have c2: "cache_validate_modified_since (last_modified et) ims \<longleftrightarrow> last_modified e \<le> ims"
      by (simp add: cache_validate_modified_since_def et)
    have c3: "(inm \<noteq> None \<and> etag e \<noteq> None \<and> cache_validate_etag (etag e) inm) \<longleftrightarrow> (inm \<noteq> None \<and> etag e = inm)"
      using c1 by (simp add: et)
    let ?C1 = "inm \<noteq> None \<and> etag e = inm" and ?C2 = "0 < ims \<and> last_modified e \<le> ims"
    note start = cache_get_def mutex_lock_def cache_find_entry_eq [OF ok] fd d fresh etd mv c1 c2
      mutex_unlock_def unl1 st
    show ?thesis
    proof (cases "?C1 \<or> ?C2")
      case True
      then have "cache_get now m k inm ims = Inr (Some (hit_response e inm ims), m1\<lparr>stats := count_hit (stats m)\<rparr>)"
        using unl by (auto simp add: start hit_response_def Let_def cache_response_create_def
            simp del: not_None_eq cong: if_cong)
      then show ?thesis by (intro exI [of _ "count_hit (stats m)"]) (simp add: count_hit_def st)
    next
      case False
      let ?s = "(count_hit (stats m))\<lparr>hit_ratio := of_nat (unat (hits (count_hit (stats m)))) /
          of_nat (unat (hits (count_hit (stats m)) + misses (count_hit (stats m))))\<rparr>"
      have "cache_get now m k inm ims = Inr (Some (hit_response e inm ims), m1\<lparr>stats := ?s\<rparr>)"
        using unl False by (auto simp add: start hit_response_def Let_def cache_response_create_def et(6-)
            c3 cache_validate_modified_since_def simp del: not_None_eq cong: if_cong)
      then show ?thesis by (intro exI [of _ ?s]) (simp add: count_hit_def st)
    qed
  qed
  then obtain s where s: "cache_get now m k inm ims = Inr (Some (hit_response e inm ims), m1\<lparr>stats := s\<rparr>)"
    "hits s = hits (stats m) + 1" "misses s = misses (stats m)"
    "current_entries s = current_entries (stats m1)" "current_size s = current_size (stats m1)"
    by blast
  have "cache_ok B (m1\<lparr>stats := s\<rparr>)" by (rule ok_stats_lock [OF ok1 s(4,5)])
  moreover have "cache_entries (m1\<lparr>stats := s\<rparr>) = cache_entries m1"
    by (rule ext) (simp add: cache_entries_def)
  ultimately show ?thesis using s ent by (auto simp: cache_inv_def)
qed

lemma cache_get_inv:
  assumes "cache_inv m" "cache_get now m k inm ims = Inr (r, m')" shows "cache_inv m'"
proof (cases "cache_entries m k")
  case Nil
  obtain B where ok: "cache_ok B m" using assms(1) by (auto simp: cache_inv_def)
  then have "cache_ok B (m\<lparr>stats := count_miss (stats m)\<rparr>)"
    by (rule ok_stats_lock) (simp_all add: count_miss_def)
  with cache_get_miss [OF assms(1) Nil] assms(2) show ?thesis by (auto simp: cache_inv_def)
next
  case (Cons e es)
  with cache_get_expired [OF assms(1) Cons] cache_get_hit [OF assms(1) Cons, of now inm ims] assms(2)
  show ?thesis by (cases "expires e \<le> now") auto
qed

section \<open>Refinement: clearing and cleaning\<close>

lemma clear_run:
  assumes ok: "cache_ok B m"
  shows "cache_manager_clear m = Inr (m\<lparr>head := None, tail := None, hash_table := (\<lambda>_. None),
      heap := (case head m of None \<Rightarrow> heap m | Some a \<Rightarrow> (heap m)(a := None)),
      stats := (stats m)\<lparr>current_size := 0, current_entries := 0\<rparr>\<rparr>)"
proof -
  have unl: "\<not> locked m" using ok by (simp add: cache_ok_def)
  have unl': "m\<lparr>locked := False\<rparr> = m" using unl by (cases m) simp
  show ?thesis
  proof (cases "head m")
    case None
    with unl unl' show ?thesis
      by (cases m) (simp add: cache_manager_clear_def mutex_lock_def mutex_unlock_def)
  next
    case (Some a)
    then obtain i where i: "i < hash_size m" "a \<in> set (B i)" using ok by (auto simp: cache_ok_def)
    then obtain e where e: "heap m a = Some e" "lru_next e = None"
      using ok_chain(4) [OF ok i(1), of a] by (auto simp: entry_ok_def)
    with Some unl show ?thesis
      by (cases m) (simp add: cache_manager_clear_def mutex_lock_def mutex_unlock_def deref_def cache_entry_free_def)
  qed
qed

lemma cleared_ok:
  assumes ok: "cache_ok B m" and cl: "cache_manager_clear m = Inr m'"
  shows "cache_ok (\<lambda>_. []) m'"
  using cl ok unfolding clear_run [OF ok]
  by (auto simp: cache_ok_def stored_count_def stored_size_def)

lemma cleanup_run:
  assumes ok: "cache_ok B m"
  shows "cache_cleanup_expired now m =
    (case head m of None \<Rightarrow> Inr m
     | Some a \<Rightarrow> if expires (the (heap m a)) \<le> now then Inl Deadlock else Inr m)"
proof -
  have unl: "\<not> locked m" using ok by (simp add: cache_ok_def)
  have unl': "m\<lparr>locked := False\<rparr> = m" using unl by (cases m) simp
  show ?thesis
  proof (cases "head m")
    case (Some a)
    then obtain i where i: "i < hash_size m" "a \<in> set (B i)" using ok by (auto simp: cache_ok_def)
    then obtain e where e: "heap m a = Some e" "lru_next e = None"
      using ok_chain(4) [OF ok i(1), of a] by (auto simp: entry_ok_def)
    with Some unl unl' show ?thesis
      by (simp add: cache_cleanup_expired_def mutex_lock_def mutex_unlock_def deref_def)
  qed (use unl unl' in \<open>simp add: cache_cleanup_expired_def mutex_lock_def mutex_unlock_def\<close>)
qed

lemma cache_step_inv:
  assumes "cache_step m m'" "cache_inv m" shows "cache_inv m'"
  using assms
proof (induction rule: cache_step.induct)
  case (clear m m')
  then show ?case using cleared_ok by (auto simp: cache_inv_def)
next
  case (cleanup now m m')
  then obtain B where ok: "cache_ok B m" by (auto simp: cache_inv_def)
  with cleanup cleanup_run [OF ok, of now] show ?case by (auto split: option.splits if_splits)
next
  case (get_stats m s m')
  then have "m' = m" by (cases m) (auto simp: cache_get_stats_def mutex_lock_def mutex_unlock_def split: if_splits)
  with get_stats show ?case by simp
qed (auto intro: cache_put_inv cache_get_inv cache_remove_inv)

lemma cache_reachable_inv: "cache_reachable config m \<Longrightarrow> cache_inv m"
  by (induction rule: cache_reachable.induct) (auto intro: cache_inv_create cache_step_inv)


section \<open>Properties\<close>

text \<open>C2. An insertion that finds room returns 0, keeps the cache well formed and refines the
abstract cache: the key's entries become the new one followed by the older ones, all other
keys keep theirs (the code never looks for an entry with the same key first).\<close>

theorem cache_put_refines:
  assumes "cache_inv m" "\<not> needs_room (of_nat (length cont)) m"
  shows "\<exists>m'. cache_put md5 now m k cont ctype lmod ttl gz = Inr (0, m') \<and> cache_inv m' \<and>
    cache_entries m' =
      (cache_entries m)(k := new_entry md5 now m k cont ctype lmod ttl gz # cache_entries m k) \<and>
    current_entries (stats m') = current_entries (stats m) + 1 \<and>
    current_size (stats m') = current_size (stats m) + of_nat (length cont)"
proof -
  let ?e = "new_entry md5 now m k cont ctype lmod ttl gz"
  obtain B where B: "cache_ok B m" using assms(1) by (auto simp: cache_inv_def)
  have "cache_inv (after_put m ?e)" using after_put_ok [OF B, of ?e] by (auto simp: cache_inv_def)
  with after_put_entries [OF B, of ?e] cache_put_room [OF B assms(2)] show ?thesis
    by (intro exI [of _ "after_put m ?e"]) simp
qed

theorem cache_put_refines_witness:
  "\<exists>m'. cache_put (\<lambda>_. None) 7 (cache_manager_create cache_config_defaults) ''/a'' ''body'' None 3 0 False
      = Inr (0, m') \<and> cache_inv m' \<and> length (cache_entries m' ''/a'') = Suc (length (cache_entries
          (cache_manager_create cache_config_defaults) ''/a''))"
proof -
  have "\<not> needs_room (of_nat (length ''body'')) (cache_manager_create cache_config_defaults)"
    by (simp add: needs_room_def cache_manager_create_def zero_stats_def cache_config_defaults_def)
  from cache_put_refines [OF cache_inv_create this] show ?thesis by (metis fun_upd_same length_Cons)
qed

text \<open>A cache with one entry, for the witnesses.\<close>

definition sample_entry :: cache_entry where
  "sample_entry = new_entry (\<lambda>_. None) 7 (cache_manager_create cache_config_defaults) ''/a'' ''body'' None 3 0 False"

definition sample_cache :: cache_manager where
  "sample_cache = after_put (cache_manager_create cache_config_defaults) sample_entry"

lemma sample_cache_ok: "cache_inv sample_cache" "cache_entries sample_cache ''/a'' = [sample_entry]"
proof -
  obtain B where B: "cache_ok B (cache_manager_create cache_config_defaults)"
    using cache_inv_create cache_inv_def by blast
  have l: "lru_next sample_entry = None" "lru_prev sample_entry = None" by (simp_all add: sample_entry_def)
  show "cache_inv sample_cache" using after_put_ok [OF B l] by (auto simp: cache_inv_def sample_cache_def)
  have "cache_entries (cache_manager_create cache_config_defaults) k = []" for k
    by (simp add: cache_entries_def cache_manager_create_def)
  then show "cache_entries sample_cache ''/a'' = [sample_entry]"
    using after_put_entries [OF B l] by (simp add: sample_cache_def sample_entry_def)
qed

lemma sample_cache_stats: "current_entries (stats sample_cache) = 1" "current_size (stats sample_cache) = 4"
  "max_entries (c_config sample_cache) = 10000" "max_size (c_config sample_cache) = 67108864"
  "tail sample_cache = Some 0"
  by (simp_all add: sample_cache_def sample_entry_def cache_manager_create_def zero_stats_def
      cache_config_defaults_def)

text \<open>Removal of a key without an entry returns -1 and changes nothing; otherwise it
returns 0, drops the newest entry of the key only (an older one shows again), subtracts it
from the two counters, and leaves the LRU list empty whatever it held before.\<close>

theorem cache_remove_refines:
  assumes "cache_inv m"
  shows "case cache_entries m k of
      [] \<Rightarrow> cache_remove m k = Inr (-1, m)
    | e # es \<Rightarrow> (\<exists>m'. cache_remove m k = Inr (0, m') \<and> cache_inv m' \<and>
        cache_entries m' = (cache_entries m)(k := es) \<and> head m' = None \<and> tail m' = None \<and>
        stats m' = (stats m)\<lparr>current_entries := current_entries (stats m) - 1,
                            current_size := current_size (stats m) - content_length e\<rparr> \<and>
        c_config m' = c_config m)"
proof (cases "cache_entries m k")
  case Nil
  then show ?thesis using cache_remove_missing [OF assms Nil] by simp
next
  case (Cons e es)
  then show ?thesis using cache_remove_found [OF assms Cons] by simp
qed

theorem cache_remove_refines_witness:
  "\<exists>m'. cache_remove sample_cache ''/a'' = Inr (0, m') \<and> cache_entries m' ''/a'' = []"
  using cache_remove_refines [OF sample_cache_ok(1), where k = "''/a''"] sample_cache_ok(2) by auto

text \<open>C4. Lookup. Without an entry it is a counted miss. With an expired one it never
returns: the expiry branch calls cache_remove, which locks the mutex the lookup already holds.
With a fresh one it is a counted hit that marks the entry as used now and answers 304 data
when the client's etag or date is current, the whole entry otherwise.\<close>

theorem cache_get_spec:
  assumes "cache_inv m"
  shows "case cache_entries m k of
      [] \<Rightarrow> cache_get now m k inm ims = Inr (None, m\<lparr>stats := count_miss (stats m)\<rparr>)
    | e # es \<Rightarrow>
        if expires e \<le> now then cache_get now m k inm ims = Inl Deadlock
        else (\<exists>m'. cache_get now m k inm ims = Inr (Some (hit_response e inm ims), m') \<and>
          cache_inv m' \<and> cache_entries m' = (cache_entries m)(k := touched now e # es) \<and>
          hits (stats m') = hits (stats m) + 1 \<and> misses (stats m') = misses (stats m))"
proof (cases "cache_entries m k")
  case Nil
  then show ?thesis using cache_get_miss [OF assms Nil] by simp
next
  case (Cons e es)
  then show ?thesis
    using cache_get_expired [OF assms Cons] cache_get_hit [OF assms Cons, of now inm ims] by simp
qed

theorem cache_get_spec_witness:
  "cache_get 4000 sample_cache ''/a'' None 0 = Inl Deadlock \<and>
   (\<exists>m'. cache_get 10 sample_cache ''/a'' None 0 = Inr (Some (hit_response sample_entry None 0), m'))"
proof -
  have "expires sample_entry = 3607"
    by (simp add: sample_entry_def new_entry_def cache_manager_create_def cache_config_defaults_def)
  with cache_get_spec [OF sample_cache_ok(1), where k = "''/a''" and now = 4000 and inm = None and ims = 0]
    cache_get_spec [OF sample_cache_ok(1), where k = "''/a''" and now = 10 and inm = None and ims = 0] sample_cache_ok(2)
  show ?thesis by auto
qed

text \<open>C6. A put into a cache without room never returns: with an LRU tail it waits for the
mutex it holds, without one its eviction loop evicts nothing for ever.\<close>

theorem cache_put_full_never_returns:
  assumes "cache_inv m" "needs_room (of_nat (length cont)) m"
  shows "cache_put md5 now m k cont ctype lmod ttl gz = Inl (if tail m = None then Diverges else Deadlock)"
  by (rule cache_put_stuck [OF assms])

theorem cache_put_full_never_returns_witness:
  "cache_put (\<lambda>_. None) 7 (sample_cache\<lparr>c_config := cache_config_defaults\<lparr>max_entries := 1\<rparr>\<rparr>)
     ''/b'' ''x'' None 0 0 False = Inl Deadlock"
proof -
  let ?m = "sample_cache\<lparr>c_config := cache_config_defaults\<lparr>max_entries := 1\<rparr>\<rparr>"
  obtain B where "cache_ok B sample_cache" using sample_cache_ok(1) cache_inv_def by blast
  then have "cache_ok B ?m" by (simp add: cache_ok_def entry_ok_def bucket_def)
  then have "cache_inv ?m" by (auto simp: cache_inv_def)
  moreover have "needs_room (of_nat (length ''x'')) ?m"
    by (simp add: needs_room_def sample_cache_stats cache_config_defaults_def)
  ultimately show ?thesis
    using cache_put_full_never_returns [of ?m "''x''"]
    by (simp add: sample_cache_stats)
qed

text \<open>C9. In every reachable cache the two counters are the number and the bytes of the
entries in the table, and the LRU list has at most one node: linking a fresh entry first
"removes" it, which sets head and tail to NULL.\<close>

theorem cache_reachable_lru:
  assumes "cache_reachable config m"
  shows "head m = tail m \<and> \<not> locked m \<and>
    (\<forall>a. head m = Some a \<longrightarrow> (\<exists>e. heap m a = Some e \<and> lru_next e = None \<and> lru_prev e = None)) \<and>
    (\<exists>B. current_entries (stats m) = stored_count B (hash_size m) \<and>
         current_size (stats m) = stored_size (heap m) B (hash_size m) \<and>
         (\<forall>i<hash_size m. chain (heap m) (hash_table m i) (B i)))"
proof -
  obtain B where B: "cache_ok B m" using cache_reachable_inv [OF assms] by (auto simp: cache_inv_def)
  then have "\<exists>e. heap m a = Some e \<and> lru_next e = None \<and> lru_prev e = None" if "head m = Some a" for a
    using that by (auto simp: cache_ok_def entry_ok_def)
  with B show ?thesis by (auto simp: cache_ok_def)
qed

theorem cache_reachable_lru_witness: "head (cache_manager_create cache_config_defaults) = tail (cache_manager_create cache_config_defaults)"
  using cache_reachable_lru [OF cache_reachable.create [of cache_config_defaults]] by simp

text \<open>Clearing a reachable cache empties it for every key and zeroes the counters, but
frees only the one entry the LRU list holds: every other entry stays allocated and nothing
points to it.\<close>

theorem cache_clear_leaks:
  assumes "cache_reachable config m"
  shows "\<exists>m'. cache_manager_clear m = Inr m' \<and> cache_inv m' \<and> (\<forall>k. cache_entries m' k = []) \<and>
    current_entries (stats m') = 0 \<and> current_size (stats m') = 0 \<and>
    (\<forall>a. Some a \<noteq> head m \<longrightarrow> heap m' a = heap m a)"
proof -
  obtain B where B: "cache_ok B m" using cache_reachable_inv [OF assms] by (auto simp: cache_inv_def)
  have "cache_inv m'" if "cache_manager_clear m = Inr m'" for m'
    using cleared_ok [OF B that] by (auto simp: cache_inv_def)
  with clear_run [OF B] show ?thesis
    by (auto simp: cache_entries_def split: option.split)
qed

theorem cache_clear_leaks_witness:
  "\<exists>m'. cache_manager_clear (cache_manager_create cache_config_defaults) = Inr m' \<and> cache_inv m'"
  using cache_clear_leaks [OF cache_reachable.create [of cache_config_defaults]] by blast

end
