(* ===== verification/LoadBalancer.thy ===== *)
theory LoadBalancer
  imports Prelude
begin

text \<open>
  The load balancer (src/proxy/load_balancer.c). A group is a record with its servers as a
  list in the order of the C list (insertion is at the head); a server pointer that lives
  within one call is an index into that list, one that is kept in the session table is the
  address the server was allocated at. \<open>now k\<close> is what the k-th reading of time(NULL) in a
  call gives, \<open>r\<close> what rand() gives. The counters of type int are unbounded (their overflow
  is undefined in C), the doubles are rationals. The static session table and its mutex are
  a state of their own.
\<close>

section \<open>Data\<close>

datatype lb_strategy_t =
  LB_STRATEGY_ROUND_ROBIN | LB_STRATEGY_WEIGHTED_ROUND_ROBIN | LB_STRATEGY_LEAST_CONNECTIONS
| LB_STRATEGY_IP_HASH | LB_STRATEGY_RANDOM | LB_STRATEGY_WEIGHTED_RANDOM

datatype server_status_t =
  SERVER_STATUS_UP | SERVER_STATUS_DOWN | SERVER_STATUS_CHECKING | SERVER_STATUS_UNKNOWN

record upstream_server =
  srv_addr :: addr
  host :: string
  port :: int
  weight :: int
  max_fails :: int
  fail_timeout :: int
  max_conns :: int
  status :: server_status_t
  current_connections :: int
  srv_total_requests :: int
  srv_failed_requests :: int
  consecutive_failures :: int
  last_failure_time :: int
  last_check_time :: int
  health_check_interval :: int
  health_check_uri :: string
  health_check_timeout :: int
  avg_response_time :: rat
  last_response_time :: int
  current_weight :: int
  effective_weight :: int

record upstream_group =
  g_name :: string
  g_strategy :: lb_strategy_t
  servers :: "upstream_server list"
  server_count :: nat
  current_server_index :: nat
  total_weight :: int
  session_persistence :: bool
  session_timeout :: int
  health_check_enabled :: bool
  g_check_interval :: int
  g_check_timeout :: int
  g_check_uri :: string
  total_requests :: int
  successful_requests :: int
  failed_requests :: int

record lb_config =
  groups :: "upstream_group list"
  group_count :: nat
  default_max_fails :: int
  default_fail_timeout :: int
  default_check_interval :: int
  default_check_timeout :: int

record lb_selection =
  sel_server :: nat
  proxy_url :: string
  connection_id :: int

record session_info =
  client_ip :: "string option"
  session_id :: "string option"
  session_server :: addr
  session_access :: int

record session_state =
  session_table :: "session_info list"
  session_locked :: bool

record lb_stats =
  st_total_requests :: int
  st_successful_requests :: int
  st_failed_requests :: int
  st_active_connections :: int
  st_avg_response_time :: rat
  st_last_updated :: int

section \<open>Servers\<close>

definition upstream_server_create :: "addr \<Rightarrow> string \<Rightarrow> int \<Rightarrow> int \<Rightarrow> upstream_server option" where
  "upstream_server_create a h p w =
     (if p \<le> 0 \<or> w \<le> 0 then None
      else Some \<lparr>srv_addr = a, host = h, port = p, weight = w, max_fails = 3, fail_timeout = 30,
        max_conns = 1000, status = SERVER_STATUS_UNKNOWN, current_connections = 0,
        srv_total_requests = 0, srv_failed_requests = 0, consecutive_failures = 0,
        last_failure_time = 0, last_check_time = 0, health_check_interval = 30,
        health_check_uri = ''/health'', health_check_timeout = 10, avg_response_time = 0,
        last_response_time = 0, current_weight = 0, effective_weight = w\<rparr>)"

definition upstream_server_set_status :: "int \<Rightarrow> server_status_t \<Rightarrow> upstream_server \<Rightarrow> upstream_server" where
  "upstream_server_set_status now st s =
     (if status s \<noteq> st then s\<lparr>status := st, last_check_time := now\<rparr> else s)"

definition upstream_server_is_available :: "int \<Rightarrow> upstream_server \<Rightarrow> bool \<times> upstream_server" where
  "upstream_server_is_available now s =
     (if status s = SERVER_STATUS_DOWN then (False, s)
      else if max_conns s > 0 \<and> current_connections s \<ge> max_conns s then (False, s)
      else if consecutive_failures s \<ge> max_fails s
        then (if now - last_failure_time s < fail_timeout s then (False, s)
              else (True, s\<lparr>consecutive_failures := 0\<rparr>))
      else (True, s))"

definition lb_update_connection_count :: "int \<Rightarrow> upstream_server \<Rightarrow> upstream_server" where
  "lb_update_connection_count delta s =
     (let n = current_connections s + delta in s\<lparr>current_connections := (if n < 0 then 0 else n)\<rparr>)"

text \<open>Connecting: \<open>dial\<close> is the socket of a successful connect, None where any step fails.\<close>

definition lb_connect_to_server ::
  "int \<Rightarrow> (string \<Rightarrow> int \<Rightarrow> int option) \<Rightarrow> upstream_server \<Rightarrow> int \<times> upstream_server" where
  "lb_connect_to_server now dial s =
     (let (ok, s) = upstream_server_is_available now s in
      if \<not> ok then (-1, s)
      else case dial (host s) (port s) of
             None \<Rightarrow> (-1, s)
           | Some fd \<Rightarrow> (fd, lb_update_connection_count 1 s))"

definition lb_close_connection :: "int \<Rightarrow> upstream_server \<Rightarrow> upstream_server" where
  "lb_close_connection conn s = (if conn < 0 then s else lb_update_connection_count (-1) s)"

definition lb_update_stats :: "int \<Rightarrow> bool \<Rightarrow> rat \<Rightarrow> upstream_server \<Rightarrow> upstream_server" where
  "lb_update_stats now success response_time s =
     (if success
      then s\<lparr>srv_total_requests := srv_total_requests s + 1, consecutive_failures := 0,
             avg_response_time := (if avg_response_time s = 0 then response_time
                                   else (avg_response_time s + response_time) / 2),
             last_response_time := now\<rparr>
      else s\<lparr>srv_failed_requests := srv_failed_requests s + 1,
             consecutive_failures := consecutive_failures s + 1, last_failure_time := now\<rparr>)"

definition lb_build_proxy_url :: "upstream_server \<Rightarrow> string" where
  "lb_build_proxy_url s = snprintf 256 (''http://'' @ host s @ '':'' @ print_int (port s))"

definition lb_hash_string :: "string option \<Rightarrow> u32" where
  "lb_hash_string str = (case str of None \<Rightarrow> 0
     | Some t \<Rightarrow> foldl (\<lambda>hash c. (push_bit 5 hash + hash) + of_nat (of_char c)) 5381 t)"

section \<open>Groups\<close>

definition upstream_group_create :: "string \<Rightarrow> lb_strategy_t \<Rightarrow> upstream_group" where
  "upstream_group_create name strat =
     \<lparr>g_name = name, g_strategy = strat, servers = [], server_count = 0, current_server_index = 0,
      total_weight = 0, session_persistence = False, session_timeout = 3600,
      health_check_enabled = True, g_check_interval = 30, g_check_timeout = 10,
      g_check_uri = ''/health'', total_requests = 0, successful_requests = 0, failed_requests = 0\<rparr>"

definition same_server :: "string \<Rightarrow> int \<Rightarrow> upstream_server \<Rightarrow> bool" where
  "same_server h p s \<longleftrightarrow> host s = h \<and> port s = p"

definition upstream_group_add_server ::
  "addr \<Rightarrow> upstream_group \<Rightarrow> string \<Rightarrow> int \<Rightarrow> int \<Rightarrow> int \<times> upstream_group" where
  "upstream_group_add_server a g h p w =
     (if p \<le> 0 \<or> w \<le> 0 then (-1, g)
      else if \<exists>s\<in>set (servers g). same_server h p s then (-1, g)
      else case upstream_server_create a h p w of
             None \<Rightarrow> (-1, g)
           | Some s \<Rightarrow> (0, g\<lparr>servers := s # servers g, server_count := server_count g + 1,
                            total_weight := total_weight g + w\<rparr>))"

fun unlink_server :: "string \<Rightarrow> int \<Rightarrow> upstream_server list \<Rightarrow> (upstream_server \<times> upstream_server list) option" where
  "unlink_server h p [] = None"
| "unlink_server h p (s # ss) =
     (if same_server h p s then Some (s, ss)
      else map_option (\<lambda>(x, rest). (x, s # rest)) (unlink_server h p ss))"

definition upstream_group_remove_server :: "upstream_group \<Rightarrow> string \<Rightarrow> int \<Rightarrow> int \<times> upstream_group" where
  "upstream_group_remove_server g h p =
     (if p \<le> 0 then (-1, g)
      else case unlink_server h p (servers g) of
             None \<Rightarrow> (-1, g)
           | Some (s, rest) \<Rightarrow> (0, g\<lparr>servers := rest, server_count := server_count g - 1,
                                    total_weight := total_weight g - weight s\<rparr>))"

definition upstream_group_get_server :: "upstream_group \<Rightarrow> string \<Rightarrow> int \<Rightarrow> upstream_server option" where
  "upstream_group_get_server g h p =
     (if p \<le> 0 then None else List.find (same_server h p) (servers g))"

definition lb_config_create :: lb_config where
  "lb_config_create = \<lparr>groups = [], group_count = 0, default_max_fails = 3,
     default_fail_timeout = 30, default_check_interval = 30, default_check_timeout = 10\<rparr>"

definition lb_config_add_group :: "lb_config \<Rightarrow> string \<Rightarrow> lb_strategy_t \<Rightarrow> int \<times> lb_config" where
  "lb_config_add_group config name strat =
     (if \<exists>g\<in>set (groups config). g_name g = name then (-1, config)
      else (0, config\<lparr>groups := upstream_group_create name strat # groups config,
                      group_count := group_count config + 1\<rparr>))"

definition lb_config_get_group :: "lb_config \<Rightarrow> string \<Rightarrow> upstream_group option" where
  "lb_config_get_group config name = List.find (\<lambda>g. g_name g = name) (groups config)"

definition lb_get_stats :: "int \<Rightarrow> upstream_group \<Rightarrow> lb_stats" where
  "lb_get_stats now g =
     \<lparr>st_total_requests = total_requests g, st_successful_requests = successful_requests g,
      st_failed_requests = failed_requests g,
      st_active_connections = (\<Sum>s\<leftarrow>servers g. current_connections s),
      st_avg_response_time =
        (if length (servers g) > 0
         then (\<Sum>s\<leftarrow>servers g. avg_response_time s) / of_nat (length (servers g)) else 0),
      st_last_updated = now\<rparr>"

section \<open>Strategies\<close>

text \<open>The availability test of the i-th server, with its effect on that server.\<close>

definition check_server :: "int \<Rightarrow> nat \<Rightarrow> upstream_group \<Rightarrow> bool \<times> upstream_group" where
  "check_server now i g =
     (let (ok, s) = upstream_server_is_available now (servers g ! i)
      in (ok, g\<lparr>servers := (servers g)[i := s]\<rparr>))"

text \<open>The walk to a start index: the pointer it stops at and the index it has counted.\<close>

fun seek :: "'a list \<Rightarrow> nat \<Rightarrow> nat \<Rightarrow> ptr \<times> nat" where
  "seek [] i target = (None, i)"
| "seek (s # ss) i target = (if i < target then seek ss (Suc i) target else (Some i, i))"

definition next_server :: "upstream_group \<Rightarrow> ptr \<Rightarrow> ptr" where
  "next_server g server =
     (case server of
        Some i \<Rightarrow> if Suc i < length (servers g) then Some (Suc i) else None
      | None \<Rightarrow> if servers g = [] then None else Some 0)"

text \<open>The do-while search shared by round robin and IP hash; None: it never ends.\<close>

partial_function (option) ring_search ::
  "(nat \<Rightarrow> int) \<Rightarrow> nat \<Rightarrow> ptr \<Rightarrow> nat \<Rightarrow> ptr \<Rightarrow> nat \<Rightarrow> upstream_group \<Rightarrow> ((nat \<times> nat) option \<times> upstream_group) option"
where
  "ring_search now k start_server start_index server current_index g =
     (let (ok, g) = (case server of None \<Rightarrow> (False, g) | Some i \<Rightarrow> check_server (now k) i g) in
      if ok then Some (Some (the server, current_index), g)
      else let server = next_server g server;
               current_index = (if server \<noteq> None then (current_index + 1) mod server_count g else 0)
           in if server \<noteq> start_server \<or> current_index \<noteq> start_index
              then ring_search now (Suc k) start_server start_index server current_index g
              else Some (None, g))"

definition lb_round_robin :: "(nat \<Rightarrow> int) \<Rightarrow> upstream_group \<Rightarrow> (ptr \<times> upstream_group) run" where
  "lb_round_robin now g =
     (if server_count g = 0 then Inr (None, g)
      else let (server, i) = seek (servers g) 0 (current_server_index g) in
           case ring_search now 0 server i server i g of
             None \<Rightarrow> Inl Diverges
           | Some (None, g) \<Rightarrow> Inr (None, g)
           | Some (Some (j, ci), g) \<Rightarrow> Inr (Some j, g\<lparr>current_server_index := (ci + 1) mod server_count g\<rparr>))"

text \<open>One server of the weighted scan: its weights move, and it may become the best so far.\<close>

definition wrr_bump :: "upstream_server \<Rightarrow> upstream_server" where
  "wrr_bump s = s\<lparr>current_weight := current_weight s + effective_weight s,
     effective_weight := (if effective_weight s < weight s then effective_weight s + 1 else effective_weight s)\<rparr>"

definition wrr_better :: "nat \<Rightarrow> upstream_server \<Rightarrow> (nat \<times> int) option \<Rightarrow> (nat \<times> int) option" where
  "wrr_better i s best = (case best of None \<Rightarrow> Some (i, current_weight s)
     | Some (b, w) \<Rightarrow> if current_weight s > w then Some (i, current_weight s) else best)"

fun wrr_scan ::
  "(nat \<Rightarrow> int) \<Rightarrow> nat \<Rightarrow> upstream_server list \<Rightarrow> (nat \<times> int) option \<Rightarrow> int \<Rightarrow>
   upstream_server list \<times> (nat \<times> int) option \<times> int" where
  "wrr_scan now i [] best tot = ([], best, tot)"
| "wrr_scan now i (s # ss) best tot =
     (let (ok, s) = upstream_server_is_available (now i) s in
      if ok
      then let s' = wrr_bump s;
               (ss, r) = wrr_scan now (Suc i) ss (wrr_better i s' best) (tot + effective_weight s)
           in (s' # ss, r)
      else let (ss, r) = wrr_scan now (Suc i) ss best tot in (s # ss, r))"

definition lb_weighted_round_robin :: "(nat \<Rightarrow> int) \<Rightarrow> upstream_group \<Rightarrow> (ptr \<times> upstream_group) run" where
  "lb_weighted_round_robin now g =
     (if server_count g = 0 then Inr (None, g)
      else let (ss, best, tot) = wrr_scan now 0 (servers g) None 0 in
           case best of
             None \<Rightarrow> Inr (None, g\<lparr>servers := ss\<rparr>)
           | Some (i, _) \<Rightarrow>
               Inr (Some i, g\<lparr>servers := ss[i := (ss ! i)\<lparr>current_weight := current_weight (ss ! i) - tot\<rparr>]\<rparr>))"

fun least_scan ::
  "(nat \<Rightarrow> int) \<Rightarrow> nat \<Rightarrow> upstream_server list \<Rightarrow> ptr \<Rightarrow> int \<Rightarrow> upstream_server list \<times> ptr" where
  "least_scan now i [] best m = ([], best)"
| "least_scan now i (s # ss) best m =
     (let (ok, s) = upstream_server_is_available (now i) s;
          (ss, r) = (if ok \<and> current_connections s < m
                     then least_scan now (Suc i) ss (Some i) (current_connections s)
                     else least_scan now (Suc i) ss best m)
      in (s # ss, r))"

definition lb_least_connections :: "(nat \<Rightarrow> int) \<Rightarrow> upstream_group \<Rightarrow> (ptr \<times> upstream_group) run" where
  "lb_least_connections now g =
     (if server_count g = 0 then Inr (None, g)
      else let (ss, best) = least_scan now 0 (servers g) None (2 ^ 31 - 1)
           in Inr (best, g\<lparr>servers := ss\<rparr>))"

definition lb_ip_hash :: "(nat \<Rightarrow> int) \<Rightarrow> string option \<Rightarrow> upstream_group \<Rightarrow> (ptr \<times> upstream_group) run" where
  "lb_ip_hash now ip g =
     (if server_count g = 0 \<or> ip = None then Inr (None, g)
      else let target = unat (lb_hash_string ip mod of_nat (server_count g));
               (server, i) = seek (servers g) 0 target in
           case ring_search now 0 server i server i g of
             None \<Rightarrow> Inl Diverges
           | Some (r, g) \<Rightarrow> Inr (map_option fst r, g))"

fun avail_scan :: "(nat \<Rightarrow> int) \<Rightarrow> nat \<Rightarrow> upstream_server list \<Rightarrow> (upstream_server \<Rightarrow> int) \<Rightarrow> int \<times> upstream_server list" where
  "avail_scan now k [] f = (0, [])"
| "avail_scan now k (s # ss) f =
     (let (ok, s) = upstream_server_is_available (now k) s; (n, ss) = avail_scan now (Suc k) ss f
      in ((if ok then f s + n else n), s # ss))"

text \<open>The second pass: the first available server at which \<open>hit\<close> holds of the running sum.\<close>

fun pick_scan ::
  "(nat \<Rightarrow> int) \<Rightarrow> nat \<Rightarrow> nat \<Rightarrow> upstream_server list \<Rightarrow> (upstream_server \<Rightarrow> int) \<Rightarrow>
   (int \<Rightarrow> upstream_server \<Rightarrow> bool) \<Rightarrow> int \<Rightarrow> ptr \<times> upstream_server list" where
  "pick_scan now k i [] f hit acc = (None, [])"
| "pick_scan now k i (s # ss) f hit acc =
     (let (ok, s) = upstream_server_is_available (now k) s in
      if ok
      then if hit acc s then (Some i, s # ss)
           else let (r, ss) = pick_scan now (Suc k) (Suc i) ss f hit (acc + f s) in (r, s # ss)
      else let (r, ss) = pick_scan now (Suc k) (Suc i) ss f hit acc in (r, s # ss))"

definition lb_pick_random ::
  "(upstream_server \<Rightarrow> int) \<Rightarrow> (int \<Rightarrow> int \<Rightarrow> upstream_server \<Rightarrow> bool) \<Rightarrow> (nat \<Rightarrow> int) \<Rightarrow> nat \<Rightarrow>
   upstream_group \<Rightarrow> (ptr \<times> upstream_group) run" where
  "lb_pick_random f hit now r g =
     (if server_count g = 0 then Inr (None, g)
      else let (tot, ss) = avail_scan now 0 (servers g) f in
           if tot = 0 then Inr (None, g\<lparr>servers := ss\<rparr>)
           else let (p, ss) = pick_scan now (length ss) 0 ss f (hit (c_mod (int r) tot)) 0
                in Inr (p, g\<lparr>servers := ss\<rparr>))"

text \<open>
  lb_random counts the available servers and takes the one reached when the count equals the
  target; lb_weighted_random adds up weights and takes the one that carries the sum past it.
\<close>

definition lb_random :: "(nat \<Rightarrow> int) \<Rightarrow> nat \<Rightarrow> upstream_group \<Rightarrow> (ptr \<times> upstream_group) run" where
  "lb_random = lb_pick_random (\<lambda>_. 1) (\<lambda>target acc s. acc = target)"

definition lb_weighted_random :: "(nat \<Rightarrow> int) \<Rightarrow> nat \<Rightarrow> upstream_group \<Rightarrow> (ptr \<times> upstream_group) run" where
  "lb_weighted_random = lb_pick_random weight (\<lambda>target acc s. acc + weight s > target)"

section \<open>Sessions\<close>

definition session_lock :: "session_state \<Rightarrow> session_state run" where
  "session_lock st = (if session_locked st then Inl Deadlock else Inr (st\<lparr>session_locked := True\<rparr>))"

definition session_matches :: "string option \<Rightarrow> string option \<Rightarrow> session_info \<Rightarrow> bool" where
  "session_matches ip sid s \<longleftrightarrow> (ip \<noteq> None \<and> client_ip s = ip) \<or> (sid \<noteq> None \<and> session_id s = sid)"

fun touch_first :: "('a \<Rightarrow> bool) \<Rightarrow> ('a \<Rightarrow> 'a) \<Rightarrow> 'a list \<Rightarrow> ('a \<times> 'a list) option" where
  "touch_first P f [] = None"
| "touch_first P f (x # xs) =
     (if P x then Some (f x, f x # xs)
      else map_option (\<lambda>(y, ys). (y, x # ys)) (touch_first P f xs))"

definition session_find ::
  "int \<Rightarrow> string option \<Rightarrow> string option \<Rightarrow> session_state \<Rightarrow> (session_info option \<times> session_state) run" where
  "session_find now ip sid st =
     (if ip = None \<and> sid = None then Inr (None, st)
      else bindR (session_lock st) (\<lambda>st.
        case touch_first (session_matches ip sid) (\<lambda>s. s\<lparr>session_access := now\<rparr>) (session_table st) of
          None \<Rightarrow> Inr (None, st\<lparr>session_locked := False\<rparr>)
        | Some (s, t) \<Rightarrow> Inr (Some s, st\<lparr>session_table := t, session_locked := False\<rparr>)))"

definition session_bind ::
  "int \<Rightarrow> string option \<Rightarrow> string option \<Rightarrow> addr \<Rightarrow> session_state \<Rightarrow> (int \<times> session_state) run" where
  "session_bind now ip sid server st =
     (if ip = None \<and> sid = None then Inr (-1, st)
      else bindR (session_lock st) (\<lambda>st.
           bindR (session_find now ip sid st) (\<lambda>(existing, st).
           case existing of
             Some _ \<Rightarrow>
               (case touch_first (session_matches ip sid)
                       (\<lambda>s. s\<lparr>session_server := server, session_access := now\<rparr>) (session_table st) of
                  None \<Rightarrow> Inr (0, st\<lparr>session_locked := False\<rparr>)
                | Some (_, t) \<Rightarrow> Inr (0, st\<lparr>session_table := t, session_locked := False\<rparr>))
           | None \<Rightarrow>
               Inr (0, st\<lparr>session_table := \<lparr>client_ip = ip, session_id = sid, session_server = server,
                                          session_access = now\<rparr> # session_table st,
                          session_locked := False\<rparr>))))"

definition session_cleanup_expired :: "int \<Rightarrow> int \<Rightarrow> session_state \<Rightarrow> session_state run" where
  "session_cleanup_expired now timeout st =
     bindR (session_lock st) (\<lambda>st.
       Inr (st\<lparr>session_table := filter (\<lambda>s. \<not> now - session_access s > timeout) (session_table st),
               session_locked := False\<rparr>))"

section \<open>Selection\<close>

fun server_index :: "addr \<Rightarrow> upstream_server list \<Rightarrow> ptr" where
  "server_index a [] = None"
| "server_index a (s # ss) = (if srv_addr s = a then Some 0 else map_option Suc (server_index a ss))"

definition lb_pick ::
  "(nat \<Rightarrow> int) \<Rightarrow> nat \<Rightarrow> string option \<Rightarrow> upstream_group \<Rightarrow> (ptr \<times> upstream_group) run" where
  "lb_pick now r ip g =
     (case g_strategy g of
        LB_STRATEGY_ROUND_ROBIN \<Rightarrow> lb_round_robin now g
      | LB_STRATEGY_WEIGHTED_ROUND_ROBIN \<Rightarrow> lb_weighted_round_robin now g
      | LB_STRATEGY_LEAST_CONNECTIONS \<Rightarrow> lb_least_connections now g
      | LB_STRATEGY_IP_HASH \<Rightarrow> lb_ip_hash now ip g
      | LB_STRATEGY_RANDOM \<Rightarrow> lb_random now r g
      | LB_STRATEGY_WEIGHTED_RANDOM \<Rightarrow> lb_weighted_random now r g)"

text \<open>
  The server a session is bound to, where it is still available. A bound server that is not
  in the group any more has been freed.
\<close>

definition lb_session_server ::
  "(nat \<Rightarrow> int) \<Rightarrow> string option \<Rightarrow> string option \<Rightarrow> upstream_group \<Rightarrow> session_state \<Rightarrow>
   (ptr \<times> upstream_group \<times> session_state) run" where
  "lb_session_server now ip sid g st =
     (if session_persistence g \<and> (ip \<noteq> None \<or> sid \<noteq> None)
      then bindR (session_find (now 0) ip sid st) (\<lambda>(session, st).
           case session of None \<Rightarrow> Inr (None, g, st)
           | Some s \<Rightarrow>
               (case server_index (session_server s) (servers g) of
                  None \<Rightarrow> Inl BadPointer
                | Some i \<Rightarrow> let (ok, g) = check_server (now 1) i g
                           in Inr (if ok then Some i else None, g, st)))
      else Inr (None, g, st))"

definition lb_select_server ::
  "(nat \<Rightarrow> int) \<Rightarrow> nat \<Rightarrow> string option \<Rightarrow> string option \<Rightarrow> upstream_group \<Rightarrow> session_state \<Rightarrow>
   (lb_selection option \<times> upstream_group \<times> session_state) run" where
  "lb_select_server now r ip sid g st =
     (if server_count g = 0 then Inr (None, g, st)
      else
        bindR (lb_session_server now ip sid g st) (\<lambda>(selected, g, st).
        bindR (if selected = None then lb_pick (\<lambda>k. now (k + 2)) r ip g else Inr (selected, g)) (\<lambda>(selected, g).
        case selected of None \<Rightarrow> Inr (None, g, st)
        | Some i \<Rightarrow>
            let s = servers g ! i;
                selection = \<lparr>sel_server = i, proxy_url = lb_build_proxy_url s, connection_id = 0\<rparr>;
                g = g\<lparr>servers := (servers g)[i := s\<lparr>srv_total_requests := srv_total_requests s + 1\<rparr>],
                      total_requests := total_requests g + 1\<rparr>
            in if session_persistence g \<and> (ip \<noteq> None \<or> sid \<noteq> None)
               then bindR (session_bind (now 1) ip sid (srv_addr s) st) (\<lambda>(_, st). Inr (Some selection, g, st))
               else Inr (Some selection, g, st))))"

section \<open>Active checks\<close>

definition lb_health_request :: "upstream_server \<Rightarrow> string" where
  "lb_health_request s =
     snprintf 512 (''GET '' @ health_check_uri s @ '' HTTP/1.1'' @ crlf @
                   ''Host: '' @ host s @ '':'' @ print_int (port s) @ crlf @
                   ''User-Agent: ANX-LoadBalancer/1.0'' @ crlf @ ''Connection: close'' @ crlf @ crlf)"

text \<open>
  \<open>net\<close> is the network: the bytes one recv of at most 1023 bytes gives for a request sent to
  a host and port; None where resolving, connecting, sending or receiving fails.
\<close>

definition lb_health_check_server ::
  "(string \<Rightarrow> int \<Rightarrow> string \<Rightarrow> string option) \<Rightarrow> upstream_server \<Rightarrow> int" where
  "lb_health_check_server net s =
     (case net (host s) (port s) (lb_health_request s) of
        None \<Rightarrow> -1
      | Some response \<Rightarrow>
          if response = [] then -1
          else if strncmp_eq response ''HTTP/1.1 200'' 12 \<or> strncmp_eq response ''HTTP/1.0 200'' 12 then 0
          else -1)"

definition lb_check_one ::
  "(string \<Rightarrow> int \<Rightarrow> string \<Rightarrow> string option) \<Rightarrow> int \<Rightarrow> upstream_server \<Rightarrow> upstream_server" where
  "lb_check_one net now s =
     (if now - last_check_time s \<ge> health_check_interval s
      then let s = (if lb_health_check_server net s = 0
                    then if status s \<noteq> SERVER_STATUS_UP
                         then (upstream_server_set_status now SERVER_STATUS_UP s)\<lparr>consecutive_failures := 0\<rparr>
                         else s
                    else let s = s\<lparr>consecutive_failures := consecutive_failures s + 1, last_failure_time := now\<rparr>
                         in if consecutive_failures s \<ge> max_fails s
                            then upstream_server_set_status now SERVER_STATUS_DOWN s else s)
           in s\<lparr>last_check_time := now\<rparr>
      else s)"

fun check_all_from ::
  "(string \<Rightarrow> int \<Rightarrow> string \<Rightarrow> string option) \<Rightarrow> (nat \<Rightarrow> int) \<Rightarrow> nat \<Rightarrow> upstream_server list \<Rightarrow> upstream_server list" where
  "check_all_from net now k [] = []"
| "check_all_from net now k (s # ss) = lb_check_one net (now k) s # check_all_from net now (Suc k) ss"

definition lb_health_check_all ::
  "(string \<Rightarrow> int \<Rightarrow> string \<Rightarrow> string option) \<Rightarrow> (nat \<Rightarrow> int) \<Rightarrow> upstream_group \<Rightarrow> upstream_group" where
  "lb_health_check_all net now g =
     (if \<not> health_check_enabled g then g else g\<lparr>servers := check_all_from net now 0 (servers g)\<rparr>)"

section \<open>Strategy names\<close>

fun lb_strategy_to_string :: "lb_strategy_t \<Rightarrow> string" where
  "lb_strategy_to_string LB_STRATEGY_ROUND_ROBIN = ''round_robin''"
| "lb_strategy_to_string LB_STRATEGY_WEIGHTED_ROUND_ROBIN = ''weighted_round_robin''"
| "lb_strategy_to_string LB_STRATEGY_LEAST_CONNECTIONS = ''least_conn''"
| "lb_strategy_to_string LB_STRATEGY_IP_HASH = ''ip_hash''"
| "lb_strategy_to_string LB_STRATEGY_RANDOM = ''random''"
| "lb_strategy_to_string LB_STRATEGY_WEIGHTED_RANDOM = ''weighted_random''"

definition lb_strategy_from_string :: "string option \<Rightarrow> lb_strategy_t" where
  "lb_strategy_from_string str =
     (case str of None \<Rightarrow> LB_STRATEGY_ROUND_ROBIN
      | Some t \<Rightarrow>
          if t = ''round_robin'' then LB_STRATEGY_ROUND_ROBIN
          else if t = ''weighted_round_robin'' then LB_STRATEGY_WEIGHTED_ROUND_ROBIN
          else if t = ''least_conn'' then LB_STRATEGY_LEAST_CONNECTIONS
          else if t = ''ip_hash'' then LB_STRATEGY_IP_HASH
          else if t = ''random'' then LB_STRATEGY_RANDOM
          else if t = ''weighted_random'' then LB_STRATEGY_WEIGHTED_RANDOM
          else LB_STRATEGY_ROUND_ROBIN)"


section \<open>Availability\<close>

definition usable :: "int \<Rightarrow> upstream_server \<Rightarrow> bool" where
  "usable now s \<longleftrightarrow> status s \<noteq> SERVER_STATUS_DOWN \<and>
     (max_conns s > 0 \<longrightarrow> current_connections s < max_conns s) \<and>
     (consecutive_failures s \<ge> max_fails s \<longrightarrow> fail_timeout s \<le> now - last_failure_time s)"

text \<open>Available at any time, and unavailable at any time.\<close>

definition ready :: "upstream_server \<Rightarrow> bool" where
  "ready s \<longleftrightarrow> status s \<noteq> SERVER_STATUS_DOWN \<and>
     (max_conns s > 0 \<longrightarrow> current_connections s < max_conns s) \<and> consecutive_failures s < max_fails s"

definition settle :: "int \<Rightarrow> upstream_server \<Rightarrow> upstream_server" where
  "settle now s = (if usable now s \<and> consecutive_failures s \<ge> max_fails s
                   then s\<lparr>consecutive_failures := 0\<rparr> else s)"

lemma available_eq: "upstream_server_is_available now s = (usable now s, settle now s)"
  by (auto simp: upstream_server_is_available_def usable_def settle_def)

lemma ready_usable: "ready s \<Longrightarrow> usable now s" "ready s \<Longrightarrow> settle now s = s"
  by (auto simp: ready_def usable_def settle_def)

lemma settle_unusable: "\<not> usable now s \<Longrightarrow> settle now s = s"
  by (simp add: settle_def)

text \<open>What no availability test changes.\<close>

definition same_identity :: "upstream_server \<Rightarrow> upstream_server \<Rightarrow> bool" where
  "same_identity s t \<longleftrightarrow> srv_addr t = srv_addr s \<and> host t = host s \<and> port t = port s \<and>
     weight t = weight s \<and> status t = status s \<and> current_connections t = current_connections s \<and>
     srv_total_requests t = srv_total_requests s"

lemma same_identity_refl [simp]: "same_identity s s" by (simp add: same_identity_def)

lemma same_identity_trans: "same_identity s t \<Longrightarrow> same_identity t u \<Longrightarrow> same_identity s u"
  by (simp add: same_identity_def)

lemma same_identity_settle [simp]: "same_identity s (settle now s)"
  by (simp add: same_identity_def settle_def)

lemma settle_fields [simp]:
  "weight (settle now s) = weight s" "current_connections (settle now s) = current_connections s"
  "current_weight (settle now s) = current_weight s" "effective_weight (settle now s) = effective_weight s"
  "status (settle now s) = status s" "max_conns (settle now s) = max_conns s"
  by (simp_all add: settle_def)

lemma usable_settle: "usable n (settle m s) \<Longrightarrow> usable n s \<or> usable m s"
  by (auto simp: settle_def split: if_splits)

section \<open>Well-formed groups\<close>

definition group_ok :: "upstream_group \<Rightarrow> bool" where
  "group_ok g \<longleftrightarrow> server_count g = length (servers g) \<and>
     total_weight g = (\<Sum>s\<leftarrow>servers g. weight s) \<and>
     (\<forall>s\<in>set (servers g). 0 < weight s \<and> 0 < port s) \<and>
     distinct (List.map (\<lambda>s. (host s, port s)) (servers g))"

lemma group_ok_create: "group_ok (upstream_group_create name strat)"
  by (simp add: group_ok_def upstream_group_create_def)

lemma group_ok_add:
  "group_ok g \<Longrightarrow> group_ok (snd (upstream_group_add_server a g h p w))"
  by (auto simp: group_ok_def upstream_group_add_server_def upstream_server_create_def same_server_def)

lemma unlink_server_split:
  "unlink_server h p ss = Some (s, rest) \<Longrightarrow>
   \<exists>us vs. ss = us @ s # vs \<and> rest = us @ vs \<and> same_server h p s \<and> (\<forall>u\<in>set us. \<not> same_server h p u)"
proof (induction ss arbitrary: rest)
  case (Cons t ss)
  show ?case
  proof (cases "same_server h p t")
    case True
    then show ?thesis using Cons.prems by (intro exI [of _ "[]"] exI [of _ ss]) auto
  next
    case False
    then obtain r where r: "unlink_server h p ss = Some (s, r)" "rest = t # r"
      using Cons.prems by (auto split: option.splits)
    from Cons.IH [OF r(1)] obtain us vs where "ss = us @ s # vs" "r = us @ vs" "same_server h p s"
      "\<forall>u\<in>set us. \<not> same_server h p u" by blast
    with False r show ?thesis by (intro exI [of _ "t # us"] exI [of _ vs]) auto
  qed
qed simp

lemma unlink_server_none: "unlink_server h p ss = None \<longleftrightarrow> (\<forall>s\<in>set ss. \<not> same_server h p s)"
  by (induction ss) auto

lemma group_ok_remove:
  assumes "group_ok g" shows "group_ok (snd (upstream_group_remove_server g h p))"
proof (cases "p \<le> 0 \<or> unlink_server h p (servers g) = None")
  case True
  then show ?thesis using assms by (auto simp: upstream_group_remove_server_def)
next
  case False
  then obtain s rest where u: "unlink_server h p (servers g) = Some (s, rest)" by auto
  from unlink_server_split [OF this] obtain us vs where "servers g = us @ s # vs" "rest = us @ vs" by blast
  with assms False u show ?thesis by (auto simp: upstream_group_remove_server_def group_ok_def)
qed

text \<open>The servers of a group as a map from host and port.\<close>

definition server_map :: "upstream_group \<Rightarrow> string \<times> int \<Rightarrow> upstream_server option" where
  "server_map g = map_of (List.map (\<lambda>s. ((host s, port s), s)) (servers g))"

lemma get_server_map: "0 < p \<Longrightarrow> upstream_group_get_server g h p = server_map g (h, p)"
proof -
  have "List.find (same_server h p) ss = map_of (List.map (\<lambda>s. ((host s, port s), s)) ss) (h, p)" for ss
    by (induction ss) (auto simp: same_server_def)
  then show "0 < p \<Longrightarrow> ?thesis" by (simp add: upstream_group_get_server_def server_map_def)
qed

lemma server_map_none: "server_map g (h, p) = None \<longleftrightarrow> (\<forall>s\<in>set (servers g). \<not> same_server h p s)"
  by (force simp: server_map_def map_of_eq_None_iff same_server_def)

lemma remove_server_map:
  assumes ok: "group_ok g" and u: "unlink_server h p (servers g) = Some (s, rest)"
  shows "map_of (List.map (\<lambda>s. ((host s, port s), s)) rest) = (server_map g)((h, p) := None)"
proof -
  obtain us vs where uv: "servers g = us @ s # vs" "rest = us @ vs" "same_server h p s"
    using unlink_server_split [OF u] by blast
  let ?f = "\<lambda>s. ((host s, port s), s)"
  have "(h, p) \<notin> fst ` set (List.map ?f us)" "(h, p) \<notin> fst ` set (List.map ?f vs)"
    using ok uv by (auto simp: group_ok_def same_server_def)
  then have "map_of (List.map ?f vs) (h, p) = None" "map_of (List.map ?f us) (h, p) = None"
    by (simp_all only: map_of_eq_None_iff not_False_eq_True)
  with uv show ?thesis
    by (auto simp: server_map_def same_server_def fun_eq_iff map_add_def split: option.split)
qed


section \<open>The ring search\<close>

lemma check_eq:
  "check_server now i g = (usable now (servers g ! i), g\<lparr>servers := (servers g)[i := settle now (servers g ! i)]\<rparr>)"
  by (simp add: check_server_def available_eq)

lemma check_unusable:
  assumes "\<not> usable now (servers g ! i)" shows "check_server now i g = (False, g)"
  using assms by (simp add: check_eq settle_unusable)

lemma ring_search_hit:
  "usable (now k) (servers g ! i) \<Longrightarrow> ring_search now k st si (Some i) ci g =
     Some (Some (i, ci), g\<lparr>servers := (servers g)[i := settle (now k) (servers g ! i)]\<rparr>)"
  by (subst ring_search.simps) (simp add: check_eq)

definition ring_index :: "upstream_group \<Rightarrow> ptr \<Rightarrow> nat \<Rightarrow> nat" where
  "ring_index g server i = (if server \<noteq> None then (i + 1) mod server_count g else 0)"

lemma ring_search_miss:
  assumes "\<And>i. sv = Some i \<Longrightarrow> \<not> usable (now k) (servers g ! i)"
  shows "ring_search now k st si sv ci g =
    (if next_server g sv \<noteq> st \<or> ring_index g (next_server g sv) ci \<noteq> si
     then ring_search now (Suc k) st si (next_server g sv) (ring_index g (next_server g sv) ci) g
     else Some (None, g))"
  using assms
  by (subst ring_search.simps) (cases sv; simp add: check_unusable Let_def ring_index_def)

text \<open>
  The positions the search passes: the rest of the first lap, where the index is the position,
  the end of the list, and the later laps, where the index is one ahead of the position.
\<close>

definition on_ring :: "upstream_group \<Rightarrow> nat \<Rightarrow> ptr \<Rightarrow> nat \<Rightarrow> bool" where
  "on_ring g i0 sv ci \<longleftrightarrow> (case sv of None \<Rightarrow> ci = 0
     | Some j \<Rightarrow> j < length (servers g) \<and> (ci = j \<and> i0 \<le> j \<or> ci = (j + 1) mod server_count g))"

definition ring_start :: "upstream_group \<Rightarrow> ptr \<Rightarrow> nat \<Rightarrow> bool" where
  "ring_start g st si \<longleftrightarrow>
     (case st of None \<Rightarrow> si = length (servers g)
      | Some i \<Rightarrow> i = si \<and> i < length (servers g) \<and> length (servers g) \<noteq> 1)"

lemma ring_next:
  assumes n: "server_count g = length (servers g)" "servers g \<noteq> []"
    and st: "ring_start g st si" and on: "on_ring g si sv ci"
  shows "on_ring g si (next_server g sv) (ring_index g (next_server g sv) ci)"
    and "next_server g sv \<noteq> st \<or> ring_index g (next_server g sv) ci \<noteq> si"
proof -
  let ?n = "length (servers g)"
  have pos: "0 < ?n" using n by simp
  have goal: "on_ring g si (next_server g sv) (ring_index g (next_server g sv) ci) \<and>
    (next_server g sv \<noteq> st \<or> ring_index g (next_server g sv) ci \<noteq> si)"
  proof (cases sv)
    case None
    then have nx: "next_server g sv = Some 0" "ring_index g (next_server g sv) ci = 1 mod ?n"
      using n on by (simp_all add: next_server_def ring_index_def on_ring_def)
    have "Some 0 \<noteq> st \<or> 1 mod ?n \<noteq> si"
      using st pos by (cases st) (auto simp: ring_start_def mod_eq_self_iff_div_eq_0 mod_if split: if_splits)
    with nx n pos show ?thesis by (simp add: on_ring_def)
  next
    case (Some j)
    then have j: "j < ?n" "ci = j \<and> si \<le> j \<or> ci = (j + 1) mod ?n" using on n by (auto simp: on_ring_def)
    show ?thesis
    proof (cases "Suc j < ?n")
      case True
      then have nx: "next_server g sv = Some (Suc j)" "ring_index g (next_server g sv) ci = (ci + 1) mod ?n"
        using Some n by (simp_all add: next_server_def ring_index_def)
      have ci: "(ci + 1) mod ?n = Suc j \<and> si \<le> Suc j \<and> ci = j \<and> si \<le> j \<or> (ci + 1) mod ?n = (Suc j + 1) mod ?n"
        using j True by auto
      have "Some (Suc j) \<noteq> st \<or> (ci + 1) mod ?n \<noteq> si"
      proof (rule ccontr)
        assume "\<not> ?thesis"
        then have e: "st = Some (Suc j)" "si = (ci + 1) mod ?n" by auto
        with st have "si = Suc j" "?n \<noteq> 1" by (simp_all add: ring_start_def)
        with ci e(2) have "(Suc j + 1) mod ?n = Suc j" by linarith
        then show False using True by (cases "Suc (Suc j) = ?n") (auto simp: mod_if split: if_splits)
      qed
      with nx ci True n show ?thesis by (auto simp: on_ring_def)
    next
      case False
      then have "next_server g sv = None" "ring_index g (next_server g sv) ci = 0"
        using Some by (simp_all add: next_server_def ring_index_def)
      with st pos show ?thesis by (auto simp: on_ring_def ring_start_def split: option.splits)
    qed
  qed
  then show "on_ring g si (next_server g sv) (ring_index g (next_server g sv) ci)"
    and "next_server g sv \<noteq> st \<or> ring_index g (next_server g sv) ci \<noteq> si" by blast+
qed

text \<open>No server is ever usable: the search does not end.\<close>

lemma ring_search_spins:
  assumes n: "server_count g = length (servers g)" "servers g \<noteq> []" and st: "ring_start g st si"
    and dead: "\<forall>s\<in>set (servers g). \<forall>t. \<not> usable t s" and on: "on_ring g si sv ci"
  shows "ring_search now k st si sv ci g = None"
proof -
  have "\<not> (g' = g \<and> st' = st \<and> si' = si \<and> on_ring g si sv' ci')"
    if "ring_search now' k' st' si' sv' ci' g' = Some w" for now' k' st' si' sv' ci' g' w
  proof (rule ring_search.raw_induct
      [of "\<lambda>_ _ st' si' sv' ci' g' _. \<not> (g' = g \<and> st' = st \<and> si' = si \<and> on_ring g si sv' ci')", OF _ that])
    fix f now k st' si' sv ci g' w
    assume ih: "\<And>now k st' si' sv ci g' w. f now k st' si' sv ci g' = Some w \<Longrightarrow>
        \<not> (g' = g \<and> st' = st \<and> si' = si \<and> on_ring g si sv ci)"
      and run: "(let (ok, g) = (case sv of None \<Rightarrow> (False, g') | Some i \<Rightarrow> check_server (now k) i g')
         in if ok then Some (Some (the sv, ci), g)
            else let server = next_server g sv;
                     current_index = (if server \<noteq> None then (ci + 1) mod server_count g else 0)
                 in if server \<noteq> st' \<or> current_index \<noteq> si'
                    then f now (Suc k) st' si' server current_index g else Some (None, g)) = Some w"
    show "\<not> (g' = g \<and> st' = st \<and> si' = si \<and> on_ring g si sv ci)"
    proof
      assume e: "g' = g \<and> st' = st \<and> si' = si \<and> on_ring g si sv ci"
      then have eqs: "g' = g" "st' = st" "si' = si" and on: "on_ring g si sv ci" by auto
      have miss: "(case sv of None \<Rightarrow> (False, g) | Some i \<Rightarrow> check_server (now k) i g) = (False, g)"
        using on dead by (auto simp: on_ring_def check_unusable split: option.splits)
      have "(if next_server g sv \<noteq> st \<or> ring_index g (next_server g sv) ci \<noteq> si
         then f now (Suc k) st si (next_server g sv) (ring_index g (next_server g sv) ci) g
         else Some (None, g)) = Some w"
        using run unfolding eqs miss by (simp only: Let_def prod.case if_False ring_index_def)
      with ring_next(2) [OF n st on]
      have "f now (Suc k) st si (next_server g sv) (ring_index g (next_server g sv) ci) g = Some w"
        by presburger
      from ih [OF this] e ring_next(1) [OF n st, of sv ci] show False by blast
    qed
  qed
  with on show ?thesis by (cases "ring_search now k st si sv ci g") auto
qed

text \<open>A server that is always ready: the search finds one that is usable when it is tested.\<close>

lemma ring_search_finds:
  assumes n: "server_count g = length (servers g)" "servers g \<noteq> []" and st: "ring_start g st si"
    and r: "r < length (servers g)" "\<forall>t. usable t (servers g ! r)"
  shows "on_ring g si sv ci \<Longrightarrow> \<exists>j c k'. ring_search now k st si sv ci g =
      Some (Some (j, c), g\<lparr>servers := (servers g)[j := settle (now k') (servers g ! j)]\<rparr>) \<and>
      j < length (servers g) \<and> usable (now k') (servers g ! j)"
proof (induction "case sv of None \<Rightarrow> r + 1 | Some j \<Rightarrow> if j \<le> r then r - j else length (servers g) + 1 + r - j"
    arbitrary: sv ci k rule: less_induct)
  case less
  show ?case
  proof (cases "\<exists>i. sv = Some i \<and> usable (now k) (servers g ! i)")
    case True
    then obtain i where i: "sv = Some i" "usable (now k) (servers g ! i)" by blast
    with less.prems have "i < length (servers g)" by (simp add: on_ring_def)
    with i show ?thesis by (auto simp: ring_search_hit)
  next
    case False
    then have miss: "\<And>i. sv = Some i \<Longrightarrow> \<not> usable (now k) (servers g ! i)" by blast
    note nx = ring_next [OF n st less.prems]
    have "(case next_server g sv of None \<Rightarrow> r + 1 | Some j \<Rightarrow> if j \<le> r then r - j else length (servers g) + 1 + r - j)
        < (case sv of None \<Rightarrow> r + 1 | Some j \<Rightarrow> if j \<le> r then r - j else length (servers g) + 1 + r - j)"
    proof (cases sv)
      case None
      then show ?thesis using n by (simp add: next_server_def)
    next
      case (Some j)
      then have "j \<noteq> r" "j < length (servers g)" using miss r less.prems by (auto simp: on_ring_def)
      with Some r(1) show ?thesis by (auto simp: next_server_def)
    qed
    moreover have "ring_search now k st si sv ci g = ring_search now (Suc k) st si (next_server g sv)
        (ring_index g (next_server g sv) ci) g"
      using ring_search_miss [of sv now k g st si ci] miss nx(2) by simp
    ultimately show ?thesis using less.hyps [OF _ nx(1), of "Suc k"] by simp
  qed
qed

lemma seek_eq: "seek ss i target = (if target < i + length ss \<and> ss \<noteq> [] then (Some (max i target), max i target)
    else if ss = [] then (None, i) else (None, i + length ss))"
  by (induction ss i target rule: seek.induct) (auto simp: max_def)


lemma ring_search_result:
  assumes "ring_search now k st si sv ci g = Some (p, g')" "\<And>i. sv = Some i \<Longrightarrow> i < length (servers g)"
  shows "case p of None \<Rightarrow> g' = g
     | Some (j, c) \<Rightarrow> j < length (servers g) \<and> (\<exists>k. usable (now k) (servers g ! j) \<and>
         g' = g\<lparr>servers := (servers g)[j := settle (now k) (servers g ! j)]\<rparr>)"
proof -
  let ?P = "\<lambda>now k st si sv ci g w. (\<forall>i. sv = Some i \<longrightarrow> i < length (servers g)) \<longrightarrow>
    (case fst w of None \<Rightarrow> snd w = g
     | Some (j, c) \<Rightarrow> j < length (servers g) \<and> (\<exists>k. usable (now k) (servers g ! j) \<and>
         snd w = g\<lparr>servers := (servers g)[j := settle (now k) (servers g ! j)]\<rparr>))"
  have "?P now k st si sv ci g (p, g')"
  proof (rule ring_search.raw_induct [of ?P, OF _ assms(1)])
    fix f now k st si sv ci g w
    assume ih: "\<And>now k st si sv ci g w. f now k st si sv ci g = Some w \<Longrightarrow> ?P now k st si sv ci g w"
      and run: "(let (ok, g) = (case sv of None \<Rightarrow> (False, g) | Some i \<Rightarrow> check_server (now k) i g)
         in if ok then Some (Some (the sv, ci), g)
            else let server = next_server g sv;
                     current_index = (if server \<noteq> None then (ci + 1) mod server_count g else 0)
                 in if server \<noteq> st \<or> current_index \<noteq> si
                    then f now (Suc k) st si server current_index g else Some (None, g)) = Some w"
    show "?P now k st si sv ci g w"
    proof
      assume rng: "\<forall>i. sv = Some i \<longrightarrow> i < length (servers g)"
      show "case fst w of None \<Rightarrow> snd w = g
        | Some (j, c) \<Rightarrow> j < length (servers g) \<and> (\<exists>k. usable (now k) (servers g ! j) \<and>
            snd w = g\<lparr>servers := (servers g)[j := settle (now k) (servers g ! j)]\<rparr>)"
      proof (cases "\<exists>i. sv = Some i \<and> usable (now k) (servers g ! i)")
        case True
        then obtain i where i: "sv = Some i" "usable (now k) (servers g ! i)" by blast
        then have "w = (Some (i, ci), g\<lparr>servers := (servers g)[i := settle (now k) (servers g ! i)]\<rparr>)"
          using run by (simp add: check_eq)
        with i rng show ?thesis by (simp, intro exI [of _ k]) simp
      next
        case False
        then have miss: "(case sv of None \<Rightarrow> (False, g) | Some i \<Rightarrow> check_server (now k) i g) = (False, g)"
          by (auto simp: check_unusable split: option.splits)
        have rng': "\<forall>i. next_server g sv = Some i \<longrightarrow> i < length (servers g)"
          by (auto simp: next_server_def split: option.splits if_splits)
        have "(if next_server g sv \<noteq> st \<or> ring_index g (next_server g sv) ci \<noteq> si
           then f now (Suc k) st si (next_server g sv) (ring_index g (next_server g sv) ci) g
           else Some (None, g)) = Some w"
          using run unfolding miss by (simp only: Let_def prod.case if_False ring_index_def)
        then have "w = (None, g) \<or>
            f now (Suc k) st si (next_server g sv) (ring_index g (next_server g sv) ci) g = Some w"
          by (metis option.inject)
        with ih rng' show ?thesis by fastforce
      qed
    qed
  qed
  with assms(2) show ?thesis by (cases p) auto
qed

section \<open>What every strategy keeps\<close>

definition same_group :: "upstream_group \<Rightarrow> upstream_group \<Rightarrow> bool" where
  "same_group g g' \<longleftrightarrow> list_all2 same_identity (servers g) (servers g') \<and>
     server_count g' = server_count g \<and> total_weight g' = total_weight g \<and> g_name g' = g_name g \<and>
     g_strategy g' = g_strategy g \<and> session_persistence g' = session_persistence g \<and>
     total_requests g' = total_requests g"

lemma same_identity_update:
  "list_all2 same_identity ss ss' \<Longrightarrow> (i < length ss \<Longrightarrow> same_identity (ss ! i) y) \<Longrightarrow>
   list_all2 same_identity ss (ss'[i := y])"
  by (cases "i < length ss") (auto simp: list_all2_conv_all_nth nth_list_update list_update_beyond)

lemma same_identity_list_refl [simp]: "list_all2 same_identity ss ss"
  by (simp add: list_all2_conv_all_nth)

lemma wrr_step:
  "usable (now i) s \<Longrightarrow> wrr_scan now i (s # ss) best tot =
     (let s' = wrr_bump (settle (now i) s); (ss', r) = wrr_scan now (Suc i) ss (wrr_better i s' best) (tot + effective_weight s)
      in (s' # ss', r))"
  "\<not> usable (now i) s \<Longrightarrow> wrr_scan now i (s # ss) best tot =
     (let (ss', r) = wrr_scan now (Suc i) ss best tot in (s # ss', r))"
  by (simp_all add: available_eq Let_def settle_unusable)

lemma wrr_scan_frame:
  "wrr_scan now i ss best tot = (ss', b, t) \<Longrightarrow> list_all2 same_identity ss ss' \<and>
   (b = best \<or> (\<exists>j w. b = Some (i + j, w) \<and> j < length ss \<and> usable (now (i + j)) (ss ! j)))"
proof (induction ss arbitrary: i best tot ss' b t)
  case (Cons s ss)
  show ?case
  proof (cases "usable (now i) s")
    case True
    define s' where "s' = wrr_bump (settle (now i) s)"
    obtain ss1 where r: "wrr_scan now (Suc i) ss (wrr_better i s' best) (tot + effective_weight s) = (ss1, b, t)" "ss' = s' # ss1"
      using Cons.prems True by (auto simp: wrr_step s'_def Let_def simp del: wrr_scan.simps split: prod.splits)
    have "same_identity s s'" by (simp add: s'_def wrr_bump_def same_identity_def settle_def)
    moreover have "wrr_better i s' best = best \<or> (\<exists>w. wrr_better i s' best = Some (i, w))"
      by (auto simp: wrr_better_def split: option.splits)
    ultimately show ?thesis using Cons.IH [OF r(1)] True r(2) by fastforce
  next
    case False
    then obtain ss1 where r: "wrr_scan now (Suc i) ss best tot = (ss1, b, t)" "ss' = s # ss1"
      using Cons.prems by (auto simp: wrr_step simp del: wrr_scan.simps split: prod.splits)
    with Cons.IH [OF r(1)] show ?thesis by fastforce
  qed
qed simp

lemma least_scan_frame:
  "least_scan now i ss best m = (ss', b) \<Longrightarrow> list_all2 same_identity ss ss' \<and>
   (b = best \<or> (\<exists>j. b = Some (i + j) \<and> j < length ss \<and> usable (now (i + j)) (ss ! j)))"
proof (induction ss arbitrary: i best m ss' b)
  case (Cons s ss)
  define best' where "best' = (if usable (now i) s \<and> current_connections s < m then Some i else best)"
  define m' where "m' = (if usable (now i) s \<and> current_connections s < m then current_connections s else m)"
  obtain ss1 where r: "least_scan now (Suc i) ss best' m' = (ss1, b)" "ss' = settle (now i) s # ss1"
    using Cons.prems by (auto simp: available_eq best'_def m'_def split: prod.splits if_splits)
  have "best' = best \<or> best' = Some i \<and> usable (now i) s" by (simp add: best'_def)
  with Cons.IH [OF r(1)] r(2) show ?case by fastforce
qed simp

lemma avail_scan_eq:
  "avail_scan now k ss f = ((\<Sum>j<length ss. if usable (now (k + j)) (ss ! j) then f (settle (now (k + j)) (ss ! j)) else 0),
     List.map (\<lambda>(j, s). settle (now (k + j)) s) (enumerate 0 ss))"
proof (induction ss arbitrary: k)
  case (Cons s ss)
  have "enumerate (Suc 0) ss = List.map (\<lambda>(j, s). (Suc j, s)) (enumerate 0 ss)"
    by (simp add: enumerate_Suc_eq apfst_def map_prod_def)
  then show ?case
    by (simp add: available_eq Cons.IH sum.lessThan_Suc_shift del: sum.lessThan_Suc cong: if_cong)
      (auto simp: comp_def split_beta)
qed simp

lemma pick_scan_frame:
  "pick_scan now k i ss f hit acc = (p, ss') \<Longrightarrow> list_all2 same_identity ss ss' \<and>
   (\<forall>x. p = Some x \<longrightarrow> (\<exists>j. x = i + j \<and> j < length ss \<and> usable (now (k + j)) (ss ! j)))"
proof (induction ss arbitrary: k i acc p ss')
  case (Cons s ss)
  show ?case
  proof (cases "usable (now k) s \<and> hit acc (settle (now k) s)")
    case True
    with Cons.prems show ?thesis by (auto simp: available_eq)
  next
    case False
    then obtain acc' ss1 where r: "pick_scan now (Suc k) (Suc i) ss f hit acc' = (p, ss1)" "ss' = settle (now k) s # ss1"
      using Cons.prems by (auto simp: available_eq split: prod.splits if_splits)
    from Cons.IH [OF r(1)] r(2) show ?thesis by fastforce
  qed
qed simp


section \<open>The contract of a strategy\<close>

text \<open>
  What lb_select_server relies on: a picked server is one of the group's and was usable at one
  of the clock readings, and picking changes neither the servers' identity nor the group's
  counters.
\<close>

locale server_picker =
  fixes pick :: "(nat \<Rightarrow> int) \<Rightarrow> upstream_group \<Rightarrow> (ptr \<times> upstream_group) run"
  assumes pick_usable: "pick now g = Inr (Some i, g') \<Longrightarrow> i < length (servers g) \<and> (\<exists>k. usable (now k) (servers g ! i))"
    and pick_frame: "pick now g = Inr (p, g') \<Longrightarrow> same_group g g'"
begin

text \<open>The url of the picked server is that of the server in the group before the pick.\<close>

lemma picked_url:
  assumes "pick now g = Inr (Some i, g')"
  shows "lb_build_proxy_url (servers g' ! i) = lb_build_proxy_url (servers g ! i)"
    "same_identity (servers g ! i) (servers g' ! i)" "i < length (servers g')"
proof -
  have i: "i < length (servers g)" using pick_usable [OF assms] by blast
  have l: "list_all2 same_identity (servers g) (servers g')" using pick_frame [OF assms] by (simp add: same_group_def)
  then show id: "same_identity (servers g ! i) (servers g' ! i)" using i by (simp add: list_all2_nthD)
  then show "lb_build_proxy_url (servers g' ! i) = lb_build_proxy_url (servers g ! i)"
    by (simp add: same_identity_def lb_build_proxy_url_def)
  show "i < length (servers g')" using l i by (simp add: list_all2_lengthD)
qed

lemma never_unusable:
  assumes "\<forall>s\<in>set (servers g). \<forall>t. \<not> usable t s" "pick now g = Inr (p, g')"
  shows "p = None"
  using assms pick_usable [of now g] by (cases p) auto

end

lemma same_group_refl [simp]: "same_group g g" by (simp add: same_group_def)

lemma same_group_update [simp]:
  "list_all2 same_identity (servers g) ss \<Longrightarrow> same_group g (g\<lparr>servers := ss\<rparr>)"
  "same_group g (g\<lparr>servers := ss, current_server_index := c\<rparr>) = same_group g (g\<lparr>servers := ss\<rparr>)"
  by (simp_all add: same_group_def)

lemma seek_bound: "seek (servers g) 0 t = (Some i, j) \<Longrightarrow> i < length (servers g)"
  by (auto simp: seek_eq split: if_splits)

lemma ring_pick:
  assumes "seek (servers g) 0 t = (sv, i)" "ring_search now 0 sv i sv i g = Some (p, g')"
  shows "(\<forall>j c. p = Some (j, c) \<longrightarrow> j < length (servers g) \<and> (\<exists>k. usable (now k) (servers g ! j)))"
    "list_all2 same_identity (servers g) (servers g') \<and> same_group g g'"
proof -
  have r: "\<And>i. sv = Some i \<Longrightarrow> i < length (servers g)" using assms(1) seek_bound by blast
  note res = ring_search_result [OF assms(2) r]
  show "\<forall>j c. p = Some (j, c) \<longrightarrow> j < length (servers g) \<and> (\<exists>k. usable (now k) (servers g ! j))"
    using res by auto
  show "list_all2 same_identity (servers g) (servers g') \<and> same_group g g'"
    using res by (auto split: option.splits intro!: same_identity_update same_group_update(1))
qed

interpretation round_robin: server_picker lb_round_robin
proof
  fix now :: "nat \<Rightarrow> int" and g i g' assume run: "lb_round_robin now g = Inr (Some i, g')"
  obtain sv j where s: "seek (servers g) 0 (current_server_index g) = (sv, j)" by fastforce
  with run obtain p g1 where "ring_search now 0 sv j sv j g = Some (Some (i, p), g1)"
    by (auto simp: lb_round_robin_def split: option.splits if_splits)
  from ring_pick(1) [OF s this] show "i < length (servers g) \<and> (\<exists>k. usable (now k) (servers g ! i))" by blast
next
  fix now :: "nat \<Rightarrow> int" and g p g' assume run: "lb_round_robin now g = Inr (p, g')"
  obtain sv j where s: "seek (servers g) 0 (current_server_index g) = (sv, j)" by fastforce
  show "same_group g g'"
  proof (cases "server_count g = 0")
    case False
    with run s obtain q g1 where r: "ring_search now 0 sv j sv j g = Some (q, g1)"
      "\<exists>c. g' = g1\<lparr>current_server_index := c\<rparr>"
    proof -
      from run s False obtain q g1 where "ring_search now 0 sv j sv j g = Some (q, g1)"
        "g' = (case q of None \<Rightarrow> g1 | Some (_, ci) \<Rightarrow> g1\<lparr>current_server_index := (ci + 1) mod server_count g1\<rparr>)"
        by (auto simp: lb_round_robin_def split: option.splits)
      moreover have "g1 = g1\<lparr>current_server_index := current_server_index g1\<rparr>" by simp
      ultimately show ?thesis by (intro that [of q g1]) (auto split: option.splits intro: exI [of _ "current_server_index g1"])
    qed
    with ring_pick(2) [OF s r(1)] show ?thesis by (auto simp: same_group_def)
  qed (use run in \<open>simp add: lb_round_robin_def\<close>)
qed

interpretation ip_hash: server_picker "\<lambda>now. lb_ip_hash now ip" for ip
proof
  fix now :: "nat \<Rightarrow> int" and g i g' assume run: "lb_ip_hash now ip g = Inr (Some i, g')"
  obtain sv j where s: "seek (servers g) 0 (unat (lb_hash_string ip mod of_nat (server_count g))) = (sv, j)" by fastforce
  with run obtain p g1 where "ring_search now 0 sv j sv j g = Some (Some (i, p), g1)"
    by (auto simp: lb_ip_hash_def split: option.splits if_splits)
  from ring_pick(1) [OF s this] show "i < length (servers g) \<and> (\<exists>k. usable (now k) (servers g ! i))" by blast
next
  fix now :: "nat \<Rightarrow> int" and g p g' assume run: "lb_ip_hash now ip g = Inr (p, g')"
  obtain sv j where s: "seek (servers g) 0 (unat (lb_hash_string ip mod of_nat (server_count g))) = (sv, j)" by fastforce
  show "same_group g g'"
  proof (cases "server_count g = 0 \<or> ip = None")
    case False
    with run s obtain q where r: "ring_search now 0 sv j sv j g = Some (q, g')"
      by (auto simp: lb_ip_hash_def split: option.splits)
    with ring_pick(2) [OF s r] show ?thesis by blast
  qed (use run in \<open>auto simp: lb_ip_hash_def\<close>)
qed

interpretation weighted_round_robin: server_picker lb_weighted_round_robin
proof
  fix now :: "nat \<Rightarrow> int" and g i g' assume run: "lb_weighted_round_robin now g = Inr (Some i, g')"
  obtain ss b t where s: "wrr_scan now 0 (servers g) None 0 = (ss, b, t)" by (metis prod_cases3)
  with run have "\<exists>w. b = Some (i, w)" by (auto simp: lb_weighted_round_robin_def split: option.splits if_splits)
  with wrr_scan_frame [OF s] show "i < length (servers g) \<and> (\<exists>k. usable (now k) (servers g ! i))" by auto
next
  fix now :: "nat \<Rightarrow> int" and g p g' assume run: "lb_weighted_round_robin now g = Inr (p, g')"
  obtain ss b t where s: "wrr_scan now 0 (servers g) None 0 = (ss, b, t)" by (metis prod_cases3)
  have l: "list_all2 same_identity (servers g) ss" using wrr_scan_frame [OF s] by blast
  have "list_all2 same_identity (servers g) (ss[i := (ss ! i)\<lparr>current_weight := w\<rparr>])" for i w
    by (rule same_identity_update [OF l]) (use l in \<open>auto simp: list_all2_conv_all_nth same_identity_def\<close>)
  with run s l show "same_group g g'"
    by (auto simp: lb_weighted_round_robin_def split: option.splits if_splits)
qed

interpretation least_connections: server_picker lb_least_connections
proof
  fix now :: "nat \<Rightarrow> int" and g i g' assume run: "lb_least_connections now g = Inr (Some i, g')"
  obtain ss b where s: "least_scan now 0 (servers g) None (2 ^ 31 - 1) = (ss, b)" by fastforce
  with run have "b = Some i" by (auto simp: lb_least_connections_def split: if_splits)
  with least_scan_frame [OF s] show "i < length (servers g) \<and> (\<exists>k. usable (now k) (servers g ! i))" by auto
next
  fix now :: "nat \<Rightarrow> int" and g p g' assume run: "lb_least_connections now g = Inr (p, g')"
  obtain ss b where s: "least_scan now 0 (servers g) None (2 ^ 31 - 1) = (ss, b)" by fastforce
  with run least_scan_frame [OF s] show "same_group g g'"
    by (auto simp: lb_least_connections_def split: if_splits)
qed

lemma avail_scan_frame:
  assumes "avail_scan now k ss f = (n, ss')"
  shows "list_all2 same_identity ss ss'" "j < length ss \<Longrightarrow> ss' ! j = settle (now (k + j)) (ss ! j)" "length ss' = length ss"
  using assms by (auto simp: avail_scan_eq list_all2_conv_all_nth nth_enumerate_eq)

lemma pick_random_ok:
  assumes run: "lb_pick_random f hit now r g = Inr (p, g')"
  shows "same_group g g'" "p = Some i \<Longrightarrow> i < length (servers g) \<and> (\<exists>k. usable (now k) (servers g ! i))"
proof -
  obtain n ss where a: "avail_scan now 0 (servers g) f = (n, ss)" by fastforce
  note av = avail_scan_frame [OF a]
  obtain q ss' where p: "pick_scan now (length ss) 0 ss f (hit (c_mod (int r) n)) 0 = (q, ss')" by fastforce
  note pk = pick_scan_frame [OF p]
  have tr: "list_all2 same_identity (servers g) ss'"
    by (rule list_all2_trans [OF same_identity_trans av(1) conjunct1 [OF pk]])
  show "same_group g g'" using run a p av(1) tr by (auto simp: lb_pick_random_def split: if_splits)
  assume "p = Some i"
  with run a p have "q = Some i" by (auto simp: lb_pick_random_def split: if_splits)
  with pk have i: "i < length ss" "usable (now (length ss + i)) (ss ! i)" by auto
  with av(2) [of i] av(3) usable_settle [of "now (length ss + i)" "now i" "servers g ! i"]
  show "i < length (servers g) \<and> (\<exists>k. usable (now k) (servers g ! i))" by auto
qed

interpretation random: server_picker "\<lambda>now. lb_random now r" for r
  by unfold_locales (auto simp: lb_random_def dest: pick_random_ok)

interpretation weighted_random: server_picker "\<lambda>now. lb_weighted_random now r" for r
  by unfold_locales (auto simp: lb_weighted_random_def dest: pick_random_ok)

interpretation any_strategy: server_picker "\<lambda>now. lb_pick now r ip" for r ip
proof
  fix now :: "nat \<Rightarrow> int" and g i g' assume "lb_pick now r ip g = Inr (Some i, g')"
  then show "i < length (servers g) \<and> (\<exists>k. usable (now k) (servers g ! i))"
    using round_robin.pick_usable weighted_round_robin.pick_usable least_connections.pick_usable
      ip_hash.pick_usable random.pick_usable weighted_random.pick_usable
    by (cases "g_strategy g") (simp_all add: lb_pick_def)
next
  fix now :: "nat \<Rightarrow> int" and g p g' assume "lb_pick now r ip g = Inr (p, g')"
  then show "same_group g g'"
    using round_robin.pick_frame weighted_round_robin.pick_frame least_connections.pick_frame
      ip_hash.pick_frame random.pick_frame weighted_random.pick_frame
    by (cases "g_strategy g") (simp_all add: lb_pick_def)
qed


section \<open>Repeated selection\<close>

fun repeat_pick ::
  "(upstream_group \<Rightarrow> (ptr \<times> upstream_group) run) \<Rightarrow> nat \<Rightarrow> upstream_group \<Rightarrow> (ptr list \<times> upstream_group) run" where
  "repeat_pick pick 0 g = Inr ([], g)"
| "repeat_pick pick (Suc n) g =
     bindR (pick g) (\<lambda>(p, g). bindR (repeat_pick pick n g) (\<lambda>(ps, g). Inr (p # ps, g)))"

section \<open>Weighted round robin is fair\<close>

definition steady :: "upstream_server \<Rightarrow> bool" where
  "steady s \<longleftrightarrow> ready s \<and> 0 < weight s \<and> effective_weight s = weight s"

lemma steady_bump: "steady s \<Longrightarrow> steady (wrr_bump s) \<and> weight (wrr_bump s) = weight s \<and>
    current_weight (wrr_bump s) = current_weight s + weight s"
  by (simp add: steady_def wrr_bump_def ready_def)

lemma wrr_scan_steady:
  "\<forall>s\<in>set ss. steady s \<Longrightarrow> \<exists>b. wrr_scan now i ss best tot = (List.map wrr_bump ss, b, tot + (\<Sum>s\<leftarrow>ss. weight s)) \<and>
     (case b of None \<Rightarrow> best = None \<and> ss = []
      | Some (x, w) \<Rightarrow> (\<forall>y v. best = Some (y, v) \<longrightarrow> v \<le> w) \<and>
          (\<forall>s\<in>set ss. current_weight s + weight s \<le> w) \<and>
          (best = Some (x, w) \<or> (\<exists>j<length ss. x = i + j \<and> w = current_weight (ss ! j) + weight (ss ! j))))"
proof (induction ss arbitrary: i best tot)
  case Nil
  then show ?case by (auto split: option.split)
next
  case (Cons s ss)
  have s: "usable (now i) s" "settle (now i) s = s" "effective_weight s = weight s"
    using Cons.prems by (simp_all add: steady_def ready_usable)
  have cw: "current_weight (wrr_bump s) = current_weight s + weight s" using Cons.prems steady_bump by simp
  from Cons.IH [of "Suc i" "wrr_better i (wrr_bump s) best" "tot + weight s"] Cons.prems
  obtain b where b: "wrr_scan now (Suc i) ss (wrr_better i (wrr_bump s) best) (tot + weight s)
      = (List.map wrr_bump ss, b, tot + weight s + (\<Sum>s\<leftarrow>ss. weight s))"
    and best: "case b of None \<Rightarrow> wrr_better i (wrr_bump s) best = None \<and> ss = []
      | Some (x, w) \<Rightarrow> (\<forall>y v. wrr_better i (wrr_bump s) best = Some (y, v) \<longrightarrow> v \<le> w) \<and>
          (\<forall>s\<in>set ss. current_weight s + weight s \<le> w) \<and>
          (wrr_better i (wrr_bump s) best = Some (x, w) \<or>
           (\<exists>j<length ss. x = Suc i + j \<and> w = current_weight (ss ! j) + weight (ss ! j)))" by auto
  have run: "wrr_scan now i (s # ss) best tot = (List.map wrr_bump (s # ss), b, tot + (\<Sum>s\<leftarrow>s # ss. weight s))"
    using wrr_step(1) [of now i s ss best tot] b s by (simp add: Let_def del: wrr_scan.simps)
  obtain v where v: "wrr_better i (wrr_bump s) best = Some v" "current_weight s + weight s \<le> snd v"
    "\<forall>y u. best = Some (y, u) \<longrightarrow> u \<le> snd v" "v = (i, current_weight s + weight s) \<or> best = Some v"
    by (cases best; cases "snd (the best) < current_weight s + weight s") (auto simp: wrr_better_def cw)
  obtain x w where xw: "b = Some (x, w)" using best v(1) by (cases b) auto
  have w: "snd v \<le> w" "\<forall>s\<in>set ss. current_weight s + weight s \<le> w"
    "v = (x, w) \<or> (\<exists>j<length ss. x = Suc i + j \<and> w = current_weight (ss ! j) + weight (ss ! j))"
    using best v(1) xw by (auto dest: spec [of _ "fst v"])
  have "best = Some (x, w) \<or> (\<exists>j<length (s # ss). x = i + j \<and>
      w = current_weight ((s # ss) ! j) + weight ((s # ss) ! j))"
    using w(3) v(4)
  proof (elim disjE exE conjE)
    fix j assume "j < length ss" "x = Suc i + j" "w = current_weight (ss ! j) + weight (ss ! j)"
    then show ?thesis by (intro disjI2 exI [of _ "Suc j"]) simp
  next
    assume "v = (x, w)" "v = (i, current_weight s + weight s)"
    then show ?thesis by (intro disjI2 exI [of _ 0]) simp
  qed simp_all
  with run xw w(1,2) v(2,3) show ?case by (intro exI [of _ b]) auto
qed

text \<open>
  \<open>wrr_state ws k c g\<close>: after k picks of which server i got \<open>c i\<close>, the current weights are
  \<open>k * w - W * c i\<close>, and none has fallen to \<open>-W\<close>.
\<close>

definition wrr_state :: "int list \<Rightarrow> int \<Rightarrow> (nat \<Rightarrow> int) \<Rightarrow> upstream_group \<Rightarrow> bool" where
  "wrr_state ws k c g \<longleftrightarrow> server_count g = length (servers g) \<and> List.map weight (servers g) = ws \<and> ws \<noteq> [] \<and>
     (\<forall>s\<in>set (servers g). steady s) \<and> (\<Sum>i<length ws. c i) = k \<and>
     (\<forall>i<length ws. current_weight (servers g ! i) = k * ws ! i - sum_list ws * c i \<and>
                     - sum_list ws < current_weight (servers g ! i))"

lemma sum_list_nth: "sum_list (xs :: int list) = (\<Sum>i<length xs. xs ! i)"
  by (simp add: sum_list_sum_nth atLeast0LessThan)

lemma wrr_state_step:
  assumes st: "wrr_state ws k c g"
  shows "\<exists>i g'. lb_weighted_round_robin now g = Inr (Some i, g') \<and> i < length ws \<and>
    wrr_state ws (k + 1) (c(i := c i + 1)) g'"
proof -
  let ?W = "sum_list ws" and ?n = "length ws" and ?ss = "servers g"
  have len: "length ?ss = ?n" and ws: "\<And>i. i < ?n \<Longrightarrow> ws ! i = weight (?ss ! i)"
    and sc: "server_count g = ?n" and ne: "ws \<noteq> []" and sd: "\<forall>s\<in>set ?ss. steady s"
    and ksum: "(\<Sum>i<?n. c i) = k"
    using st by (auto simp: wrr_state_def)
  have cw: "\<And>i. i < ?n \<Longrightarrow> current_weight (?ss ! i) = k * ws ! i - ?W * c i"
    and low: "\<And>i. i < ?n \<Longrightarrow> - ?W < current_weight (?ss ! i)"
    using st by (auto simp: wrr_state_def)
  have W: "(\<Sum>s\<leftarrow>?ss. weight s) = ?W" using st by (simp add: wrr_state_def)
  have wpos: "0 < ws ! i" if "i < ?n" for i using sd ws [OF that] that len by (simp add: steady_def)
  have Wpos: "0 < ?W"
    unfolding sum_list_nth using wpos ne by (intro sum_pos) auto
  from wrr_scan_steady [OF sd, of now 0 None 0] obtain b where
    b: "wrr_scan now 0 ?ss None 0 = (List.map wrr_bump ?ss, b, ?W)"
    "case b of None \<Rightarrow> ?ss = [] | Some (x, w) \<Rightarrow> (\<forall>s\<in>set ?ss. current_weight s + weight s \<le> w) \<and>
       (\<exists>j<length ?ss. x = j \<and> w = current_weight (?ss ! j) + weight (?ss ! j))"
    unfolding W by (auto split: option.splits)
  obtain i w where iw: "b = Some (i, w)" "i < ?n" "w = current_weight (?ss ! i) + weight (?ss ! i)"
    "\<forall>s\<in>set ?ss. current_weight s + weight s \<le> w"
    using b(2) ne len by (cases b) auto
  have max: "current_weight (?ss ! j) + ws ! j \<le> w" if "j < ?n" for j using iw(4) ws [OF that] that len by simp
  have "(\<Sum>j<?n. current_weight (?ss ! j) + ws ! j) = (\<Sum>j<?n. k * ws ! j) - (\<Sum>j<?n. ?W * c j) + ?W"
    by (simp add: cw sum.distrib sum_subtractf sum_list_nth)
  also have "\<dots> = ?W" by (simp add: sum_distrib_left [symmetric] ksum sum_list_nth [symmetric])
  finally have tot: "(\<Sum>j<?n. current_weight (?ss ! j) + ws ! j) = ?W" .
  have wpos': "0 < w"
  proof (rule ccontr)
    assume "\<not> 0 < w"
    then have "(\<Sum>j<?n. current_weight (?ss ! j) + ws ! j) \<le> (\<Sum>j<?n. 0)"
      using max by (intro sum_mono) force
    with tot Wpos show False by simp
  qed
  let ?ss' = "(List.map wrr_bump ?ss)[i := (wrr_bump (?ss ! i))\<lparr>current_weight := current_weight (wrr_bump (?ss ! i)) - ?W\<rparr>]"
  let ?g = "g\<lparr>servers := ?ss'\<rparr>"
  have run: "lb_weighted_round_robin now g = Inr (Some i, ?g)"
    using b(1) iw(1,2) sc ne len by (simp add: lb_weighted_round_robin_def)
  have at: "?ss' ! j = (if j = i then (wrr_bump (?ss ! i))\<lparr>current_weight := current_weight (wrr_bump (?ss ! i)) - ?W\<rparr>
      else wrr_bump (?ss ! j))" if "j < ?n" for j
    using that len iw(2) by (simp add: nth_list_update)
  have bump: "steady (wrr_bump (?ss ! j)) \<and> weight (wrr_bump (?ss ! j)) = ws ! j \<and>
      current_weight (wrr_bump (?ss ! j)) = current_weight (?ss ! j) + ws ! j" if "j < ?n" for j
    using steady_bump [of "?ss ! j"] sd that len ws [OF that] by simp
  have ws': "List.map weight ?ss' = ws"
    by (rule nth_equalityI) (use len bump at in \<open>simp_all del: nth_list_update_eq\<close>)
  have sd': "steady (?ss' ! j)" if "j < ?n" for j
    using bump [OF that] bump [OF iw(2)] by (subst at [OF that]) (simp add: steady_def ready_def)
  have cw': "current_weight (?ss' ! j) = (k + 1) * ws ! j - ?W * (c(i := c i + 1)) j \<and>
      - ?W < current_weight (?ss' ! j)" if j: "j < ?n" for j
  proof (cases "j = i")
    case True
    with bump [OF j] cw [OF j] iw(3) wpos' ws [OF j] show ?thesis
      unfolding at [OF j] by (simp add: algebra_simps)
  next
    case False
    with bump [OF j] cw [OF j] low [OF j] wpos [OF j] show ?thesis
      unfolding at [OF j] by (simp add: algebra_simps)
  qed
  have csum: "(\<Sum>j<?n. (c(i := c i + 1)) j) = k + 1"
  proof -
    have "(\<Sum>j<?n. (c(i := c i + 1)) j) = (\<Sum>j<?n. c j + (if j = i then 1 else 0))" by (intro sum.cong) auto
    also have "\<dots> = k + 1" using iw(2) ksum by (simp add: sum.distrib)
    finally show ?thesis .
  qed
  have "wrr_state ws (k + 1) (c(i := c i + 1)) ?g"
  proof -
    have l: "length ?ss' = ?n" using len by simp
    have all: "\<forall>s\<in>set ?ss'. steady s" using sd' l by (metis in_set_conv_nth)
    have "server_count ?g = length ?ss'" using sc l by simp
    moreover have "servers ?g = ?ss'" by simp
    ultimately show ?thesis
      unfolding wrr_state_def using ws' all cw' ne csum by metis
  qed
  with run iw(2) show ?thesis by blast
qed

lemma wrr_state_repeat:
  assumes "wrr_state ws k c g"
  shows "\<exists>ps g'. repeat_pick (lb_weighted_round_robin now) m g = Inr (ps, g') \<and> length ps = m \<and>
    wrr_state ws (k + int m) (\<lambda>i. c i + int (count_list ps (Some i))) g'"
  using assms
proof (induction m arbitrary: k c g)
  case (Suc m)
  obtain i g1 where 1: "lb_weighted_round_robin now g = Inr (Some i, g1)" "wrr_state ws (k + 1) (c(i := c i + 1)) g1"
    using wrr_state_step [OF Suc.prems] by blast
  obtain ps g2 where 2: "repeat_pick (lb_weighted_round_robin now) m g1 = Inr (ps, g2)" "length ps = m"
    "wrr_state ws (k + 1 + int m) (\<lambda>j. (c(i := c i + 1)) j + int (count_list ps (Some j))) g2"
    using Suc.IH [OF 1(2)] by blast
  have "(\<lambda>j. (c(i := c i + 1)) j + int (count_list ps (Some j))) = (\<lambda>j. c j + int (count_list (Some i # ps) (Some j)))"
    by auto
  with 1(1) 2 show ?case by (intro exI [of _ "Some i # ps"] exI [of _ g2]) (simp add: algebra_simps del: fun_upd_apply)
qed simp


section \<open>The random strategies hit their distribution\<close>

definition share :: "int \<Rightarrow> (upstream_server \<Rightarrow> int) \<Rightarrow> upstream_server \<Rightarrow> int" where
  "share t f s = (if usable t s then f s else 0)"

lemma pick_scan_hit:
  "\<forall>s\<in>set ss. 0 \<le> f s \<and> f (settle t s) = f s \<Longrightarrow> acc \<le> target \<Longrightarrow>
   fst (pick_scan (\<lambda>_. t) k i ss f (\<lambda>acc s. acc + f s > target) acc) = Some (i + j) \<longleftrightarrow>
     j < length ss \<and> acc + (\<Sum>l<j. share t f (ss ! l)) \<le> target \<and>
     target < acc + (\<Sum>l<Suc j. share t f (ss ! l))"
proof (induction ss arbitrary: k i j acc)
  case (Cons s ss)
  let ?S = "\<lambda>j. \<Sum>l<j. share t f ((s # ss) ! l)" and ?T = "\<lambda>j. \<Sum>l<j. share t f (ss ! l)"
  have shift: "?S (Suc j) = share t f s + ?T j" for j by (simp add: sum.lessThan_Suc_shift del: sum.lessThan_Suc)
  have nn: "0 \<le> share t f s" "f (settle t s) = f s" using Cons.prems by (auto simp: share_def)
  have ge: "j < Suc (length ss) \<Longrightarrow> 0 \<le> ?T j" for j
    using Cons.prems by (intro sum_nonneg) (auto simp: share_def)
  show ?case
  proof (cases "usable t s \<and> acc + f s > target")
    case True
    have sh: "share t f s = f s" using True by (simp add: share_def)
    have "fst (pick_scan (\<lambda>_. t) k i (s # ss) f (\<lambda>acc s. acc + f s > target) acc) = Some i"
      using True nn by (simp add: available_eq)
    moreover have "j < length (s # ss) \<and> acc + ?S j \<le> target \<and> target < acc + ?S (Suc j) \<longleftrightarrow> j = 0"
    proof (cases j)
      case (Suc j')
      have "acc + ?S j > target" if "j < length (s # ss)" using True sh shift [of j'] ge [of j'] Suc that by simp
      with Suc show ?thesis by auto
    qed (use True Cons.prems sh shift [of 0] in simp)
    ultimately show ?thesis by simp
  next
    case False
    let ?acc = "acc + share t f s"
    have le: "?acc \<le> target" using False Cons.prems by (auto simp: share_def)
    have run: "fst (pick_scan (\<lambda>_. t) k i (s # ss) f (\<lambda>acc s. acc + f s > target) acc)
        = fst (pick_scan (\<lambda>_. t) (Suc k) (Suc i) ss f (\<lambda>acc s. acc + f s > target) ?acc)"
      using False nn by (auto simp: available_eq share_def split_beta)
    show ?thesis
    proof (cases j)
      case 0
      have "fst (pick_scan (\<lambda>_. t) (Suc k) (Suc i) ss f (\<lambda>acc s. acc + f s > target) ?acc) \<noteq> Some i"
        using pick_scan_frame [of "\<lambda>_. t" "Suc k" "Suc i" ss f "\<lambda>acc s. acc + f s > target" ?acc]
        by (metis Suc_n_not_le_n le_add1 prod.collapse)
      with run 0 le shift [of 0] show ?thesis by simp
    next
      case (Suc j')
      have "fst (pick_scan (\<lambda>_. t) (Suc k) (Suc i) ss f (\<lambda>acc s. acc + f s > target) ?acc) = Some (Suc i + j') \<longleftrightarrow>
          j' < length ss \<and> ?acc + ?T j' \<le> target \<and> target < ?acc + ?T (Suc j')"
        using Cons.prems le by (intro Cons.IH) auto
      with run Suc shift [of j'] shift [of "Suc j'"] show ?thesis by (simp add: add.assoc)
    qed
  qed
qed simp

lemma usable_settle_same [simp]: "usable t (settle t s) = usable t s"
  by (auto simp: settle_def usable_def)

lemma settle_settle [simp]: "settle t (settle t s) = settle t s"
  by (auto simp: settle_def usable_def)

text \<open>
  With the clock at \<open>t\<close> the draws that pick server i are an interval as long as its share.
\<close>

lemma pick_random_card:
  assumes ok: "server_count g = length (servers g)" and f: "\<And>s. f (settle t s) = f s" "\<forall>s\<in>set (servers g). 0 < f s"
    and i: "i < length (servers g)" and u: "usable t (servers g ! i)"
    and hit: "\<And>target acc s. hit target acc s \<longleftrightarrow> acc + f s > target"
  shows "card {r. int r < (\<Sum>s\<leftarrow>servers g. share t f s) \<and>
           (\<exists>g'. lb_pick_random f hit (\<lambda>_. t) r g = Inr (Some i, g'))} = nat (f (servers g ! i))"
proof -
  let ?ss = "servers g" and ?W = "\<Sum>s\<leftarrow>servers g. share t f s"
  let ?S = "\<lambda>j. \<Sum>l<j. share t f (?ss ! l)"
  obtain ss where a: "avail_scan (\<lambda>_. t) 0 ?ss f = (?W, ss)"
  proof
    show "avail_scan (\<lambda>_. t) 0 ?ss f = (?W, List.map (\<lambda>(j, s). settle t s) (enumerate 0 ?ss))"
      by (simp add: avail_scan_eq f share_def sum_list_sum_nth atLeast0LessThan cong: if_cong)
  qed
  note av = avail_scan_frame [OF a]
  have sh: "share t f (ss ! l) = share t f (?ss ! l)" if "l < length ?ss" for l
    using av(2) [OF that] by (simp add: share_def f)
  have nn: "0 \<le> share t f (?ss ! l)" if "l < length ?ss" for l
    using f(2) that by (auto simp: share_def intro: less_imp_le)
  have fs: "\<forall>s\<in>set ss. 0 \<le> f s \<and> f (settle t s) = f s"
    using f av by (auto simp: in_set_conv_nth) (metis f nth_mem less_imp_le)
  have fi: "share t f (?ss ! i) = f (?ss ! i)" "0 < f (?ss ! i)" using u f(2) i by (simp_all add: share_def)
  have W: "?W = ?S (length ?ss)" by (simp add: sum_list_sum_nth atLeast0LessThan)
  have le: "?S (Suc i) \<le> ?W"
    unfolding W using i nn by (intro sum_mono2) auto
  have S0: "0 \<le> ?S i" using i nn by (intro sum_nonneg) auto
  have Wpos: "0 < ?W" using le S0 fi by simp
  have pick: "(\<exists>g'. lb_pick_random f hit (\<lambda>_. t) r g = Inr (Some i, g')) \<longleftrightarrow> ?S i \<le> int r \<and> int r < ?S (Suc i)"
    if r: "int r < ?W" for r
  proof -
    have m: "c_mod (int r) ?W = int r" using r Wpos by (simp add: c_mod_nonneg)
    have h: "hit (int r) = (\<lambda>acc s. acc + f s > int r)" by (intro ext) (rule hit)
    have "fst (pick_scan (\<lambda>_. t) (length ss) 0 ss f (\<lambda>acc s. acc + f s > int r) 0) = Some (0 + i) \<longleftrightarrow>
        i < length ss \<and> 0 + (\<Sum>l<i. share t f (ss ! l)) \<le> int r \<and> int r < 0 + (\<Sum>l<Suc i. share t f (ss ! l))"
      by (rule pick_scan_hit [OF fs]) simp
    moreover have "(\<Sum>l<j. share t f (ss ! l)) = ?S j" if "j \<le> length ?ss" for j
      using that sh by (intro sum.cong) auto
    ultimately have "fst (pick_scan (\<lambda>_. t) (length ss) 0 ss f (\<lambda>acc s. acc + f s > int r) 0) = Some i \<longleftrightarrow>
        ?S i \<le> int r \<and> int r < ?S (Suc i)"
      using i av(3) by (simp del: sum.lessThan_Suc)
    then show ?thesis using i ok Wpos
      by (auto simp: lb_pick_random_def a m h split_beta)
  qed
  have "{r. int r < ?W \<and> (\<exists>g'. lb_pick_random f hit (\<lambda>_. t) r g = Inr (Some i, g'))}
      = {nat (?S i)..<nat (?S (Suc i))}" (is "?A = ?B")
  proof (rule set_eqI)
    fix r
    have "r \<in> ?A \<longleftrightarrow> int r < ?W \<and> ?S i \<le> int r \<and> int r < ?S (Suc i)" using pick [of r] by blast
    also have "\<dots> \<longleftrightarrow> ?S i \<le> int r \<and> int r < ?S (Suc i)" using le by linarith
    also have "\<dots> \<longleftrightarrow> r \<in> ?B" using S0 fi by (simp only: atLeastLessThan_iff nat_le_iff zless_nat_eq_int_zless) 
    finally show "r \<in> ?A \<longleftrightarrow> r \<in> ?B" .
  qed
  also have "card \<dots> = nat (f (?ss ! i))" using S0 fi by (simp add: nat_diff_distrib [symmetric] nat_add_distrib)
  finally show ?thesis .
qed

lemma pick_scan_count:
  "acc \<le> target \<Longrightarrow> pick_scan now k i ss (\<lambda>_. 1) (\<lambda>acc s. acc = target) acc =
     pick_scan now k i ss (\<lambda>_. 1) (\<lambda>acc s. acc + 1 > target) acc"
  by (induction ss arbitrary: k i acc) (auto simp: available_eq split_beta)

lemma lb_random_eq: "lb_random (\<lambda>_. t) r g = lb_pick_random (\<lambda>_. 1) (\<lambda>target acc s. acc + 1 > target) (\<lambda>_. t) r g"
proof -
  obtain n ss where a: "avail_scan (\<lambda>_. t) 0 (servers g) (\<lambda>_. 1) = (n, ss)" by fastforce
  have "0 \<le> n" using a by (auto simp: avail_scan_eq intro!: sum_nonneg)
  then have "n \<noteq> 0 \<Longrightarrow> 0 \<le> c_mod (int r) n" by (simp add: c_mod_nonneg)
  then show ?thesis using pick_scan_count [of 0 "c_mod (int r) n"]
    by (auto simp: lb_random_def lb_pick_random_def a)
qed

section \<open>Least connections\<close>

lemma least_scan_min:
  "least_scan now i ss best m = (ss', b) \<Longrightarrow>
   (case b of None \<Rightarrow> best = None \<and> (\<forall>j<length ss. usable (now (i + j)) (ss ! j) \<longrightarrow> m \<le> current_connections (ss ! j))
    | Some x \<Rightarrow> (\<exists>w\<le>m. (best = Some x \<and> w = m \<or>
          (\<exists>j<length ss. x = i + j \<and> usable (now x) (ss ! j) \<and> w = current_connections (ss ! j) \<and> w < m)) \<and>
        (\<forall>j<length ss. usable (now (i + j)) (ss ! j) \<longrightarrow> w \<le> current_connections (ss ! j))))"
proof (induction ss arbitrary: i best m ss' b)
  case Nil
  then show ?case by (auto split: option.split)
next
  case (Cons s ss)
  let ?c = "usable (now i) s \<and> current_connections s < m"
  define best' where "best' = (if ?c then Some i else best)"
  define m' where "m' = (if ?c then current_connections s else m)"
  obtain ss1 where r: "least_scan now (Suc i) ss best' m' = (ss1, b)"
    using Cons.prems by (auto simp: available_eq best'_def m'_def split: prod.splits if_splits)
  show ?case
  proof (cases b)
    case None
    with Cons.IH [OF r] show ?thesis
      by (auto simp: best'_def m'_def less_Suc_eq_0_disj split: if_splits)
  next
    case (Some x)
    with Cons.IH [OF r] obtain w where w: "w \<le> m'" "best' = Some x \<and> w = m' \<or>
        (\<exists>j<length ss. x = Suc i + j \<and> usable (now x) (ss ! j) \<and> w = current_connections (ss ! j) \<and> w < m')"
      "\<forall>j<length ss. usable (now (Suc i + j)) (ss ! j) \<longrightarrow> w \<le> current_connections (ss ! j)" by auto
    have le: "m' \<le> m" "usable (now i) s \<longrightarrow> m' \<le> current_connections s" by (auto simp: m'_def)
    have "best = Some x \<and> w = m \<or>
        (\<exists>j<length (s # ss). x = i + j \<and> usable (now x) ((s # ss) ! j) \<and> w = current_connections ((s # ss) ! j) \<and> w < m)"
      using w(2)
    proof (elim disjE exE conjE)
      assume "best' = Some x" "w = m'"
      then show ?thesis by (cases ?c) (auto simp: best'_def m'_def)
    next
      fix j assume "j < length ss" "x = Suc i + j" "usable (now x) (ss ! j)" "w = current_connections (ss ! j)" "w < m'"
      with le show ?thesis by (intro disjI2 exI [of _ "Suc j"]) auto
    qed
    moreover have "\<forall>j<length (s # ss). usable (now (i + j)) ((s # ss) ! j) \<longrightarrow> w \<le> current_connections ((s # ss) ! j)"
      using w(1,3) le by (auto simp: less_Suc_eq_0_disj)
    moreover have "w \<le> m" using w(1) le by simp
    ultimately show ?thesis using Some by (auto intro!: exI [of _ w])
  qed
qed


section \<open>Properties\<close>

text \<open>A server that is in use, for the witnesses.\<close>

definition sample_server :: "string \<Rightarrow> int \<Rightarrow> upstream_server" where
  "sample_server h w = the (upstream_server_create 0 h 80 w)"

definition sample_group :: upstream_group where
  "sample_group = (upstream_group_create ''g'' LB_STRATEGY_ROUND_ROBIN)
     \<lparr>servers := [sample_server ''a'' 2, sample_server ''b'' 1], server_count := 2, total_weight := 3\<rparr>"

lemma sample_server_ready: "0 < w \<Longrightarrow> ready (sample_server h w)"
  "0 < w \<Longrightarrow> steady (sample_server h w)" "0 < w \<Longrightarrow> current_weight (sample_server h w) = 0"
  "0 < w \<Longrightarrow> weight (sample_server h w) = w" "0 < w \<Longrightarrow> current_connections (sample_server h w) = 0"
  "0 < w \<Longrightarrow> host (sample_server h w) = h" "0 < w \<Longrightarrow> port (sample_server h w) = 80"
  by (simp_all add: sample_server_def upstream_server_create_def ready_def steady_def)

lemma sample_group_sel: "servers sample_group = [sample_server ''a'' 2, sample_server ''b'' 1]"
  "server_count sample_group = 2" "current_server_index sample_group = 0"
  "session_persistence sample_group = False" "total_requests sample_group = 0"
  by (simp_all add: sample_group_def upstream_group_create_def)

text \<open>C1. Weighted round robin is exact over a cycle: with every server available, its effective
weight at its weight and all current weights zero, as many selections as the weights add up to
choose every server exactly as often as its weight says, and leave all current weights zero.\<close>

theorem lb_wrr_cycle_exact:
  assumes "server_count g = length (servers g)" "servers g \<noteq> []"
    and "\<forall>s\<in>set (servers g). steady s \<and> current_weight s = 0"
  defines "W \<equiv> \<Sum>s\<leftarrow>servers g. weight s"
  shows "\<exists>ps g'. repeat_pick (lb_weighted_round_robin now) (nat W) g = Inr (ps, g') \<and>
    (\<forall>i<length (servers g). int (count_list ps (Some i)) = weight (servers g ! i) \<and>
       current_weight (servers g' ! i) = 0)"
proof -
  let ?ws = "List.map weight (servers g)" and ?n = "length (servers g)"
  have wpos: "0 < ?ws ! i" if "i < ?n" for i using assms that by (simp add: steady_def)
  have W: "W = sum_list ?ws" "0 < W"
    unfolding W_def sum_list_nth length_map using wpos assms(2) by (auto intro!: sum_pos)
  have "wrr_state ?ws 0 (\<lambda>_. 0) g" using assms W by (simp add: wrr_state_def)
  from wrr_state_repeat [OF this, of now "nat W"] W(2) obtain ps g' where
    run: "repeat_pick (lb_weighted_round_robin now) (nat W) g = Inr (ps, g')"
    and st: "wrr_state ?ws W (\<lambda>i. int (count_list ps (Some i))) g'" by auto
  let ?c = "\<lambda>i. int (count_list ps (Some i))"
  have cw: "current_weight (servers g' ! i) = W * ?ws ! i - W * ?c i" "- W < W * ?ws ! i - W * ?c i"
    if "i < ?n" for i
    using st that W(1) by (auto simp: wrr_state_def)
  have le: "?c i \<le> ?ws ! i" if "i < ?n" for i
  proof (rule ccontr)
    assume "\<not> ?thesis"
    then have "?ws ! i + 1 \<le> ?c i" by simp
    then have "W * (?ws ! i + 1) \<le> W * ?c i" using W(2) by (intro mult_left_mono) auto
    with cw(2) [OF that] show False by (simp add: algebra_simps)
  qed
  have "(\<Sum>i<?n. ?ws ! i - ?c i) = 0"
    using st W(1) by (simp add: wrr_state_def sum_subtractf sum_list_nth)
  then have "\<forall>i\<in>{..<?n}. ?ws ! i - ?c i = 0"
    using le by (subst (asm) sum_nonneg_eq_0_iff) auto
  with run cw(1) show ?thesis by (intro exI [of _ ps] exI [of _ g']) simp
qed

theorem lb_wrr_cycle_exact_witness:
  "\<exists>ps g'. repeat_pick (lb_weighted_round_robin (\<lambda>_. 0)) 3 sample_group = Inr (ps, g') \<and>
    count_list ps (Some 0) = 2 \<and> count_list ps (Some 1) = 1"
proof -
  have "nat (\<Sum>s\<leftarrow>servers sample_group. weight s) = 3" by (simp add: sample_group_sel sample_server_ready)
  then show ?thesis
    using lb_wrr_cycle_exact [of sample_group "\<lambda>_. 0"]
    by (fastforce simp: sample_group_sel sample_server_ready)
qed

text \<open>Round robin never ends when no server is usable and the group has two servers or
more, or its index is stale (not below the number of servers, as after a removal): the index
the loop compares is off by one after the first lap, so the start is never met again, and the
group stays locked.\<close>

theorem lb_round_robin_spins:
  assumes "server_count g = length (servers g)" "servers g \<noteq> []"
    and "\<forall>s\<in>set (servers g). \<forall>t. \<not> usable t s"
    and "2 \<le> length (servers g) \<or> length (servers g) \<le> current_server_index g"
  shows "lb_round_robin now g = Inl Diverges"
proof -
  obtain sv i where s: "seek (servers g) 0 (current_server_index g) = (sv, i)" by fastforce
  have st: "ring_start g sv i"
    using s assms(2,4) by (auto simp: seek_eq ring_start_def split: if_splits)
  show ?thesis
  proof (cases sv)
    case (Some j)
    then have "on_ring g i sv i" using s by (auto simp: seek_eq on_ring_def split: if_splits)
    with ring_search_spins [OF assms(1,2) st assms(3)] s assms(1,2) show ?thesis
      by (simp add: lb_round_robin_def)
  next
    case None
    then have i: "i = length (servers g)" using s assms(2) by (auto simp: seek_eq split: if_splits)
    have nx: "next_server g None = Some 0" "ring_index g (Some 0) i = Suc i mod length (servers g)"
      using assms(1,2) by (simp_all add: next_server_def ring_index_def)
    have "on_ring g i (Some 0) (Suc i mod length (servers g))"
      using assms(1,2) i by (simp add: on_ring_def mod_if)
    from ring_search_spins [OF assms(1,2) st assms(3) this, of now 1] ring_search_miss [of None now 0 g None i i]
    have "ring_search now 0 None i None i g = None" by (simp add: nx None)
    with None s assms(1,2) show ?thesis by (simp add: lb_round_robin_def)
  qed
qed

theorem lb_round_robin_spins_witness:
  "lb_round_robin (\<lambda>_. 0) (sample_group\<lparr>servers := List.map (upstream_server_set_status 9 SERVER_STATUS_DOWN)
     (servers sample_group)\<rparr>) = Inl Diverges"
  by (rule lb_round_robin_spins)
    (auto simp: sample_group_sel upstream_server_set_status_def usable_def)


text \<open>Round robin over servers that are all available cycles: from a valid index c, the
k-th of any number of selections is the server at position (c + k) modulo their number.\<close>

theorem lb_round_robin_cycle:
  assumes "server_count g = length (servers g)" "\<forall>s\<in>set (servers g). ready s"
    and "current_server_index g < length (servers g)"
  shows "\<exists>g'. repeat_pick (lb_round_robin now) m g =
    Inr (List.map (\<lambda>k. Some ((current_server_index g + k) mod length (servers g))) [0..<m], g')"
  using assms
proof (induction m arbitrary: g)
  case (Suc m)
  let ?i = "current_server_index g" and ?n = "length (servers g)"
  let ?g = "g\<lparr>current_server_index := Suc ?i mod ?n\<rparr>"
  have r: "usable (now 0) (servers g ! ?i)" "settle (now 0) (servers g ! ?i) = servers g ! ?i"
    using Suc.prems by (simp_all add: ready_usable)
  have "seek (servers g) 0 ?i = (Some ?i, ?i)" using Suc.prems(3) by (auto simp: seek_eq)
  then have pick: "lb_round_robin now g = Inr (Some ?i, ?g)"
    using Suc.prems ring_search_hit [of now 0 g ?i "Some ?i" ?i ?i, OF r(1)] r(2)
    by (auto simp: lb_round_robin_def)
  have "0 < ?n" using Suc.prems(3) by linarith
  then have "current_server_index ?g < length (servers ?g)" by simp
  from Suc.IH [OF _ _ this] Suc.prems obtain g' where
    "repeat_pick (lb_round_robin now) m ?g = Inr (List.map (\<lambda>k. Some ((Suc ?i mod ?n + k) mod ?n)) [0..<m], g')"
    by auto
  moreover have "[0..<Suc m] = 0 # List.map Suc [0..<m]" by (simp add: upt_conv_Cons map_Suc_upt del: upt_Suc)
  ultimately show ?case using pick Suc.prems(3) by (simp add: mod_add_left_eq comp_def)
qed simp

theorem lb_round_robin_cycle_witness:
  "\<exists>g'. repeat_pick (lb_round_robin (\<lambda>_. 0)) 3 sample_group = Inr ([Some 0, Some 1, Some 0], g')"
  using lb_round_robin_cycle [of sample_group "\<lambda>_. 0" 3]
  by (simp add: sample_group_sel sample_server_ready upt_rec numeral_3_eq_3)

text \<open>C5. Both random strategies draw from their distribution: at any time, of the values of
rand() below the total, as many select a usable server as its weight says (one for the uniform
strategy, where the total is the number of usable servers).\<close>

theorem lb_random_distribution:
  assumes "group_ok g" "i < length (servers g)" "usable t (servers g ! i)"
  shows "card {r. int r < (\<Sum>s\<leftarrow>servers g. share t weight s) \<and>
           (\<exists>g'. lb_weighted_random (\<lambda>_. t) r g = Inr (Some i, g'))} = nat (weight (servers g ! i)) \<and>
         card {r. int r < (\<Sum>s\<leftarrow>servers g. share t (\<lambda>_. 1) s) \<and>
           (\<exists>g'. lb_random (\<lambda>_. t) r g = Inr (Some i, g'))} = 1"
proof
  have ok: "server_count g = length (servers g)" "\<forall>s\<in>set (servers g). 0 < weight s"
    using assms(1) by (auto simp: group_ok_def)
  show "card {r. int r < (\<Sum>s\<leftarrow>servers g. share t weight s) \<and>
      (\<exists>g'. lb_weighted_random (\<lambda>_. t) r g = Inr (Some i, g'))} = nat (weight (servers g ! i))"
    unfolding lb_weighted_random_def by (rule pick_random_card) (use ok assms in auto)
  show "card {r. int r < (\<Sum>s\<leftarrow>servers g. share t (\<lambda>_. 1) s) \<and>
      (\<exists>g'. lb_random (\<lambda>_. t) r g = Inr (Some i, g'))} = 1"
    unfolding lb_random_eq
    by (subst pick_random_card [where f = "\<lambda>_. 1"]) (use ok assms in auto)
qed

theorem lb_random_distribution_witness:
  "card {r. int r < 3 \<and> (\<exists>g'. lb_weighted_random (\<lambda>_. 5) r sample_group = Inr (Some 0, g'))} = 2"
proof -
  have u: "usable 5 (sample_server ''a'' 2)" "usable 5 (sample_server ''b'' 1)"
    using sample_server_ready(1) ready_usable(1) by simp_all
  have ok: "group_ok sample_group"
    by (simp add: group_ok_def sample_group_sel sample_server_ready) (simp add: sample_group_def)
  from lb_random_distribution [OF ok, of 0 5] u show ?thesis
    by (simp add: sample_group_sel sample_server_ready share_def)
qed

text \<open>Least connections selects the first minimum: the selected server was usable and no
usable server has fewer connections; without a selection every usable server is at INT_MAX
connections or more.\<close>

theorem lb_least_connections_min:
  assumes "server_count g = length (servers g)"
  shows "\<exists>p g'. lb_least_connections now g = Inr (p, g') \<and>
    (case p of
       None \<Rightarrow> \<forall>j<length (servers g). usable (now j) (servers g ! j) \<longrightarrow>
                 2 ^ 31 - 1 \<le> current_connections (servers g ! j)
     | Some i \<Rightarrow> i < length (servers g) \<and> usable (now i) (servers g ! i) \<and>
         (\<forall>j<length (servers g). usable (now j) (servers g ! j) \<longrightarrow>
            current_connections (servers g ! i) \<le> current_connections (servers g ! j)))"
proof (cases "server_count g = 0")
  case True
  with assms show ?thesis by (simp add: lb_least_connections_def)
next
  case False
  obtain ss b where s: "least_scan now 0 (servers g) None (2 ^ 31 - 1) = (ss, b)" by fastforce
  with False least_scan_min [OF s] show ?thesis
    by (cases b) (auto simp: lb_least_connections_def)
qed

theorem lb_least_connections_min_witness:
  "\<exists>i g'. lb_least_connections (\<lambda>_. 0) sample_group = Inr (Some i, g')"
proof -
  have "ready (sample_server ''a'' 2)" by (simp add: sample_server_ready)
  with lb_least_connections_min [of sample_group "\<lambda>_. 0"] ready_usable(1) [of "sample_server ''a'' 2" 0]
  show ?thesis by (force simp: sample_group_sel sample_server_ready split: option.splits)
qed

text \<open>C7. Without session persistence, whatever the strategy, a successful selection names a
server that was usable at one of the clock readings, carries that server's url, counts one
request on it and on the group, changes the identity of no server and leaves the session table
alone; no selection is made exactly when the strategy picks nothing.\<close>

theorem lb_select_server_spec:
  assumes "group_ok g" "\<not> session_persistence g" "lb_select_server now r ip sid g st = Inr (res, g', st')"
  shows "st' = st \<and> (case res of
      None \<Rightarrow> server_count g = 0 \<or> (\<exists>g1. lb_pick (\<lambda>k. now (k + 2)) r ip g = Inr (None, g1) \<and> g' = g1)
    | Some sel \<Rightarrow> let i = sel_server sel in
        i < length (servers g) \<and> (\<exists>k. usable (now k) (servers g ! i)) \<and>
        proxy_url sel = lb_build_proxy_url (servers g ! i) \<and>
        total_requests g' = total_requests g + 1 \<and>
        srv_total_requests (servers g' ! i) = srv_total_requests (servers g ! i) + 1 \<and>
        (\<forall>j<length (servers g). j \<noteq> i \<longrightarrow> same_identity (servers g ! j) (servers g' ! j)))"
proof (cases "server_count g = 0")
  case True
  with assms(3) show ?thesis by (simp add: lb_select_server_def)
next
  case False
  have ses: "lb_session_server now ip sid g st = Inr (None, g, st)"
    using assms(2) by (simp add: lb_session_server_def)
  obtain p g1 where p: "lb_pick (\<lambda>k. now (k + 2)) r ip g = Inr (p, g1)"
    using assms(3) False by (cases "lb_pick (\<lambda>k. now (k + 2)) r ip g") (auto simp: lb_select_server_def ses)
  have fr: "same_group g g1" by (rule any_strategy.pick_frame [OF p])
  have np: "\<not> session_persistence g1" using fr assms(2) by (simp add: same_group_def)
  show ?thesis
  proof (cases p)
    case None
    with assms(3) False p show ?thesis by (auto simp: lb_select_server_def ses)
  next
    case (Some i)
    note u = any_strategy.picked_url [OF p [unfolded Some]] any_strategy.pick_usable [OF p [unfolded Some]]
    let ?s = "servers g1 ! i"
    have res: "res = Some \<lparr>sel_server = i, proxy_url = lb_build_proxy_url ?s, connection_id = 0\<rparr>" "st' = st"
      "g' = g1\<lparr>servers := (servers g1)[i := ?s\<lparr>srv_total_requests := srv_total_requests ?s + 1\<rparr>],
               total_requests := total_requests g1 + 1\<rparr>"
      using assms(3) False p Some np by (simp_all add: lb_select_server_def ses Let_def)
    have id: "\<forall>j<length (servers g). same_identity (servers g ! j) (servers g1 ! j)"
      using fr by (simp add: same_group_def list_all2_nthD)
    have "total_requests g1 = total_requests g" using fr by (simp add: same_group_def)
    moreover have "srv_total_requests ?s = srv_total_requests (servers g ! i)"
      using u(2) by (simp add: same_identity_def)
    ultimately show ?thesis using u id by (auto simp: res nth_list_update)
  qed
qed

theorem lb_select_server_spec_witness:
  "\<exists>sel g' st'. lb_select_server (\<lambda>_. 0) 0 None None sample_group \<lparr>session_table = [], session_locked = False\<rparr>
     = Inr (Some sel, g', st') \<and> total_requests g' = 1"
proof -
  let ?st = "\<lparr>session_table = [], session_locked = False\<rparr>"
  have ok: "group_ok sample_group"
    by (simp add: group_ok_def sample_group_sel sample_server_ready) (simp add: sample_group_def)
  have r: "usable 0 (sample_server ''a'' 2)" "settle 0 (sample_server ''a'' 2) = sample_server ''a'' 2"
    using sample_server_ready(1) ready_usable by simp_all
  have st: "g_strategy sample_group = LB_STRATEGY_ROUND_ROBIN" by (simp add: sample_group_def upstream_group_create_def)
  have "\<exists>sel g'. lb_select_server (\<lambda>_. 0) 0 None None sample_group ?st = Inr (Some sel, g', ?st)"
    using ring_search_hit [of "\<lambda>_. 0" 0 sample_group 0] r
    by (simp add: lb_select_server_def lb_session_server_def lb_pick_def st lb_round_robin_def sample_group_sel Let_def)
  then obtain sel g' where run: "lb_select_server (\<lambda>_. 0) 0 None None sample_group ?st = Inr (Some sel, g', ?st)" by blast
  from lb_select_server_spec [OF ok _ run] run show ?thesis by (simp add: sample_group_sel Let_def)
qed


lemma lb_session_server_group:
  assumes "lb_session_server now ip sid g st = Inr (p, g1, st1)"
  shows "session_persistence g1 = session_persistence g"
proof (cases "session_find (now 0) ip sid st")
  case (Inr r)
  then show ?thesis using assms
    by (cases r; cases "fst r") (auto simp: lb_session_server_def check_eq Let_def split: if_splits option.splits)
qed (use assms in \<open>auto simp: lb_session_server_def split: if_splits\<close>)

text \<open>With session persistence and a client that can be identified no selection is ever
returned, whatever the state of the session table: session_bind holds the session mutex and
calls session_find, which locks it again. A selected server means a thread that waits for ever.\<close>

theorem lb_select_session_never_returns:
  assumes "session_persistence g" "ip \<noteq> None \<or> sid \<noteq> None"
  shows "(\<forall>sel g' st'. lb_select_server now r ip sid g st \<noteq> Inr (Some sel, g', st')) \<and>
    (session_table st = [] \<and> \<not> session_locked st \<and> server_count g \<noteq> 0 \<and>
     lb_pick (\<lambda>k. now (k + 2)) r ip g = Inr (Some i, g1)
       \<longrightarrow> lb_select_server now r ip sid g st = Inl Deadlock)"
proof -
  have bind: "session_bind t ip sid a s = Inl Deadlock" for t a s
    using assms(2) by (auto simp: session_bind_def session_find_def session_lock_def)
  have "lb_select_server now r ip sid g st \<noteq> Inr (Some sel, g', st')" for sel g' st'
  proof
    assume run: "lb_select_server now r ip sid g st = Inr (Some sel, g', st')"
    then have "server_count g \<noteq> 0" by (auto simp: lb_select_server_def split: if_splits)
    with run obtain p g1 st1 where 1: "lb_session_server now ip sid g st = Inr (p, g1, st1)"
      by (cases "lb_session_server now ip sid g st") (auto simp: lb_select_server_def)
    have p1: "session_persistence g1"
      using lb_session_server_group [OF 1] assms(1) by simp
    obtain q g2 where 2: "(if p = None then lb_pick (\<lambda>k. now (k + 2)) r ip g1 else Inr (p, g1)) = Inr (q, g2)"
      using run 1 \<open>server_count g \<noteq> 0\<close>
      by (cases "if p = None then lb_pick (\<lambda>k. now (k + 2)) r ip g1 else Inr (p, g1)")
        (auto simp: lb_select_server_def)
    have "session_persistence g2"
      using 2 p1 any_strategy.pick_frame [of "\<lambda>k. now (k + 2)" r ip g1 q g2] by (auto simp: same_group_def split: if_splits)
    with run 1 2 \<open>server_count g \<noteq> 0\<close> assms(2) show False
      by (cases q) (simp_all add: lb_select_server_def Let_def bind)
  qed
  moreover have "lb_select_server now r ip sid g st = Inl Deadlock"
    if h: "session_table st = []" "\<not> session_locked st" "server_count g \<noteq> 0"
      "lb_pick (\<lambda>k. now (k + 2)) r ip g = Inr (Some i, g1)"
  proof -
    have "session_persistence g1" using any_strategy.pick_frame [OF h(4)] assms(1) by (simp add: same_group_def)
    moreover obtain st1 where "lb_session_server now ip sid g st = Inr (None, g, st1)"
      using assms h(1,2) by (auto simp: lb_session_server_def session_find_def session_lock_def)
    ultimately show ?thesis
      using h(3,4) assms(2) by (simp add: lb_select_server_def Let_def bind)
  qed
  ultimately show ?thesis by blast
qed

theorem lb_select_session_never_returns_witness:
  "lb_select_server (\<lambda>_. 0) 0 (Some ''10.0.0.1'') None (sample_group\<lparr>session_persistence := True\<rparr>)
     \<lparr>session_table = [], session_locked = False\<rparr> = Inl Deadlock"
proof -
  let ?g = "sample_group\<lparr>session_persistence := True\<rparr>"
  have r: "usable 0 (sample_server ''a'' 2)" "settle 0 (sample_server ''a'' 2) = sample_server ''a'' 2"
    using sample_server_ready(1) ready_usable by simp_all
  have st: "g_strategy sample_group = LB_STRATEGY_ROUND_ROBIN" by (simp add: sample_group_def upstream_group_create_def)
  obtain g1 where "lb_pick (\<lambda>k. 0) 0 (Some ''10.0.0.1'') ?g = Inr (Some 0, g1)"
    using ring_search_hit [of "\<lambda>_. 0" 0 ?g 0] r
    by (simp add: lb_pick_def st lb_round_robin_def sample_group_sel Let_def)
  with lb_select_session_never_returns [of ?g "Some ''10.0.0.1''" None "\<lambda>_. 0" 0 "\<lparr>session_table = [], session_locked = False\<rparr>" 0 g1]
  show ?thesis by (simp add: sample_group_sel)
qed

text \<open>C8. A well-formed group refines a map from host and port to servers: adding inserts
exactly where the arguments are positive and the key is free and fails without effect
elsewhere, removing deletes exactly the key, the lookup reads the map, and both updates keep
the group well formed (server count, total weight, distinct keys).\<close>

theorem lb_group_refines_map:
  assumes "group_ok g"
  shows "(let (rc, g') = upstream_group_add_server a g h p w in group_ok g' \<and>
      (if 0 < p \<and> 0 < w \<and> server_map g (h, p) = None
       then rc = 0 \<and> server_map g' = (server_map g)((h, p) := upstream_server_create a h p w)
       else rc = -1 \<and> g' = g)) \<and>
    (let (rc, g') = upstream_group_remove_server g h p in group_ok g' \<and>
      (if 0 < p \<and> server_map g (h, p) \<noteq> None
       then rc = 0 \<and> server_map g' = (server_map g)((h, p) := None) else rc = -1 \<and> g' = g)) \<and>
    upstream_group_get_server g h p = (if 0 < p then server_map g (h, p) else None)"
proof (intro conjI)
  show "let (rc, g') = upstream_group_add_server a g h p w in group_ok g' \<and>
      (if 0 < p \<and> 0 < w \<and> server_map g (h, p) = None
       then rc = 0 \<and> server_map g' = (server_map g)((h, p) := upstream_server_create a h p w)
       else rc = -1 \<and> g' = g)"
  proof (cases "0 < p \<and> 0 < w \<and> server_map g (h, p) = None")
    case True
    then have "\<not> (\<exists>s\<in>set (servers g). same_server h p s)" by (simp add: server_map_none)
    with True group_ok_add [OF assms, of a h p w] show ?thesis
      by (auto simp: upstream_group_add_server_def upstream_server_create_def server_map_def)
  next
    case False
    then have "upstream_group_add_server a g h p w = (-1, g)"
      by (auto simp: upstream_group_add_server_def server_map_none)
    with False assms show ?thesis by auto
  qed
  show "let (rc, g') = upstream_group_remove_server g h p in group_ok g' \<and>
      (if 0 < p \<and> server_map g (h, p) \<noteq> None
       then rc = 0 \<and> server_map g' = (server_map g)((h, p) := None) else rc = -1 \<and> g' = g)"
  proof (cases "0 < p \<and> server_map g (h, p) \<noteq> None")
    case True
    then obtain s rest where u: "unlink_server h p (servers g) = Some (s, rest)"
      using unlink_server_none [of h p "servers g"] server_map_none [of g h p] by fastforce
    with True group_ok_remove [OF assms, of h p] remove_server_map [OF assms u] show ?thesis
      by (auto simp: upstream_group_remove_server_def server_map_def)
  next
    case False
    then have "upstream_group_remove_server g h p = (-1, g)"
      using unlink_server_none [of h p "servers g"] server_map_none [of g h p]
      by (auto simp: upstream_group_remove_server_def)
    with False assms show ?thesis by auto
  qed
  show "upstream_group_get_server g h p = (if 0 < p then server_map g (h, p) else None)"
    using get_server_map [of p g h] by (simp add: upstream_group_get_server_def)
qed

theorem lb_group_refines_map_witness:
  "fst (upstream_group_add_server 7 (upstream_group_create ''g'' LB_STRATEGY_RANDOM) ''h'' 80 1) = 0"
  using lb_group_refines_map [OF group_ok_create, of 7 "''g''" LB_STRATEGY_RANDOM "''h''" 80 1]
  by (auto simp: server_map_def upstream_group_create_def split: prod.splits if_splits)

lemma lb_strategy_roundtrip: "lb_strategy_from_string (Some (lb_strategy_to_string s)) = s"
  by (cases s) (simp_all add: lb_strategy_from_string_def)

text \<open>Active checks: while the probes of a server fail, each due check counts one more
consecutive failure, the server is DOWN once they reach its limit, and a probe that then passes
brings a server that is DOWN back UP with no failures.\<close>

theorem lb_check_failures:
  assumes "\<forall>s. lb_health_check_server bad s \<noteq> 0" "\<forall>s. lb_health_check_server good s = 0"
    and "health_check_interval s \<le> hd ts - last_check_time s"
    and "\<forall>i. Suc i < length ts \<longrightarrow> health_check_interval s \<le> ts ! Suc i - ts ! i" "ts \<noteq> []"
  shows "let s' = foldl (\<lambda>s t. lb_check_one bad t s) s ts in
    consecutive_failures s' = consecutive_failures s + int (length ts) \<and>
    (max_fails s \<le> consecutive_failures s + int (length ts) \<longrightarrow> status s' = SERVER_STATUS_DOWN \<and>
      (\<forall>t. health_check_interval s \<le> t - last ts \<longrightarrow>
        status (lb_check_one good t s') = SERVER_STATUS_UP \<and> consecutive_failures (lb_check_one good t s') = 0))"
proof -
  have bad: "lb_health_check_server bad s \<noteq> 0" and good: "lb_health_check_server good s = 0" for s
    using assms(1,2) by auto
  have "let s' = foldl (\<lambda>s t. lb_check_one bad t s) s ts in
      consecutive_failures s' = consecutive_failures s + int (length ts) \<and> last_check_time s' = last ts \<and>
      max_fails s' = max_fails s \<and> health_check_interval s' = health_check_interval s \<and>
      (max_fails s \<le> consecutive_failures s + int (length ts) \<longrightarrow> status s' = SERVER_STATUS_DOWN)"
    using assms(5,3,4)
  proof (induction ts rule: rev_nonempty_induct)
    case (single t)
    then show ?case by (simp add: lb_check_one_def bad Let_def upstream_server_set_status_def)
  next
    case (snoc t ts)
    let ?s = "foldl (\<lambda>s t. lb_check_one bad t s) s ts"
    have ih: "consecutive_failures ?s = consecutive_failures s + int (length ts)" "last_check_time ?s = last ts"
      "max_fails ?s = max_fails s" "health_check_interval ?s = health_check_interval s"
    proof -
      have "\<forall>i. Suc i < length ts \<longrightarrow> health_check_interval s \<le> ts ! Suc i - ts ! i"
      proof (intro allI impI)
        fix i assume "Suc i < length ts"
        then show "health_check_interval s \<le> ts ! Suc i - ts ! i"
          using snoc.prems(2) [rule_format, of i] by (simp add: nth_append)
      qed
      with snoc.IH snoc.prems(1) snoc.hyps show "consecutive_failures ?s = consecutive_failures s + int (length ts)"
        "last_check_time ?s = last ts" "max_fails ?s = max_fails s"
        "health_check_interval ?s = health_check_interval s"
        by (auto simp: Let_def hd_append)
    qed
    have "health_check_interval s \<le> t - last ts"
      using snoc.prems(2) [rule_format, of "length ts - 1"] snoc.hyps by (simp add: nth_append last_conv_nth)
    with ih show ?case by (simp add: lb_check_one_def [of bad t ?s] bad Let_def upstream_server_set_status_def)
  qed
  then show ?thesis by (auto simp: Let_def lb_check_one_def [of good] good upstream_server_set_status_def)
qed

theorem lb_check_failures_witness:
  "status (foldl (\<lambda>s t. lb_check_one (\<lambda>_ _ _. None) t s) (sample_server ''a'' 1) [30, 60, 90]) = SERVER_STATUS_DOWN"
proof -
  have "\<forall>s. lb_health_check_server (\<lambda>_ _ _. None) s \<noteq> 0"
    "\<forall>s. lb_health_check_server (\<lambda>_ _ _. Some ''HTTP/1.1 200'') s = 0"
    by (simp_all add: lb_health_check_server_def strncmp_eq_def)
  from lb_check_failures [OF this, of "sample_server ''a'' 1" "[30, 60, 90]"]
  show ?thesis
    by (simp add: sample_server_def upstream_server_create_def less_Suc_eq_0_disj Let_def)
qed

end
