(* ===== verification/HealthCheck.thy ===== *)
theory HealthCheck
  imports LoadBalancer
begin

text \<open>
  The health check manager (src/proxy/health_check.c): the ring buffer of results, one check
  over the network, what a result does to the manager and to the server, the pass of the check
  thread, and the statistics. The network is a parameter, doubles are rationals, the two static
  counters of health_check_update_server_status, which all servers of all managers share, are a
  state of their own. The mutexes protect each call and never nest here.
\<close>

section \<open>Data\<close>

datatype health_check_type_t =
  HEALTH_CHECK_HTTP | HEALTH_CHECK_HTTPS | HEALTH_CHECK_TCP | HEALTH_CHECK_PING | HEALTH_CHECK_CUSTOM

datatype health_status_t =
  HEALTH_STATUS_HEALTHY | HEALTH_STATUS_UNHEALTHY | HEALTH_STATUS_CHECKING | HEALTH_STATUS_UNKNOWN
| HEALTH_STATUS_DEGRADED

record health_check_result =
  hr_status :: health_status_t
  response_code :: int
  response_time :: rat
  error_message :: "string option"
  check_time :: int
  is_timeout :: bool
  response_size :: nat

record health_check_config =
  hc_type :: health_check_type_t
  hc_uri :: string
  hc_method :: string
  expected_response :: "string option"
  hc_headers :: "string option"
  hc_timeout :: int
  hc_interval :: int
  retries :: int
  rise :: int
  fall :: int
  hc_enabled :: bool
  user_agent :: string
  hc_port :: int

record health_check_history =
  results :: "health_check_result list"
  capacity :: nat
  h_count :: nat
  h_index :: nat

record health_check_manager =
  m_group :: upstream_group
  m_config :: health_check_config
  history :: health_check_history
  running :: bool
  m_successes :: int
  m_failures :: int
  m_last_check :: int
  m_next_check :: int

record health_check_stats =
  total_checks :: int
  successful_checks :: int
  failed_checks :: int
  timeout_checks :: int
  hs_avg_time :: rat
  hs_min_time :: rat
  hs_max_time :: rat
  last_success_time :: int
  hs_last_failure :: int
  uptime_percentage :: int

section \<open>Configuration\<close>

definition health_check_config_create :: health_check_config where
  "health_check_config_create =
     \<lparr>hc_type = HEALTH_CHECK_HTTP, hc_uri = ''/health'', hc_method = ''GET'',
      expected_response = None, hc_headers = None, hc_timeout = 10, hc_interval = 30,
      retries = 3, rise = 2, fall = 3, hc_enabled = True, user_agent = ''ANX-HealthCheck/1.0'',
      hc_port = 0\<rparr>"

definition health_check_config_set_uri :: "string option \<Rightarrow> health_check_config \<Rightarrow> int \<times> health_check_config" where
  "health_check_config_set_uri v c = (case v of None \<Rightarrow> (-1, c) | Some s \<Rightarrow> (0, c\<lparr>hc_uri := s\<rparr>))"

definition health_check_config_set_method :: "string option \<Rightarrow> health_check_config \<Rightarrow> int \<times> health_check_config" where
  "health_check_config_set_method v c = (case v of None \<Rightarrow> (-1, c) | Some s \<Rightarrow> (0, c\<lparr>hc_method := s\<rparr>))"

definition health_check_config_set_headers :: "string option \<Rightarrow> health_check_config \<Rightarrow> int \<times> health_check_config" where
  "health_check_config_set_headers v c = (case v of None \<Rightarrow> (-1, c) | Some s \<Rightarrow> (0, c\<lparr>hc_headers := Some s\<rparr>))"

definition health_check_config_set_expected_response ::
  "string option \<Rightarrow> health_check_config \<Rightarrow> int \<times> health_check_config" where
  "health_check_config_set_expected_response v c =
     (case v of None \<Rightarrow> (-1, c) | Some s \<Rightarrow> (0, c\<lparr>expected_response := Some s\<rparr>))"

section \<open>Results and their history\<close>

definition health_check_result_create :: "int \<Rightarrow> health_check_result" where
  "health_check_result_create now =
     \<lparr>hr_status = HEALTH_STATUS_UNKNOWN, response_code = 0, response_time = -1, error_message = None,
      check_time = now, is_timeout = False, response_size = 0\<rparr>"

text \<open>The zeroed memory the buffer starts with.\<close>

definition zero_result :: health_check_result where
  "zero_result = \<lparr>hr_status = HEALTH_STATUS_HEALTHY, response_code = 0, response_time = 0,
     error_message = None, check_time = 0, is_timeout = False, response_size = 0\<rparr>"

definition health_check_history_create :: "int \<Rightarrow> health_check_history" where
  "health_check_history_create cap =
     (let n = (if cap \<le> 0 then 100 else nat cap)
      in \<lparr>results = replicate n zero_result, capacity = n, h_count = 0, h_index = 0\<rparr>)"

definition health_check_history_add :: "health_check_result \<Rightarrow> health_check_history \<Rightarrow> health_check_history" where
  "health_check_history_add r h =
     h\<lparr>results := (results h)[h_index h := r], h_index := (h_index h + 1) mod capacity h,
       h_count := (if h_count h < capacity h then h_count h + 1 else h_count h)\<rparr>"

definition health_check_history_get_latest :: "health_check_history \<Rightarrow> health_check_result option" where
  "health_check_history_get_latest h =
     (if h_count h = 0 then None
      else Some (results h ! nat (c_mod (int (h_index h) - 1 + int (capacity h)) (int (capacity h)))))"

definition health_check_history_get_all :: "health_check_history \<Rightarrow> health_check_result list" where
  "health_check_history_get_all h =
     List.map (\<lambda>i. results h ! nat (c_mod (int (h_index h) - int (h_count h) + int i + int (capacity h)) (int (capacity h))))
       [0..<h_count h]"

section \<open>One check\<close>

text \<open>What the network does with a request, and the milliseconds until the answer.\<close>

datatype probe = NoSocket | NoHost | NoConnect | NoSend rat | Answer rat string

definition failed :: "string \<Rightarrow> health_check_result \<Rightarrow> health_check_result" where
  "failed msg r = r\<lparr>hr_status := HEALTH_STATUS_UNHEALTHY, error_message := Some msg\<rparr>"

text \<open>sscanf's \<open>%d\<close>: the number and the rest, if there are digits.\<close>

definition scan_int :: "string \<Rightarrow> (int \<times> string) option" where
  "scan_int s = (let (v, rest) = strtol10 s in if rest = s then None else Some (to_int32 v, rest))"

definition scan_status :: "string \<Rightarrow> int option" where
  "scan_status response =
     (if starts_with ''HTTP/1.'' response
      then case scan_int (drop 7 response) of None \<Rightarrow> None
           | Some (_, rest) \<Rightarrow> map_option fst (scan_int (dropWhile isspace rest))
      else None)"

definition health_check_request :: "upstream_server \<Rightarrow> health_check_config \<Rightarrow> string" where
  "health_check_request s c =
     snprintf 2048 (hc_method c @ '' '' @ hc_uri c @ '' HTTP/1.1'' @ crlf @
       ''Host: '' @ host s @ '':'' @ print_int (port s) @ crlf @
       ''User-Agent: '' @ user_agent c @ crlf @ ''Connection: close'' @ crlf @
       (case hc_headers c of None \<Rightarrow> [] | Some h \<Rightarrow> h) @ crlf)"

definition check_port :: "upstream_server \<Rightarrow> health_check_config \<Rightarrow> int" where
  "check_port s c = (if hc_port c > 0 then hc_port c else port s)"

text \<open>The response is a C string of at most 4095 bytes: it ends at the first NUL.\<close>

definition c_string :: "string \<Rightarrow> string" where
  "c_string s = takeWhile (\<lambda>c. c \<noteq> CHR 0x00) s"

definition health_check_http ::
  "(string \<Rightarrow> int \<Rightarrow> string \<Rightarrow> probe) \<Rightarrow> int \<Rightarrow> upstream_server \<Rightarrow> health_check_config \<Rightarrow> health_check_result" where
  "health_check_http net now s c =
     (let r = health_check_result_create now in
      case net (host s) (check_port s c) (health_check_request s c) of
        NoSocket \<Rightarrow> failed ''Failed to create socket'' r
      | NoHost \<Rightarrow> failed ''Failed to resolve hostname'' r
      | NoConnect \<Rightarrow> failed ''Connection failed'' r
      | NoSend _ \<Rightarrow> failed ''Failed to send request'' r
      | Answer ms bytes \<Rightarrow>
          let r = r\<lparr>response_time := ms\<rparr>; bytes = take 4095 bytes in
          if bytes = [] then failed ''No response received'' r
          else
            let r = r\<lparr>response_size := length bytes\<rparr>; response = c_string bytes in
            case scan_status response of
              None \<Rightarrow> failed ''Invalid HTTP response'' r
            | Some code \<Rightarrow>
                let r = r\<lparr>response_code := code\<rparr> in
                if 200 \<le> code \<and> code < 300
                then (case expected_response c of
                        None \<Rightarrow> r\<lparr>hr_status := HEALTH_STATUS_HEALTHY\<rparr>
                      | Some e \<Rightarrow> if strstr response e \<noteq> None then r\<lparr>hr_status := HEALTH_STATUS_HEALTHY\<rparr>
                                  else failed ''Response content mismatch'' r)
                else failed (''HTTP error: '' @ print_int code) r)"

text \<open>A connect and nothing more; the HTTPS and ping checks are the same.\<close>

definition health_check_tcp ::
  "(string \<Rightarrow> int \<Rightarrow> string \<Rightarrow> probe) \<Rightarrow> int \<Rightarrow> upstream_server \<Rightarrow> health_check_config \<Rightarrow> health_check_result" where
  "health_check_tcp net now s c =
     (let r = health_check_result_create now;
          ok = (\<lambda>ms. r\<lparr>response_time := ms, hr_status := HEALTH_STATUS_HEALTHY, response_code := 0\<rparr>) in
      case net (host s) (check_port s c) [] of
        NoSocket \<Rightarrow> failed ''Failed to create socket'' r
      | NoHost \<Rightarrow> failed ''Failed to resolve hostname'' r
      | NoConnect \<Rightarrow> failed ''TCP connection failed'' r
      | NoSend ms \<Rightarrow> ok ms
      | Answer ms _ \<Rightarrow> ok ms)"

definition health_check_execute ::
  "(string \<Rightarrow> int \<Rightarrow> string \<Rightarrow> probe) \<Rightarrow> int \<Rightarrow> upstream_server \<Rightarrow> health_check_config \<Rightarrow> health_check_result" where
  "health_check_execute net now s c =
     (case hc_type c of
        HEALTH_CHECK_HTTP \<Rightarrow> health_check_http net now s c
      | HEALTH_CHECK_HTTPS \<Rightarrow> health_check_tcp net now s c
      | HEALTH_CHECK_TCP \<Rightarrow> health_check_tcp net now s c
      | HEALTH_CHECK_PING \<Rightarrow> health_check_tcp net now s c
      | HEALTH_CHECK_CUSTOM \<Rightarrow> health_check_http net now s c)"

section \<open>The manager\<close>

definition health_check_manager_create :: "int \<Rightarrow> upstream_group \<Rightarrow> health_check_config \<Rightarrow> health_check_manager" where
  "health_check_manager_create now g c =
     \<lparr>m_group = g, m_config = c, history = health_check_history_create 100, running = False,
      m_successes = 0, m_failures = 0, m_last_check = 0, m_next_check = now + hc_interval c\<rparr>"

text \<open>\<open>spawn\<close>: pthread_create succeeds.\<close>

definition health_check_manager_start :: "bool \<Rightarrow> health_check_manager \<Rightarrow> int \<times> health_check_manager" where
  "health_check_manager_start spawn m =
     (if running m then (0, m)
      else if spawn then (0, m\<lparr>running := True\<rparr>) else (-1, m\<lparr>running := False\<rparr>))"

definition health_check_manager_stop :: "health_check_manager \<Rightarrow> int \<times> health_check_manager" where
  "health_check_manager_stop m = (if \<not> running m then (0, m) else (0, m\<lparr>running := False\<rparr>))"

definition health_check_manager_is_running :: "health_check_manager \<Rightarrow> bool" where
  "health_check_manager_is_running m = running m"

definition health_check_process_result :: "health_check_result \<Rightarrow> health_check_manager \<Rightarrow> health_check_manager" where
  "health_check_process_result r m =
     (if hr_status r = HEALTH_STATUS_HEALTHY
      then m\<lparr>m_successes := m_successes m + 1, m_failures := 0\<rparr>
      else m\<lparr>m_failures := m_failures m + 1, m_successes := 0\<rparr>)"

text \<open>The static counters: successes and failures.\<close>

type_synonym counters = "int \<times> int"

definition health_check_update_server_status ::
  "health_check_config \<Rightarrow> health_check_result \<Rightarrow> counters \<Rightarrow> upstream_server \<Rightarrow> upstream_server \<times> counters" where
  "health_check_update_server_status c r k s =
     (let (succ, fails) = k in
      if hr_status r = HEALTH_STATUS_HEALTHY
      then if status s = SERVER_STATUS_DOWN \<or> status s = SERVER_STATUS_UNKNOWN
           then if succ + 1 \<ge> rise c then (s\<lparr>status := SERVER_STATUS_UP\<rparr>, (0, fails))
                else (s, (succ + 1, fails))
           else (s, k)
      else if status s = SERVER_STATUS_UP
           then if fails + 1 \<ge> fall c then (s\<lparr>status := SERVER_STATUS_DOWN\<rparr>, (succ, 0))
                else (s, (succ, fails + 1))
           else (s, k))"

text \<open>
  One server of the pass. The thread indexes the linked list as an array: only the first
  address is a server, the ones behind it lie outside of its memory block.
\<close>

definition check_server_at ::
  "(string \<Rightarrow> int \<Rightarrow> string \<Rightarrow> probe) \<Rightarrow> int \<Rightarrow> nat \<Rightarrow> health_check_manager \<times> counters \<Rightarrow>
   (health_check_manager \<times> counters) run" where
  "check_server_at net now i st =
     (let (m, k) = st in
      case (i, servers (m_group m)) of
        (0, s # ss) \<Rightarrow>
          let r = health_check_execute net now s (m_config m);
              m = health_check_process_result r m;
              (s', k) = health_check_update_server_status (m_config m) r k s;
              m = m\<lparr>m_group := (m_group m)\<lparr>servers := s' # ss\<rparr>, history := health_check_history_add r (history m)\<rparr>
          in Inr (m, k)
      | (0, []) \<Rightarrow> Inl BadPointer
      | _ \<Rightarrow> Inl OutOfRange)"

fun check_servers ::
  "(string \<Rightarrow> int \<Rightarrow> string \<Rightarrow> probe) \<Rightarrow> int \<Rightarrow> nat list \<Rightarrow> health_check_manager \<times> counters \<Rightarrow>
   (health_check_manager \<times> counters) run" where
  "check_servers net now [] st = Inr st"
| "check_servers net now (i # is) st = bindR (check_server_at net now i st) (check_servers net now is)"

text \<open>One turn of the loop of health_check_thread_worker while the manager is running.\<close>

definition health_check_worker_turn ::
  "(string \<Rightarrow> int \<Rightarrow> string \<Rightarrow> probe) \<Rightarrow> int \<Rightarrow> health_check_manager \<times> counters \<Rightarrow> (health_check_manager \<times> counters) run" where
  "health_check_worker_turn net now st =
     (let (m, k) = st in
      if \<not> health_check_manager_is_running m then Inr st
      else if now \<ge> m_next_check m
      then bindR (check_servers net now [0..<server_count (m_group m)] (m, k)) (\<lambda>(m, k).
             Inr (m\<lparr>m_last_check := now, m_next_check := now + hc_interval (m_config m)\<rparr>, k))
      else Inr st)"

section \<open>Statistics\<close>

definition healthy :: "health_check_result \<Rightarrow> bool" where
  "healthy r \<longleftrightarrow> hr_status r = HEALTH_STATUS_HEALTHY"

definition add_result :: "health_check_stats \<times> rat \<Rightarrow> health_check_result \<Rightarrow> health_check_stats \<times> rat" where
  "add_result acc r =
     (let (s, t) = acc;
          s = s\<lparr>total_checks := total_checks s + 1\<rparr>;
          s = (if healthy r
               then s\<lparr>successful_checks := successful_checks s + 1,
                      last_success_time := max (last_success_time s) (check_time r)\<rparr>
               else s\<lparr>failed_checks := failed_checks s + 1,
                      hs_last_failure := max (hs_last_failure s) (check_time r)\<rparr>);
          s = (if is_timeout r then s\<lparr>timeout_checks := timeout_checks s + 1\<rparr> else s)
      in if response_time r > 0
         then (s\<lparr>hs_min_time := (if hs_min_time s < 0 \<or> response_time r < hs_min_time s then response_time r else hs_min_time s),
                 hs_max_time := (if hs_max_time s < 0 \<or> response_time r > hs_max_time s then response_time r else hs_max_time s)\<rparr>,
               t + response_time r)
         else (s, t))"

definition zero_health_stats :: health_check_stats where
  "zero_health_stats = \<lparr>total_checks = 0, successful_checks = 0, failed_checks = 0, timeout_checks = 0,
     hs_avg_time = 0, hs_min_time = -1, hs_max_time = -1, last_success_time = 0, hs_last_failure = 0,
     uptime_percentage = 0\<rparr>"

definition health_check_get_stats :: "health_check_manager \<Rightarrow> health_check_stats" where
  "health_check_get_stats m =
     (let (s, t) = foldl add_result (zero_health_stats, 0) (take (h_count (history m)) (results (history m)))
      in if total_checks s > 0
         then s\<lparr>hs_avg_time := t / of_int (total_checks s),
                uptime_percentage := c_div (successful_checks s * 100) (total_checks s)\<rparr>
         else s)"

definition health_check_calculate_uptime :: "int \<Rightarrow> health_check_history \<Rightarrow> int \<Rightarrow> rat" where
  "health_check_calculate_uptime now h duration =
     (if h_count h = 0 then 0
      else of_nat (length (filter (\<lambda>r. check_time r \<ge> now - duration \<and> healthy r) (take (h_count h) (results h))))
           / of_nat (h_count h) * 100)"

definition health_check_is_response_valid :: "string option \<Rightarrow> string option \<Rightarrow> bool" where
  "health_check_is_response_valid response expected =
     (case (response, expected) of (Some r, Some e) \<Rightarrow> strstr r e \<noteq> None | _ \<Rightarrow> False)"

section \<open>Names\<close>

fun health_status_to_string :: "health_status_t \<Rightarrow> string" where
  "health_status_to_string HEALTH_STATUS_HEALTHY = ''HEALTHY''"
| "health_status_to_string HEALTH_STATUS_UNHEALTHY = ''UNHEALTHY''"
| "health_status_to_string HEALTH_STATUS_CHECKING = ''CHECKING''"
| "health_status_to_string HEALTH_STATUS_UNKNOWN = ''UNKNOWN''"
| "health_status_to_string HEALTH_STATUS_DEGRADED = ''DEGRADED''"

fun health_check_type_to_string :: "health_check_type_t \<Rightarrow> string" where
  "health_check_type_to_string HEALTH_CHECK_HTTP = ''HTTP''"
| "health_check_type_to_string HEALTH_CHECK_HTTPS = ''HTTPS''"
| "health_check_type_to_string HEALTH_CHECK_TCP = ''TCP''"
| "health_check_type_to_string HEALTH_CHECK_PING = ''PING''"
| "health_check_type_to_string HEALTH_CHECK_CUSTOM = ''CUSTOM''"

definition health_check_api_get_status :: "upstream_group \<Rightarrow> nat \<Rightarrow> string" where
  "health_check_api_get_status g n =
     (let q = (\<lambda>s. CHR 0x22 # s @ [CHR 0x22]) in
      snprintf n (''{ '' @ q ''group'' @ '': '' @ q (g_name g) @ '', '' @ q ''servers'' @ '': '' @
        print_nat (server_count g) @ '', '' @ q ''status'' @ '': '' @ q ''active'' @ '' }''))"

definition health_check_api_get_history :: "upstream_server \<Rightarrow> nat \<Rightarrow> string" where
  "health_check_api_get_history s n =
     (let q = (\<lambda>s. CHR 0x22 # s @ [CHR 0x22]) in
      snprintf n (''{ '' @ q ''server'' @ '': '' @ q (host s @ '':'' @ print_int (port s)) @ '', '' @
        q ''status'' @ '': '' @ q (if status s = SERVER_STATUS_UP then ''UP'' else ''DOWN'') @ '' }''))"


section \<open>The contract of a bounded history\<close>

text \<open>Adding keeps at most \<open>cap\<close> entries, the newest ones, in the order they were added.\<close>

locale bounded_history =
  fixes ok :: "'h \<Rightarrow> bool" and add :: "'r \<Rightarrow> 'h \<Rightarrow> 'h" and entries :: "'h \<Rightarrow> 'r list" and cap :: "'h \<Rightarrow> nat"
  assumes add_ok: "ok h \<Longrightarrow> ok (add r h) \<and> cap (add r h) = cap h"
    and entries_add: "ok h \<Longrightarrow> entries (add r h) = drop (Suc (length (entries h)) - cap h) (entries h @ [r])"
    and bounded: "ok h \<Longrightarrow> length (entries h) \<le> cap h"
begin

lemma add_all:
  "ok h \<Longrightarrow> ok (foldl (\<lambda>h r. add r h) h rs) \<and>
    entries (foldl (\<lambda>h r. add r h) h rs) = drop (length (entries h) + length rs - cap h) (entries h @ rs)"
proof (induction rs arbitrary: h)
  case Nil
  then show ?case using bounded by simp
next
  case (Cons r rs)
  let ?h = "add r h" and ?n = "length (entries h)"
  have h: "ok ?h" "cap ?h = cap h" using add_ok Cons.prems by blast+
  have e: "entries ?h = drop (Suc ?n - cap h) (entries h @ [r])" by (rule entries_add [OF Cons.prems])
  have b: "?n \<le> cap h" by (rule bounded [OF Cons.prems])
  have "entries (foldl (\<lambda>h r. add r h) ?h rs) = drop (length (entries ?h) + length rs - cap h) (entries ?h @ rs)"
    using Cons.IH [OF h(1)] h(2) by simp
  also have "entries ?h @ rs = drop (Suc ?n - cap h) (entries h @ r # rs)" using b e by (cases "cap h") simp_all
  also have "drop (length (entries ?h) + length rs - cap h) \<dots> = drop (?n + length (r # rs) - cap h) (entries h @ r # rs)"
    using b by (cases "?n = cap h"; cases "cap h") (simp_all add: e)
  finally show ?case using Cons.IH [OF h(1)] by simp
qed

end

definition history_ok :: "health_check_history \<Rightarrow> bool" where
  "history_ok h \<longleftrightarrow> 0 < capacity h \<and> length (results h) = capacity h \<and> h_index h < capacity h \<and>
     h_count h \<le> capacity h"

definition ring_pos :: "health_check_history \<Rightarrow> nat \<Rightarrow> nat" where
  "ring_pos h i = (h_index h + (capacity h - h_count h) + i) mod capacity h"

lemma c_mod_nat: "0 < b \<Longrightarrow> nat (c_mod (int a) (int b)) = a mod b"
  by (simp add: c_mod_nonneg zmod_int [symmetric])

lemma get_all_eq:
  "history_ok h \<Longrightarrow> health_check_history_get_all h = List.map (\<lambda>i. results h ! ring_pos h i) [0..<h_count h]"
proof -
  assume ok: "history_ok h"
  have "nat (c_mod (int (h_index h) - int (h_count h) + int i + int (capacity h)) (int (capacity h))) = ring_pos h i" for i
  proof -
    have "int (h_index h) - int (h_count h) + int i + int (capacity h) = int (h_index h + (capacity h - h_count h) + i)"
      using ok by (simp add: history_ok_def of_nat_diff)
    with c_mod_nat [of "capacity h" "h_index h + (capacity h - h_count h) + i"] ok show ?thesis
      by (simp only: ring_pos_def history_ok_def)
  qed
  then show ?thesis by (simp add: health_check_history_get_all_def)
qed

lemma capacity_add [simp]: "capacity (health_check_history_add r h) = capacity h"
  by (simp add: health_check_history_add_def)

lemma length_get_all [simp]: "length (health_check_history_get_all h) = h_count h"
  by (simp add: health_check_history_get_all_def)

lemma ring_ne: "0 < d \<Longrightarrow> d < n \<Longrightarrow> i < n \<Longrightarrow> (i + d) mod n \<noteq> (i :: nat)"
  by (cases "i + d < n") (auto simp: mod_if)

lemma history_add_ok: "history_ok h \<Longrightarrow> history_ok (health_check_history_add r h)"
  by (auto simp: history_ok_def health_check_history_add_def)

lemma history_entries_add:
  assumes ok: "history_ok h"
  shows "health_check_history_get_all (health_check_history_add r h) =
    drop (Suc (length (health_check_history_get_all h)) - capacity h) (health_check_history_get_all h @ [r])"
proof -
  let ?h = "health_check_history_add r h" and ?n = "capacity h" and ?c = "h_count h" and ?x = "h_index h"
  have k: "0 < ?n" "length (results h) = ?n" "?x < ?n" "?c \<le> ?n" using ok by (simp_all add: history_ok_def)
  have res: "results ?h ! p = (if p = ?x then r else results h ! p)" if "p < ?n" for p
    using k that by (auto simp: health_check_history_add_def nth_list_update)
  have get: "health_check_history_get_all ?h = List.map (\<lambda>i. results ?h ! ring_pos ?h i) [0..<h_count ?h]"
    by (rule get_all_eq [OF history_add_ok [OF ok]])
  show ?thesis
  proof (cases "?c < ?n")
    case True
    have pos: "ring_pos ?h i = ring_pos h i" for i
    proof -
      have "ring_pos ?h i = ((?x + 1) mod ?n + (?n - (?c + 1) + i)) mod ?n"
        using True by (simp add: ring_pos_def health_check_history_add_def add.assoc)
      also have "\<dots> = (?x + 1 + (?n - (?c + 1) + i)) mod ?n" by (rule mod_add_left_eq)
      also have "?x + 1 + (?n - (?c + 1) + i) = ?x + (?n - ?c) + i" using True by simp
      finally show ?thesis by (simp only: ring_pos_def)
    qed
    show ?thesis
    proof (rule nth_equalityI)
      fix i assume "i < length (health_check_history_get_all ?h)"
      then have i: "i < Suc ?c" using True get by (simp add: health_check_history_add_def)
      have "results ?h ! ring_pos ?h i = (health_check_history_get_all h @ [r]) ! i"
      proof (cases "i < ?c")
        case True
        then have "ring_pos h i \<noteq> ?x" "ring_pos h i < ?n"
          using k \<open>?c < ?n\<close> ring_ne [of "?n - ?c + i" ?n ?x] by (simp_all add: ring_pos_def add.assoc)
        with True k show ?thesis by (simp add: pos res get_all_eq [OF ok] nth_append)
      next
        case False
        with i have "i = ?c" by simp
        moreover from this have "ring_pos h i = ?x" using k by (simp add: ring_pos_def)
        ultimately show ?thesis using k by (simp add: pos res get_all_eq [OF ok] nth_append)
      qed
      with i True get show "health_check_history_get_all ?h ! i =
          drop (Suc (length (health_check_history_get_all h)) - ?n) (health_check_history_get_all h @ [r]) ! i"
        by (simp add: health_check_history_add_def get_all_eq [OF ok] del: upt_Suc)
    qed (use True get in \<open>simp add: health_check_history_add_def get_all_eq [OF ok]\<close>)
  next
    case False
    then have c: "?c = ?n" using k by simp
    have pos: "ring_pos ?h i = ring_pos h (Suc i)" for i
      using c by (simp add: ring_pos_def health_check_history_add_def mod_simps)
    show ?thesis
    proof (rule nth_equalityI)
      fix i assume "i < length (health_check_history_get_all ?h)"
      then have i: "i < ?n" using c get by (simp add: health_check_history_add_def)
      have "results ?h ! ring_pos ?h i = (health_check_history_get_all h @ [r]) ! Suc i"
      proof (cases "Suc i < ?n")
        case True
        then have "ring_pos h (Suc i) \<noteq> ?x" "ring_pos h (Suc i) < ?n"
          using k c ring_ne [of "Suc i" ?n ?x] by (simp_all add: ring_pos_def)
        with True k c show ?thesis by (simp add: pos res get_all_eq [OF ok] nth_append)
      next
        case False
        with i have "Suc i = ?n" by simp
        moreover from this have "ring_pos h (Suc i) = ?x" using k c by (simp add: ring_pos_def)
        ultimately show ?thesis using k c by (simp add: pos res get_all_eq [OF ok] nth_append)
      qed
      with i c get show "health_check_history_get_all ?h ! i =
          drop (Suc (length (health_check_history_get_all h)) - ?n) (health_check_history_get_all h @ [r]) ! i"
        by (simp add: health_check_history_add_def get_all_eq [OF ok] nth_append del: upt_Suc)
    qed (use c get in \<open>simp add: health_check_history_add_def get_all_eq [OF ok]\<close>)
  qed
qed

interpretation hist: bounded_history history_ok health_check_history_add health_check_history_get_all capacity
  by unfold_locales (simp_all add: history_add_ok history_entries_add, simp add: history_ok_def)

lemma history_ok_create: "history_ok (health_check_history_create n)"
  by (simp add: history_ok_def health_check_history_create_def Let_def)


section \<open>Properties\<close>

definition sample_result :: "health_status_t \<Rightarrow> int \<Rightarrow> health_check_result" where
  "sample_result st t = (health_check_result_create t)\<lparr>hr_status := st\<rparr>"

text \<open>C11. The ring buffer refines a bounded list: after any results are added to a well-formed
history, reading it gives the newest ones that fit, oldest first, and the latest is the last.\<close>

theorem health_history_refines:
  fixes h rs
  assumes "history_ok h"
  defines "h' \<equiv> foldl (\<lambda>h r. health_check_history_add r h) h rs"
    and "es \<equiv> health_check_history_get_all h @ rs"
  shows "history_ok h' \<and> health_check_history_get_all h' = drop (length es - capacity h) es \<and>
    health_check_history_get_latest h' = (if es = [] then None else Some (last es))"
proof -
  note add = hist.add_all [OF assms(1), of rs]
  have ok: "history_ok h'" and all: "health_check_history_get_all h' = drop (length es - capacity h) es"
    using add by (simp_all add: h'_def es_def)
  have cap: "capacity h' = capacity h"
    unfolding h'_def by (induction rs arbitrary: h) simp_all
  have n: "0 < capacity h'" "h_index h' < capacity h'" "h_count h' \<le> capacity h'" using ok by (simp_all add: history_ok_def)
  have cnt: "h_count h' = length es - (length es - capacity h)"
    using arg_cong [OF all, of length] by simp
  have "health_check_history_get_latest h' = (if es = [] then None else Some (last es))"
  proof (cases "es = []")
    case True
    then show ?thesis using cnt by (simp add: health_check_history_get_latest_def)
  next
    case False
    with cnt n(1) cap have c: "0 < h_count h'" by (cases es) auto
    have "ring_pos h' (h_count h' - 1) = (h_index h' + (capacity h' - 1)) mod capacity h'"
      using n c by (simp add: ring_pos_def)
    moreover have "nat (c_mod (int (h_index h') - 1 + int (capacity h')) (int (capacity h')))
        = (h_index h' + (capacity h' - 1)) mod capacity h'"
    proof -
      have "int (h_index h') - 1 + int (capacity h') = int (h_index h' + (capacity h' - 1))" using n by simp
      with c_mod_nat [OF n(1), of "h_index h' + (capacity h' - 1)"] show ?thesis by (simp only:)
    qed
    ultimately have "health_check_history_get_latest h' = Some (last (health_check_history_get_all h'))"
      using c by (simp add: health_check_history_get_latest_def get_all_eq [OF ok] last_map)
    also have "last (health_check_history_get_all h') = last es"
      using False n(1) cap unfolding all by (intro last_drop) (cases es, auto)
    finally show ?thesis using False by simp
  qed
  with ok all show ?thesis by simp
qed

theorem health_history_refines_witness:
  "health_check_history_get_all (foldl (\<lambda>h r. health_check_history_add r h) (health_check_history_create 2)
     [sample_result HEALTH_STATUS_HEALTHY 1, sample_result HEALTH_STATUS_UNHEALTHY 2, sample_result HEALTH_STATUS_HEALTHY 3])
   = [sample_result HEALTH_STATUS_UNHEALTHY 2, sample_result HEALTH_STATUS_HEALTHY 3]"
  using health_history_refines [OF history_ok_create [of 2],
      where rs = "[sample_result HEALTH_STATUS_HEALTHY 1, sample_result HEALTH_STATUS_UNHEALTHY 2, sample_result HEALTH_STATUS_HEALTHY 3]"]
  by (simp add: health_check_history_create_def health_check_history_get_all_def)

text \<open>The statistics of a manager are those of the results it keeps: the totals count
them, split into successes and failures, and the uptime is the rounded-down percentage of
successes, between 0 and 100.\<close>

theorem health_stats_consistent:
  fixes m
  assumes "history_ok (history m)"
  defines "rs \<equiv> take (h_count (history m)) (results (history m))" and "s \<equiv> health_check_get_stats m"
  shows "total_checks s = int (h_count (history m)) \<and>
    successful_checks s = int (length (filter healthy rs)) \<and>
    failed_checks s = total_checks s - successful_checks s \<and>
    timeout_checks s = int (length (filter is_timeout rs)) \<and>
    uptime_percentage s = (100 * successful_checks s) div total_checks s \<and>
    0 \<le> uptime_percentage s \<and> uptime_percentage s \<le> 100"
proof -
  have fold: "total_checks (fst (foldl add_result (z, t) xs)) = total_checks z + int (length xs) \<and>
      successful_checks (fst (foldl add_result (z, t) xs)) = successful_checks z + int (length (filter healthy xs)) \<and>
      failed_checks (fst (foldl add_result (z, t) xs)) = failed_checks z + int (length (filter (\<lambda>r. \<not> healthy r) xs)) \<and>
      timeout_checks (fst (foldl add_result (z, t) xs)) = timeout_checks z + int (length (filter is_timeout xs)) \<and>
      uptime_percentage (fst (foldl add_result (z, t) xs)) = uptime_percentage z" for z t xs
  proof (induction xs arbitrary: z t)
    case (Cons r xs)
    obtain z' t' where r: "add_result (z, t) r = (z', t')" by fastforce
    have "total_checks z' = total_checks z + 1" "uptime_percentage z' = uptime_percentage z"
      "successful_checks z' = successful_checks z + (if healthy r then 1 else 0)"
      "failed_checks z' = failed_checks z + (if healthy r then 0 else 1)"
      "timeout_checks z' = timeout_checks z + (if is_timeout r then 1 else 0)"
      using r by (auto simp: add_result_def Let_def split: if_splits)
    with Cons.IH [of z' t'] r show ?case by simp
  qed simp
  have len: "length rs = h_count (history m)" using assms(1) by (simp add: rs_def history_ok_def)
  obtain z t where z: "foldl add_result (zero_health_stats, 0) rs = (z, t)" by fastforce
  have part: "length (filter healthy rs) + length (filter (\<lambda>r. \<not> healthy r) rs) = length rs"
    by (rule sum_length_filter_compl)
  have zs: "total_checks z = int (length rs)" "successful_checks z = int (length (filter healthy rs))"
    "failed_checks z = total_checks z - successful_checks z" "timeout_checks z = int (length (filter is_timeout rs))"
    "uptime_percentage z = 0"
    using fold [of zero_health_stats 0 rs] z part by (simp_all add: zero_health_stats_def)
  have div: "c_div (successful_checks z * 100) (total_checks z) = (100 * successful_checks z) div total_checks z"
    using zs by (cases "rs = []"; cases "successful_checks z = 0") (simp_all add: c_div_def mult.commute)
  have s: "s = (if total_checks z > 0
      then z\<lparr>hs_avg_time := t / of_int (total_checks z), uptime_percentage := c_div (successful_checks z * 100) (total_checks z)\<rparr>
      else z)"
    using z by (simp add: s_def health_check_get_stats_def rs_def)
  have le: "successful_checks z \<le> total_checks z" using zs(1,2) part by simp
  have "0 \<le> (100 * successful_checks z) div total_checks z" "(100 * successful_checks z) div total_checks z \<le> 100"
  proof -
    show "0 \<le> (100 * successful_checks z) div total_checks z" using zs by (cases "rs = []") (simp_all add: pos_imp_zdiv_nonneg_iff)
    have "(100 * successful_checks z) div total_checks z \<le> (100 * total_checks z) div total_checks z"
      if "0 < total_checks z" by (rule zdiv_mono1) (use le that in simp_all)
    then show "(100 * successful_checks z) div total_checks z \<le> 100"
      using zs(1) by (cases "total_checks z = 0") simp_all
  qed
  with s zs len div show ?thesis by (cases "0 < total_checks z") auto
qed

theorem health_stats_consistent_witness:
  "uptime_percentage (health_check_get_stats (health_check_manager_create 0 sample_group health_check_config_create)) = 0"
  using health_stats_consistent [of "health_check_manager_create 0 sample_group health_check_config_create"] history_ok_create [of 100]
  by (simp add: health_check_manager_create_def health_check_history_create_def)


lemma update_fail:
  "hr_status r \<noteq> HEALTH_STATUS_HEALTHY \<Longrightarrow> status s = SERVER_STATUS_UP \<Longrightarrow>
   health_check_update_server_status c r (x, n) s =
     (if n + 1 \<ge> fall c then (s\<lparr>status := SERVER_STATUS_DOWN\<rparr>, (x, 0)) else (s, (x, n + 1)))"
  by (simp add: health_check_update_server_status_def)

lemma update_ok_up:
  "hr_status r = HEALTH_STATUS_HEALTHY \<Longrightarrow> status s = SERVER_STATUS_UP \<Longrightarrow>
   health_check_update_server_status c r k s = (s, k)"
  by (cases k) (simp add: health_check_update_server_status_def)

text \<open>One bad result for each of a list of servers, in turn.\<close>

fun update_each ::
  "health_check_config \<Rightarrow> health_check_result \<Rightarrow> counters \<Rightarrow> upstream_server list \<Rightarrow> upstream_server list \<times> counters" where
  "update_each c r k [] = ([], k)"
| "update_each c r k (s # ss) =
     (let (s, k) = health_check_update_server_status c r k s; (ss, k) = update_each c r k ss in (s # ss, k))"

text \<open>The failure counter belongs to no server and is not reset by successes: when as many
servers as the fall limit fail one check each, the last of them is marked DOWN and the others
stay UP; and a server that fails that many checks in all is marked DOWN however many
successful checks lie between the failures.\<close>

theorem health_static_counters:
  assumes "hr_status bad \<noteq> HEALTH_STATUS_HEALTHY" "hr_status good = HEALTH_STATUS_HEALTHY"
    and "\<forall>s\<in>set ss. status s = SERVER_STATUS_UP" "fall c = int (length ss) + 1"
    and "status s = SERVER_STATUS_UP" "rs \<in> lists {good, bad}" "count_list rs bad = length ss"
  shows "update_each c bad (x, 0) (ss @ [s]) = (ss @ [s\<lparr>status := SERVER_STATUS_DOWN\<rparr>], (x, 0)) \<and>
    fst (foldl (\<lambda>(s, k) r. health_check_update_server_status c r k s) (s, (x, 0)) (rs @ [bad]))
      = s\<lparr>status := SERVER_STATUS_DOWN\<rparr>"
proof
  have each: "update_each c bad (x, n) (us @ [s]) = (us @ [s\<lparr>status := SERVER_STATUS_DOWN\<rparr>], (x, 0))"
    if "\<forall>s\<in>set us. status s = SERVER_STATUS_UP" "fall c = n + int (length us) + 1" for us n
    using that
  proof (induction us arbitrary: n)
    case Nil
    then show ?case using assms(1,5) by (simp add: update_fail)
  next
    case (Cons u us)
    have "update_each c bad (x, n + 1) (us @ [s]) = (us @ [s\<lparr>status := SERVER_STATUS_DOWN\<rparr>], (x, 0))"
      by (rule Cons.IH) (use Cons.prems in simp_all)
    moreover have "health_check_update_server_status c bad (x, n) u = (u, (x, n + 1))"
      using Cons.prems assms(1) by (simp add: update_fail)
    ultimately show ?case by (simp only: append_Cons update_each.simps Let_def split)
  qed
  show "update_each c bad (x, 0) (ss @ [s]) = (ss @ [s\<lparr>status := SERVER_STATUS_DOWN\<rparr>], (x, 0))"
    using each [OF assms(3), of 0] assms(4) by simp
  have run: "foldl (\<lambda>(s, k) r. health_check_update_server_status c r k s) (s, (x, n)) rs = (s, (x, n + int (count_list rs bad)))"
    if "rs \<in> lists {good, bad}" "n + int (count_list rs bad) < fall c" for rs n
    using that
  proof (induction rs arbitrary: n)
    case (Cons r rs)
    show ?case
    proof (cases "r = bad")
      case True
      with Cons.IH [of "n + 1"] Cons.prems assms(1,5) show ?thesis by (simp add: update_fail)
    next
      case False
      with Cons.hyps(1) have "r = good" by simp
      with False Cons.IH [of n] Cons.prems assms(2,5) show ?thesis by (simp add: update_ok_up)
    qed
  qed simp
  from run [OF assms(6), of 0] assms(1,4,5,7)
  show "fst (foldl (\<lambda>(s, k) r. health_check_update_server_status c r k s) (s, (x, 0)) (rs @ [bad]))
      = s\<lparr>status := SERVER_STATUS_DOWN\<rparr>"
    by (simp add: update_fail)
qed

theorem health_static_counters_witness:
  "fst (update_each (health_check_config_create\<lparr>fall := 2\<rparr>) (sample_result HEALTH_STATUS_UNHEALTHY 1) (0, 0)
     [(sample_server ''a'' 1)\<lparr>status := SERVER_STATUS_UP\<rparr>, (sample_server ''b'' 1)\<lparr>status := SERVER_STATUS_UP\<rparr>])
   = [(sample_server ''a'' 1)\<lparr>status := SERVER_STATUS_UP\<rparr>, (sample_server ''b'' 1)\<lparr>status := SERVER_STATUS_DOWN\<rparr>]"
  using health_static_counters [of "sample_result HEALTH_STATUS_UNHEALTHY 1" "sample_result HEALTH_STATUS_HEALTHY 1"
      "[(sample_server ''a'' 1)\<lparr>status := SERVER_STATUS_UP\<rparr>]" "health_check_config_create\<lparr>fall := 2\<rparr>"
      "(sample_server ''b'' 1)\<lparr>status := SERVER_STATUS_UP\<rparr>" "[sample_result HEALTH_STATUS_UNHEALTHY 1]" 0]
  by (simp add: sample_result_def)

text \<open>The check thread treats the linked list of servers as an array: a due pass over a
group of one server checks it and schedules the next pass, a due pass over two servers or more
leaves the memory of the first server when it comes to the second.\<close>

theorem health_worker_reads_array:
  assumes "running m" "m_next_check m \<le> now" "servers (m_group m) = s # ss"
    and "server_count (m_group m) = length (servers (m_group m))"
  shows "(ss \<noteq> [] \<longrightarrow> health_check_worker_turn net now (m, k) = Inl OutOfRange) \<and>
    (ss = [] \<longrightarrow> (\<exists>m' k'. health_check_worker_turn net now (m, k) = Inr (m', k') \<and>
       m_next_check m' = now + hc_interval (m_config m) \<and>
       history m' = health_check_history_add (health_check_execute net now s (m_config m)) (history m) \<and>
       servers (m_group m') = [fst (health_check_update_server_status (m_config m)
         (health_check_execute net now s (m_config m)) k s)]))"
proof -
  let ?r = "health_check_execute net now s (m_config m)"
  obtain s' k' where u: "health_check_update_server_status (m_config m) ?r k s = (s', k')" by (rule prod.exhaust)
  have p: "m_config (health_check_process_result ?r m) = m_config m" "m_group (health_check_process_result ?r m) = m_group m"
    "history (health_check_process_result ?r m) = history m"
    by (simp_all add: health_check_process_result_def)
  have one: "check_server_at net now 0 (m, k) = Inr ((health_check_process_result ?r m)
      \<lparr>m_group := (m_group m)\<lparr>servers := s' # ss\<rparr>, history := health_check_history_add ?r (history m)\<rparr>, k')"
    using assms(3) u p by (simp add: check_server_at_def Let_def)
  have "[0..<server_count (m_group m)] = 0 # [1..<Suc (length ss)]"
    using assms(3,4) by (simp add: upt_conv_Cons del: upt_Suc)
  moreover have "check_servers net now [1..<Suc (length ss)] st = Inl OutOfRange" if "ss \<noteq> []" for st
  proof -
    have "[1..<Suc (length ss)] = 1 # [Suc 1..<Suc (length ss)]" using that by (simp add: upt_conv_Cons del: upt_Suc)
    then show ?thesis by (cases st) (simp add: check_server_at_def)
  qed
  ultimately show ?thesis
    using assms(1,2) one u p
    by (auto simp: health_check_worker_turn_def health_check_manager_is_running_def simp del: upt_Suc)
qed

theorem health_worker_reads_array_witness:
  "health_check_worker_turn (\<lambda>_ _ _. NoHost) 50
     ((health_check_manager_create 0 sample_group health_check_config_create)\<lparr>running := True\<rparr>, (0, 0)) = Inl OutOfRange"
  using health_worker_reads_array [of "(health_check_manager_create 0 sample_group health_check_config_create)\<lparr>running := True\<rparr>"]
  by (simp add: health_check_manager_create_def health_check_config_create_def sample_group_sel)

text \<open>An HTTP check is healthy exactly when the server answered with a status line whose
code is in the 200s and, where a content is expected, the answer contains it; otherwise it is
unhealthy with an error message. The HTTPS and ping checks accept every server that can be
connected to.\<close>

theorem health_check_verdict:
  shows "(hr_status (health_check_http net now s c) = HEALTH_STATUS_HEALTHY \<longleftrightarrow>
      (\<exists>ms bytes code. net (host s) (check_port s c) (health_check_request s c) = Answer ms bytes \<and> bytes \<noteq> [] \<and>
         scan_status (c_string (take 4095 bytes)) = Some code \<and> 200 \<le> code \<and> code < 300 \<and>
         (\<forall>e. expected_response c = Some e \<longrightarrow> strstr (c_string (take 4095 bytes)) e \<noteq> None))) \<and>
    (hr_status (health_check_http net now s c) \<noteq> HEALTH_STATUS_HEALTHY \<longleftrightarrow>
      error_message (health_check_http net now s c) \<noteq> None) \<and>
    (hc_type c \<in> {HEALTH_CHECK_HTTPS, HEALTH_CHECK_PING} \<longrightarrow>
      (hr_status (health_check_execute net now s c) = HEALTH_STATUS_HEALTHY \<longleftrightarrow>
        net (host s) (check_port s c) [] \<notin> {NoSocket, NoHost, NoConnect}))"
proof -
  have tcp: "hr_status (health_check_tcp net now s c) = HEALTH_STATUS_HEALTHY \<longleftrightarrow>
      net (host s) (check_port s c) [] \<notin> {NoSocket, NoHost, NoConnect}"
    by (cases "net (host s) (check_port s c) []") (simp_all add: health_check_tcp_def failed_def Let_def)
  show ?thesis
    by (cases "net (host s) (check_port s c) (health_check_request s c)")
      (auto simp: health_check_http_def failed_def health_check_result_create_def Let_def
        health_check_execute_def tcp split: option.splits)
qed

theorem health_check_verdict_witness:
  "hr_status (health_check_http (\<lambda>_ _ _. NoConnect) 0 (sample_server ''a'' 1) health_check_config_create) \<noteq> HEALTH_STATUS_HEALTHY"
  using health_check_verdict [of "\<lambda>_ _ _. NoConnect" 0 "sample_server ''a'' 1" health_check_config_create] by simp

end
