(* ===== verification/Log.thy ===== *)
theory Log
  imports Prelude
begin

text \<open>
  Logging (src/core/log.c): the severity threshold, the three access log formats, rotation and
  initialisation. Files are known by their path: the state holds the path a stream is open on.
  The formatted time, the process id and what the file system answers are arguments; the two
  doubles printed with three decimals are rationals.
\<close>

section \<open>Levels and formats\<close>

datatype log_level_t = LOG_LEVEL_ERROR | LOG_LEVEL_WARNING | LOG_LEVEL_INFO | LOG_LEVEL_DEBUG

datatype access_log_format_t =
  ACCESS_LOG_FORMAT_COMMON | ACCESS_LOG_FORMAT_COMBINED | ACCESS_LOG_FORMAT_JSON

text \<open>The enum order of C: a smaller level is a more severe one.\<close>

fun level_code :: "log_level_t \<Rightarrow> nat" where
  "level_code LOG_LEVEL_ERROR = 0"
| "level_code LOG_LEVEL_WARNING = 1"
| "level_code LOG_LEVEL_INFO = 2"
| "level_code LOG_LEVEL_DEBUG = 3"

lemma level_code_inj: "level_code a = level_code b \<Longrightarrow> a = b"
  by (cases a; cases b) simp_all

instantiation log_level_t :: linorder
begin

definition less_eq_log_level_t :: "log_level_t \<Rightarrow> log_level_t \<Rightarrow> bool" where
  "less_eq_log_level_t a b \<longleftrightarrow> level_code a \<le> level_code b"

definition less_log_level_t :: "log_level_t \<Rightarrow> log_level_t \<Rightarrow> bool" where
  "less_log_level_t a b \<longleftrightarrow> level_code a < level_code b"

instance
  by standard (auto simp: less_eq_log_level_t_def less_log_level_t_def intro: level_code_inj)

end

record log_config =
  error_log_path :: string
  access_log_path :: string
  error_log_level :: log_level_t
  lc_access_log_format :: access_log_format_t
  log_rotation_size_mb :: int
  log_rotation_days :: int
  enable_performance_logging :: bool

record access_log_entry =
  client_ip :: "string option"
  remote_user :: "string option"
  meth :: "string option"
  uri :: "string option"
  protocol :: "string option"
  status_code :: int
  response_size :: int
  referer :: "string option"
  user_agent :: "string option"
  server_name :: "string option"
  server_port :: int
  request_duration_ms :: rat
  upstream_status :: int
  upstream_addr :: "string option"
  upstream_response_time_ms :: rat
  request_uri :: "string option"
  entry_timestamp :: int

record log_state =
  current_log_level :: log_level_t
  error_log_file :: "string option"
  access_log_file :: "string option"
  access_log_format :: access_log_format_t
  global_log_config :: "log_config option"

definition log_initial :: log_state where
  "log_initial = \<lparr>current_log_level = LOG_LEVEL_INFO, error_log_file = None, access_log_file = None,
     access_log_format = ACCESS_LOG_FORMAT_COMBINED, global_log_config = None\<rparr>"

section \<open>Initialisation\<close>

text \<open>\<open>opens f\<close>: the file system lets \<open>f\<close> be opened for appending.\<close>

definition log_init :: "(string \<Rightarrow> bool) \<Rightarrow> string option \<Rightarrow> log_level_t \<Rightarrow> log_state \<Rightarrow> log_state" where
  "log_init opens filename lvl st =
     st\<lparr>current_log_level := lvl,
        error_log_file := (case filename of None \<Rightarrow> None
          | Some f \<Rightarrow> if f \<noteq> ''stderr'' \<and> opens f then Some f else None)\<rparr>"

definition access_log_init ::
  "(string \<Rightarrow> bool) \<Rightarrow> string option \<Rightarrow> access_log_format_t \<Rightarrow> log_state \<Rightarrow> log_state" where
  "access_log_init opens path format st =
     (let st = st\<lparr>access_log_format := format\<rparr> in
      case path of None \<Rightarrow> st
      | Some f \<Rightarrow> if f = ''off'' then st
                  else st\<lparr>access_log_file := (if opens f then Some f else None)\<rparr>)"

definition init_logging_from_config :: "(string \<Rightarrow> bool) \<Rightarrow> log_config \<Rightarrow> log_state \<Rightarrow> log_state" where
  "init_logging_from_config opens config st =
     (let st = st\<lparr>global_log_config := Some config\<rparr>;
          st = log_init opens (Some (error_log_path config)) (error_log_level config) st
      in access_log_init opens (Some (access_log_path config)) (lc_access_log_format config) st)"

definition cleanup_logging :: "log_state \<Rightarrow> log_state" where
  "cleanup_logging st = st\<lparr>error_log_file := None, access_log_file := None, global_log_config := None\<rparr>"

section \<open>Messages\<close>

fun level_str :: "log_level_t \<Rightarrow> string" where
  "level_str LOG_LEVEL_DEBUG = ''DEBUG''"
| "level_str LOG_LEVEL_INFO = ''INFO''"
| "level_str LOG_LEVEL_WARNING = ''WARNING''"
| "level_str LOG_LEVEL_ERROR = ''ERROR''"

fun level_color :: "log_level_t \<Rightarrow> string" where
  "level_color LOG_LEVEL_DEBUG = CHR 0x1B # ''[36m''"
| "level_color LOG_LEVEL_INFO = CHR 0x1B # ''[32m''"
| "level_color LOG_LEVEL_WARNING = CHR 0x1B # ''[33m''"
| "level_color LOG_LEVEL_ERROR = CHR 0x1B # ''[31m''"

text \<open>What is written, if anything; to stderr (no error log file) with colors.\<close>

definition log_message :: "string \<Rightarrow> nat \<Rightarrow> log_level_t \<Rightarrow> string \<Rightarrow> log_state \<Rightarrow> string option" where
  "log_message time_buf pid lvl message st =
     (if lvl > current_log_level st then None
      else Some (
        if error_log_file st = None
        then ''['' @ time_buf @ ''] '' @ level_color lvl @ ''['' @ level_str lvl @ '']'' @ CHR 0x1B # ''[0m ['' @
             print_nat pid @ ''] '' @ message @ [CHR 0x0A]
        else ''['' @ time_buf @ ''] ['' @ level_str lvl @ ''] ['' @ print_nat pid @ ''] '' @ message @ [CHR 0x0A]))"

text \<open>\<open>%.3f\<close> of a value: thousandths, ties to even.\<close>

definition thousandths :: "rat \<Rightarrow> int" where
  "thousandths x = (let y = x * 1000; n = \<lfloor>y\<rfloor>; f = y - of_int n
     in if f < 1 / 2 \<or> f = 1 / 2 \<and> even n then n else n + 1)"

definition print_fixed3 :: "rat \<Rightarrow> string" where
  "print_fixed3 x =
     (let n = nat \<bar>thousandths x\<bar>; r = n mod 1000
      in (if x < 0 then ''-'' else []) @ print_nat (n div 1000) @ ''.'' @
         [digit_char (r div 100), digit_char (r div 10 mod 10), digit_char (r mod 10)])"

definition log_performance_metrics ::
  "string \<Rightarrow> nat \<Rightarrow> string \<Rightarrow> rat \<Rightarrow> string option \<Rightarrow> log_state \<Rightarrow> string option" where
  "log_performance_metrics time_buf pid operation duration_ms additional_info st =
     (case global_log_config st of None \<Rightarrow> None
      | Some c \<Rightarrow>
          if \<not> enable_performance_logging c then None
          else log_message time_buf pid LOG_LEVEL_INFO
            (snprintf 512 (''PERF: '' @ operation @ '' took '' @ print_fixed3 duration_ms @ ''ms - '' @
               (case additional_info of None \<Rightarrow> [] | Some i \<Rightarrow> i))) st)"

definition log_structured_error ::
  "string \<Rightarrow> nat \<Rightarrow> log_level_t \<Rightarrow> string \<Rightarrow> string \<Rightarrow> string \<Rightarrow> string option \<Rightarrow> log_state \<Rightarrow> string option" where
  "log_structured_error time_buf pid lvl component operation error_message ctx st =
     log_message time_buf pid lvl
       (snprintf 1024 (''['' @ component @ '':'' @ operation @ ''] '' @ error_message @
          (case ctx of None \<Rightarrow> [] | Some c \<Rightarrow> '' - '' @ c))) st"

section \<open>Access log\<close>

definition create_access_log_entry :: access_log_entry where
  "create_access_log_entry =
     \<lparr>client_ip = Some ''-'', remote_user = Some ''-'', meth = Some ''-'', uri = Some ''-'',
      protocol = Some ''-'', status_code = 0, response_size = 0, referer = Some ''-'',
      user_agent = Some ''-'', server_name = Some ''-'', server_port = 0, request_duration_ms = 0,
      upstream_status = 0, upstream_addr = Some ''-'', upstream_response_time_ms = 0,
      request_uri = None, entry_timestamp = 0\<rparr>"

text \<open>How a handler completes an entry: status, bytes and milliseconds.\<close>

definition respond :: "int \<Rightarrow> int \<Rightarrow> rat \<Rightarrow> access_log_entry \<Rightarrow> access_log_entry" where
  "respond code bytes_sent elapsed e =
     e\<lparr>status_code := code, response_size := bytes_sent, request_duration_ms := elapsed\<rparr>"

definition or_dash :: "string option \<Rightarrow> string" where
  "or_dash s = (case s of None \<Rightarrow> ''-'' | Some t \<Rightarrow> t)"

definition quoted :: "string \<Rightarrow> string" where
  "quoted s = CHR 0x22 # s @ [CHR 0x22]"

definition common_fields :: "string \<Rightarrow> access_log_entry \<Rightarrow> string" where
  "common_fields timestamp e =
     or_dash (client_ip e) @ '' - '' @ or_dash (remote_user e) @ '' ['' @ timestamp @ ''] '' @
     quoted (or_dash (meth e) @ '' '' @ or_dash (uri e) @ '' '' @ or_dash (protocol e)) @ '' '' @
     print_int (status_code e) @ '' '' @ print_int (response_size e)"

definition format_common_log :: "string \<Rightarrow> access_log_entry \<Rightarrow> nat \<Rightarrow> string" where
  "format_common_log timestamp e buffer_size =
     snprintf buffer_size (common_fields timestamp e @ [CHR 0x0A])"

definition format_combined_log :: "string \<Rightarrow> access_log_entry \<Rightarrow> nat \<Rightarrow> string" where
  "format_combined_log timestamp e buffer_size =
     snprintf buffer_size (common_fields timestamp e @ '' '' @ quoted (or_dash (referer e)) @ '' '' @
       quoted (or_dash (user_agent e)) @ '' '' @ print_fixed3 (request_duration_ms e / 1000) @ [CHR 0x0A])"

definition json_str :: "string \<Rightarrow> string \<Rightarrow> string" where
  "json_str k v = quoted k @ '':'' @ quoted v"

definition json_num :: "string \<Rightarrow> string \<Rightarrow> string" where
  "json_num k v = quoted k @ '':'' @ v"

definition format_json_log :: "string \<Rightarrow> access_log_entry \<Rightarrow> nat \<Rightarrow> string" where
  "format_json_log timestamp e buffer_size =
     snprintf buffer_size (''{'' @
       json_str ''timestamp'' timestamp @ '','' @ json_str ''client_ip'' (or_dash (client_ip e)) @ '','' @
       json_str ''method'' (or_dash (meth e)) @ '','' @ json_str ''uri'' (or_dash (uri e)) @ '','' @
       json_str ''protocol'' (or_dash (protocol e)) @ '','' @
       json_num ''status_code'' (print_int (status_code e)) @ '','' @
       json_num ''response_size'' (print_int (response_size e)) @ '','' @
       json_str ''referer'' (or_dash (referer e)) @ '','' @ json_str ''user_agent'' (or_dash (user_agent e)) @ '','' @
       json_str ''server_name'' (or_dash (server_name e)) @ '','' @
       json_num ''server_port'' (print_int (server_port e)) @ '','' @
       json_num ''request_duration_ms'' (print_fixed3 (request_duration_ms e)) @ '','' @
       json_num ''upstream_status'' (print_int (upstream_status e)) @ '','' @
       json_str ''upstream_addr'' (or_dash (upstream_addr e)) @ '','' @
       json_num ''upstream_response_time_ms'' (print_fixed3 (upstream_response_time_ms e)) @ ''}'' @ [CHR 0x0A])"

section \<open>Rotation\<close>

text \<open>
  The return value, the name the file was moved to, and the state: \<open>rename\<close> is what the file
  system answers, \<open>opens\<close> as above.
\<close>

definition rotate_log_file ::
  "string \<Rightarrow> (string \<Rightarrow> string \<Rightarrow> bool) \<Rightarrow> (string \<Rightarrow> bool) \<Rightarrow> string \<Rightarrow> log_state \<Rightarrow>
   int \<times> string option \<times> log_state" where
  "rotate_log_file timestamp rename opens log_file st =
     (let old = log_file @ ''.'' @ timestamp in
      if length old \<ge> 512 then (-1, None, st)
      else if \<not> rename log_file old then (-1, None, st)
      else (0, Some old,
        if access_log_file st \<noteq> None \<and> map_option access_log_path (global_log_config st) = Some log_file
        then st\<lparr>access_log_file := (if opens log_file then Some log_file else None)\<rparr> else st))"

definition check_log_rotation ::
  "(string \<Rightarrow> int option) \<Rightarrow> string \<Rightarrow> (string \<Rightarrow> string \<Rightarrow> bool) \<Rightarrow> (string \<Rightarrow> bool) \<Rightarrow> string \<Rightarrow> int \<Rightarrow>
   log_state \<Rightarrow> int \<times> string option \<times> log_state" where
  "check_log_rotation file_size timestamp rename opens log_file max_size_mb st =
     (if max_size_mb \<le> 0 then (0, None, st)
      else case file_size log_file of None \<Rightarrow> (0, None, st)
        | Some sz \<Rightarrow> if c_div sz (1024 * 1024) \<ge> max_size_mb
                    then rotate_log_file timestamp rename opens log_file st else (0, None, st))"

text \<open>One access: the line written to the open access log, then the rotation check.\<close>

definition log_access_entry ::
  "(string \<Rightarrow> int option) \<Rightarrow> string \<Rightarrow> string \<Rightarrow> string \<Rightarrow> (string \<Rightarrow> string \<Rightarrow> bool) \<Rightarrow> (string \<Rightarrow> bool) \<Rightarrow>
   access_log_entry \<Rightarrow> log_state \<Rightarrow> string option \<times> log_state" where
  "log_access_entry file_size local_time iso_time stamp rename opens e st =
     (case access_log_file st of None \<Rightarrow> (None, st)
      | Some _ \<Rightarrow>
          let line = (case access_log_format st of
                        ACCESS_LOG_FORMAT_COMMON \<Rightarrow> format_common_log local_time e 4096
                      | ACCESS_LOG_FORMAT_COMBINED \<Rightarrow> format_combined_log local_time e 4096
                      | ACCESS_LOG_FORMAT_JSON \<Rightarrow> format_json_log iso_time e 4096)
          in (Some line,
              case global_log_config st of None \<Rightarrow> st
              | Some c \<Rightarrow> snd (snd (check_log_rotation file_size stamp rename opens (access_log_path c)
                                 (log_rotation_size_mb c) st))))"

section \<open>What is written\<close>

lemma log_message_filter: "log_message t pid lvl msg st \<noteq> None \<longleftrightarrow> lvl \<le> current_log_level st"
  by (auto simp: log_message_def not_less [symmetric])

lemma log_message_errors: "log_message t pid LOG_LEVEL_ERROR msg st \<noteq> None"
  by (simp add: log_message_def less_log_level_t_def)

lemma log_access_line_bound:
  "fst (log_access_entry fs lt it stamp rn op e st) = Some line \<Longrightarrow> length line < 4096"
  by (auto simp: log_access_entry_def Let_def format_common_log_def format_combined_log_def
      format_json_log_def snprintf_def split: option.splits access_log_format_t.splits)

text \<open>A rotation keeps the access log open or closes it; it never opens another file.\<close>

lemma rotate_access_log:
  "access_log_file st = map_option access_log_path (global_log_config st) \<Longrightarrow>
   access_log_file (snd (snd (rotate_log_file ts rn op f st))) \<in> {None, access_log_file st}"
  by (auto simp: rotate_log_file_def Let_def)

end
