(* ===== verification/Config.thy ===== *)
theory Config
  imports Prelude
begin

text \<open>
  The configuration language (src/core/config.c): the tokenizer and the recursive-descent
  parser over the static token array of 2048 entries. A token pointer beyond the tokens is
  NULL inside the array and outside of it beyond; comparing it is a fault. A parse result is
  the block and the new token index. Each parser loop has a fuel; every iteration that changes
  the index moves it forward, so one more than the number of tokens is enough for a loop that
  ends, and a loop that does not use up its fuel without an end is in a state that repeats
  (parse_directive returns without consuming anything when fewer than two tokens are left).
\<close>

section \<open>Tokens\<close>

definition MAX_TOKENS :: nat where
  "MAX_TOKENS = 2048"

datatype token_state = TOKEN_STATE_START | TOKEN_STATE_WORD string | TOKEN_STATE_COMMENT

definition is_punct :: "char \<Rightarrow> bool" where
  "is_punct c \<longleftrightarrow> c = CHR ''{'' \<or> c = CHR ''}'' \<or> c = CHR '';''"

text \<open>
  The loop of tokenize: \<open>toks\<close> are the tokens so far; the word state carries the characters
  since its start. A word that the input ends in is not a token.
\<close>

function tokenize_from :: "token_state \<Rightarrow> string list \<Rightarrow> string \<Rightarrow> string list" where
  "tokenize_from st toks [] = toks"
| "tokenize_from TOKEN_STATE_START toks (c # cs) =
     (if length toks \<ge> MAX_TOKENS then toks
      else if c = CHR ''#'' then tokenize_from TOKEN_STATE_COMMENT toks cs
      else if isspace c then tokenize_from TOKEN_STATE_START toks cs
      else if is_punct c then tokenize_from TOKEN_STATE_START (toks @ [[c]]) cs
      else tokenize_from (TOKEN_STATE_WORD [c]) toks cs)"
| "tokenize_from (TOKEN_STATE_WORD w) toks (c # cs) =
     (if length toks \<ge> MAX_TOKENS then toks
      else if isspace c \<or> is_punct c then tokenize_from TOKEN_STATE_START (toks @ [w]) (c # cs)
      else tokenize_from (TOKEN_STATE_WORD (w @ [c])) toks cs)"
| "tokenize_from TOKEN_STATE_COMMENT toks (c # cs) =
     (if length toks \<ge> MAX_TOKENS then toks
      else if c = CHR 0x0A then tokenize_from TOKEN_STATE_START toks cs
      else tokenize_from TOKEN_STATE_COMMENT toks cs)"
  by pat_completeness auto
termination
  by (relation "measures [\<lambda>(st, toks, cs). length cs,
    \<lambda>(st, toks, cs). case st of TOKEN_STATE_WORD _ \<Rightarrow> 1 | _ \<Rightarrow> 0]") auto

definition tokenize :: "string \<Rightarrow> string list" where
  "tokenize content = tokenize_from TOKEN_STATE_START [] content"

section \<open>Blocks\<close>

record directive =
  d_key :: "string option"
  d_value :: "string option"

record location_block =
  l_path :: string
  l_directives :: "directive list"

record upstream_server_entry =
  e_host :: string
  e_port :: int
  e_weight :: int
  e_max_fails :: int
  e_fail_timeout :: int
  e_max_conns :: int

record upstream_block =
  u_name :: string
  u_directives :: "directive list"
  u_servers :: "upstream_server_entry list"

record server_block =
  s_directives :: "directive list"
  s_locations :: "location_block list"

record http_block =
  h_directives :: "directive list"
  h_servers :: "server_block list"
  h_upstreams :: "upstream_block list"

definition get_directive_value :: "string \<Rightarrow> directive list \<Rightarrow> string option" where
  "get_directive_value key ds =
     (case List.find (\<lambda>d. d_key d = Some key) ds of None \<Rightarrow> None | Some d \<Rightarrow> d_value d)"

section \<open>Token access\<close>

definition tok :: "string list \<Rightarrow> nat \<Rightarrow> string run" where
  "tok ts i = (if i < length ts then Inr (ts ! i)
               else if i < MAX_TOKENS then Inl BadPointer else Inl OutOfRange)"

text \<open>\<open>token_idx < token_count && strcmp (tokens[token_idx], s) != 0\<close>, with the token.\<close>

definition here :: "string list \<Rightarrow> nat \<Rightarrow> string option" where
  "here ts i = (if i < length ts then Some (ts ! i) else None)"

section \<open>Directives\<close>

text \<open>
  strncat of at most \<open>n\<close> characters to the 1024-byte value buffer. The limit is a size_t
  computed from value_len, which counts what did not fit too: it wraps once that is 1024.
\<close>

definition strncat_value :: "string \<Rightarrow> string \<Rightarrow> nat \<Rightarrow> string run" where
  "strncat_value buf t n =
     (if length buf + length (take n t) < 1024 then Inr (buf @ take n t) else Inl OutOfRange)"

definition value_room :: "nat \<Rightarrow> nat" where
  "value_room value_len = unat (1024 - of_nat value_len - 1 :: u64)"

fun parse_value :: "string list \<Rightarrow> string \<Rightarrow> nat \<Rightarrow> (string \<times> nat) run" where
  "parse_value [] buf value_len = Inr (buf, 0)"
| "parse_value (t # ts) buf value_len =
     (if t = '';'' then Inr (buf, 0)
      else
        bindR (if value_len > 0 then strncat_value buf '' '' (value_room value_len) else Inr buf) (\<lambda>buf.
        let value_len = (if value_len > 0 then value_len + 1 else value_len) in
        bindR (strncat_value buf t (value_room value_len)) (\<lambda>buf.
        bindR (parse_value ts buf (value_len + length t)) (\<lambda>(buf, n). Inr (buf, Suc n)))))"

definition parse_directive :: "string list \<Rightarrow> nat \<Rightarrow> (directive \<times> nat) run" where
  "parse_directive ts i =
     (if i + 1 \<ge> length ts then Inr (\<lparr>d_key = None, d_value = None\<rparr>, i)
      else bindR (parse_value (drop (i + 1) ts) [] 0) (\<lambda>(buf, n).
        let j = i + 1 + n in
        Inr (\<lparr>d_key = Some (ts ! i), d_value = (if buf = [] then None else Some buf)\<rparr>,
             if here ts j = Some '';'' then j + 1 else j)))"

section \<open>Upstream blocks\<close>

definition parse_server_address :: "string \<Rightarrow> upstream_server_entry" where
  "parse_server_address addr =
     (case strchr addr CHR '':'' of
        Some colon \<Rightarrow> \<lparr>e_host = before addr colon, e_port = atoi (tl colon), e_weight = 1,
          e_max_fails = 3, e_fail_timeout = 30, e_max_conns = 1000\<rparr>
      | None \<Rightarrow> \<lparr>e_host = addr, e_port = 80, e_weight = 1, e_max_fails = 3,
          e_fail_timeout = 30, e_max_conns = 1000\<rparr>)"

definition server_param :: "string \<Rightarrow> upstream_server_entry \<Rightarrow> upstream_server_entry" where
  "server_param p e =
     (if strncmp_eq p ''weight='' 7 then e\<lparr>e_weight := atoi (drop 7 p)\<rparr>
      else if strncmp_eq p ''max_fails='' 10 then e\<lparr>e_max_fails := atoi (drop 10 p)\<rparr>
      else if strncmp_eq p ''fail_timeout='' 13 then e\<lparr>e_fail_timeout := atoi (drop 13 p)\<rparr>
      else if strncmp_eq p ''max_conns='' 10 then e\<lparr>e_max_conns := atoi (drop 10 p)\<rparr>
      else e)"

fun server_params :: "string list \<Rightarrow> upstream_server_entry \<Rightarrow> upstream_server_entry \<times> nat" where
  "server_params [] e = (e, 0)"
| "server_params (p # ps) e =
     (if p = '';'' then (e, 0)
      else let (e, n) = server_params ps (server_param p e) in (e, Suc n))"

text \<open>
  A server line after its keyword: the entry and the index behind it. The test for the suffix
  s of fail_timeout has an empty branch and is left out.
\<close>

definition parse_upstream_server :: "string list \<Rightarrow> nat \<Rightarrow> upstream_server_entry \<times> nat" where
  "parse_upstream_server ts i =
     (let (e, n) = server_params (drop (i + 1) ts) (parse_server_address (ts ! i));
          j = i + 1 + n
      in (e, if here ts j = Some '';'' then j + 1 else j))"

fun upstream_loop :: "nat \<Rightarrow> string list \<Rightarrow> nat \<Rightarrow> upstream_block \<Rightarrow> (upstream_block \<times> nat) run" where
  "upstream_loop 0 ts i u = Inl Diverges"
| "upstream_loop (Suc n) ts i u =
     (if here ts i = None \<or> here ts i = Some ''}'' then Inr (u, i)
      else if ts ! i = ''server''
      then if i + 1 \<ge> length ts then Inr (u, i + 1)
           else let (e, j) = parse_upstream_server ts (i + 1)
                in upstream_loop n ts j (u\<lparr>u_servers := e # u_servers u\<rparr>)
      else bindR (parse_directive ts i) (\<lambda>(d, j).
             upstream_loop n ts j (u\<lparr>u_directives := u_directives u @ [d]\<rparr>)))"

definition parse_upstream_block :: "string list \<Rightarrow> nat \<Rightarrow> (upstream_block option \<times> nat) run" where
  "parse_upstream_block ts i =
     bindR (tok ts i) (\<lambda>t.
     if t \<noteq> ''upstream'' then Inr (None, i)
     else if i + 1 \<ge> length ts then Inr (None, i + 1)
     else if here ts (i + 2) \<noteq> Some ''{'' then Inr (None, i + 2)
     else bindR (upstream_loop (Suc (length ts)) ts (i + 3)
                   \<lparr>u_name = ts ! (i + 1), u_directives = [], u_servers = []\<rparr>) (\<lambda>(u, j).
          Inr (Some u, if here ts j = Some ''}'' then j + 1 else j)))"

section \<open>Location, server and http blocks\<close>

fun location_loop :: "nat \<Rightarrow> string list \<Rightarrow> nat \<Rightarrow> location_block \<Rightarrow> (location_block \<times> nat) run" where
  "location_loop 0 ts i l = Inl Diverges"
| "location_loop (Suc n) ts i l =
     (if here ts i = None \<or> here ts i = Some ''}'' then Inr (l, i)
      else bindR (parse_directive ts i) (\<lambda>(d, j).
             location_loop n ts j (l\<lparr>l_directives := l_directives l @ [d]\<rparr>)))"

definition parse_location_block :: "string list \<Rightarrow> nat \<Rightarrow> (location_block option \<times> nat) run" where
  "parse_location_block ts i =
     bindR (tok ts i) (\<lambda>t.
     if t \<noteq> ''location'' then Inr (None, i)
     else bindR (tok ts (i + 1)) (\<lambda>path.
          bindR (tok ts (i + 2)) (\<lambda>brace.
          if brace \<noteq> ''{'' then Inr (None, i + 2)
          else bindR (location_loop (Suc (length ts)) ts (i + 3)
                        \<lparr>l_path = path, l_directives = []\<rparr>) (\<lambda>(l, j).
               bindR (tok ts j) (\<lambda>_. Inr (Some l, j + 1))))))"

text \<open>Linking a NULL location into the list is a fault.\<close>

fun server_loop :: "nat \<Rightarrow> string list \<Rightarrow> nat \<Rightarrow> server_block \<Rightarrow> (server_block \<times> nat) run" where
  "server_loop 0 ts i s = Inl Diverges"
| "server_loop (Suc n) ts i s =
     (if here ts i = None \<or> here ts i = Some ''}'' then Inr (s, i)
      else if ts ! i = ''location''
      then bindR (parse_location_block ts i) (\<lambda>(l, j).
             case l of None \<Rightarrow> Inl BadPointer
             | Some l \<Rightarrow> server_loop n ts j (s\<lparr>s_locations := l # s_locations s\<rparr>))
      else bindR (parse_directive ts i) (\<lambda>(d, j).
             server_loop n ts j (s\<lparr>s_directives := s_directives s @ [d]\<rparr>)))"

definition parse_server_block :: "string list \<Rightarrow> nat \<Rightarrow> (server_block option \<times> nat) run" where
  "parse_server_block ts i =
     bindR (tok ts i) (\<lambda>t.
     if t \<noteq> ''server'' then Inr (None, i)
     else bindR (tok ts (i + 1)) (\<lambda>brace.
          if brace \<noteq> ''{'' then Inr (None, i)
          else bindR (server_loop (Suc (length ts)) ts (i + 2) \<lparr>s_directives = [], s_locations = []\<rparr>) (\<lambda>(s, j).
               bindR (tok ts j) (\<lambda>_. Inr (Some s, j + 1)))))"

fun http_loop :: "nat \<Rightarrow> string list \<Rightarrow> nat \<Rightarrow> http_block \<Rightarrow> (http_block \<times> nat) run" where
  "http_loop 0 ts i h = Inl Diverges"
| "http_loop (Suc n) ts i h =
     (if here ts i = None \<or> here ts i = Some ''}'' then Inr (h, i)
      else if ts ! i = ''server''
      then bindR (parse_server_block ts i) (\<lambda>(s, j).
             case s of None \<Rightarrow> Inl BadPointer
             | Some s \<Rightarrow> http_loop n ts j (h\<lparr>h_servers := s # h_servers h\<rparr>))
      else if ts ! i = ''upstream''
      then bindR (parse_upstream_block ts i) (\<lambda>(u, j).
             http_loop n ts j (case u of None \<Rightarrow> h | Some u \<Rightarrow> h\<lparr>h_upstreams := u # h_upstreams h\<rparr>))
      else bindR (parse_directive ts i) (\<lambda>(d, j).
             http_loop n ts j (h\<lparr>h_directives := h_directives h @ [d]\<rparr>)))"

definition parse_http_block :: "string list \<Rightarrow> nat \<Rightarrow> (http_block option \<times> nat) run" where
  "parse_http_block ts i =
     bindR (tok ts i) (\<lambda>t.
     if t \<noteq> ''http'' then Inr (None, i)
     else bindR (tok ts (i + 1)) (\<lambda>brace.
          if brace \<noteq> ''{'' then Inr (None, i)
          else bindR (http_loop (Suc (length ts)) ts (i + 2)
                        \<lparr>h_directives = [], h_servers = [], h_upstreams = []\<rparr>) (\<lambda>(h, j).
               bindR (tok ts j) (\<lambda>_. Inr (Some h, j + 1)))))"

text \<open>
  The top level: every http block replaces the one before. An http block that cannot be
  parsed consumes nothing, and the loop meets it again.
\<close>

fun top_loop :: "nat \<Rightarrow> string list \<Rightarrow> nat \<Rightarrow> http_block option \<Rightarrow> http_block option run" where
  "top_loop 0 ts i http = Inl Diverges"
| "top_loop (Suc n) ts i http =
     (if i \<ge> length ts then Inr http
      else if ts ! i = ''http''
      then bindR (parse_http_block ts i) (\<lambda>(h, j). top_loop n ts j h)
      else top_loop n ts (i + 1) http)"

definition parse_blocks :: "string \<Rightarrow> http_block option run" where
  "parse_blocks content = (let ts = tokenize content in top_loop (Suc (length ts)) ts 0 None)"

section \<open>Paths\<close>

text \<open>The directory of the configuration file, kept in 256 bytes.\<close>

definition set_config_dir :: "string \<Rightarrow> string run" where
  "set_config_dir filename =
     (case strrchr filename CHR ''/'' of
        Some slash \<Rightarrow> if length (before filename slash) < 256 then Inr (before filename slash) else Inl OutOfRange
      | None \<Rightarrow> Inr [])"

definition resolve_config_path :: "string \<Rightarrow> string \<Rightarrow> string" where
  "resolve_config_path config_dir path =
     (if path \<noteq> [] \<and> hd path = CHR ''/'' then path
      else if config_dir = [] then path
      else config_dir @ ''/'' @ path)"


section \<open>Printing\<close>

text \<open>The source form of a configuration, and its tokens.\<close>

type_synonym dir_src = "string \<times> string list"

datatype server_item = SDir dir_src | SLoc string "dir_src list"

datatype upstream_item = UDir dir_src | UServer string "string list"

datatype http_item = HDir dir_src | HServer "server_item list" | HUpstream string "upstream_item list"

definition dir_tokens :: "dir_src \<Rightarrow> string list" where
  "dir_tokens d = fst d # snd d @ ['';'']"

fun server_item_tokens :: "server_item \<Rightarrow> string list" where
  "server_item_tokens (SDir d) = dir_tokens d"
| "server_item_tokens (SLoc p ds) = [''location'', p, ''{''] @ concat (List.map dir_tokens ds) @ [''}'']"

fun upstream_item_tokens :: "upstream_item \<Rightarrow> string list" where
  "upstream_item_tokens (UDir d) = dir_tokens d"
| "upstream_item_tokens (UServer a ps) = [''server'', a] @ ps @ ['';'']"

fun http_item_tokens :: "http_item \<Rightarrow> string list" where
  "http_item_tokens (HDir d) = dir_tokens d"
| "http_item_tokens (HServer items) = [''server'', ''{''] @ concat (List.map server_item_tokens items) @ [''}'']"
| "http_item_tokens (HUpstream name items) =
     [''upstream'', name, ''{''] @ concat (List.map upstream_item_tokens items) @ [''}'']"

definition http_tokens :: "http_item list \<Rightarrow> string list" where
  "http_tokens items = [''http'', ''{''] @ concat (List.map http_item_tokens items) @ [''}'']"

text \<open>Between two tokens stand blanks and comments to the end of the line.\<close>

datatype gap = Blank char | Comment string

fun gap_text :: "gap \<Rightarrow> string" where
  "gap_text (Blank c) = [c]"
| "gap_text (Comment s) = CHR ''#'' # s @ [CHR 0x0A]"

definition gaps :: "gap list \<Rightarrow> string" where
  "gaps gs = concat (List.map gap_text gs)"

fun layout :: "(string \<times> gap list) list \<Rightarrow> string" where
  "layout [] = []"
| "layout ((t, gs) # r) = t @ gaps gs @ layout r"

text \<open>The plainest layout: one blank behind each token.\<close>

definition render :: "string list \<Rightarrow> string" where
  "render ts = layout (List.map (\<lambda>t. (t, [Blank CHR '' ''])) ts)"

section \<open>What a configuration means\<close>

fun spaced :: "string list \<Rightarrow> string" where
  "spaced [] = []"
| "spaced (w # ws) = '' '' @ w @ spaced ws"

fun join_words :: "string list \<Rightarrow> string" where
  "join_words [] = []"
| "join_words (w # ws) = w @ spaced ws"

definition dir_of :: "dir_src \<Rightarrow> directive" where
  "dir_of d = \<lparr>d_key = Some (fst d), d_value = (if snd d = [] then None else Some (join_words (snd d)))\<rparr>"

definition location_of :: "string \<Rightarrow> dir_src list \<Rightarrow> location_block" where
  "location_of p ds = \<lparr>l_path = p, l_directives = List.map dir_of ds\<rparr>"

fun add_server_item :: "server_block \<Rightarrow> server_item \<Rightarrow> server_block" where
  "add_server_item s (SDir d) = s\<lparr>s_directives := s_directives s @ [dir_of d]\<rparr>"
| "add_server_item s (SLoc p ds) = s\<lparr>s_locations := location_of p ds # s_locations s\<rparr>"

definition server_of :: "server_item list \<Rightarrow> server_block" where
  "server_of items = foldl add_server_item \<lparr>s_directives = [], s_locations = []\<rparr> items"

definition entry_of :: "string \<Rightarrow> string list \<Rightarrow> upstream_server_entry" where
  "entry_of a ps = foldl (\<lambda>e p. server_param p e) (parse_server_address a) ps"

fun add_upstream_item :: "upstream_block \<Rightarrow> upstream_item \<Rightarrow> upstream_block" where
  "add_upstream_item u (UDir d) = u\<lparr>u_directives := u_directives u @ [dir_of d]\<rparr>"
| "add_upstream_item u (UServer a ps) = u\<lparr>u_servers := entry_of a ps # u_servers u\<rparr>"

definition upstream_of :: "string \<Rightarrow> upstream_item list \<Rightarrow> upstream_block" where
  "upstream_of name items = foldl add_upstream_item \<lparr>u_name = name, u_directives = [], u_servers = []\<rparr> items"

fun add_http_item :: "http_block \<Rightarrow> http_item \<Rightarrow> http_block" where
  "add_http_item h (HDir d) = h\<lparr>h_directives := h_directives h @ [dir_of d]\<rparr>"
| "add_http_item h (HServer items) = h\<lparr>h_servers := server_of items # h_servers h\<rparr>"
| "add_http_item h (HUpstream name items) = h\<lparr>h_upstreams := upstream_of name items # h_upstreams h\<rparr>"

definition http_of :: "http_item list \<Rightarrow> http_block" where
  "http_of items = foldl add_http_item \<lparr>h_directives = [], h_servers = [], h_upstreams = []\<rparr> items"

section \<open>Well-formed sources\<close>

text \<open>Words survive the tokenizer; keys are not taken for the keywords of their block.\<close>

definition plain_word :: "string \<Rightarrow> bool" where
  "plain_word w \<longleftrightarrow> w \<noteq> [] \<and> hd w \<noteq> CHR ''#'' \<and> (\<forall>c\<in>set w. \<not> isspace c \<and> \<not> is_punct c)"

definition dir_ok :: "string set \<Rightarrow> dir_src \<Rightarrow> bool" where
  "dir_ok reserved d \<longleftrightarrow> plain_word (fst d) \<and> fst d \<notin> reserved \<and> (\<forall>w\<in>set (snd d). plain_word w) \<and>
     length (join_words (snd d)) < 1024"

fun server_item_ok :: "server_item \<Rightarrow> bool" where
  "server_item_ok (SDir d) = dir_ok {''location''} d"
| "server_item_ok (SLoc p ds) = (plain_word p \<and> (\<forall>d\<in>set ds. dir_ok {} d))"

fun upstream_item_ok :: "upstream_item \<Rightarrow> bool" where
  "upstream_item_ok (UDir d) = dir_ok {''server''} d"
| "upstream_item_ok (UServer a ps) = (plain_word a \<and> (\<forall>p\<in>set ps. plain_word p))"

fun http_item_ok :: "http_item \<Rightarrow> bool" where
  "http_item_ok (HDir d) = dir_ok {''server'', ''upstream''} d"
| "http_item_ok (HServer items) = (\<forall>i\<in>set items. server_item_ok i)"
| "http_item_ok (HUpstream name items) = (plain_word name \<and> (\<forall>i\<in>set items. upstream_item_ok i))"

text \<open>
  A layout is read back if its gaps are gaps and every word ends: at a blank, or at the
  punctuation that follows at once. A number sign within a word does not start a comment.
\<close>

fun gap_ok :: "gap \<Rightarrow> bool" where
  "gap_ok (Blank c) = isspace c"
| "gap_ok (Comment s) = (CHR 0x0A \<notin> set s)"

fun layout_ok :: "(string \<times> gap list) list \<Rightarrow> bool" where
  "layout_ok [] = True"
| "layout_ok ((t, gs) # r) =
     (list_all gap_ok gs \<and> layout_ok r \<and>
      (plain_word t \<longrightarrow>
        (case gs of [] \<Rightarrow> r \<noteq> [] \<and> fst (hd r) \<in> {''{'', ''}'', '';''} | g # _ \<Rightarrow> (\<exists>c\<in>set (gap_text g). g = Blank c))))"

section \<open>The tokenizer reads what is printed\<close>

lemma tokenize_word:
  "\<forall>c\<in>set v. \<not> isspace c \<and> \<not> is_punct c \<Longrightarrow> length toks < MAX_TOKENS \<Longrightarrow> isspace d \<or> is_punct d \<Longrightarrow>
   tokenize_from (TOKEN_STATE_WORD w) toks (v @ d # cs) = tokenize_from TOKEN_STATE_START (toks @ [w @ v]) (d # cs)"
  by (induction v arbitrary: w) simp_all

lemma tokenize_full: "MAX_TOKENS \<le> length toks \<Longrightarrow> tokenize_from TOKEN_STATE_START toks cs = toks"
  by (cases cs) simp_all

lemma tokenize_comment:
  "CHR 0x0A \<notin> set s \<Longrightarrow> tokenize_from TOKEN_STATE_COMMENT toks (s @ CHR 0x0A # cs) = tokenize_from TOKEN_STATE_START toks cs"
  by (induction s) (auto simp: tokenize_full)

lemma hash_not_space: "isspace c \<Longrightarrow> c \<noteq> CHR ''#''"
  by (auto simp: isspace_def)

lemma skip_gap: "gap_ok g \<Longrightarrow> tokenize_from TOKEN_STATE_START toks (gap_text g @ cs) = tokenize_from TOKEN_STATE_START toks cs"
  by (cases "MAX_TOKENS \<le> length toks"; cases g) (simp_all add: tokenize_full tokenize_comment hash_not_space)

lemma skip_gaps:
  "list_all gap_ok gs \<Longrightarrow> tokenize_from TOKEN_STATE_START toks (gaps gs @ cs) = tokenize_from TOKEN_STATE_START toks cs"
  by (induction gs) (simp_all add: gaps_def skip_gap)

lemma punct_start:
  assumes "c = CHR ''{'' \<or> c = CHR ''}'' \<or> c = CHR '';''"
  shows "is_punct c" "c \<noteq> CHR ''#''" "\<not> isspace c"
  using assms by (simp add: is_punct_def, elim disjE, simp_all, elim disjE, simp_all add: isspace_def)

lemma tokenize_punct:
  assumes "t \<in> {''{'', ''}'', '';''}" "length toks < MAX_TOKENS"
  shows "tokenize_from TOKEN_STATE_START toks (t @ cs) = tokenize_from TOKEN_STATE_START (toks @ [t]) cs"
proof -
  from assms(1) obtain c where c: "t = [c]" "c = CHR ''{'' \<or> c = CHR ''}'' \<or> c = CHR '';''" by blast
  with punct_start [OF c(2)] assms(2) show ?thesis by simp
qed

lemma tokenize_plain:
  assumes "plain_word t" "length toks < MAX_TOKENS" "isspace d \<or> is_punct d"
  shows "tokenize_from TOKEN_STATE_START toks (t @ d # cs) = tokenize_from TOKEN_STATE_START (toks @ [t]) (d # cs)"
proof -
  obtain c v where t: "t = c # v" "c \<noteq> CHR ''#''" "\<not> isspace c" "\<not> is_punct c"
    "\<forall>c\<in>set v. \<not> isspace c \<and> \<not> is_punct c"
    using assms(1) by (cases t) (auto simp: plain_word_def)
  with tokenize_word [OF t(5) assms(2,3), of "[c]" cs] assms(2) show ?thesis by simp
qed

definition token :: "string \<Rightarrow> bool" where
  "token t \<longleftrightarrow> plain_word t \<or> t \<in> {''{'', ''}'', '';''}"

lemma tokenize_token:
  assumes "token t" "length toks < MAX_TOKENS" "layout_ok ((t, gs) # r)"
  shows "tokenize_from TOKEN_STATE_START toks (layout ((t, gs) # r)) =
    tokenize_from TOKEN_STATE_START (toks @ [t]) (gaps gs @ layout r)"
proof (cases "plain_word t")
  case True
  have "\<exists>d cs. gaps gs @ layout r = d # cs \<and> (isspace d \<or> is_punct d)"
  proof (cases gs)
    case Nil
    then obtain p hs q where "r = (p, hs) # q" "p \<in> {''{'', ''}'', '';''}"
      using assms(3) True by (cases r) auto
    then show ?thesis using Nil by (auto simp: gaps_def is_punct_def)
  next
    case (Cons g hs)
    then obtain c where "g = Blank c" "isspace c" using assms(3) True by auto
    then show ?thesis using Cons by (simp add: gaps_def)
  qed
  then obtain d cs where d: "gaps gs @ layout r = d # cs" "isspace d \<or> is_punct d" by blast
  show ?thesis using tokenize_plain [OF True assms(2) d(2), of cs] d(1) by simp
next
  case False
  with assms(1) have "t \<in> {''{'', ''}'', '';''}" by (simp add: token_def)
  from tokenize_punct [OF this assms(2)] show ?thesis by simp
qed

lemma tokenize_layout:
  assumes "list_all gap_ok gs" "layout_ok l" "\<forall>t\<in>set (List.map fst l). token t" "length l \<le> MAX_TOKENS"
  shows "tokenize (gaps gs @ layout l) = List.map fst l"
proof -
  have "tokenize_from TOKEN_STATE_START toks (layout l) = toks @ List.map fst l"
    if "layout_ok l" "\<forall>t\<in>set (List.map fst l). token t" "length toks + length l \<le> MAX_TOKENS" for toks l
    using that
  proof (induction l arbitrary: toks rule: layout.induct)
    case (2 t gs r)
    have "tokenize_from TOKEN_STATE_START toks (layout ((t, gs) # r)) = tokenize_from TOKEN_STATE_START (toks @ [t]) (gaps gs @ layout r)"
      by (rule tokenize_token) (use 2 in simp_all)
    also have "\<dots> = tokenize_from TOKEN_STATE_START (toks @ [t]) (layout r)" by (rule skip_gaps) (use 2 in simp)
    also have "\<dots> = toks @ t # List.map fst r" using 2 by simp
    finally show ?case by simp
  qed simp
  from this [of l "[]"] assms skip_gaps [OF assms(1), of "[]" "layout l"] show ?thesis by (simp add: tokenize_def)
qed

lemma layout_ok_render: "layout_ok (List.map (\<lambda>t. (t, [Blank CHR '' ''])) ts)"
  by (induction ts) (simp_all add: isspace_def)

lemma tokenize_render:
  assumes "\<forall>t\<in>set ts. token t" "length ts \<le> MAX_TOKENS"
  shows "tokenize (render ts) = ts"
  using tokenize_layout [OF _ layout_ok_render, of "[]" ts] assms by (simp add: render_def gaps_def comp_def)


section \<open>The parser reads what is printed\<close>

lemma here_at [simp]: "here (pre @ t # post) (length pre) = Some t"
  by (simp add: here_def)

lemma here_end [simp]: "here ts (length ts) = None"
  by (simp add: here_def)

lemma word_not_char: "plain_word w \<Longrightarrow> is_punct c \<Longrightarrow> w \<noteq> [c]"
  by (auto simp: plain_word_def)

lemma punct_chars: "is_punct CHR '';''" "is_punct CHR ''}''" "is_punct CHR ''{''"
  by (simp_all add: is_punct_def)

lemma word_not_punct: "plain_word w \<Longrightarrow> w \<noteq> '';''" "plain_word w \<Longrightarrow> w \<noteq> ''}''" "plain_word w \<Longrightarrow> w \<noteq> ''{''"
  using word_not_char punct_chars by blast+

lemma value_room_eq: "n \<le> 1023 \<Longrightarrow> value_room n = 1023 - n"
proof -
  assume n: "n \<le> 1023"
  then have "(1024 - of_nat n - 1 :: u64) = of_nat (1023 - n)" by (simp add: of_nat_diff)
  moreover have "unat (of_nat (1023 - n) :: u64) = 1023 - n"
    by (subst unsigned_of_nat) (simp add: take_bit_nat_eq_self)
  ultimately show ?thesis by (simp only: value_room_def)
qed

lemma strncat_fits: "length buf + length t \<le> 1023 \<Longrightarrow> length t \<le> n \<Longrightarrow> strncat_value buf t n = Inr (buf @ t)"
  by (simp add: strncat_value_def)

lemma parse_value_more:
  "\<forall>w\<in>set ws. plain_word w \<Longrightarrow> 0 < length buf \<Longrightarrow> length buf + length (spaced ws) \<le> 1023 \<Longrightarrow>
   parse_value (ws @ '';'' # rest) buf (length buf) = Inr (buf @ spaced ws, length ws)"
proof (induction ws arbitrary: buf)
  case (Cons w ws)
  have w: "w \<noteq> '';''" using Cons.prems word_not_punct by simp
  have 1: "strncat_value buf '' '' (value_room (length buf)) = Inr (buf @ '' '')"
    using Cons.prems by (intro strncat_fits) (simp_all add: value_room_eq)
  have 2: "strncat_value (buf @ '' '') w (value_room (length buf + 1)) = Inr (buf @ '' '' @ w)"
    using Cons.prems by (subst strncat_fits) (simp_all add: value_room_eq)
  have "parse_value (ws @ '';'' # rest) (buf @ '' '' @ w) (length (buf @ '' '' @ w))
      = Inr ((buf @ '' '' @ w) @ spaced ws, length ws)"
    using Cons.prems by (intro Cons.IH) auto
  with w 1 2 Cons.prems(2) show ?case by (simp add: add.assoc)
qed simp

lemma parse_value_join:
  assumes "\<forall>w\<in>set ws. plain_word w" "length (join_words ws) < 1024"
  shows "parse_value (ws @ '';'' # rest) [] 0 = Inr (join_words ws, length ws)"
proof (cases ws)
  case (Cons w vs)
  have w: "w \<noteq> '';''" "0 < length w" using assms Cons word_not_punct by (auto simp: plain_word_def)
  have "strncat_value [] w (value_room 0) = Inr w"
    using assms Cons by (subst strncat_fits) (simp_all add: value_room_eq)
  with w parse_value_more [of vs w rest] assms Cons show ?thesis by simp
qed simp

lemma parse_directive_ok:
  assumes "dir_ok r d"
  shows "parse_directive (pre @ dir_tokens d @ post) (length pre) = Inr (dir_of d, length pre + length (dir_tokens d))"
proof -
  obtain k ws where d: "d = (k, ws)" by (cases d)
  have v: "parse_value (ws @ '';'' # post) [] 0 = Inr (join_words ws, length ws)"
    using assms d by (intro parse_value_join) (simp_all add: dir_ok_def)
  have ne: "join_words ws = [] \<longleftrightarrow> ws = []" using assms d by (cases ws) (auto simp: dir_ok_def plain_word_def)
  have "here (pre @ (k # ws) @ '';'' # post) (length (pre @ k # ws)) = Some '';''"
    using here_at [of "pre @ k # ws" "'';''" post] by simp
  then show ?thesis using v ne d
    by (simp add: parse_directive_def dir_tokens_def dir_of_def nth_append)
qed

lemma dir_tokens_start: "dir_ok r d \<Longrightarrow> \<exists>us. dir_tokens d = fst d # us \<and> us \<noteq> [] \<and> fst d \<noteq> ''}'' \<and> fst d \<notin> r"
  by (auto simp: dir_tokens_def dir_ok_def word_not_punct)

lemma location_loop_ok:
  "\<forall>d\<in>set ds. dir_ok {} d \<Longrightarrow> length ds < n \<Longrightarrow>
   location_loop n (pre @ concat (List.map dir_tokens ds) @ ''}'' # post) (length pre) l =
     Inr (l\<lparr>l_directives := l_directives l @ List.map dir_of ds\<rparr>, length pre + length (concat (List.map dir_tokens ds)))"
proof (induction ds arbitrary: n pre l)
  case Nil
  then obtain m where "n = Suc m" by (cases n) auto
  then show ?case by simp
next
  case (Cons d ds)
  then obtain m where n: "n = Suc m" by (cases n) auto
  let ?rest = "concat (List.map dir_tokens ds) @ ''}'' # post"
  obtain us where us: "dir_tokens d = fst d # us" "us \<noteq> []" "fst d \<noteq> ''}''"
    using dir_tokens_start Cons.prems by (metis list.set_intros(1))
  have pd: "parse_directive (pre @ dir_tokens d @ ?rest) (length pre) = Inr (dir_of d, length pre + length (dir_tokens d))"
    using Cons.prems by (intro parse_directive_ok [of "{}"]) simp
  have ih: "location_loop m ((pre @ dir_tokens d) @ ?rest) (length (pre @ dir_tokens d))
       (l\<lparr>l_directives := l_directives l @ [dir_of d]\<rparr>) =
     Inr (l\<lparr>l_directives := l_directives l @ [dir_of d] @ List.map dir_of ds\<rparr>,
       length (pre @ dir_tokens d) + length (concat (List.map dir_tokens ds)))"
    using Cons.IH [of m "pre @ dir_tokens d" "l\<lparr>l_directives := l_directives l @ [dir_of d]\<rparr>"] Cons.prems n by simp
  have "here (pre @ dir_tokens d @ ?rest) (length pre) = Some (fst d)" using us by simp
  with n us(3) pd ih show ?case by (simp add: add.assoc)
qed

text \<open>Fuel: a token list holds more tokens than items, and the loops start with one more.\<close>

lemma length_concat_ge: "(\<And>x. x \<in> set xs \<Longrightarrow> f x \<noteq> []) \<Longrightarrow> length xs \<le> length (concat (List.map f xs))"
proof (induction xs)
  case (Cons x xs)
  then have "0 < length (f x)" "length xs \<le> length (concat (List.map f xs))" by simp_all
  then show ?case by (simp only: list.map concat.simps length_append list.size)
qed simp

lemma tok_at [simp]: "tok (pre @ t # post) (length pre) = Inr t"
  by (simp add: tok_def)

lemma parse_location_ok:
  assumes "plain_word p" "\<forall>d\<in>set ds. dir_ok {} d"
  shows "parse_location_block (pre @ server_item_tokens (SLoc p ds) @ post) (length pre) =
    Inr (Some (location_of p ds), length pre + length (server_item_tokens (SLoc p ds)))"
proof -
  let ?ts = "pre @ server_item_tokens (SLoc p ds) @ post"
  let ?body = "concat (List.map dir_tokens ds)"
  have t: "tok ?ts (length pre) = Inr ''location''" "tok ?ts (length pre + 1) = Inr p" "tok ?ts (length pre + 2) = Inr ''{''"
    by (simp_all add: tok_def nth_append)
  have "length ds \<le> length ?body" by (rule length_concat_ge) (simp add: dir_tokens_def)
  then have "location_loop (Suc (length ?ts)) ((pre @ [''location'', p, ''{'']) @ ?body @ ''}'' # post)
      (length (pre @ [''location'', p, ''{''])) \<lparr>l_path = p, l_directives = []\<rparr>
      = Inr (location_of p ds, length (pre @ [''location'', p, ''{'']) + length ?body)"
    using assms by (subst location_loop_ok) (simp_all add: location_of_def)
  moreover have "tok ?ts (length pre + (3 + length ?body)) = Inr ''}''"
    using tok_at [of "pre @ [''location'', p, ''{''] @ ?body" "''}''" post] by (simp add: numeral_3_eq_3)
  ultimately show ?thesis
    using t by (simp add: parse_location_block_def add.assoc numeral_3_eq_3)
qed


lemma server_params_ok:
  "\<forall>p\<in>set ps. plain_word p \<Longrightarrow>
   server_params (ps @ '';'' # post) e = (foldl (\<lambda>e p. server_param p e) e ps, length ps)"
  by (induction ps arbitrary: e) (simp_all add: word_not_punct)

lemma parse_upstream_server_ok:
  assumes "\<forall>p\<in>set ps. plain_word p"
  shows "parse_upstream_server (pre @ a # ps @ '';'' # post) (length pre) =
    (entry_of a ps, length pre + length ps + 2)"
  using server_params_ok [OF assms, of post "parse_server_address a"] here_at [of "pre @ a # ps" "'';''" post]
  by (simp add: parse_upstream_server_def entry_of_def)

lemma upstream_loop_ok:
  "\<forall>x\<in>set items. upstream_item_ok x \<Longrightarrow> length items < n \<Longrightarrow>
   upstream_loop n (pre @ concat (List.map upstream_item_tokens items) @ ''}'' # post) (length pre) u =
     Inr (foldl add_upstream_item u items, length pre + length (concat (List.map upstream_item_tokens items)))"
proof (induction items arbitrary: n pre u)
  case Nil
  then obtain m where "n = Suc m" by (cases n) auto
  then show ?case by simp
next
  case (Cons x items)
  then obtain m where n: "n = Suc m" by (cases n) auto
  let ?rest = "concat (List.map upstream_item_tokens items) @ ''}'' # post"
  have ih: "upstream_loop m ((pre @ upstream_item_tokens x) @ ?rest) (length (pre @ upstream_item_tokens x)) (add_upstream_item u x) =
     Inr (foldl add_upstream_item (add_upstream_item u x) items,
       length (pre @ upstream_item_tokens x) + length (concat (List.map upstream_item_tokens items)))"
    by (rule Cons.IH) (use Cons.prems n in simp_all)
  show ?case
  proof (cases x)
    case (UDir d)
    have ok: "dir_ok {''server''} d" using Cons.prems UDir by simp
    obtain us where us: "dir_tokens d = fst d # us" "fst d \<noteq> ''}''" "fst d \<noteq> ''server''"
      using dir_tokens_start [OF ok] by auto
    have h: "here (pre @ dir_tokens d @ ?rest) (length pre) = Some (fst d)"
      "(pre @ dir_tokens d @ ?rest) ! length pre = fst d" using us by (simp_all add: nth_append)
    have pd: "parse_directive (pre @ dir_tokens d @ ?rest) (length pre) = Inr (dir_of d, length pre + length (dir_tokens d))"
      by (rule parse_directive_ok [OF ok])
    show ?thesis using UDir n us h pd ih by (simp add: add.assoc)
  next
    case (UServer a ps)
    have ok: "\<forall>p\<in>set ps. plain_word p" using Cons.prems UServer by simp
    have "parse_upstream_server ((pre @ [''server'']) @ a # ps @ '';'' # ?rest) (length (pre @ [''server'']))
        = (entry_of a ps, length (pre @ [''server'']) + length ps + 2)"
      by (rule parse_upstream_server_ok [OF ok])
    then show ?thesis using UServer n ih by (simp add: nth_append add.assoc)
  qed
qed

lemma parse_upstream_ok:
  assumes "plain_word name" "\<forall>x\<in>set items. upstream_item_ok x"
  shows "parse_upstream_block (pre @ http_item_tokens (HUpstream name items) @ post) (length pre) =
    Inr (Some (upstream_of name items), length pre + length (http_item_tokens (HUpstream name items)))"
proof -
  let ?ts = "pre @ http_item_tokens (HUpstream name items) @ post"
  let ?body = "concat (List.map upstream_item_tokens items)"
  have t: "tok ?ts (length pre) = Inr ''upstream''" "here ?ts (length pre + 2) = Some ''{''"
    "?ts ! (length pre + 1) = name"
    by (simp_all add: tok_def here_def nth_append)
  have "length items \<le> length ?body"
    by (rule length_concat_ge) (metis upstream_item_tokens.elims dir_tokens_def list.distinct(1) append_is_Nil_conv)
  then have "upstream_loop (Suc (length ?ts)) ((pre @ [''upstream'', name, ''{'']) @ ?body @ ''}'' # post)
      (length (pre @ [''upstream'', name, ''{''])) \<lparr>u_name = name, u_directives = [], u_servers = []\<rparr>
      = Inr (upstream_of name items, length (pre @ [''upstream'', name, ''{'']) + length ?body)"
    using assms by (subst upstream_loop_ok) (simp_all add: upstream_of_def)
  moreover have "here ?ts (length pre + (3 + length ?body)) = Some ''}''"
    using here_at [of "pre @ [''upstream'', name, ''{''] @ ?body" "''}''" post] by (simp add: numeral_3_eq_3)
  ultimately show ?thesis
    using t by (simp add: parse_upstream_block_def add.assoc numeral_3_eq_3)
qed

lemma server_loop_ok:
  "\<forall>x\<in>set items. server_item_ok x \<Longrightarrow> length items < n \<Longrightarrow>
   server_loop n (pre @ concat (List.map server_item_tokens items) @ ''}'' # post) (length pre) u =
     Inr (foldl add_server_item u items, length pre + length (concat (List.map server_item_tokens items)))"
proof (induction items arbitrary: n pre u)
  case Nil
  then obtain m where "n = Suc m" by (cases n) auto
  then show ?case by simp
next
  case (Cons x items)
  then obtain m where n: "n = Suc m" by (cases n) auto
  let ?rest = "concat (List.map server_item_tokens items) @ ''}'' # post"
  have ih: "server_loop m ((pre @ server_item_tokens x) @ ?rest) (length (pre @ server_item_tokens x)) (add_server_item u x) =
     Inr (foldl add_server_item (add_server_item u x) items,
       length (pre @ server_item_tokens x) + length (concat (List.map server_item_tokens items)))"
    by (rule Cons.IH) (use Cons.prems n in simp_all)
  show ?case
  proof (cases x)
    case (SDir d)
    have ok: "dir_ok {''location''} d" using Cons.prems SDir by simp
    obtain us where us: "dir_tokens d = fst d # us" "fst d \<noteq> ''}''" "fst d \<noteq> ''location''"
      using dir_tokens_start [OF ok] by auto
    have h: "here (pre @ dir_tokens d @ ?rest) (length pre) = Some (fst d)"
      "(pre @ dir_tokens d @ ?rest) ! length pre = fst d" using us by (simp_all add: nth_append)
    have pd: "parse_directive (pre @ dir_tokens d @ ?rest) (length pre) = Inr (dir_of d, length pre + length (dir_tokens d))"
      by (rule parse_directive_ok [OF ok])
    show ?thesis using SDir n us h pd ih by (simp add: add.assoc)
  next
    case (SLoc p ds)
    have ok: "plain_word p" "\<forall>d\<in>set ds. dir_ok {} d" using Cons.prems SLoc by simp_all
    have pl: "parse_location_block (pre @ server_item_tokens (SLoc p ds) @ ?rest) (length pre) =
        Inr (Some (location_of p ds), length pre + length (server_item_tokens (SLoc p ds)))"
      by (rule parse_location_ok [OF ok])
    have h: "here (pre @ server_item_tokens (SLoc p ds) @ ?rest) (length pre) = Some ''location''"
      "(pre @ server_item_tokens (SLoc p ds) @ ?rest) ! length pre = ''location''" by (simp_all add: nth_append)
    show ?thesis using SLoc n h pl ih by (simp add: add.assoc del: server_item_tokens.simps)
  qed
qed

lemma parse_server_ok:
  assumes "\<forall>x\<in>set items. server_item_ok x"
  shows "parse_server_block (pre @ http_item_tokens (HServer items) @ post) (length pre) =
    Inr (Some (server_of items), length pre + length (http_item_tokens (HServer items)))"
proof -
  let ?ts = "pre @ http_item_tokens (HServer items) @ post"
  let ?body = "concat (List.map server_item_tokens items)"
  have t: "tok ?ts (length pre) = Inr ''server''" "tok ?ts (length pre + 1) = Inr ''{''"
    by (simp_all add: tok_def nth_append)
  have "length items \<le> length ?body"
    by (rule length_concat_ge) (metis server_item_tokens.elims dir_tokens_def list.distinct(1) append_is_Nil_conv)
  then have "server_loop (Suc (length ?ts)) ((pre @ [''server'', ''{'']) @ ?body @ ''}'' # post)
      (length (pre @ [''server'', ''{''])) \<lparr>s_directives = [], s_locations = []\<rparr>
      = Inr (server_of items, length (pre @ [''server'', ''{'']) + length ?body)"
    using assms by (subst server_loop_ok) (simp_all add: server_of_def)
  moreover have "tok ?ts (length pre + (2 + length ?body)) = Inr ''}''"
    using tok_at [of "pre @ [''server'', ''{''] @ ?body" "''}''" post] by (simp add: numeral_2_eq_2)
  ultimately show ?thesis
    using t by (simp add: parse_server_block_def add.assoc numeral_2_eq_2)
qed


lemma http_loop_ok:
  "\<forall>x\<in>set items. http_item_ok x \<Longrightarrow> length items < n \<Longrightarrow>
   (\<And>k h. 0 < k \<Longrightarrow> http_loop k (pre @ concat (List.map http_item_tokens items) @ post)
       (length pre + length (concat (List.map http_item_tokens items))) h = res h) \<Longrightarrow>
   http_loop n (pre @ concat (List.map http_item_tokens items) @ post) (length pre) h =
     res (foldl add_http_item h items)"
proof (induction items arbitrary: n pre h)
  case Nil
  then show ?case by simp
next
  case (Cons x items)
  then obtain m where n: "n = Suc m" by (cases n) auto
  let ?rest = "concat (List.map http_item_tokens items) @ post"
  have ih: "http_loop m ((pre @ http_item_tokens x) @ ?rest) (length (pre @ http_item_tokens x)) (add_http_item h x) =
     res (foldl add_http_item (add_http_item h x) items)"
  proof (rule Cons.IH)
    fix k h assume "0 < (k :: nat)"
    from Cons.prems(3) [OF this]
    show "http_loop k ((pre @ http_item_tokens x) @ ?rest)
       (length (pre @ http_item_tokens x) + length (concat (List.map http_item_tokens items))) h = res h"
      by (simp add: add.assoc)
  qed (use Cons.prems n in simp_all)
  show ?case
  proof (cases x)
    case (HDir d)
    have ok: "dir_ok {''server'', ''upstream''} d" using Cons.prems HDir by simp
    obtain us where us: "dir_tokens d = fst d # us" "fst d \<noteq> ''}''" "fst d \<noteq> ''server''" "fst d \<noteq> ''upstream''"
      using dir_tokens_start [OF ok] by auto
    have h: "here (pre @ dir_tokens d @ ?rest) (length pre) = Some (fst d)"
      "(pre @ dir_tokens d @ ?rest) ! length pre = fst d" using us by (simp_all add: nth_append)
    have pd: "parse_directive (pre @ dir_tokens d @ ?rest) (length pre) = Inr (dir_of d, length pre + length (dir_tokens d))"
      by (rule parse_directive_ok [OF ok])
    show ?thesis using HDir n us h pd ih by (simp add: add.assoc)
  next
    case (HServer its)
    have pl: "parse_server_block (pre @ http_item_tokens (HServer its) @ ?rest) (length pre) =
        Inr (Some (server_of its), length pre + length (http_item_tokens (HServer its)))"
      by (rule parse_server_ok) (use Cons.prems HServer in simp)
    have h: "here (pre @ http_item_tokens (HServer its) @ ?rest) (length pre) = Some ''server''"
      "(pre @ http_item_tokens (HServer its) @ ?rest) ! length pre = ''server''" by (simp_all add: nth_append)
    show ?thesis using HServer n h pl ih by (simp add: add.assoc del: http_item_tokens.simps)
  next
    case (HUpstream name its)
    have pl: "parse_upstream_block (pre @ http_item_tokens (HUpstream name its) @ ?rest) (length pre) =
        Inr (Some (upstream_of name its), length pre + length (http_item_tokens (HUpstream name its)))"
      by (rule parse_upstream_ok) (use Cons.prems HUpstream in simp_all)
    have h: "here (pre @ http_item_tokens (HUpstream name its) @ ?rest) (length pre) = Some ''upstream''"
      "(pre @ http_item_tokens (HUpstream name its) @ ?rest) ! length pre = ''upstream''" by (simp_all add: nth_append)
    show ?thesis using HUpstream n h pl ih by (simp add: add.assoc del: http_item_tokens.simps)
  qed
qed

definition empty_http :: http_block where
  "empty_http = \<lparr>h_directives = [], h_servers = [], h_upstreams = []\<rparr>"

abbreviation body_tokens :: "http_item list \<Rightarrow> string list" where
  "body_tokens items \<equiv> concat (List.map http_item_tokens items)"

lemma items_le_body: "length items \<le> length (body_tokens items)"
  by (rule length_concat_ge) (metis http_item_tokens.elims dir_tokens_def list.distinct(1) append_is_Nil_conv)

text \<open>The http block up to the point where its items end.\<close>

lemma http_loop_items:
  assumes "\<forall>x\<in>set items. http_item_ok x"
    and "\<And>k h. 0 < k \<Longrightarrow> http_loop k (''http'' # ''{'' # body_tokens items @ post) (2 + length (body_tokens items)) h = res h"
  shows "http_loop (Suc (length (''http'' # ''{'' # body_tokens items @ post))) (''http'' # ''{'' # body_tokens items @ post) 2 empty_http
    = res (http_of items)"
  using http_loop_ok [of items "Suc (length (''http'' # ''{'' # body_tokens items @ post))" "[''http'', ''{'']" post res empty_http]
    assms items_le_body [of items]
  by (simp add: http_of_def empty_http_def numeral_2_eq_2)

lemma parse_http_ok:
  assumes "\<forall>x\<in>set items. http_item_ok x"
  shows "parse_http_block (http_tokens items) 0 = Inr (Some (http_of items), length (http_tokens items))"
proof -
  let ?n = "2 + length (body_tokens items)"
  have ts: "http_tokens items = ''http'' # ''{'' # body_tokens items @ [''}'']" by (simp add: http_tokens_def)
  have e: "here (''http'' # ''{'' # body_tokens items @ [''}'']) ?n = Some ''}''"
    by (simp add: here_def nth_append numeral_2_eq_2)
  have "http_loop (Suc (length (http_tokens items))) (http_tokens items) 2 empty_http = Inr (http_of items, ?n)"
    unfolding ts
  proof (rule http_loop_items [OF assms])
    fix k h assume "0 < (k :: nat)"
    then obtain m where "k = Suc m" by (cases k) auto
    with e show "http_loop k (''http'' # ''{'' # body_tokens items @ [''}'']) ?n h = Inr (h, ?n)" by simp
  qed
  moreover have "tok (http_tokens items) ?n = Inr ''}''" "tok (http_tokens items) 0 = Inr ''http''"
    "tok (http_tokens items) 1 = Inr ''{''" "length (http_tokens items) = ?n + 1"
    by (simp_all add: ts tok_def nth_append numeral_2_eq_2)
  ultimately show ?thesis by (simp add: parse_http_block_def empty_http_def numeral_2_eq_2)
qed

lemma tokens_ok:
  assumes "\<forall>x\<in>set items. http_item_ok x" shows "\<forall>t\<in>set (http_tokens items). token t"
proof -
  have kw: "plain_word ''http''" "plain_word ''server''" "plain_word ''upstream''" "plain_word ''location''"
    by (simp_all add: plain_word_def isspace_def is_punct_def)
  then have kw': "token ''http''" "token ''server''" "token ''upstream''" "token ''location''"
    "token ''{''" "token ''}''" "token '';''" and w: "\<And>w. plain_word w \<Longrightarrow> token w"
    by (simp_all add: token_def)
  have d: "dir_ok r d \<Longrightarrow> t \<in> set (dir_tokens d) \<Longrightarrow> token t" for r d t
    using kw' w by (auto simp: dir_ok_def dir_tokens_def)
  have s: "server_item_ok x \<Longrightarrow> t \<in> set (server_item_tokens x) \<Longrightarrow> token t" for x t
    using d kw' w by (cases x) auto
  have u: "upstream_item_ok x \<Longrightarrow> t \<in> set (upstream_item_tokens x) \<Longrightarrow> token t" for x t
    using d kw' w by (cases x) auto
  have "http_item_ok x \<Longrightarrow> t \<in> set (http_item_tokens x) \<Longrightarrow> token t" for x t
    using d s u kw' w by (cases x) auto
  with assms kw' show ?thesis by (auto simp: http_tokens_def)
qed

lemma parse_layout:
  assumes "\<forall>x\<in>set items. http_item_ok x" "list_all gap_ok gs" "layout_ok l"
    and "List.map fst l = http_tokens items" "length l \<le> MAX_TOKENS"
  shows "parse_blocks (gaps gs @ layout l) = Inr (Some (http_of items))"
proof -
  let ?ts = "http_tokens items"
  have tk: "tokenize (gaps gs @ layout l) = ?ts"
    using tokenize_layout [OF assms(2,3) _ assms(5)] tokens_ok [OF assms(1)] assms(4) by simp
  have s: "?ts ! 0 = ''http''" "0 < length ?ts" by (simp_all add: http_tokens_def)
  obtain n where n: "length ?ts = Suc n" using s(2) by (cases "length ?ts") auto
  have "top_loop (Suc (length ?ts)) ?ts 0 None = Inr (Some (http_of items))"
    using s n parse_http_ok [OF assms(1)] by simp
  then show ?thesis by (simp add: parse_blocks_def tk Let_def)
qed

section \<open>Properties\<close>

text \<open>C10. Reading back a printed configuration: any well-formed source of at most 2048 tokens,
laid out with blanks, line ends and comments in any way that ends its words, parses to the block
it means, its directives in order and its servers, locations, upstreams and upstream servers in
the reverse of their order.\<close>

theorem config_roundtrip:
  assumes "\<forall>x\<in>set items. http_item_ok x" "list_all gap_ok gs" "layout_ok l"
    and "List.map fst l = http_tokens items" "length l \<le> MAX_TOKENS"
  shows "parse_blocks (gaps gs @ layout l) = Inr (Some (http_of items))"
  by (rule parse_layout [OF assms])


text \<open>A small configuration for the witnesses.\<close>

definition sample_items :: "http_item list" where
  "sample_items = [HDir (''gzip'', [''on'']),
     HServer [SDir (''listen'', [''443'', ''ssl'']), SLoc ''/'' [(''root'', [''www''])]]]"

lemma sample_items_ok: "\<forall>x\<in>set sample_items. http_item_ok x" "length (http_tokens sample_items) \<le> MAX_TOKENS"
  by (simp_all add: sample_items_def dir_ok_def plain_word_def isspace_def is_punct_def http_tokens_def
      dir_tokens_def MAX_TOKENS_def)

definition sample_layout :: "(string \<times> gap list) list" where
  "sample_layout = [(''http'', []), (''{'', [Comment ''the server'']), (''gzip'', [Blank CHR '' '']), (''on'', []), ('';'', []),
     (''server'', [Blank CHR '' '']), (''{'', [Blank CHR 0x0A]), (''listen'', [Blank CHR '' '', Blank CHR '' '']),
     (''443'', [Blank CHR '' '']), (''ssl'', []), ('';'', []), (''location'', [Blank CHR '' '']), (''/'', []),
     (''{'', []), (''root'', [Blank CHR 0x0A, Comment ''where'']), (''www'', []), ('';'', []), (''}'', []), (''}'', []), (''}'', [])]"

theorem config_roundtrip_witness:
  "parse_blocks (gaps [Comment ''main''] @ layout sample_layout) = Inr (Some (http_of sample_items))"
  by (rule config_roundtrip [OF sample_items_ok(1)]) (simp_all add: sample_layout_def sample_items_def
      isspace_def plain_word_def is_punct_def http_tokens_def dir_tokens_def MAX_TOKENS_def)

text \<open>A configuration that ends too early is never diagnosed. If the closing brace of the
http block is missing the parser compares the NULL token behind the last one; if one more word
follows in its place the http loop meets it for ever, because a directive of which only the key
is left is not consumed, while the array of directives grows.\<close>

theorem config_unclosed_http:
  assumes "\<forall>x\<in>set items. http_item_ok x" "length (http_tokens items) < MAX_TOKENS"
    and "plain_word w" "w \<notin> {''server'', ''upstream''}"
  shows "parse_blocks (render ([''http'', ''{''] @ body_tokens items)) = Inl BadPointer \<and>
    parse_blocks (render ([''http'', ''{''] @ body_tokens items @ [w])) = Inl Diverges"
proof
  let ?n = "2 + length (body_tokens items)"
  have len: "length (http_tokens items) = ?n + 1" by (simp add: http_tokens_def)
  have tk: "\<forall>t\<in>set ([''http'', ''{''] @ body_tokens items). token t"
    using tokens_ok [OF assms(1)] by (auto simp: http_tokens_def)
  show "parse_blocks (render ([''http'', ''{''] @ body_tokens items)) = Inl BadPointer"
  proof -
    let ?ts = "''http'' # ''{'' # body_tokens items"
    have t: "tokenize (render ?ts) = ?ts" using tokenize_render [of ?ts] tk assms(2) len by simp
    have "http_loop (Suc (length (''http'' # ''{'' # body_tokens items @ []))) (''http'' # ''{'' # body_tokens items @ []) 2 empty_http
        = Inr (http_of items, ?n)"
    proof (rule http_loop_items [OF assms(1)])
      fix k h assume "0 < (k :: nat)"
      then obtain m where "k = Suc m" by (cases k) auto
      then show "http_loop k (''http'' # ''{'' # body_tokens items @ []) ?n h = Inr (h, ?n)"
        by (simp add: here_def)
    qed
    moreover have "tok ?ts ?n = Inl BadPointer" using assms(2) len by (simp add: tok_def)
    ultimately have "parse_http_block ?ts 0 = Inl BadPointer"
      by (simp add: parse_http_block_def empty_http_def tok_def numeral_2_eq_2)
    then show ?thesis by (simp add: parse_blocks_def t Let_def)
  qed
  show "parse_blocks (render ([''http'', ''{''] @ body_tokens items @ [w])) = Inl Diverges"
  proof -
    let ?ts = "''http'' # ''{'' # body_tokens items @ [w]"
    have t: "tokenize (render ?ts) = ?ts"
      using tokenize_render [of ?ts] tk assms(2,3) len by (simp add: token_def)
    have loop: "http_loop k ?ts ?n h = Inl Diverges" for k h
    proof (induction k arbitrary: h)
      case (Suc k)
      have "here ?ts ?n = Some w" "?ts ! ?n = w" "?n + 1 \<ge> length ?ts"
        by (simp_all add: here_def nth_append numeral_2_eq_2)
      with Suc assms(3,4) word_not_punct(2) [OF assms(3)] show ?case
        by (simp add: parse_directive_def)
    qed simp
    have "http_loop (Suc (length ?ts)) ?ts 2 empty_http = Inl Diverges"
      by (rule http_loop_items [OF assms(1), of "[w]" "\<lambda>_. Inl Diverges"]) (rule loop)
    then have "parse_http_block ?ts 0 = Inl Diverges"
      by (simp add: parse_http_block_def empty_http_def tok_def numeral_2_eq_2 del: http_loop.simps)
    then show ?thesis by (simp add: parse_blocks_def t Let_def)
  qed
qed

theorem config_unclosed_http_witness:
  "parse_blocks (render ([''http'', ''{''] @ body_tokens sample_items)) = Inl BadPointer \<and>
   parse_blocks (render ([''http'', ''{''] @ body_tokens sample_items @ [''gzip''])) = Inl Diverges"
  by (rule config_unclosed_http [OF sample_items_ok(1)])
    (simp_all add: sample_items_def http_tokens_def dir_tokens_def MAX_TOKENS_def plain_word_def
      isspace_def is_punct_def)

text \<open>The value buffer overflows: a directive with a word of 1023 characters or more in
front of another one makes the remaining room wrap around, and the copy writes behind the
1024-byte buffer.\<close>

theorem config_value_overflow:
  assumes "1023 \<le> length w" "length w < 2 ^ 63" "w \<noteq> '';''" "v \<noteq> '';''" "v \<noteq> []"
  shows "parse_directive (pre @ [k, w, v] @ post) (length pre) = Inl OutOfRange"
proof -
  have room: "value_room n = 2 ^ 64 + 1023 - n" if "1024 \<le> n" "n < 2 ^ 64" for n
  proof -
    have "(1024 - of_nat n - 1 :: u64) = of_nat (2 ^ 64 + 1023 - n)"
      using that by (simp add: of_nat_diff)
    moreover have "unat (of_nat (2 ^ 64 + 1023 - n) :: u64) = 2 ^ 64 + 1023 - n"
      using that by (subst unsigned_of_nat) (simp add: take_bit_nat_eq_self)
    ultimately show ?thesis by (simp only: value_room_def)
  qed
  have w: "strncat_value [] w (value_room 0) = Inr (take 1023 w)"
    using assms(1) by (simp add: strncat_value_def value_room_eq)
  have big: "0 < value_room (Suc (length w))" using room [of "Suc (length w)"] assms(1,2) by simp
  have full: "length (take 1023 w) = 1023" using assms(1) by simp
  have over: "strncat_value (take 1023 w) t n = Inl OutOfRange" if "t \<noteq> []" "0 < n" for t n
    using that full by (cases t; cases n) (simp_all add: strncat_value_def)
  have "parse_value (w # v # post) [] 0 = Inl OutOfRange"
  proof (cases "length w = 1023")
    case True
    then have "value_room (length w) = 0" by (simp add: value_room_eq)
    then have "strncat_value (take 1023 w) '' '' (value_room (length w)) = Inr (take 1023 w)"
      using full by (simp add: strncat_value_def)
    with w big over [of v "value_room (Suc (length w))"] assms(3-5) True show ?thesis by simp
  next
    case False
    then have "0 < value_room (length w)" using room [of "length w"] assms(1,2) by simp
    with w over [of "'' ''" "value_room (length w)"] assms(1,3,4) show ?thesis by auto
  qed
  then show ?thesis by (simp add: parse_directive_def)
qed

theorem config_value_overflow_witness:
  "parse_directive [''add_header'', replicate 1023 CHR ''a'', ''b'', '';''] 0 = Inl OutOfRange"
proof -
  have "replicate 1023 CHR ''a'' \<noteq> '';''"
  proof
    assume "replicate 1023 CHR ''a'' = '';''"
    from arg_cong [OF this, of length] show False by simp
  qed
  then show ?thesis
    using config_value_overflow [of "replicate 1023 CHR ''a''" "''b''" "[]" "''add_header''" "['';'']"] by simp
qed

end
