(* ===== verification/ConfigDirectives.thy ===== *)
theory ConfigDirectives
  imports Config Compress Cache Bandwidth Log HealthCheck
begin

text \<open>
  What the directives of a configuration do (src/core/config.c): the handlers of compression,
  cache and bandwidth, their dispatch in parse_config, the settings of the log, the health
  checks and the process. A directive without a value has the NULL pointer as its value, which
  most handlers pass on to the C library.
\<close>

section \<open>The root of the configuration\<close>

record config =
  cf_http :: "http_block option"
  cf_worker_processes :: int
  cf_error_log :: "string option"
  cf_access_log :: "string option"
  cf_log_level :: log_level_t
  cf_log_format :: access_log_format_t
  cf_log_rotation_size :: int
  cf_log_rotation_days :: int
  cf_performance_logging :: bool
  cf_compress :: compress_config
  cf_cache :: cache_config
  cf_bandwidth :: bandwidth_config

text \<open>A use of the value as a C string.\<close>

fun with_value :: "string option \<Rightarrow> (string \<Rightarrow> 'a) \<Rightarrow> 'a run" where
  "with_value None f = Inl BadPointer"
| "with_value (Some v) f = Inr (f v)"

section \<open>Sizes\<close>

text \<open>The unit at endptr; a multiplication that overflows wraps around as gcc compiles it.\<close>

definition suffix_is :: "string \<Rightarrow> char list \<Rightarrow> bool" where
  "suffix_is rest cs \<longleftrightarrow> rest \<noteq> [] \<and> hd rest \<in> set cs"

definition scaled_k :: "string \<Rightarrow> int" where
  "scaled_k v =
     (let (n, rest) = strtol10 v in if suffix_is rest ''kK'' then to_int64 (n * 1024) else n)"

definition scaled_km :: "string \<Rightarrow> int" where
  "scaled_km v =
     (let (n, rest) = strtol10 v in
      if suffix_is rest ''mM'' then to_int64 (n * (1024 * 1024))
      else if suffix_is rest ''kK'' then to_int64 (n * 1024) else n)"

section \<open>Compression\<close>

text \<open>The list of types is emptied and filled with the words of the value.\<close>

definition set_gzip_types :: "string \<Rightarrow> compress_config \<Rightarrow> compress_config" where
  "set_gzip_types v c = compress_types.load (strtok_all {CHR '' ''} v) (c\<lparr>mime_types := []\<rparr>)"

definition compression_setting :: "string \<Rightarrow> string \<Rightarrow> compress_config \<Rightarrow> compress_config" where
  "compression_setting d v c =
     (if d = ''gzip'' then c\<lparr>enable_compression := (v = ''on'')\<rparr>
      else if d = ''gzip_comp_level''
      then if 1 \<le> atoi v \<and> atoi v \<le> 9 then c\<lparr>level := atoi v\<rparr> else c
      else if d = ''gzip_min_length''
      then if atoi v > 0 then c\<lparr>min_length := word_of_int (atoi v)\<rparr> else c
      else if d = ''gzip_types'' then set_gzip_types v c
      else if d = ''gzip_vary'' then c\<lparr>enable_vary := (v = ''on'')\<rparr>
      else if atoi v > 0 then c\<lparr>compression_buffer_size := word_of_int (to_int32 (atoi v * 1024))\<rparr> else c)"

definition compression_directives :: "string list" where
  "compression_directives =
     [''gzip'', ''gzip_comp_level'', ''gzip_min_length'', ''gzip_types'', ''gzip_vary'', ''gzip_buffers'']"

definition handle_compression_directive :: "config \<Rightarrow> string \<Rightarrow> string option \<Rightarrow> config run" where
  "handle_compression_directive cfg d v =
     (if d \<in> set compression_directives
      then with_value v (\<lambda>v. cfg\<lparr>cf_compress := compression_setting d v (cf_compress cfg)\<rparr>)
      else Inr cfg)"

section \<open>Cache\<close>

definition set_cache_types :: "string \<Rightarrow> cache_config \<Rightarrow> cache_config" where
  "set_cache_types v c = cache_types.load (strtok_all {CHR '' ''} v) (c\<lparr>cacheable_types := []\<rparr>)"

definition cache_setting :: "string \<Rightarrow> string \<Rightarrow> cache_config \<Rightarrow> cache_config" where
  "cache_setting d v c =
     (if d = ''proxy_cache'' then c\<lparr>enable_cache := (v = ''on'')\<rparr>
      else if d = ''proxy_cache_max_size''
      then if scaled_km v > 0 then c\<lparr>max_size := word_of_int (scaled_km v)\<rparr> else c
      else if d = ''proxy_cache_max_entries''
      then if atoi v > 0 then c\<lparr>max_entries := word_of_int (atoi v)\<rparr> else c
      else if d = ''proxy_cache_ttl''
      then if atoi v > 0 then c\<lparr>default_ttl := atoi v\<rparr> else c
      else if d = ''proxy_cache_strategy''
      then if v = ''lru'' then c\<lparr>strategy := CACHE_STRATEGY_LRU\<rparr>
           else if v = ''lfu'' then c\<lparr>strategy := CACHE_STRATEGY_LFU\<rparr>
           else if v = ''fifo'' then c\<lparr>strategy := CACHE_STRATEGY_FIFO\<rparr> else c
      else if d = ''proxy_cache_types'' then set_cache_types v c
      else if d = ''proxy_cache_min_size''
      then if scaled_k v > 0 then c\<lparr>min_file_size := word_of_int (scaled_k v)\<rparr> else c
      else if d = ''proxy_cache_max_file_size''
      then if scaled_km v > 0 then c\<lparr>max_file_size := word_of_int (scaled_km v)\<rparr> else c
      else if d = ''proxy_cache_etag'' then c\<lparr>enable_etag := (v = ''on'')\<rparr>
      else c\<lparr>enable_last_modified := (v = ''on'')\<rparr>)"

definition cache_directives :: "string list" where
  "cache_directives =
     [''proxy_cache'', ''proxy_cache_max_size'', ''proxy_cache_max_entries'', ''proxy_cache_ttl'',
      ''proxy_cache_strategy'', ''proxy_cache_types'', ''proxy_cache_min_size'',
      ''proxy_cache_max_file_size'', ''proxy_cache_etag'', ''proxy_cache_last_modified'']"

definition handle_cache_directive :: "config \<Rightarrow> string \<Rightarrow> string option \<Rightarrow> config run" where
  "handle_cache_directive cfg d v =
     (if d \<in> set cache_directives
      then with_value v (\<lambda>v. cfg\<lparr>cf_cache := cache_setting d v (cf_cache cfg)\<rparr>)
      else Inr cfg)"

section \<open>Bandwidth\<close>

text \<open>\<open>bandwidth_limit pattern rate [burst=size]\<close>.\<close>

definition add_bandwidth_limit :: "string \<Rightarrow> bandwidth_config \<Rightarrow> bandwidth_config" where
  "add_bandwidth_limit v b =
     (case strtok_all {CHR '' ''} v of
        p # r # rest \<Rightarrow>
          let (rate, unit_str) = strtol10 r;
              burst = (case rest of [] \<Rightarrow> default_burst_size b
                       | s # _ \<Rightarrow> if strncmp_eq s ''burst='' 6 \<and> scaled_km (drop 6 s) > 0
                                 then word_of_int (scaled_km (drop 6 s)) else default_burst_size b)
          in snd (bandwidth_config_add_rule b (Some p) None None (word_of_int rate)
                    (bandwidth_parse_unit (Some unit_str)) burst)
      | _ \<Rightarrow> b)"

definition bandwidth_setting :: "string \<Rightarrow> string \<Rightarrow> bandwidth_config \<Rightarrow> bandwidth_config" where
  "bandwidth_setting d v b =
     (if d = ''enable_bandwidth_limit'' then b\<lparr>enable_bandwidth_limit := (v = ''on'')\<rparr>
      else if d = ''default_rate_limit''
      then let (rate, unit_str) = strtol10 v in
           if rate > 0
           then b\<lparr>default_rate_limit := bandwidth_convert_to_bytes_per_second (word_of_int rate)
                                          (bandwidth_parse_unit (Some unit_str))\<rparr>
           else b
      else if d = ''default_burst_size''
      then if scaled_km v > 0 then b\<lparr>default_burst_size := word_of_int (scaled_km v)\<rparr> else b
      else if d = ''min_file_size''
      then if scaled_km v > 0 then b\<lparr>bw_min_file_size := word_of_int (scaled_km v)\<rparr> else b
      else add_bandwidth_limit v b)"

definition bandwidth_directives :: "string list" where
  "bandwidth_directives =
     [''enable_bandwidth_limit'', ''default_rate_limit'', ''default_burst_size'', ''min_file_size'', ''bandwidth_limit'']"

definition handle_bandwidth_directive :: "config \<Rightarrow> string \<Rightarrow> string option \<Rightarrow> config run" where
  "handle_bandwidth_directive cfg d v =
     (if d \<in> set bandwidth_directives
      then with_value v (\<lambda>v. cfg\<lparr>cf_bandwidth := bandwidth_setting d v (cf_bandwidth cfg)\<rparr>)
      else Inr cfg)"

section \<open>The whole configuration file\<close>

definition apply_directive :: "config \<Rightarrow> directive \<Rightarrow> config run" where
  "apply_directive cfg d =
     (case d_key d of
        None \<Rightarrow> Inl BadPointer
      | Some k \<Rightarrow>
          if strncmp_eq k ''gzip'' 4 then handle_compression_directive cfg k (d_value d)
          else if strncmp_eq k ''proxy_cache'' 11 then handle_cache_directive cfg k (d_value d)
          else if strncmp_eq k ''bandwidth'' 9 \<or> strncmp_eq k ''enable_bandwidth'' 16 \<or>
                  strncmp_eq k ''default_rate'' 12 \<or> strncmp_eq k ''min_file_size'' 13
          then handle_bandwidth_directive cfg k (d_value d)
          else Inr cfg)"

fun apply_directives :: "config \<Rightarrow> directive list \<Rightarrow> config run" where
  "apply_directives cfg [] = Inr cfg"
| "apply_directives cfg (d # ds) = bindR (apply_directive cfg d) (\<lambda>cfg. apply_directives cfg ds)"

text \<open>calloc's zeroes, and the defaults of the three components.\<close>

definition new_config :: config where
  "new_config = \<lparr>cf_http = None, cf_worker_processes = 0, cf_error_log = None, cf_access_log = None,
     cf_log_level = LOG_LEVEL_ERROR, cf_log_format = ACCESS_LOG_FORMAT_COMMON, cf_log_rotation_size = 0,
     cf_log_rotation_days = 0, cf_performance_logging = False, cf_compress = compress_config_create,
     cf_cache = cache_config_create, cf_bandwidth = bandwidth_config_create\<rparr>"

text \<open>
  The directory for relative paths and the configuration; \<open>None\<close> as contents: the file
  cannot be read.
\<close>

definition parse_config :: "string \<Rightarrow> string option \<Rightarrow> (string \<times> config option) run" where
  "parse_config filename contents =
     bindR (set_config_dir filename) (\<lambda>dir.
     case contents of
       None \<Rightarrow> Inr (dir, None)
     | Some text \<Rightarrow>
         bindR (parse_blocks text) (\<lambda>http.
         let cfg = new_config\<lparr>cf_http := http\<rparr> in
         bindR (case http of None \<Rightarrow> Inr cfg | Some h \<Rightarrow> apply_directives cfg (h_directives h)) (\<lambda>cfg.
         Inr (dir, Some cfg))))"

section \<open>Log settings\<close>

definition parse_log_format :: "string option \<Rightarrow> access_log_format_t" where
  "parse_log_format f =
     (if f = Some ''common'' then ACCESS_LOG_FORMAT_COMMON
      else if f = Some ''json'' then ACCESS_LOG_FORMAT_JSON else ACCESS_LOG_FORMAT_COMBINED)"

definition get_default_log_config :: log_config where
  "get_default_log_config = \<lparr>error_log_path = ''stderr'', access_log_path = ''access.log'',
     error_log_level = LOG_LEVEL_INFO, lc_access_log_format = ACCESS_LOG_FORMAT_COMBINED,
     log_rotation_size_mb = 100, log_rotation_days = 7, enable_performance_logging = False\<rparr>"

text \<open>A positive number, or the default.\<close>

definition positive_or :: "int \<Rightarrow> string \<Rightarrow> int" where
  "positive_or n v = (if atoi v \<le> 0 then n else atoi v)"

definition set_log_level :: "string \<Rightarrow> log_level_t \<Rightarrow> log_level_t" where
  "set_log_level v l =
     (if v = ''error'' then LOG_LEVEL_ERROR else if v = ''warning'' then LOG_LEVEL_WARNING
      else if v = ''info'' then LOG_LEVEL_INFO else if v = ''debug'' then LOG_LEVEL_DEBUG else l)"

definition extract_log_config :: "string \<Rightarrow> config option \<Rightarrow> log_config" where
  "extract_log_config config_dir config =
     (case config of
        None \<Rightarrow> get_default_log_config
      | Some cfg \<Rightarrow> (case cf_http cfg of
            None \<Rightarrow> get_default_log_config
          | Some h \<Rightarrow>
              let get = (\<lambda>k. get_directive_value k (h_directives h));
                  l = get_default_log_config;
                  l = (case get ''error_log'' of None \<Rightarrow> l
                       | Some v \<Rightarrow> l\<lparr>error_log_path := resolve_config_path config_dir v\<rparr>);
                  l = (case get ''access_log'' of None \<Rightarrow> l
                       | Some v \<Rightarrow> l\<lparr>access_log_path := (if v = ''off'' then ''off'' else resolve_config_path config_dir v)\<rparr>);
                  l = (case get ''log_level'' of None \<Rightarrow> l
                       | Some v \<Rightarrow> l\<lparr>error_log_level := set_log_level v (error_log_level l)\<rparr>);
                  l = (case get ''log_format'' of None \<Rightarrow> l
                       | Some v \<Rightarrow> l\<lparr>lc_access_log_format := parse_log_format (Some v)\<rparr>);
                  l = (case get ''log_rotation_size'' of None \<Rightarrow> l
                       | Some v \<Rightarrow> l\<lparr>log_rotation_size_mb := positive_or 100 v\<rparr>);
                  l = (case get ''log_rotation_days'' of None \<Rightarrow> l
                       | Some v \<Rightarrow> l\<lparr>log_rotation_days := positive_or 7 v\<rparr>)
              in (case get ''performance_logging'' of None \<Rightarrow> l
                  | Some v \<Rightarrow> l\<lparr>enable_performance_logging := (v = ''on'')\<rparr>)))"

section \<open>Process and health check settings\<close>

definition handle_config_directive :: "config \<Rightarrow> string \<Rightarrow> string option \<Rightarrow> (int \<times> config) run" where
  "handle_config_directive cfg d v =
     (if d = ''worker_processes'' then with_value v (\<lambda>v. (0, cfg\<lparr>cf_worker_processes := atoi v\<rparr>))
      else if d = ''error_log'' then with_value v (\<lambda>v. (0, cfg\<lparr>cf_error_log := Some v\<rparr>))
      else if d = ''access_log'' then with_value v (\<lambda>v. (0, cfg\<lparr>cf_access_log := Some v\<rparr>))
      else if d = ''log_level'' then with_value v (\<lambda>v. (0, cfg\<lparr>cf_log_level := set_log_level v (cf_log_level cfg)\<rparr>))
      else Inr (-1, cfg))"

definition health_setting :: "string \<Rightarrow> string \<Rightarrow> health_check_config \<Rightarrow> health_check_config" where
  "health_setting k v c =
     (if k = ''health_check'' then c\<lparr>hc_enabled := (v = ''on'' \<or> v = ''true'')\<rparr>
      else if k = ''health_check_interval'' then c\<lparr>hc_interval := atoi v\<rparr>
      else if k = ''health_check_timeout'' then c\<lparr>hc_timeout := atoi v\<rparr>
      else if k = ''health_check_retries'' then c\<lparr>retries := atoi v\<rparr>
      else if k = ''health_check_rise'' then c\<lparr>rise := atoi v\<rparr>
      else if k = ''health_check_fall'' then c\<lparr>fall := atoi v\<rparr>
      else if k = ''health_check_type''
      then if v = ''http'' then c\<lparr>hc_type := HEALTH_CHECK_HTTP\<rparr>
           else if v = ''https'' then c\<lparr>hc_type := HEALTH_CHECK_HTTPS\<rparr>
           else if v = ''tcp'' then c\<lparr>hc_type := HEALTH_CHECK_TCP\<rparr>
           else if v = ''ping'' then c\<lparr>hc_type := HEALTH_CHECK_PING\<rparr> else c
      else c\<lparr>hc_port := atoi v\<rparr>)"

definition health_directives :: "string list" where
  "health_directives =
     [''health_check'', ''health_check_interval'', ''health_check_timeout'', ''health_check_retries'',
      ''health_check_rise'', ''health_check_fall'', ''health_check_type'', ''health_check_port'']"

definition apply_health_directive :: "health_check_config \<Rightarrow> directive \<Rightarrow> health_check_config run" where
  "apply_health_directive c d =
     (case d_key d of
        None \<Rightarrow> Inl BadPointer
      | Some k \<Rightarrow>
          if k = ''health_check_uri'' then Inr (snd (health_check_config_set_uri (d_value d) c))
          else if k = ''health_check_method'' then Inr (snd (health_check_config_set_method (d_value d) c))
          else if k = ''health_check_expected_response''
          then Inr (snd (health_check_config_set_expected_response (d_value d) c))
          else if k = ''health_check_headers'' then Inr (snd (health_check_config_set_headers (d_value d) c))
          else if k \<in> set health_directives then with_value (d_value d) (\<lambda>v. health_setting k v c)
          else Inr c)"

fun apply_health_directives :: "health_check_config \<Rightarrow> directive list \<Rightarrow> health_check_config run" where
  "apply_health_directives c [] = Inr c"
| "apply_health_directives c (d # ds) = bindR (apply_health_directive c d) (\<lambda>c. apply_health_directives c ds)"

definition parse_health_check_config :: "directive list \<Rightarrow> health_check_config option run" where
  "parse_health_check_config ds =
     (if ds = [] then Inr None
      else bindR (apply_health_directives health_check_config_create ds) (\<lambda>c. Inr (Some c)))"

text \<open>A directive without a value is refused, and like an unknown one only logged.\<close>

fun apply_bandwidth_directives :: "bandwidth_config \<Rightarrow> directive list \<Rightarrow> bandwidth_config" where
  "apply_bandwidth_directives b [] = b"
| "apply_bandwidth_directives b (d # ds) =
     apply_bandwidth_directives
       (case (d_key d, d_value d) of
          (Some k, Some v) \<Rightarrow> snd (bandwidth_parse_config_directive b k v) | _ \<Rightarrow> b) ds"

definition parse_bandwidth_config :: "directive list \<Rightarrow> bandwidth_config option" where
  "parse_bandwidth_config ds =
     (if ds = [] then None else Some (apply_bandwidth_directives bandwidth_config_create ds))"

section \<open>Sane settings\<close>

definition compress_ok :: "compress_config \<Rightarrow> bool" where
  "compress_ok c \<longleftrightarrow> 1 \<le> level c \<and> level c \<le> 9 \<and> min_length c > 0 \<and>
     distinct (mime_types c) \<and> length (mime_types c) \<le> 50"

definition cache_ok :: "cache_config \<Rightarrow> bool" where
  "cache_ok c \<longleftrightarrow> max_size c > 0 \<and> max_entries c > 0 \<and> default_ttl c > 0 \<and> max_file_size c > 0 \<and>
     min_file_size c > 0 \<and> distinct (cacheable_types c) \<and> length (cacheable_types c) \<le> 50"

definition bandwidth_ok :: "bandwidth_config \<Rightarrow> bool" where
  "bandwidth_ok b \<longleftrightarrow> default_burst_size b = 65536 \<and> bw_min_file_size b > 0 \<and>
     rules_count b = int (length (bw_rules b)) \<and>
     (\<forall>r\<in>set (bw_rules b). rule_burst_size r > 0 \<and> rule_enabled r \<and> path_pattern r \<noteq> None)"

lemma word_of_int_pos: "0 < i \<Longrightarrow> i < 2 ^ 64 \<Longrightarrow> (word_of_int i :: u64) > 0"
  using zdvd_imp_le [of "2 ^ 64" i] by (auto simp: word_gt_0 word_of_int_eq_0_iff)

lemma atoi_pos: "0 < atoi v \<Longrightarrow> (word_of_int (atoi v) :: u64) > 0"
  using atoi_range(2) [of v] by (intro word_of_int_pos) simp_all

lemma scaled_range: "scaled_km v < 2 ^ 63" "scaled_k v < 2 ^ 63"
  using strtol10_range [of v] to_int64_range(2)
  by (auto simp: scaled_km_def scaled_k_def Let_def split: prod.splits)

lemma scaled_pos: "0 < scaled_km v \<Longrightarrow> (word_of_int (scaled_km v) :: u64) > 0"
  "0 < scaled_k v \<Longrightarrow> (word_of_int (scaled_k v) :: u64) > 0"
  using scaled_range [of v] by (auto intro!: word_of_int_pos)

lemma load_gzip: "level (compress_types.load ts c) = level c \<and> min_length (compress_types.load ts c) = min_length c"
  by (induction ts arbitrary: c) (simp_all add: compress_types.load_simps compress_config_add_mime_type_def)

lemma load_cache: "max_size (cache_types.load ts c) = max_size c" "max_entries (cache_types.load ts c) = max_entries c"
  "default_ttl (cache_types.load ts c) = default_ttl c" "max_file_size (cache_types.load ts c) = max_file_size c"
  "min_file_size (cache_types.load ts c) = min_file_size c"
  by (induction ts arbitrary: c) (simp_all add: cache_types.load_simps cache_config_add_type_def)

lemma compression_setting_ok: "compress_ok c \<Longrightarrow> compress_ok (compression_setting d v c)"
  using atoi_pos [of v]
    compress_types.load_distinct [of "c\<lparr>mime_types := []\<rparr>" "strtok_all {CHR '' ''} v"]
    compress_types.load_bounded [of "c\<lparr>mime_types := []\<rparr>" "strtok_all {CHR '' ''} v"]
  by (auto simp: compress_ok_def compression_setting_def set_gzip_types_def load_gzip)

lemma cache_setting_ok: "cache_ok c \<Longrightarrow> cache_ok (cache_setting d v c)"
  using atoi_pos [of v] scaled_pos [of v]
    cache_types.load_distinct [of "c\<lparr>cacheable_types := []\<rparr>" "strtok_all {CHR '' ''} v"]
    cache_types.load_bounded [of "c\<lparr>cacheable_types := []\<rparr>" "strtok_all {CHR '' ''} v"]
  by (auto simp: cache_ok_def cache_setting_def set_cache_types_def load_cache)

lemma add_limit_ok: "bandwidth_ok b \<Longrightarrow> bandwidth_ok (add_bandwidth_limit v b)"
  using scaled_pos(1)
  by (auto simp: bandwidth_ok_def add_bandwidth_limit_def bandwidth_config_add_rule_def Let_def
      split: list.splits prod.splits if_splits)

lemma bandwidth_setting_ok:
  "bandwidth_ok b \<Longrightarrow> d \<noteq> ''default_burst_size'' \<Longrightarrow> bandwidth_ok (bandwidth_setting d v b)"
  using add_limit_ok [of b v] scaled_pos(1) [of v]
  by (auto simp: bandwidth_setting_def bandwidth_ok_def Let_def split: prod.splits)

definition settings_ok :: "config \<Rightarrow> bool" where
  "settings_ok cfg \<longleftrightarrow> compress_ok (cf_compress cfg) \<and> cache_ok (cf_cache cfg) \<and> bandwidth_ok (cf_bandwidth cfg)"

lemma with_value_Inr: "with_value v f = Inr r \<longleftrightarrow> (\<exists>s. v = Some s \<and> r = f s)"
  by (cases v) auto

lemma burst_not_dispatched: "d_key d = Some ''default_burst_size'' \<Longrightarrow> apply_directive cfg d = Inr cfg"
  by (simp add: apply_directive_def strncmp_eq_def)

lemma handlers_ok:
  assumes "settings_ok cfg"
  shows "handle_compression_directive cfg k v = Inr cfg' \<Longrightarrow> settings_ok cfg'"
    and "handle_cache_directive cfg k v = Inr cfg' \<Longrightarrow> settings_ok cfg'"
    and "k \<noteq> ''default_burst_size'' \<Longrightarrow> handle_bandwidth_directive cfg k v = Inr cfg' \<Longrightarrow> settings_ok cfg'"
  using assms compression_setting_ok cache_setting_ok bandwidth_setting_ok
  by (auto simp: handle_compression_directive_def handle_cache_directive_def handle_bandwidth_directive_def
      with_value_Inr settings_ok_def split: if_splits)

lemma apply_directive_cases:
  assumes "apply_directive cfg d = Inr cfg'"
  obtains (compression) k where "handle_compression_directive cfg k (d_value d) = Inr cfg'"
    | (cache) k where "handle_cache_directive cfg k (d_value d) = Inr cfg'"
    | (bandwidth) k where "k \<noteq> ''default_burst_size''" "handle_bandwidth_directive cfg k (d_value d) = Inr cfg'"
    | (other) "cfg' = cfg"
proof (cases "d_key d = Some ''default_burst_size''")
  case True
  with assms burst_not_dispatched other show thesis by simp
next
  case False
  from assms obtain k where k: "d_key d = Some k" by (cases "d_key d") (simp_all add: apply_directive_def)
  let ?g = "strncmp_eq k ''gzip'' 4" and ?c = "strncmp_eq k ''proxy_cache'' 11"
    and ?b = "strncmp_eq k ''bandwidth'' 9 \<or> strncmp_eq k ''enable_bandwidth'' 16 \<or>
      strncmp_eq k ''default_rate'' 12 \<or> strncmp_eq k ''min_file_size'' 13"
  have r: "(if ?g then handle_compression_directive cfg k (d_value d)
      else if ?c then handle_cache_directive cfg k (d_value d)
      else if ?b then handle_bandwidth_directive cfg k (d_value d) else Inr cfg) = Inr cfg'"
    using assms k by (simp add: apply_directive_def)
  show thesis
  proof (cases ?g)
    case True
    with r show thesis by (intro compression [of k]) simp
  next
    case ng: False
    show thesis
    proof (cases ?c)
      case True
      with r ng show thesis by (intro cache [of k]) simp
    next
      case nc: False
      show thesis
      proof (cases ?b)
        case True
        with r ng nc False k show thesis by (intro bandwidth [of k]) simp_all
      next
        case nb: False
        from r have "cfg' = cfg" by (simp only: ng nc nb if_False sum.inject)
        then show thesis by (rule other)
      qed
    qed
  qed
qed

lemma apply_directive_ok: "settings_ok cfg \<Longrightarrow> apply_directive cfg d = Inr cfg' \<Longrightarrow> settings_ok cfg'"
  by (erule apply_directive_cases) (use handlers_ok in blast)+

lemma apply_directives_ok: "settings_ok cfg \<Longrightarrow> apply_directives cfg ds = Inr cfg' \<Longrightarrow> settings_ok cfg'"
  by (induction ds arbitrary: cfg) (auto simp: bindR_Inr_iff dest: apply_directive_ok)

lemma compress_create_ok: "compress_ok compress_config_create"
proof -
  have "level compress_config_create = 6 \<and> min_length compress_config_create = 1024"
    unfolding compress_config_create_def compress_types.load_def [symmetric] by (simp add: load_gzip)
  then show ?thesis by (simp add: compress_ok_def compress_default compress_default_types_def)
qed

lemma cache_create_ok: "cache_ok cache_config_create"
proof -
  have c: "cache_config_create = cache_types.load cache_default_types cache_config_defaults"
    by (simp add: cache_config_create_def cache_types.load_def)
  have "max_size cache_config_create = 64 * 1024 * 1024" "max_entries cache_config_create = 10000"
    "default_ttl cache_config_create = 3600" "max_file_size cache_config_create = 10 * 1024 * 1024"
    "min_file_size cache_config_create = 1024"
    by (simp_all add: c load_cache cache_config_defaults_def)
  then show ?thesis by (simp add: cache_ok_def cache_default cache_default_types_def)
qed

lemma new_config_ok: "settings_ok new_config"
  using compress_create_ok cache_create_ok
  by (simp add: settings_ok_def new_config_def bandwidth_ok_def bandwidth_config_create_def)

section \<open>Directives without a value\<close>

definition value_directives :: "string list" where
  "value_directives = compression_directives @ cache_directives @
     filter (\<lambda>k. k \<noteq> ''default_burst_size'') bandwidth_directives"

lemma with_value_cases: "with_value v f = (case v of None \<Rightarrow> Inl BadPointer | Some s \<Rightarrow> Inr (f s))"
  by (cases v) simp_all

lemma dispatch_value:
  assumes "k \<in> set value_directives"
  shows "\<exists>f. \<forall>v. apply_directive cfg \<lparr>d_key = Some k, d_value = v\<rparr> = with_value v f"
proof -
  consider "k \<in> set compression_directives" | "k \<in> set cache_directives"
    | "k \<in> set bandwidth_directives" "k \<noteq> ''default_burst_size''"
    using assms by (auto simp: value_directives_def)
  then show ?thesis
  proof cases
    case 1
    then have "strncmp_eq k ''gzip'' 4" by (auto simp: compression_directives_def strncmp_eq_def)
    with 1 show ?thesis
      by (intro exI [of _ "\<lambda>v. cfg\<lparr>cf_compress := compression_setting k v (cf_compress cfg)\<rparr>"])
        (simp add: apply_directive_def handle_compression_directive_def)
  next
    case 2
    then have "\<not> strncmp_eq k ''gzip'' 4" "strncmp_eq k ''proxy_cache'' 11"
      by (auto simp: cache_directives_def strncmp_eq_def)
    with 2 show ?thesis
      by (intro exI [of _ "\<lambda>v. cfg\<lparr>cf_cache := cache_setting k v (cf_cache cfg)\<rparr>"])
        (simp add: apply_directive_def handle_cache_directive_def)
  next
    case 3
    then have "k = ''enable_bandwidth_limit'' \<or> k = ''default_rate_limit'' \<or> k = ''min_file_size'' \<or> k = ''bandwidth_limit''"
      by (simp add: bandwidth_directives_def)
    then have "\<not> strncmp_eq k ''gzip'' 4" "\<not> strncmp_eq k ''proxy_cache'' 11"
      "strncmp_eq k ''bandwidth'' 9 \<or> strncmp_eq k ''enable_bandwidth'' 16 \<or>
       strncmp_eq k ''default_rate'' 12 \<or> strncmp_eq k ''min_file_size'' 13"
      by (elim disjE; simp add: strncmp_eq_def)+
    with 3 show ?thesis
      by (intro exI [of _ "\<lambda>v. cfg\<lparr>cf_bandwidth := bandwidth_setting k v (cf_bandwidth cfg)\<rparr>"])
        (simp add: apply_directive_def handle_bandwidth_directive_def)
  qed
qed

lemma dispatch_other:
  assumes "k \<notin> set value_directives"
  shows "apply_directive cfg \<lparr>d_key = Some k, d_value = v\<rparr> = Inr cfg"
proof (cases "k = ''default_burst_size''")
  case False
  with assms have "k \<notin> set compression_directives" "k \<notin> set cache_directives" "k \<notin> set bandwidth_directives"
    by (auto simp: value_directives_def)
  then show ?thesis
    by (simp add: apply_directive_def handle_compression_directive_def handle_cache_directive_def
        handle_bandwidth_directive_def)
qed (simp add: burst_not_dispatched)

definition lacks_value :: "directive \<Rightarrow> bool" where
  "lacks_value d \<longleftrightarrow> d_value d = None \<and> (case d_key d of None \<Rightarrow> False | Some k \<Rightarrow> k \<in> set value_directives)"

lemma apply_directive_value:
  assumes "d_key d \<noteq> None"
  shows "if lacks_value d then apply_directive cfg d = Inl BadPointer else \<exists>cfg'. apply_directive cfg d = Inr cfg'"
proof -
  obtain k where k: "d_key d = Some k" using assms by blast
  have d: "d = \<lparr>d_key = Some k, d_value = d_value d\<rparr>" using k by (cases d) simp
  show ?thesis
  proof (cases "k \<in> set value_directives")
    case True
    obtain f where f: "\<And>v. apply_directive cfg \<lparr>d_key = Some k, d_value = v\<rparr> = with_value v f"
      using dispatch_value [OF True] by blast
    have "apply_directive cfg d = with_value (d_value d) f" using f [of "d_value d"] d by simp
    then show ?thesis using k True by (cases "d_value d") (simp_all add: lacks_value_def)
  next
    case False
    then have "apply_directive cfg d = Inr cfg" using dispatch_other [OF False, of cfg "d_value d"] d by simp
    with k False show ?thesis by (simp add: lacks_value_def)
  qed
qed

lemma apply_directives_value:
  assumes "\<forall>d\<in>set ds. d_key d \<noteq> None"
  shows "if \<exists>d\<in>set ds. lacks_value d then apply_directives cfg ds = Inl BadPointer
    else \<exists>cfg'. apply_directives cfg ds = Inr cfg'"
  using assms
proof (induction ds arbitrary: cfg)
  case (Cons d ds)
  have d: "d_key d \<noteq> None" "\<forall>d\<in>set ds. d_key d \<noteq> None" using Cons.prems by simp_all
  show ?case
  proof (cases "lacks_value d")
    case True
    then show ?thesis using apply_directive_value [OF d(1), of cfg] by simp
  next
    case False
    then obtain cfg' where "apply_directive cfg d = Inr cfg'" using apply_directive_value [OF d(1), of cfg] by auto
    then show ?thesis using Cons.IH [OF d(2), of cfg'] False by simp
  qed
qed simp

lemma http_directives: "set (h_directives (http_of items)) = {dir_of d |d. HDir d \<in> set items}"
proof -
  have "set (h_directives (foldl add_http_item h items)) = set (h_directives h) \<union> {dir_of d |d. HDir d \<in> set items}" for h
  proof (induction items arbitrary: h)
    case (Cons i items)
    then show ?case by (cases i) auto
  qed simp
  then show ?thesis by (simp add: http_of_def)
qed

lemma lacks_dir_of: "lacks_value (dir_of d) \<longleftrightarrow> snd d = [] \<and> fst d \<in> set value_directives"
  by (simp add: lacks_value_def dir_of_def)

section \<open>Properties\<close>


definition burst_items :: "http_item list" where
  "burst_items = [HDir (''default_burst_size'', [''1m'']), HDir (''gzip_comp_level'', [''12''])]"

lemma burst_items_ok: "\<forall>x\<in>set burst_items. http_item_ok x" "length (http_tokens burst_items) \<le> MAX_TOKENS"
  by (simp_all add: burst_items_def dir_ok_def plain_word_def isspace_def is_punct_def http_tokens_def
      dir_tokens_def MAX_TOKENS_def)


text \<open>A handled directive that has no value, as in \<open>gzip;\<close>, makes parse_config pass NULL to
the C library, and nothing else in a well-formed file does: over any layout of well-formed
items the parse ends in a bad pointer exactly if one of the handled directives of the http
block lacks its value, and in a configuration otherwise.\<close>

theorem config_missing_value:
  assumes "\<forall>x\<in>set items. http_item_ok x" "list_all gap_ok gs" "layout_ok l"
    and "List.map fst l = http_tokens items" "length l \<le> MAX_TOKENS" "CHR ''/'' \<notin> set filename"
  shows "if \<exists>k\<in>set value_directives. HDir (k, []) \<in> set items
    then parse_config filename (Some (gaps gs @ layout l)) = Inl BadPointer
    else \<exists>cfg. parse_config filename (Some (gaps gs @ layout l)) = Inr ([], Some cfg)"
proof -
  let ?ds = "h_directives (http_of items)" and ?c = "new_config\<lparr>cf_http := Some (http_of items)\<rparr>"
  have dir: "set_config_dir filename = Inr []"
    using assms(6) by (simp add: set_config_dir_def strrchr_None)
  have p: "parse_config filename (Some (gaps gs @ layout l)) =
      bindR (apply_directives ?c ?ds) (\<lambda>cfg. Inr ([], Some cfg))"
    by (simp add: parse_config_def dir parse_layout [OF assms(1-5)] Let_def)
  have "\<forall>d\<in>set ?ds. d_key d \<noteq> None" by (auto simp: http_directives dir_of_def)
  note v = apply_directives_value [OF this, of ?c]
  have "(\<exists>d\<in>set ?ds. lacks_value d) \<longleftrightarrow> (\<exists>k\<in>set value_directives. HDir (k, []) \<in> set items)"
    by (auto simp: http_directives lacks_dir_of) (metis lacks_dir_of fst_conv snd_conv)
  with v p show ?thesis by (auto split: if_splits)
qed

theorem config_missing_value_witness:
  "parse_config ''anx.conf'' (Some (gaps [] @ layout [(''http'', []), (''{'', []), (''gzip'', []), ('';'', []), (''}'', [])]))
     = Inl BadPointer"
proof -
  let ?items = "[HDir (''gzip'', [])]"
  have "''gzip'' \<in> set value_directives" by (simp add: value_directives_def compression_directives_def)
  then show ?thesis
    using config_missing_value [of ?items "[]"
        "[(''http'', []), (''{'', []), (''gzip'', []), ('';'', []), (''}'', [])]" "''anx.conf''"]
    by (simp add: dir_ok_def plain_word_def isspace_def is_punct_def http_tokens_def dir_tokens_def MAX_TOKENS_def)
qed

end
