(* ===== verification/CoreConf.thy ===== *)
theory CoreConf
  imports ConfigDirectives
begin

text \<open>
  The core configuration (src/core/core.c): the routing decision for a request (find_route) and
  the construction of the server's state from the parsed file (create_core_config): the cache
  manager, one upstream group per upstream block, the health check managers, the number of
  workers and the listening sockets. A block that is pointed at is the block itself.
\<close>

section \<open>Routing\<close>

record route =
  r_server :: "server_block option"
  r_location :: "location_block option"

text \<open>The port of a listen directive, \<open>443 ssl\<close> or \<open>80\<close>.\<close>

definition listen_port :: "string \<Rightarrow> int" where
  "listen_port v = (case strtok_all {CHR '' ''} v of [] \<Rightarrow> 0 | t # _ \<Rightarrow> atoi t)"

text \<open>The loop over the directives of a server; a listen without a value is NULL for strdup.\<close>

fun listens_on :: "int \<Rightarrow> directive list \<Rightarrow> bool run" where
  "listens_on p [] = Inr False"
| "listens_on p (d # ds) =
     (case d_key d of
        None \<Rightarrow> Inl BadPointer
      | Some k \<Rightarrow>
          if k \<noteq> ''listen'' then listens_on p ds
          else case d_value d of
                 None \<Rightarrow> Inl BadPointer
               | Some v \<Rightarrow> bindR (listens_on p ds) (\<lambda>b. Inr (listen_port v = p \<or> b)))"

text \<open>The first server that listens on the port and has the name, and the first that listens.\<close>

fun find_server :: "string option \<Rightarrow> int \<Rightarrow> server_block list \<Rightarrow> server_block option \<Rightarrow>
    (server_block option \<times> server_block option) run" where
  "find_server h p [] default_server = Inr (None, default_server)"
| "find_server h p (srv # srvs) default_server =
     bindR (listens_on p (s_directives srv)) (\<lambda>listens.
     let default_server = (if listens \<and> default_server = None then Some srv else default_server) in
     if listens \<and> h \<noteq> None \<and> get_directive_value ''server_name'' (s_directives srv) = h
     then Inr (Some srv, default_server)
     else find_server h p srvs default_server)"

fun find_location :: "string \<Rightarrow> location_block list \<Rightarrow> location_block option \<Rightarrow> nat \<Rightarrow> location_block option" where
  "find_location u [] best best_len = best"
| "find_location u (loc # locs) best best_len =
     (if strncmp_eq u (l_path loc) (length (l_path loc)) \<and> length (l_path loc) > best_len
      then find_location u locs (Some loc) (length (l_path loc))
      else find_location u locs best best_len)"

definition find_route :: "http_block option \<Rightarrow> string option \<Rightarrow> string option \<Rightarrow> int \<Rightarrow> route run" where
  "find_route http h u p =
     (case http of
        None \<Rightarrow> Inr \<lparr>r_server = None, r_location = None\<rparr>
      | Some b \<Rightarrow>
          (case h_servers b of
             [] \<Rightarrow> Inr \<lparr>r_server = None, r_location = None\<rparr>
           | first # _ \<Rightarrow>
               bindR (find_server h p (h_servers b) None) (\<lambda>(matched, default_server).
               let srv = (case matched of Some s \<Rightarrow> s
                          | None \<Rightarrow> (case default_server of Some s \<Rightarrow> s | None \<Rightarrow> first))
               in Inr \<lparr>r_server = Some srv,
                       r_location = (case u of None \<Rightarrow> None | Some path \<Rightarrow> find_location path (s_locations srv) None 0)\<rparr>)))"

section \<open>The core configuration\<close>

record listening_socket =
  ls_fd :: int
  ls_port :: int
  is_ssl :: bool
  ssl_certificate :: "string option"
  ssl_certificate_key :: "string option"

text \<open>
  What a health check manager holds as its configuration: create_core_config hands over one it
  allocated for the purpose and frees it at once, so that the pointer dangles.
\<close>

datatype config_ref = Dangling | Live health_check_config

record core_config =
  cc_worker_processes :: int
  listening_sockets :: "listening_socket list"
  cc_cache_manager :: "cache_manager option"
  cc_lb_config :: lb_config
  health_managers :: "(string \<times> config_ref \<times> health_check_manager) list"

text \<open>One server line: added and, once found again, given its limits.\<close>

definition add_entry :: "addr \<Rightarrow> upstream_server_entry \<Rightarrow> upstream_group \<Rightarrow> upstream_group" where
  "add_entry a e g =
     (let (r, g) = upstream_group_add_server a g (e_host e) (e_port e) (e_weight e) in
      if r \<noteq> 0 then g
      else case upstream_group_get_server g (e_host e) (e_port e) of
             None \<Rightarrow> g
           | Some _ \<Rightarrow>
               g\<lparr>servers := List.map (\<lambda>x. if same_server (e_host e) (e_port e) x
                   then x\<lparr>max_fails := e_max_fails e, fail_timeout := e_fail_timeout e, max_conns := e_max_conns e\<rparr>
                   else x) (servers g)\<rparr>)"

fun add_entries :: "addr \<Rightarrow> upstream_server_entry list \<Rightarrow> upstream_group \<Rightarrow> upstream_group" where
  "add_entries a [] g = g"
| "add_entries a (e # es) g = add_entries (Suc a) es (add_entry a e g)"

definition strategy_directive :: "string \<Rightarrow> lb_strategy_t \<Rightarrow> lb_strategy_t" where
  "strategy_directive k st =
     (if k = ''least_conn'' then LB_STRATEGY_LEAST_CONNECTIONS
      else if k = ''ip_hash'' then LB_STRATEGY_IP_HASH
      else if k = ''random'' then LB_STRATEGY_RANDOM else st)"

fun group_strategy :: "directive list \<Rightarrow> lb_strategy_t \<Rightarrow> lb_strategy_t run" where
  "group_strategy [] st = Inr st"
| "group_strategy (d # ds) st =
     (case d_key d of
        None \<Rightarrow> Inl BadPointer
      | Some k \<Rightarrow> group_strategy ds (strategy_directive k st))"

text \<open>
  The health check of a new group. No parser sets default_health_config, so the configuration
  is always the temporary one. \<open>spawn\<close>: the thread can be created.
\<close>

definition start_group_check :: "int \<Rightarrow> bool \<Rightarrow> upstream_group \<Rightarrow> (string \<times> config_ref \<times> health_check_manager) list" where
  "start_group_check now spawn g =
     (if health_check_enabled g
      then let c = health_check_config_create\<lparr>hc_enabled := True, hc_type := HEALTH_CHECK_HTTP,
                     hc_interval := g_check_interval g, hc_timeout := g_check_timeout g\<rparr>;
               c = snd (health_check_config_set_uri (Some (g_check_uri g)) c)
           in if hc_enabled c
              then let (r, m) = health_check_manager_start spawn (health_check_manager_create now g c)
                   in if r = 0 then [(g_name g, Dangling, m)] else []
              else []
      else [])"

definition replace_group :: "upstream_group \<Rightarrow> lb_config \<Rightarrow> lb_config" where
  "replace_group g c = c\<lparr>groups := List.map (\<lambda>x. if g_name x = g_name g then g else x) (groups c)\<rparr>"

text \<open>The loop over the upstream blocks; a group whose name exists already is skipped.\<close>

fun add_upstreams :: "int \<Rightarrow> (string \<Rightarrow> bool) \<Rightarrow> upstream_block list \<Rightarrow>
    lb_config \<times> (string \<times> config_ref \<times> health_check_manager) list \<Rightarrow>
    (lb_config \<times> (string \<times> config_ref \<times> health_check_manager) list) run" where
  "add_upstreams now spawn [] acc = Inr acc"
| "add_upstreams now spawn (u # us) acc =
     (let (c, ms) = acc;
          (r, c) = lb_config_add_group c (u_name u) LB_STRATEGY_ROUND_ROBIN in
      if r \<noteq> 0 then add_upstreams now spawn us (c, ms)
      else case lb_config_get_group c (u_name u) of
             None \<Rightarrow> add_upstreams now spawn us (c, ms)
           | Some g \<Rightarrow>
               let g = add_entries 0 (u_servers u) g in
               bindR (group_strategy (u_directives u) (g_strategy g)) (\<lambda>st.
               let g = g\<lparr>g_strategy := st\<rparr> in
               add_upstreams now spawn us (replace_group g c, ms @ start_group_check now (spawn (g_name g)) g)))"

definition listening_socket_of :: "string \<Rightarrow> directive list \<Rightarrow> string \<Rightarrow> listening_socket" where
  "listening_socket_of dir ds v =
     (let ts = strtok_all {CHR '' ''} v;
          ssl = (case ts of _ # t # _ \<Rightarrow> t = ''ssl'' | _ \<Rightarrow> False);
          path = (\<lambda>k. if ssl then map_option (resolve_config_path dir) (get_directive_value k ds) else None)
      in \<lparr>ls_fd = -1, ls_port = (case ts of [] \<Rightarrow> 0 | t # _ \<Rightarrow> atoi t), is_ssl = ssl,
          ssl_certificate = path ''ssl_certificate'', ssl_certificate_key = path ''ssl_certificate_key''\<rparr>)"

fun server_sockets :: "string \<Rightarrow> directive list \<Rightarrow> directive list \<Rightarrow> listening_socket list run" where
  "server_sockets dir all [] = Inr []"
| "server_sockets dir all (d # ds) =
     (case d_key d of
        None \<Rightarrow> Inl BadPointer
      | Some k \<Rightarrow>
          if k \<noteq> ''listen'' then server_sockets dir all ds
          else case d_value d of
                 None \<Rightarrow> Inl BadPointer
               | Some v \<Rightarrow> bindR (server_sockets dir all ds) (\<lambda>ss. Inr (listening_socket_of dir all v # ss)))"

fun all_sockets :: "string \<Rightarrow> server_block list \<Rightarrow> listening_socket list run" where
  "all_sockets dir [] = Inr []"
| "all_sockets dir (s # ss) =
     bindR (server_sockets dir (s_directives s) (s_directives s)) (\<lambda>xs.
     bindR (all_sockets dir ss) (\<lambda>ys. Inr (xs @ ys)))"

definition create_core_config ::
  "int \<Rightarrow> (string \<Rightarrow> bool) \<Rightarrow> string \<Rightarrow> config option \<Rightarrow> core_config option run" where
  "create_core_config now spawn dir parsed =
     (case parsed of
        None \<Rightarrow> Inr None
      | Some cfg \<Rightarrow>
          (case cf_http cfg of
             None \<Rightarrow> Inr None
           | Some h \<Rightarrow>
               let cache = (if enable_cache (cf_cache cfg) then Some (cache_manager_create (cf_cache cfg)) else None) in
               bindR (add_upstreams now spawn (h_upstreams h) (lb_config_create, [])) (\<lambda>(lb, ms).
               let workers = (case get_directive_value ''workers'' (h_directives h) of None \<Rightarrow> 2 | Some v \<Rightarrow> atoi v) in
               bindR (all_sockets dir (h_servers h)) (\<lambda>socks.
               Inr (Some \<lparr>cc_worker_processes = workers, listening_sockets = socks,
                          cc_cache_manager = cache, cc_lb_config = lb, health_managers = ms\<rparr>)))))"

text \<open>
  A turn of the check thread of a group, on the state its manager is in: once the manager's
  configuration is freed, a due pass over a server reads freed memory.
\<close>

definition group_check_turn ::
  "(string \<Rightarrow> int \<Rightarrow> string \<Rightarrow> probe) \<Rightarrow> int \<Rightarrow> config_ref \<times> health_check_manager \<Rightarrow> counters \<Rightarrow>
   (health_check_manager \<times> counters) run" where
  "group_check_turn net now rm k =
     (let (r, m) = rm in
      case r of
        Live c \<Rightarrow> health_check_worker_turn net now (m\<lparr>m_config := c\<rparr>, k)
      | Dangling \<Rightarrow> if running m \<and> now \<ge> m_next_check m then Inl BadPointer else Inr (m, k))"

section \<open>Servers and locations\<close>

lemma find_server_result:
  "find_server h p srvs d = Inr (m, d') \<Longrightarrow>
   m = List.find (\<lambda>s. listens_on p (s_directives s) = Inr True \<and> h \<noteq> None \<and>
         get_directive_value ''server_name'' (s_directives s) = h) srvs \<and>
   (m = None \<longrightarrow> d' = (case d of Some s \<Rightarrow> Some s
                       | None \<Rightarrow> List.find (\<lambda>s. listens_on p (s_directives s) = Inr True) srvs))"
proof (induction srvs arbitrary: d)
  case Nil
  then show ?case by (simp split: option.split)
next
  case (Cons s srvs)
  then obtain b where b: "listens_on p (s_directives s) = Inr b" by (auto simp: bindR_Inr_iff)
  let ?d = "if b \<and> d = None then Some s else d"
  show ?case
  proof (cases "b \<and> h \<noteq> None \<and> get_directive_value ''server_name'' (s_directives s) = h")
    case True
    with Cons.prems b show ?thesis by auto
  next
    case False
    with Cons.prems b have "find_server h p srvs ?d = Inr (m, d')" by (auto simp: Let_def)
    from Cons.IH [OF this] False b show ?thesis by (auto split: option.splits if_splits)
  qed
qed

lemma strncmp_prefix: "strncmp_eq u q (length q) \<longleftrightarrow> (\<exists>t. u = q @ t)"
  by (auto simp: strncmp_eq_def) (metis append_take_drop_id)

text \<open>What the search for a location promises: a longest path that is a prefix of the URI.\<close>

definition best_location :: "string \<Rightarrow> location_block list \<Rightarrow> nat \<Rightarrow> location_block option \<Rightarrow> bool" where
  "best_location u locs n best \<longleftrightarrow>
     (case best of
        None \<Rightarrow> \<forall>l\<in>set locs. (\<exists>t. u = l_path l @ t) \<longrightarrow> length (l_path l) \<le> n
      | Some b \<Rightarrow> \<exists>xs ys. locs = xs @ b # ys \<and> (\<exists>t. u = l_path b @ t) \<and> n < length (l_path b) \<and>
          (\<forall>l\<in>set locs. (\<exists>t. u = l_path l @ t) \<longrightarrow> length (l_path l) \<le> length (l_path b)) \<and>
          (\<forall>l\<in>set xs. (\<exists>t. u = l_path l @ t) \<longrightarrow> length (l_path l) < length (l_path b)))"

lemma find_location_default:
  "find_location u locs best n = (case find_location u locs None n of None \<Rightarrow> best | Some b \<Rightarrow> Some b)"
proof (induction locs arbitrary: best n)
  case (Cons l locs)
  from Cons.IH [of "Some l" "length (l_path l)"] Cons.IH [of best n] show ?case
    by (simp split: option.split)
qed simp

lemma find_location_best: "best_location u locs n (find_location u locs None n)"
proof (induction locs arbitrary: n)
  case Nil
  show ?case by (simp add: best_location_def)
next
  case (Cons l locs)
  show ?case
  proof (cases "(\<exists>t. u = l_path l @ t) \<and> n < length (l_path l)")
    case False
    then have e: "find_location u (l # locs) None n = find_location u locs None n"
      using strncmp_prefix [of u "l_path l"] by auto
    show ?thesis
    proof (cases "find_location u locs None n")
      case None
      with Cons.IH [of n] have "\<forall>k\<in>set locs. (\<exists>t. u = l_path k @ t) \<longrightarrow> length (l_path k) \<le> n"
        by (simp add: best_location_def)
      with False have "best_location u (l # locs) n None" unfolding best_location_def option.case
        by (metis set_ConsD not_le)
      then show ?thesis using e None by simp
    next
      case (Some b)
      with Cons.IH [of n] obtain xs ys where b: "locs = xs @ b # ys" "\<exists>t. u = l_path b @ t" "n < length (l_path b)"
        "\<forall>k\<in>set locs. (\<exists>t. u = l_path k @ t) \<longrightarrow> length (l_path k) \<le> length (l_path b)"
        "\<forall>k\<in>set xs. (\<exists>t. u = l_path k @ t) \<longrightarrow> length (l_path k) < length (l_path b)"
        by (auto simp: best_location_def)
      have "(\<exists>t. u = l_path l @ t) \<longrightarrow> length (l_path l) < length (l_path b)"
        "(\<exists>t. u = l_path l @ t) \<longrightarrow> length (l_path l) \<le> length (l_path b)"
        using False b(3) by auto
      then have "l # locs = (l # xs) @ b # ys \<and> (\<exists>t. u = l_path b @ t) \<and> n < length (l_path b) \<and>
          (\<forall>k\<in>set (l # locs). (\<exists>t. u = l_path k @ t) \<longrightarrow> length (l_path k) \<le> length (l_path b)) \<and>
          (\<forall>k\<in>set (l # xs). (\<exists>t. u = l_path k @ t) \<longrightarrow> length (l_path k) < length (l_path b))"
        using b by simp
      then have "best_location u (l # locs) n (Some b)" unfolding best_location_def option.case by blast
      then show ?thesis using e Some by simp
    qed
  next
    case True
    let ?m = "length (l_path l)"
    have e: "find_location u (l # locs) None n = (case find_location u locs None ?m of None \<Rightarrow> Some l | Some b \<Rightarrow> Some b)"
      using True find_location_default [of u locs "Some l" ?m] by (simp add: strncmp_prefix)
    show ?thesis
    proof (cases "find_location u locs None ?m")
      case None
      with Cons.IH [of ?m] have "\<forall>k\<in>set locs. (\<exists>t. u = l_path k @ t) \<longrightarrow> length (l_path k) \<le> ?m"
        by (simp add: best_location_def)
      then have "best_location u (l # locs) n (Some l)" unfolding best_location_def option.case
        using True by (intro exI [of _ "[]"] exI [of _ locs]) auto
      then show ?thesis using e None by simp
    next
      case (Some b)
      with Cons.IH [of ?m] obtain xs ys where b: "locs = xs @ b # ys" "\<exists>t. u = l_path b @ t" "?m < length (l_path b)"
        "\<forall>k\<in>set locs. (\<exists>t. u = l_path k @ t) \<longrightarrow> length (l_path k) \<le> length (l_path b)"
        "\<forall>k\<in>set xs. (\<exists>t. u = l_path k @ t) \<longrightarrow> length (l_path k) < length (l_path b)"
        by (auto simp: best_location_def)
      have "best_location u (l # locs) n (Some b)" unfolding best_location_def option.case
        using b True by (intro exI [of _ "l # xs"] exI [of _ ys]) auto
      then show ?thesis using e Some by simp
    qed
  qed
qed

section \<open>Groups\<close>

definition limits :: "upstream_server \<Rightarrow> int \<times> int \<times> int \<times> int" where
  "limits s = (weight s, max_fails s, fail_timeout s, max_conns s)"

definition entry_limits :: "upstream_server_entry \<Rightarrow> int \<times> int \<times> int \<times> int" where
  "entry_limits e = (e_weight e, e_max_fails e, e_fail_timeout e, e_max_conns e)"

definition entry_for :: "string \<times> int \<Rightarrow> upstream_server_entry \<Rightarrow> bool" where
  "entry_for hp e \<longleftrightarrow> (e_host e, e_port e) = hp \<and> 0 < e_port e \<and> 0 < e_weight e"

lemma add_entry_map:
  "map_option limits (server_map (add_entry a e g) hp) =
     (case server_map g hp of Some s \<Rightarrow> Some (limits s)
      | None \<Rightarrow> if entry_for hp e then Some (entry_limits e) else None)" (is ?map)
  and add_entry_frame: "g_name (add_entry a e g) = g_name g \<and> g_strategy (add_entry a e g) = g_strategy g \<and>
    health_check_enabled (add_entry a e g) = health_check_enabled g \<and>
    g_check_interval (add_entry a e g) = g_check_interval g \<and> (group_ok g \<longrightarrow> group_ok (add_entry a e g))" (is ?frame)
proof -
  let ?h = "e_host e" and ?p = "e_port e" and ?w = "e_weight e"
  show ?map and ?frame
  proof (atomize (full), cases "0 < ?p \<and> 0 < ?w \<and> (\<forall>s\<in>set (servers g). \<not> same_server ?h ?p s)")
    case False
    then have r: "upstream_group_add_server a g ?h ?p ?w = (-1, g)" by (auto simp: upstream_group_add_server_def)
    then have e: "add_entry a e g = g" by (simp add: add_entry_def)
    have "server_map g hp \<noteq> None" if "entry_for hp e"
      using that False server_map_none [of g ?h ?p] by (cases hp) (auto simp: entry_for_def)
    with e show "?map \<and> ?frame" by (auto split: option.split)
  next
    case True
    define s where "s = the (upstream_server_create a ?h ?p ?w)"
    define s' where "s' = s\<lparr>max_fails := e_max_fails e, fail_timeout := e_fail_timeout e, max_conns := e_max_conns e\<rparr>"
    have s: "upstream_server_create a ?h ?p ?w = Some s" using True by (simp add: s_def upstream_server_create_def)
    have f: "host s = ?h" "port s = ?p" "weight s = ?w" using True by (auto simp: s_def upstream_server_create_def)
    have r: "upstream_group_add_server a g ?h ?p ?w = (0, g\<lparr>servers := s # servers g,
        server_count := server_count g + 1, total_weight := total_weight g + ?w\<rparr>)"
      using True s by (auto simp: upstream_group_add_server_def)
    have "List.map (\<lambda>x. if same_server ?h ?p x then x\<lparr>max_fails := e_max_fails e, fail_timeout := e_fail_timeout e,
        max_conns := e_max_conns e\<rparr> else x) (servers g) = servers g"
      using True by (intro map_idI) auto
    moreover have "same_server ?h ?p s" using f by (simp add: same_server_def)
    ultimately have e: "add_entry a e g = g\<lparr>servers := s' # servers g,
        server_count := server_count g + 1, total_weight := total_weight g + ?w\<rparr>"
      using r True by (simp add: add_entry_def upstream_group_get_server_def s'_def)
    have m: "server_map (add_entry a e g) = (server_map g)((?h, ?p) := Some s')"
      using f by (simp add: e server_map_def s'_def)
    have n: "server_map g (?h, ?p) = None" using True by (simp add: server_map_none)
    have "limits s' = entry_limits e" using f by (simp add: s'_def limits_def entry_limits_def)
    with m n True have ?map by (auto simp: entry_for_def split: option.split)
    moreover have ?frame
      using True f by (auto simp: e group_ok_def s'_def same_server_def)
    ultimately show "?map \<and> ?frame" ..
  qed
qed

lemma add_entries_map:
  "map_option limits (server_map (add_entries a es g) hp) =
     (case server_map g hp of Some s \<Rightarrow> Some (limits s)
      | None \<Rightarrow> map_option entry_limits (List.find (entry_for hp) es))"
proof (induction es arbitrary: a g)
  case Nil
  show ?case by (simp split: option.split)
next
  case (Cons e es)
  have "map_option limits (server_map (add_entries a (e # es) g) hp) =
      (case map_option limits (server_map (add_entry a e g) hp) of Some l \<Rightarrow> Some l
       | None \<Rightarrow> map_option entry_limits (List.find (entry_for hp) es))"
    using Cons.IH [of "Suc a" "add_entry a e g"] by (simp split: option.split)
  then show ?case using add_entry_map [of a e g hp] by (simp split: option.split)
qed

lemma add_entries_frame:
  "g_name (add_entries a es g) = g_name g \<and> g_strategy (add_entries a es g) = g_strategy g \<and>
   health_check_enabled (add_entries a es g) = health_check_enabled g \<and>
   g_check_interval (add_entries a es g) = g_check_interval g \<and> (group_ok g \<longrightarrow> group_ok (add_entries a es g))"
  by (induction es arbitrary: a g) (simp_all add: add_entry_frame)

section \<open>Upstream blocks\<close>

definition block_strategy :: "upstream_block \<Rightarrow> lb_strategy_t" where
  "block_strategy u =
     (case group_strategy (u_directives u) LB_STRATEGY_ROUND_ROBIN of Inr st \<Rightarrow> st | Inl _ \<Rightarrow> LB_STRATEGY_ROUND_ROBIN)"

definition group_of_block :: "upstream_block \<Rightarrow> upstream_group" where
  "group_of_block u =
     (add_entries 0 (u_servers u) (upstream_group_create (u_name u) LB_STRATEGY_ROUND_ROBIN))
       \<lparr>g_strategy := block_strategy u\<rparr>"

lemma group_of_block_sel: "g_name (group_of_block u) = u_name u" "g_strategy (group_of_block u) = block_strategy u"
  "health_check_enabled (group_of_block u)" "g_check_interval (group_of_block u) = 30" "group_ok (group_of_block u)"
  using add_entries_frame [of 0 "u_servers u" "upstream_group_create (u_name u) LB_STRATEGY_ROUND_ROBIN"]
    group_ok_create [of "u_name u" LB_STRATEGY_ROUND_ROBIN]
  by (simp_all add: group_of_block_def upstream_group_create_def group_ok_def)

lemma group_of_block_map:
  "map_option limits (server_map (group_of_block u) hp) = map_option entry_limits (List.find (entry_for hp) (u_servers u))"
proof -
  let ?g = "upstream_group_create (u_name u) LB_STRATEGY_ROUND_ROBIN"
  have "server_map (group_of_block u) = server_map (add_entries 0 (u_servers u) ?g)"
    by (simp add: group_of_block_def server_map_def)
  moreover have "server_map ?g hp = None" by (simp add: server_map_def upstream_group_create_def)
  ultimately show ?thesis using add_entries_map [of 0 "u_servers u" ?g hp] by simp
qed

lemma get_group_none: "lb_config_get_group c n = None \<longleftrightarrow> n \<notin> g_name ` set (groups c)"
  by (auto simp: lb_config_get_group_def find_None_iff)

lemma add_upstreams_step:
  assumes "\<forall>g\<in>set (groups c). g_name g \<noteq> u_name u"
  shows "add_upstreams now spawn (u # us) (c, ms) =
    bindR (group_strategy (u_directives u) LB_STRATEGY_ROUND_ROBIN) (\<lambda>_.
      add_upstreams now spawn us (c\<lparr>groups := group_of_block u # groups c, group_count := group_count c + 1\<rparr>,
        ms @ start_group_check now (spawn (u_name u)) (group_of_block u)))"
proof -
  let ?g = "upstream_group_create (u_name u) LB_STRATEGY_ROUND_ROBIN"
  let ?c = "c\<lparr>groups := ?g # groups c, group_count := group_count c + 1\<rparr>"
  have n: "g_name ?g = u_name u" "g_strategy ?g = LB_STRATEGY_ROUND_ROBIN" by (simp_all add: upstream_group_create_def)
  have a: "lb_config_add_group c (u_name u) LB_STRATEGY_ROUND_ROBIN = (0, ?c)"
    using assms by (auto simp: lb_config_add_group_def)
  have g: "lb_config_get_group ?c (u_name u) = Some ?g" using n by (simp add: lb_config_get_group_def)
  have "List.map (\<lambda>x. if g_name x = u_name u then group_of_block u else x) (groups c) = groups c"
    using assms by (intro map_idI) auto
  then have r: "replace_group (group_of_block u) ?c = c\<lparr>groups := group_of_block u # groups c, group_count := group_count c + 1\<rparr>"
    using n by (simp add: replace_group_def group_of_block_sel)
  have s: "g_strategy (add_entries 0 (u_servers u) ?g) = LB_STRATEGY_ROUND_ROBIN"
    "g_name (add_entries 0 (u_servers u) ?g) = u_name u"
    using add_entries_frame [of 0 "u_servers u" ?g] n by simp_all
  show ?thesis
  proof (cases "group_strategy (u_directives u) LB_STRATEGY_ROUND_ROBIN")
    case (Inl f)
    then show ?thesis using a g s by (simp add: Let_def)
  next
    case (Inr st)
    then have "(add_entries 0 (u_servers u) ?g)\<lparr>g_strategy := st\<rparr> = group_of_block u"
      by (simp add: group_of_block_def block_strategy_def)
    then show ?thesis using a g r s Inr by (simp add: Let_def group_of_block_sel)
  qed
qed

lemma add_upstreams_skip:
  assumes "u_name u \<in> g_name ` set (groups c)"
  shows "add_upstreams now spawn (u # us) (c, ms) = add_upstreams now spawn us (c, ms)"
  using assms by (auto simp: lb_config_add_group_def)

declare add_upstreams.simps(2) [simp del]

text \<open>What the loop leaves behind, from any state of the groups and managers.\<close>

definition upstreams_added ::
  "int \<Rightarrow> (string \<Rightarrow> bool) \<Rightarrow> upstream_block list \<Rightarrow> lb_config \<times> (string \<times> config_ref \<times> health_check_manager) list \<Rightarrow>
   lb_config \<times> (string \<times> config_ref \<times> health_check_manager) list \<Rightarrow> bool" where
  "upstreams_added now spawn us = (\<lambda>(c, ms) (c', ms').
     (\<forall>n. lb_config_get_group c' n = (if lb_config_get_group c n \<noteq> None then lb_config_get_group c n
        else map_option group_of_block (List.find (\<lambda>u. u_name u = n) us))) \<and>
     set ms' = set ms \<union> {x. \<exists>u n. lb_config_get_group c n = None \<and> List.find (\<lambda>u. u_name u = n) us = Some u \<and>
        x \<in> set (start_group_check now (spawn n) (group_of_block u))})"

lemma find_holds: "Some x = List.find P xs \<Longrightarrow> P x"
  by (induction xs) (auto split: if_splits)

lemma find_ex: "(\<exists>x. List.find P xs = Some x) \<longleftrightarrow> (\<exists>x\<in>set xs. P x)"
  by (induction xs) auto

lemma find_cons: "List.find P (x # xs) = (if P x then Some x else List.find P xs)"
  by simp

lemma add_upstreams_result:
  "add_upstreams now spawn us (c, ms) = Inr (c', ms') \<Longrightarrow> upstreams_added now spawn us (c, ms) (c', ms')"
proof (induction us arbitrary: c ms)
  case Nil
  then show ?case by (auto simp: upstreams_added_def)
next
  case (Cons u us)
  show ?case
  proof (cases "u_name u \<in> g_name ` set (groups c)")
    case True
    with Cons.prems add_upstreams_skip [OF True] have "add_upstreams now spawn us (c, ms) = Inr (c', ms')" by simp
    note ih = Cons.IH [OF this]
    have "lb_config_get_group c (u_name u) \<noteq> None" using True get_group_none [of c "u_name u"] by simp
    then have "List.find (\<lambda>u. u_name u = n) (u # us) = List.find (\<lambda>u. u_name u = n) us"
      if "lb_config_get_group c n = None" for n
      using that by auto
    with ih show ?thesis unfolding upstreams_added_def by (simp cong: if_cong conj_cong del: find.simps not_None_eq)
  next
    case False
    then have names: "\<forall>g\<in>set (groups c). g_name g \<noteq> u_name u" by force
    let ?c = "c\<lparr>groups := group_of_block u # groups c, group_count := group_count c + 1\<rparr>"
    let ?ms = "ms @ start_group_check now (spawn (u_name u)) (group_of_block u)"
    have "add_upstreams now spawn us (?c, ?ms) = Inr (c', ms')"
      using Cons.prems by (auto simp: add_upstreams_step [OF names] bindR_Inr_iff)
    note ih = Cons.IH [OF this]
    have g: "lb_config_get_group ?c n = (if n = u_name u then Some (group_of_block u) else lb_config_get_group c n)" for n
      by (auto simp: lb_config_get_group_def group_of_block_sel)
    have none: "lb_config_get_group c (u_name u) = None" using False get_group_none by blast
    have groups: "lb_config_get_group c' n = (if lb_config_get_group c n \<noteq> None then lb_config_get_group c n
        else map_option group_of_block (List.find (\<lambda>u. u_name u = n) (u # us)))" for n
      using ih g [of n] none by (cases "n = u_name u") (simp_all add: upstreams_added_def)
    have "{x. \<exists>v n. lb_config_get_group c n = None \<and> List.find (\<lambda>u. u_name u = n) (u # us) = Some v \<and>
          x \<in> set (start_group_check now (spawn n) (group_of_block v))} =
        set (start_group_check now (spawn (u_name u)) (group_of_block u)) \<union>
        {x. \<exists>v n. lb_config_get_group ?c n = None \<and> List.find (\<lambda>u. u_name u = n) us = Some v \<and>
          x \<in> set (start_group_check now (spawn n) (group_of_block v))}" (is "?l = ?r \<union> ?t")
    proof (intro equalityI subsetI)
      fix x assume "x \<in> ?l"
      then obtain v n where "lb_config_get_group c n = None" "List.find (\<lambda>u. u_name u = n) (u # us) = Some v"
        "x \<in> set (start_group_check now (spawn n) (group_of_block v))" by blast
      then show "x \<in> ?r \<union> ?t" using g [of n] by (cases "n = u_name u") auto
    next
      fix x assume x: "x \<in> ?r \<union> ?t"
      show "x \<in> ?l"
      proof (cases "x \<in> ?r")
        case True
        then show ?thesis using none by auto
      next
        case False
        with x obtain v n where v: "lb_config_get_group ?c n = None" "List.find (\<lambda>u. u_name u = n) us = Some v"
          "x \<in> set (start_group_check now (spawn n) (group_of_block v))" by blast
        then have "n \<noteq> u_name u" "lb_config_get_group c n = None" using g [of n] by (auto split: if_splits)
        then show ?thesis using v by (intro CollectI exI [of _ v] exI [of _ n]) simp
      qed
    qed
    with groups ih show ?thesis by (simp add: upstreams_added_def Un_assoc)
  qed
qed

lemma add_upstreams_strategy:
  "add_upstreams now spawn us (c, ms) = Inr r \<Longrightarrow> lb_config_get_group c n = None \<Longrightarrow>
   List.find (\<lambda>u. u_name u = n) us = Some u \<Longrightarrow>
   group_strategy (u_directives u) LB_STRATEGY_ROUND_ROBIN = Inr (block_strategy u)"
proof (induction us arbitrary: c ms)
  case (Cons v us)
  show ?case
  proof (cases "u_name v \<in> g_name ` set (groups c)")
    case True
    then have "u_name v \<noteq> n" using Cons.prems(2) get_group_none by blast
    with Cons True show ?thesis by (simp add: add_upstreams_skip)
  next
    case False
    then have names: "\<forall>g\<in>set (groups c). g_name g \<noteq> u_name v" by force
    obtain st where st: "group_strategy (u_directives v) LB_STRATEGY_ROUND_ROBIN = Inr st"
      and r: "add_upstreams now spawn us (c\<lparr>groups := group_of_block v # groups c, group_count := group_count c + 1\<rparr>,
        ms @ start_group_check now (spawn (u_name v)) (group_of_block v)) = Inr r"
      using Cons.prems(1) by (auto simp: add_upstreams_step [OF names] bindR_Inr_iff)
    show ?thesis
    proof (cases "u_name v = n")
      case True
      with Cons.prems(3) st show ?thesis by (auto simp: block_strategy_def)
    next
      case other: False
      then have "lb_config_get_group (c\<lparr>groups := group_of_block v # groups c, group_count := group_count c + 1\<rparr>) n = None"
        using Cons.prems(2) by (simp add: lb_config_get_group_def group_of_block_sel)
      with Cons.IH [OF r] Cons.prems(3) other show ?thesis by simp
    qed
  qed
qed simp

section \<open>Sockets\<close>

fun listen_values :: "directive list \<Rightarrow> string list" where
  "listen_values [] = []"
| "listen_values (d # ds) =
     (case (d_key d = Some ''listen'', d_value d) of (True, Some v) \<Rightarrow> v # listen_values ds | _ \<Rightarrow> listen_values ds)"

lemma listens_on_values: "listens_on p ds = Inr b \<Longrightarrow> b \<longleftrightarrow> (\<exists>v\<in>set (listen_values ds). listen_port v = p)"
proof (induction ds arbitrary: b)
  case (Cons d ds)
  show ?case
  proof (cases "d_key d = Some ''listen''")
    case True
    with Cons.prems obtain v c where "d_value d = Some v" "listens_on p ds = Inr c" "b = (listen_port v = p \<or> c)"
      by (auto simp: bindR_Inr_iff split: option.splits)
    with Cons.IH True show ?thesis by simp
  next
    case False
    with Cons.prems have "listens_on p ds = Inr b" by (auto split: option.splits if_splits)
    with Cons.IH False show ?thesis by simp
  qed
qed simp

lemma server_sockets_ports: "server_sockets dir all ds = Inr ss \<Longrightarrow> List.map ls_port ss = List.map listen_port (listen_values ds)"
proof (induction ds arbitrary: ss)
  case (Cons d ds)
  show ?case
  proof (cases "d_key d = Some ''listen''")
    case True
    with Cons.prems obtain v xs where "d_value d = Some v" "server_sockets dir all ds = Inr xs"
      "ss = listening_socket_of dir all v # xs"
      by (auto simp: bindR_Inr_iff split: option.splits)
    with Cons.IH True show ?thesis by (simp add: listening_socket_of_def listen_port_def Let_def)
  next
    case False
    with Cons.prems have "server_sockets dir all ds = Inr ss" by (auto split: option.splits if_splits)
    with Cons.IH False show ?thesis by simp
  qed
qed simp

lemma all_sockets_ports:
  "all_sockets dir srvs = Inr ss \<Longrightarrow>
   List.map ls_port ss = concat (List.map (\<lambda>s. List.map listen_port (listen_values (s_directives s))) srvs)"
  by (induction srvs arbitrary: ss) (auto simp: bindR_Inr_iff server_sockets_ports)

text \<open>Sockets were only made where the directives can be read, so routing can read them too.\<close>

lemma server_sockets_listens: "server_sockets dir all ds = Inr ss \<Longrightarrow> \<exists>b. listens_on p ds = Inr b"
  by (induction ds arbitrary: ss) (auto simp: bindR_Inr_iff split: option.splits if_splits)

lemma all_sockets_listens: "all_sockets dir srvs = Inr ss \<Longrightarrow> s \<in> set srvs \<Longrightarrow> \<exists>b. listens_on p (s_directives s) = Inr b"
  by (induction srvs arbitrary: ss) (auto simp: bindR_Inr_iff server_sockets_listens)

lemma find_server_total:
  "\<forall>s\<in>set srvs. \<exists>b. listens_on p (s_directives s) = Inr b \<Longrightarrow> \<exists>r. find_server h p srvs d = Inr r"
proof (induction srvs arbitrary: d)
  case (Cons s srvs)
  then obtain b where "listens_on p (s_directives s) = Inr b" by auto
  with Cons show ?case by (simp add: Let_def)
qed simp

lemma find_server_on: "find_server h p srvs d = Inr (Some x, d') \<Longrightarrow> listens_on p (s_directives x) = Inr True"
proof -
  assume "find_server h p srvs d = Inr (Some x, d')"
  then have "Some x = List.find (\<lambda>s. listens_on p (s_directives s) = Inr True \<and> h \<noteq> None \<and>
      get_directive_value ''server_name'' (s_directives s) = h) srvs"
    by (rule conjunct1 [OF find_server_result])
  from find_holds [OF this] show ?thesis by simp
qed

text \<open>Every port of a socket is served by a block that listens on it.\<close>

lemma socket_served:
  assumes s: "all_sockets dir (h_servers h) = Inr socks" and q: "q \<in> ls_port ` set socks"
  shows "\<exists>r srv. find_route (Some h) name u q = Inr r \<and> r_server r = Some srv \<and>
    q \<in> listen_port ` set (listen_values (s_directives srv))"
proof -
  have "ls_port ` set socks = set (List.map ls_port socks)" by simp
  with q all_sockets_ports [OF s] obtain s0 where s0: "s0 \<in> set (h_servers h)" "q \<in> listen_port ` set (listen_values (s_directives s0))"
    by auto
  then obtain first rest where hs: "h_servers h = first # rest" by (cases "h_servers h") auto
  have ok: "\<forall>x\<in>set (h_servers h). \<exists>b. listens_on q (s_directives x) = Inr b" using all_sockets_listens [OF s] by blast
  obtain m d where f: "find_server name q (h_servers h) None = Inr (m, d)" using find_server_total [OF ok] by fastforce
  let ?on = "\<lambda>x. listens_on q (s_directives x) = Inr True"
  have l0: "?on s0" using ok s0 listens_on_values [of q "s_directives s0"] by fastforce
  obtain srv where srv: "(m = Some srv \<or> m = None \<and> d = Some srv)" "?on srv"
  proof (cases m)
    case (Some x)
    then have "?on x" using find_server_on f by simp
    with Some show thesis by (intro that [of x]) simp_all
  next
    case None
    with find_server_result [OF f] have d: "d = List.find ?on (h_servers h)" by simp
    moreover obtain x where x: "List.find ?on (h_servers h) = Some x" using s0(1) l0 find_ex [of ?on "h_servers h"] by blast
    ultimately have "d = Some x" by simp
    have "?on x" using find_holds [OF x [symmetric]] by simp
    with None \<open>d = Some x\<close> show thesis by (intro that [of x]) simp_all
  qed
  have "q \<in> listen_port ` set (listen_values (s_directives srv))" using listens_on_values [OF srv(2)] by auto
  moreover have "\<exists>r. find_route (Some h) name u q = Inr r \<and> r_server r = Some srv"
    using f hs srv(1) by (auto simp: find_route_def Let_def)
  ultimately show ?thesis by blast
qed

text \<open>The server and the location of a route.\<close>

lemma find_route_routes:
  assumes "find_route (Some h) name (Some u) p = Inr r" "h_servers h \<noteq> []"
  shows "r_server r = Some (case List.find (\<lambda>s. listens_on p (s_directives s) = Inr True \<and> name \<noteq> None \<and>
        get_directive_value ''server_name'' (s_directives s) = name) (h_servers h) of
      Some s \<Rightarrow> s
    | None \<Rightarrow> (case List.find (\<lambda>s. listens_on p (s_directives s) = Inr True) (h_servers h) of
        Some s \<Rightarrow> s | None \<Rightarrow> hd (h_servers h))) \<and>
    best_location u (s_locations (case List.find (\<lambda>s. listens_on p (s_directives s) = Inr True \<and> name \<noteq> None \<and>
        get_directive_value ''server_name'' (s_directives s) = name) (h_servers h) of
      Some s \<Rightarrow> s
    | None \<Rightarrow> (case List.find (\<lambda>s. listens_on p (s_directives s) = Inr True) (h_servers h) of
        Some s \<Rightarrow> s | None \<Rightarrow> hd (h_servers h)))) 0 (r_location r)"
proof -
  obtain first rest where hs: "h_servers h = first # rest" using assms(2) by (cases "h_servers h") auto
  then have first: "hd (h_servers h) = first" by simp
  obtain m d where f: "find_server name p (h_servers h) None = Inr (m, d)"
    and r: "r = \<lparr>r_server = Some (case m of Some s \<Rightarrow> s | None \<Rightarrow> (case d of Some s \<Rightarrow> s | None \<Rightarrow> first)),
      r_location = find_location u (s_locations (case m of Some s \<Rightarrow> s | None \<Rightarrow> (case d of Some s \<Rightarrow> s | None \<Rightarrow> first))) None 0\<rparr>"
    using assms(1) hs by (auto simp: find_route_def bindR_Inr_iff Let_def)
  let ?srv = "case m of Some s \<Rightarrow> s | None \<Rightarrow> (case d of Some s \<Rightarrow> s | None \<Rightarrow> first)"
  have best: "best_location u (s_locations ?srv) 0 (r_location r)" using find_location_best r by simp
  define e where "e = List.find (\<lambda>s. listens_on p (s_directives s) = Inr True) (h_servers h)"
  have fm: "m = List.find (\<lambda>s. listens_on p (s_directives s) = Inr True \<and> name \<noteq> None \<and>
        get_directive_value ''server_name'' (s_directives s) = name) (h_servers h)"
    "e = List.find (\<lambda>s. listens_on p (s_directives s) = Inr True) (h_servers h)" "m = None \<longrightarrow> d = e"
    using find_server_result [OF f] by (simp_all add: e_def)
  have srv: "?srv = (case List.find (\<lambda>s. listens_on p (s_directives s) = Inr True \<and> name \<noteq> None \<and>
        get_directive_value ''server_name'' (s_directives s) = name) (h_servers h) of
      Some s \<Rightarrow> s
    | None \<Rightarrow> (case List.find (\<lambda>s. listens_on p (s_directives s) = Inr True) (h_servers h) of
        Some s \<Rightarrow> s | None \<Rightarrow> hd (h_servers h)))"
    unfolding fm(1) [symmetric] fm(2) [symmetric] first using fm(3) by (cases m) simp_all
  show ?thesis unfolding srv [symmetric] using best by (simp add: r)
qed

section \<open>Properties\<close>

text \<open>The routing decision: the first server block that listens on the port and carries the
name of the request, else the first that listens on the port, else the first of all; and in it
the longest location path that is a prefix of the URI, the first one of that length, and none
exactly if no non-empty path is a prefix.\<close>

theorem core_find_route_spec:
  assumes "find_route (Some h) name (Some u) p = Inr r" "h_servers h \<noteq> []"
  shows "\<exists>srv. r_server r = Some srv \<and>
    srv = (case List.find (\<lambda>s. listens_on p (s_directives s) = Inr True \<and> name \<noteq> None \<and>
              get_directive_value ''server_name'' (s_directives s) = name) (h_servers h) of
             Some s \<Rightarrow> s
           | None \<Rightarrow> (case List.find (\<lambda>s. listens_on p (s_directives s) = Inr True) (h_servers h) of
                Some s \<Rightarrow> s | None \<Rightarrow> hd (h_servers h))) \<and>
    (case r_location r of
       None \<Rightarrow> \<forall>l\<in>set (s_locations srv). (\<exists>t. u = l_path l @ t) \<longrightarrow> l_path l = []
     | Some b \<Rightarrow> \<exists>xs ys. s_locations srv = xs @ b # ys \<and> (\<exists>t. u = l_path b @ t) \<and> l_path b \<noteq> [] \<and>
         (\<forall>l\<in>set (s_locations srv). (\<exists>t. u = l_path l @ t) \<longrightarrow> length (l_path l) \<le> length (l_path b)) \<and>
         (\<forall>l\<in>set xs. (\<exists>t. u = l_path l @ t) \<longrightarrow> length (l_path l) < length (l_path b)))"
  using find_route_routes [OF assms] by (cases "r_location r") (simp_all add: best_location_def)

definition sample_http :: http_block where
  "sample_http = \<lparr>h_directives = [],
     h_servers = [\<lparr>s_directives = [\<lparr>d_key = Some ''listen'', d_value = Some ''80''\<rparr>],
       s_locations = [\<lparr>l_path = ''/'', l_directives = []\<rparr>, \<lparr>l_path = ''/api'', l_directives = []\<rparr>]\<rparr>], h_upstreams = []\<rparr>"

theorem core_find_route_spec_witness:
  "\<exists>r. find_route (Some sample_http) None (Some ''/api/x'') 80 = Inr r \<and>
    r_location r = Some \<lparr>l_path = ''/api'', l_directives = []\<rparr>"
proof -
  obtain b where "listens_on 80 [\<lparr>d_key = Some ''listen'', d_value = Some ''80''\<rparr>] = Inr b" by simp
  then obtain r where r: "find_route (Some sample_http) None (Some ''/api/x'') 80 = Inr r"
    by (auto simp: find_route_def sample_http_def Let_def)
  from core_find_route_spec [OF this] obtain srv where
    "srv = (case List.find (\<lambda>s. listens_on 80 (s_directives s) = Inr True) (h_servers sample_http) of
        Some s \<Rightarrow> s | None \<Rightarrow> hd (h_servers sample_http))"
    "case r_location r of
       None \<Rightarrow> \<forall>l\<in>set (s_locations srv). (\<exists>t. ''/api/x'' = l_path l @ t) \<longrightarrow> l_path l = []
     | Some b \<Rightarrow> \<exists>xs ys. s_locations srv = xs @ b # ys \<and> (\<exists>t. ''/api/x'' = l_path b @ t) \<and> l_path b \<noteq> [] \<and>
         (\<forall>l\<in>set (s_locations srv). (\<exists>t. ''/api/x'' = l_path l @ t) \<longrightarrow> length (l_path l) \<le> length (l_path b)) \<and>
         (\<forall>l\<in>set xs. (\<exists>t. ''/api/x'' = l_path l @ t) \<longrightarrow> length (l_path l) < length (l_path b))"
    by (auto simp: sample_http_def)
  then have "r_location r = Some \<lparr>l_path = ''/api'', l_directives = []\<rparr>"
    by (auto simp: sample_http_def append_eq_Cons_conv Cons_eq_append_conv split: option.splits if_splits)
      (drule arg_cong [where f = length and x = "''/''"], simp)
  with r show ?thesis by blast
qed


text \<open>A file with an upstream block, for the witnesses.\<close>

definition sample_upstream :: upstream_block where
  "sample_upstream = \<lparr>u_name = ''app'', u_directives = [\<lparr>d_key = Some ''least_conn'', d_value = None\<rparr>],
     u_servers = [\<lparr>e_host = ''a'', e_port = 80, e_weight = 2, e_max_fails = 1, e_fail_timeout = 5, e_max_conns = 9\<rparr>]\<rparr>"

definition sample_config :: config where
  "sample_config = new_config\<lparr>cf_http := Some (sample_http\<lparr>h_upstreams := [sample_upstream]\<rparr>)\<rparr>"

lemma sample_config_created: "\<exists>cc. create_core_config 0 (\<lambda>_. True) [] (Some sample_config) = Inr (Some cc)"
proof -
  have "group_strategy (u_directives sample_upstream) LB_STRATEGY_ROUND_ROBIN = Inr LB_STRATEGY_LEAST_CONNECTIONS"
    by (simp add: sample_upstream_def strategy_directive_def)
  then show ?thesis
    by (simp add: create_core_config_def sample_config_def sample_http_def add_upstreams_step lb_config_create_def Let_def)
qed


text \<open>Every upstream group gets a health check, and the check dies on it: for each name of an
upstream block whose thread can be created there is a running manager, all managers hold a
pointer to a configuration that create_core_config has freed, and the first turn of their
threads that is due, thirty seconds after the start, follows that pointer.\<close>

theorem core_health_check_dangling:
  assumes "create_core_config now spawn dir (Some cfg) = Inr (Some cc)" "cf_http cfg = Some h"
  shows "fst ` set (health_managers cc) = {n. n \<in> u_name ` set (h_upstreams h) \<and> spawn n} \<and>
    (\<forall>(n, r, m)\<in>set (health_managers cc). r = Dangling \<and> running m \<and>
       (\<forall>net t k. group_check_turn net t (r, m) k = (if t < now + 30 then Inr (m, k) else Inl BadPointer)))"
proof -
  obtain lb ms where a: "add_upstreams now spawn (h_upstreams h) (lb_config_create, []) = Inr (lb, ms)"
    and cc: "health_managers cc = ms"
    using assms by (auto simp: create_core_config_def bindR_Inr_iff Let_def)
  have none: "lb_config_get_group lb_config_create n = None" for n
    by (simp add: lb_config_get_group_def lb_config_create_def)
  have ms: "set ms = {x. \<exists>u n. List.find (\<lambda>u. u_name u = n) (h_upstreams h) = Some u \<and>
      x \<in> set (start_group_check now (spawn n) (group_of_block u))}"
    using add_upstreams_result [OF a] by (simp add: upstreams_added_def none)
  have start: "start_group_check now ok (group_of_block u) = (if ok then [(u_name u, Dangling,
      (health_check_manager_create now (group_of_block u) (health_check_config_create\<lparr>hc_interval := 30,
         hc_timeout := g_check_timeout (group_of_block u), hc_uri := g_check_uri (group_of_block u)\<rparr>))\<lparr>running := True\<rparr>)]
      else [])" for ok u
    by (simp add: start_group_check_def group_of_block_sel health_check_config_create_def health_check_config_set_uri_def
        health_check_manager_start_def health_check_manager_create_def Let_def)
  have found: "(\<exists>u. List.find (\<lambda>u. u_name u = n) (h_upstreams h) = Some u) \<longleftrightarrow> n \<in> u_name ` set (h_upstreams h)" for n
    unfolding find_ex by auto
  have name: "List.find (\<lambda>u. u_name u = n) (h_upstreams h) = Some u \<Longrightarrow> u_name u = n" for n u
    by (metis (mono_tags, lifting) find_holds)
  show ?thesis
  proof
    have "fst ` set ms = {n. \<exists>u. List.find (\<lambda>u. u_name u = n) (h_upstreams h) = Some u \<and> spawn n}"
    proof (intro equalityI subsetI)
      fix n assume "n \<in> fst ` set ms"
      then obtain x u k where x: "n = fst x" "List.find (\<lambda>u. u_name u = k) (h_upstreams h) = Some u"
        "x \<in> set (start_group_check now (spawn k) (group_of_block u))"
        unfolding ms by blast
      then have "spawn k" "n = u_name u" by (simp_all add: start split: if_splits)
      with x(2) name [OF x(2)] show "n \<in> {n. \<exists>u. List.find (\<lambda>u. u_name u = n) (h_upstreams h) = Some u \<and> spawn n}" by blast
    next
      fix n assume "n \<in> {n. \<exists>u. List.find (\<lambda>u. u_name u = n) (h_upstreams h) = Some u \<and> spawn n}"
      then obtain u where u: "List.find (\<lambda>u. u_name u = n) (h_upstreams h) = Some u" "spawn n" by blast
      then have m: "hd (start_group_check now (spawn n) (group_of_block u)) \<in> set ms"
        unfolding ms by (intro CollectI exI [of _ u] exI [of _ n]) (simp add: start)
      moreover have "fst (hd (start_group_check now (spawn n) (group_of_block u))) = n"
        using u(2) name [OF u(1)] by (simp add: start)
      ultimately show "n \<in> fst ` set ms" using imageI [OF m, of fst] by (simp only:)
    qed
    then show "fst ` set (health_managers cc) = {n. n \<in> u_name ` set (h_upstreams h) \<and> spawn n}"
      using found cc by simp
    show "\<forall>(n, r, m)\<in>set (health_managers cc). r = Dangling \<and> running m \<and>
       (\<forall>net t k. group_check_turn net t (r, m) k = (if t < now + 30 then Inr (m, k) else Inl BadPointer))"
      by (auto simp: cc ms start group_check_turn_def health_check_manager_create_def split: if_splits)
  qed
qed

theorem core_health_check_dangling_witness:
  "\<exists>cc m. create_core_config 0 (\<lambda>_. True) [] (Some sample_config) = Inr (Some cc) \<and>
    (''app'', Dangling, m) \<in> set (health_managers cc) \<and>
    group_check_turn (\<lambda>_ _ _. NoSocket) 30 (Dangling, m) (0, 0) = Inl BadPointer"
proof -
  obtain cc where cc: "create_core_config 0 (\<lambda>_. True) [] (Some sample_config) = Inr (Some cc)"
    using sample_config_created by blast
  have h: "cf_http sample_config = Some (sample_http\<lparr>h_upstreams := [sample_upstream]\<rparr>)" by (simp add: sample_config_def)
  note d = core_health_check_dangling [OF cc h]
  have "''app'' \<in> fst ` set (health_managers cc)" using d by (simp add: sample_upstream_def)
  then obtain r m where m: "(''app'', r, m) \<in> set (health_managers cc)" by auto
  from bspec [OF conjunct2 [OF d] m] have r: "r = Dangling \<and> running m \<and>
    (\<forall>net t k. group_check_turn net t (r, m) k = (if t < 0 + 30 then Inr (m, k) else Inl BadPointer))"
    unfolding split .
  then have "group_check_turn (\<lambda>_ _ _. NoSocket) 30 (r, m) (0, 0) = (if 30 < (0::int) + 30 then Inr (m, (0, 0)) else Inl BadPointer)"
    by blast
  with r m cc show ?thesis by auto
qed

end
