(* ===== verification/Chunked.thy ===== *)
theory Chunked
  imports Prelude
begin

text \<open>
  Chunked transfer coding (src/http/chunked.c): the response head, chunks, the final chunk and
  the two streaming loops, with a reference decoder of the coding (RFC 7230, 4.1). The transport
  is a parameter, a function from what is on the wire and the data offered to the result of
  send or SSL_write; the context records the wire. A file is its contents, a producer the list
  of its answers.
\<close>

section \<open>Data\<close>

type_synonym transport = "string \<Rightarrow> string \<Rightarrow> int"

record chunked_context =
  is_ssl :: bool
  finished :: bool
  total_sent :: u64
  wire :: string

record chunked_config =
  chunk_size :: nat
  enable_trailer :: bool

definition chunked_context_create :: "bool \<Rightarrow> chunked_context" where
  "chunked_context_create ssl = \<lparr>is_ssl = ssl, finished = False, total_sent = 0, wire = []\<rparr>"

definition chunked_get_default_config :: chunked_config where
  "chunked_get_default_config = \<lparr>chunk_size = 8192, enable_trailer = False\<rparr>"

section \<open>Sending\<close>

definition send_data :: "transport \<Rightarrow> string \<Rightarrow> chunked_context \<Rightarrow> int \<times> chunked_context" where
  "send_data net data ctx =
     (if data = [] then (-1, ctx)
      else let bytes_sent = to_int32 (net (wire ctx) data) in
           if bytes_sent \<le> 0 then (-1, ctx)
           else (bytes_sent, ctx\<lparr>total_sent := total_sent ctx + word_of_int bytes_sent,
                                wire := wire ctx @ take (nat bytes_sent) data\<rparr>))"

definition chunked_send_headers ::
  "transport \<Rightarrow> int \<Rightarrow> string option \<Rightarrow> string option \<Rightarrow> chunked_context \<Rightarrow> (int \<times> chunked_context) run" where
  "chunked_send_headers net status_code ctype extra ctx =
     (if finished ctx then Inr (-1, ctx)
      else
        bindR (snprintf_at 8192
                (''HTTP/1.1 '' @ print_int status_code @ '' '' @ (if status_code = 200 then ''OK'' else ''Error'') @ crlf @
                 ''Content-Type: '' @ (case ctype of None \<Rightarrow> ''text/plain'' | Some t \<Rightarrow> t) @ crlf @
                 ''Transfer-Encoding: chunked'' @ crlf @
                 ''Server: ANX HTTP Server/0.8.0'' @ crlf) ([], 0)) (\<lambda>b.
        bindR (case extra of None \<Rightarrow> Inr b | Some e \<Rightarrow> if e = [] then Inr b else snprintf_at 8192 e b) (\<lambda>b.
        bindR (snprintf_at 8192 (''Connection: close'' @ crlf @ crlf) b) (\<lambda>(header, _).
        let (r, ctx) = send_data net header ctx in Inr (if r < 0 then (-1, ctx) else (0, ctx))))))"

text \<open>
  The size line in its buffer of 16 bytes, and the \<open>header_len\<close> bytes that are sent from it.
\<close>

definition chunk_header :: "nat \<Rightarrow> string run" where
  "chunk_header n =
     (let line = print_hex n @ crlf in
      if length line < 16 then Inr line
      else if length line = 16 then Inr (take 15 line @ [CHR 0x00]) else Inl OutOfRange)"

definition chunked_send_chunk :: "transport \<Rightarrow> string \<Rightarrow> chunked_context \<Rightarrow> (int \<times> chunked_context) run" where
  "chunked_send_chunk net data ctx =
     (if finished ctx then Inr (-1, ctx)
      else if data = [] then Inr (0, ctx)
      else bindR (chunk_header (length data)) (\<lambda>line.
        let (r, ctx) = send_data net line ctx in
        if r < 0 then Inr (-1, ctx)
        else let (r, ctx) = send_data net data ctx in
             if r < 0 then Inr (-1, ctx)
             else let (r, ctx) = send_data net crlf ctx in
                  if r < 0 then Inr (-1, ctx) else Inr (0, ctx)))"

definition chunked_send_final_chunk :: "transport \<Rightarrow> string option \<Rightarrow> chunked_context \<Rightarrow> int \<times> chunked_context" where
  "chunked_send_final_chunk net trailer ctx =
     (if finished ctx then (-1, ctx)
      else let (r, ctx) = send_data net (CHR ''0'' # crlf) ctx in
           if r < 0 then (-1, ctx)
           else let (r, ctx) = (case trailer of
                                  None \<Rightarrow> (0, ctx)
                                | Some t \<Rightarrow> if t = [] then (0, ctx) else send_data net t ctx) in
                if r < 0 then (-1, ctx)
                else let (r, ctx) = send_data net crlf ctx in
                     if r < 0 then (-1, ctx) else (0, ctx\<lparr>finished := True\<rparr>))"

section \<open>Streaming\<close>

text \<open>The answers of a read or of a callback: \<open>None\<close> is an error, an empty block the end.\<close>

fun stream_loop :: "transport \<Rightarrow> string option list \<Rightarrow> chunked_context \<Rightarrow> (int \<times> chunked_context) run" where
  "stream_loop net [] ctx = Inr (0, ctx)"
| "stream_loop net (None # bs) ctx = Inr (-1, ctx)"
| "stream_loop net (Some b # bs) ctx =
     (if b = [] then Inr (0, ctx)
      else bindR (chunked_send_chunk net b ctx) (\<lambda>(r, ctx).
             if r < 0 then Inr (-1, ctx) else stream_loop net bs ctx))"

definition finish_stream ::
  "transport \<Rightarrow> string \<Rightarrow> chunked_config option \<Rightarrow> int \<times> chunked_context \<Rightarrow> int \<times> chunked_context" where
  "finish_stream net source config res =
     (let (r, ctx) = res in
      if r = 0
      then let trailer = (case config of
                            None \<Rightarrow> None
                          | Some c \<Rightarrow> if enable_trailer c then Some (''X-Stream-Source: '' @ source @ crlf) else None);
               (f, ctx) = chunked_send_final_chunk net trailer ctx
           in (if f < 0 then -1 else r, ctx)
      else (r, ctx))"

definition chunked_send_stream ::
  "transport \<Rightarrow> string option list \<Rightarrow> chunked_config option \<Rightarrow> chunked_context \<Rightarrow> (int \<times> chunked_context) run" where
  "chunked_send_stream net answers config ctx =
     (if finished ctx then Inr (-1, ctx)
      else bindR (stream_loop net answers ctx) (\<lambda>res. Inr (finish_stream net ''dynamic'' config res)))"

text \<open>The blocks read from a file of the given contents.\<close>

function blocks :: "nat \<Rightarrow> string \<Rightarrow> string list" where
  "blocks n s = (if n = 0 \<or> s = [] then [] else take n s # blocks n (drop n s))"
  by pat_completeness auto
termination by (relation "measure (\<lambda>(n, s). length s)") auto

declare blocks.simps [simp del]

definition config_chunk_size :: "chunked_config option \<Rightarrow> nat" where
  "config_chunk_size config = (case config of None \<Rightarrow> 8192 | Some c \<Rightarrow> chunk_size c)"

text \<open>\<open>None\<close>: the file cannot be read.\<close>

definition chunked_send_file_stream ::
  "transport \<Rightarrow> string option \<Rightarrow> chunked_config option \<Rightarrow> chunked_context \<Rightarrow> (int \<times> chunked_context) run" where
  "chunked_send_file_stream net file config ctx =
     (if finished ctx then Inr (-1, ctx)
      else bindR (stream_loop net
                   (case file of None \<Rightarrow> [None] | Some s \<Rightarrow> List.map Some (blocks (config_chunk_size config) s)) ctx)
             (\<lambda>res. Inr (finish_stream net ''file'' config res)))"

section \<open>When chunks are used\<close>

definition chunked_is_supported :: "string option \<Rightarrow> bool" where
  "chunked_is_supported headers =
     (case headers of None \<Rightarrow> False
      | Some h \<Rightarrow> strstr h ''HTTP/1.1'' \<noteq> None \<or> strstr h ''HTTP/2'' \<noteq> None)"

definition chunked_should_use :: "string option \<Rightarrow> u64 \<Rightarrow> bool" where
  "chunked_should_use ctype n =
     (n = 0 \<or> n = -1 \<or>
      (case ctype of None \<Rightarrow> False
       | Some t \<Rightarrow> list_ex (\<lambda>p. strstr t p \<noteq> None)
           [''text/html'', ''application/json'', ''text/event-stream'', ''application/x-ndjson'']) \<or>
      n > 1024 * 1024)"

section \<open>The coding\<close>

definition hex_val :: "char \<Rightarrow> nat option" where
  "hex_val c =
     (let n = (of_char c :: nat) in
      if 48 \<le> n \<and> n \<le> 57 then Some (n - 48)
      else if 97 \<le> n \<and> n \<le> 102 then Some (n - 87)
      else if 65 \<le> n \<and> n \<le> 70 then Some (n - 55) else None)"

text \<open>The value of the hexadecimal digits in front, and the rest.\<close>

fun read_hex :: "nat \<Rightarrow> string \<Rightarrow> nat \<times> string" where
  "read_hex v [] = (v, [])"
| "read_hex v (c # cs) = (case hex_val c of None \<Rightarrow> (v, c # cs) | Some d \<Rightarrow> read_hex (16 * v + d) cs)"

text \<open>The body of a chunked message, and its trailer part with the final line end.\<close>

function dechunk :: "string \<Rightarrow> (string \<times> string) option" where
  "dechunk s =
     (let (n, rest) = read_hex 0 s in
      if rest = s \<or> take 2 rest \<noteq> crlf then None
      else if n = 0 then Some ([], drop 2 rest)
      else let body = drop 2 rest in
           if length body < n + 2 \<or> take 2 (drop n body) \<noteq> crlf then None
           else (case dechunk (drop (n + 2) body) of
                   None \<Rightarrow> None | Some (b, t) \<Rightarrow> Some (take n body @ b, t)))"
  by pat_completeness auto
termination
proof (relation "measure length", simp)
  have "length (snd (read_hex v s)) \<le> length s" for v s
    by (induction v s rule: read_hex.induct) (auto split: option.splits)
  then show "\<And>s x xa y xb. x = read_hex 0 s \<Longrightarrow> (xa, y) = x \<Longrightarrow> \<not> (y = s \<or> take 2 y \<noteq> crlf) \<Longrightarrow>
      xa \<noteq> 0 \<Longrightarrow> xb = drop 2 y \<Longrightarrow> \<not> (length xb < xa + 2 \<or> take 2 (drop xa xb) \<noteq> crlf) \<Longrightarrow>
      (drop (xa + 2) xb, s) \<in> measure length"
    by (metis (no_types, lifting) diff_le_self dual_order.strict_trans1 in_measure le_add2 length_drop
        less_le_trans not_le snd_conv add_gr_0 zero_less_numeral diff_less)
qed

declare dechunk.simps [simp del]


section \<open>Hexadecimal sizes\<close>

lemma hex_val_digit: "d < 16 \<Longrightarrow> hex_val (digit_char d) = Some d"
  by (simp add: hex_val_def digit_char_def Let_def)

lemma read_hex_print: "read_hex 0 (print_hex n @ r) = read_hex n r"
proof (induction n arbitrary: r rule: less_induct)
  case (less n)
  show ?case
  proof (cases "n < 16")
    case True
    then show ?thesis by (simp add: print_hex_def print_base.simps [of 16 n] hex_val_digit)
  next
    case False
    then have "print_hex n = print_hex (n div 16) @ [digit_char (n mod 16)]"
      by (simp add: print_hex_def print_base.simps [of 16 n])
    with False less [of "n div 16" "digit_char (n mod 16) # r"] show ?thesis
      by (simp add: hex_val_digit mult.commute)
  qed
qed

lemma read_hex_size: "read_hex 0 (print_hex n @ crlf @ s) = (n, crlf @ s)"
  by (simp add: read_hex_print) (simp add: crlf_def hex_val_def)

lemma length_print_hex: "n < 16 ^ k \<Longrightarrow> 0 < k \<Longrightarrow> length (print_hex n) \<le> k"
proof (induction k arbitrary: n)
  case (Suc k)
  show ?case
  proof (cases "n < 16")
    case True
    then show ?thesis by (simp add: print_hex_def print_base.simps [of 16 n])
  next
    case False
    then have p: "print_hex n = print_hex (n div 16) @ [digit_char (n mod 16)]"
      by (simp add: print_hex_def print_base.simps [of 16 n])
    from False Suc.prems have "0 < k" by (cases k) simp_all
    moreover have "n div 16 < 16 ^ k" using Suc.prems by (simp add: less_mult_imp_div_less)
    ultimately show ?thesis using Suc.IH [of "n div 16"] p by simp
  qed
qed simp

lemma chunk_header_ok: "n < 2 ^ 31 \<Longrightarrow> chunk_header n = Inr (print_hex n @ crlf)"
  using length_print_hex [of n 8] by (simp add: chunk_header_def crlf_def Let_def)

section \<open>The coding is read back\<close>

definition coded :: "string \<Rightarrow> string" where
  "coded b = print_hex (length b) @ crlf @ b @ crlf"

lemma dechunk_coded:
  assumes "b \<noteq> []"
  shows "dechunk (coded b @ s) = (case dechunk s of None \<Rightarrow> None | Some (c, t) \<Rightarrow> Some (b @ c, t))"
proof -
  have r: "read_hex 0 (coded b @ s) = (length b, crlf @ b @ crlf @ s)"
    using read_hex_size [of "length b" "b @ crlf @ s"] by (simp add: coded_def)
  have ne: "crlf @ b @ crlf @ s \<noteq> coded b @ s" by (simp add: coded_def print_hex_def)
  have l: "length crlf = 2" "take 2 (crlf @ u) = crlf" "drop 2 (crlf @ u) = u" for u by (simp_all add: crlf_def)
  show ?thesis
    using assms r ne l by (subst dechunk.simps) (auto simp: Let_def split: option.split)
qed

lemma dechunk_final: "dechunk (CHR ''0'' # crlf @ t) = Some ([], t)"
  by (subst dechunk.simps) (simp add: crlf_def hex_val_def Let_def)

lemma dechunk_all:
  assumes "\<forall>b\<in>set bs. b \<noteq> []"
  shows "dechunk (concat (List.map coded bs) @ CHR ''0'' # crlf @ t) = Some (concat bs, t)"
  using assms by (induction bs) (simp_all add: dechunk_final dechunk_coded)

section \<open>A transport that takes everything\<close>

definition takes_all :: "transport \<Rightarrow> bool" where
  "takes_all net \<longleftrightarrow> (\<forall>w d. net w d = int (length d))"

definition sent :: "string \<Rightarrow> chunked_context \<Rightarrow> chunked_context" where
  "sent s ctx = ctx\<lparr>total_sent := total_sent ctx + of_nat (length s), wire := wire ctx @ s\<rparr>"

lemma sent_simps [simp]:
  "sent t (sent s ctx) = sent (s @ t) ctx" "finished (sent s ctx) = finished ctx" "wire (sent s ctx) = wire ctx @ s"
  "sent [] ctx = ctx"
  by (simp_all add: sent_def algebra_simps)

lemma send_data_all:
  "takes_all net \<Longrightarrow> d \<noteq> [] \<Longrightarrow> length d < 2 ^ 31 \<Longrightarrow> send_data net d ctx = (int (length d), sent d ctx)"
  by (simp add: send_data_def takes_all_def to_int32_id sent_def Let_def)

lemma send_chunk_all:
  assumes "takes_all net" "\<not> finished ctx" "b \<noteq> []" "length b < 2 ^ 31"
  shows "chunked_send_chunk net b ctx = Inr (0, sent (coded b) ctx)"
proof -
  have "length (print_hex (length b) @ crlf) < 2 ^ 31"
    using length_print_hex [of "length b" 8] assms(4) by (simp add: crlf_def)
  then have h: "send_data net (print_hex (length b) @ crlf) c = (int (length (print_hex (length b) @ crlf)), sent (print_hex (length b) @ crlf) c)" for c
    using send_data_all [OF assms(1), of "print_hex (length b) @ crlf" c] by (simp add: crlf_def)
  have e: "send_data net crlf c = (2, sent crlf c)" for c
    using send_data_all [OF assms(1), of crlf c] by (simp add: crlf_def)
  show ?thesis
    using assms h e send_data_all [OF assms(1,3,4)]
    by (simp add: chunked_send_chunk_def chunk_header_ok Let_def coded_def)
qed

lemma stream_loop_all:
  assumes "takes_all net" "\<not> finished ctx" "\<forall>b\<in>set bs. b \<noteq> [] \<and> length b < 2 ^ 31"
  shows "stream_loop net (List.map Some bs) ctx = Inr (0, sent (concat (List.map coded bs)) ctx)"
  using assms(2,3) by (induction bs arbitrary: ctx) (simp_all add: send_chunk_all [OF assms(1)])

definition trailer_of :: "string \<Rightarrow> chunked_config option \<Rightarrow> string" where
  "trailer_of source config =
     (case config of None \<Rightarrow> []
      | Some c \<Rightarrow> if enable_trailer c then ''X-Stream-Source: '' @ source @ crlf else [])"

lemma finish_all:
  assumes "takes_all net" "\<not> finished ctx" "length source < 2 ^ 30"
  shows "finish_stream net source config (0, ctx) =
    (0, (sent (CHR ''0'' # crlf @ trailer_of source config @ crlf) ctx)\<lparr>finished := True\<rparr>)"
proof -
  have z: "send_data net (CHR ''0'' # crlf) c = (3, sent (CHR ''0'' # crlf) c)"
    and e: "send_data net crlf c = (2, sent crlf c)" for c
    using send_data_all [OF assms(1), of "CHR ''0'' # crlf" c] send_data_all [OF assms(1), of crlf c]
    by (simp_all add: crlf_def)
  let ?t = "''X-Stream-Source: '' @ source @ crlf"
  have t: "send_data net ?t c = (int (length ?t), sent ?t c)" for c
    using send_data_all [OF assms(1), of ?t c] assms(3) by (simp add: crlf_def)
  show ?thesis
    using assms(2) by (cases config)
      (simp_all add: finish_stream_def chunked_send_final_chunk_def z e t trailer_of_def Let_def del: append_Cons, simp_all)
qed

lemma concat_blocks: "0 < n \<Longrightarrow> concat (blocks n s) = s"
proof (induction n s rule: blocks.induct)
  case (1 n s)
  then show ?case by (subst blocks.simps) simp
qed

lemma blocks_size: "b \<in> set (blocks n s) \<Longrightarrow> b \<noteq> [] \<and> length b \<le> n"
proof (induction n s rule: blocks.induct)
  case (1 n s)
  then show ?case by (subst (asm) blocks.simps) (auto split: if_splits)
qed

section \<open>A transport that takes a part\<close>

definition takes_some :: "transport \<Rightarrow> bool" where
  "takes_some net \<longleftrightarrow> (\<forall>w d. d \<noteq> [] \<longrightarrow> 1 \<le> net w d \<and> net w d \<le> int (length d))"

lemma send_data_some:
  assumes "takes_some net" "d \<noteq> []" "length d < 2 ^ 31"
  shows "\<exists>n>0. send_data net d ctx = (n, sent (take (nat n) d) ctx)"
proof -
  have n: "1 \<le> net (wire ctx) d" "net (wire ctx) d \<le> int (length d)" using assms(1,2) by (auto simp: takes_some_def)
  then have "to_int32 (net (wire ctx) d) = net (wire ctx) d" using assms(3) by (simp add: to_int32_id)
  moreover have "min (length d) (nat (net (wire ctx) d)) = nat (net (wire ctx) d)" using n by linarith
  ultimately have "send_data net d ctx = (net (wire ctx) d, sent (take (nat (net (wire ctx) d)) d) ctx)"
    using n assms(2) by (simp add: send_data_def Let_def sent_def)
  with n(1) show ?thesis by (intro exI [of _ "net (wire ctx) d"]) simp
qed

lemma send_chunk_some:
  assumes "takes_some net" "\<not> finished ctx" "b \<noteq> []" "length b < 2 ^ 31"
  shows "\<exists>s. chunked_send_chunk net b ctx = Inr (0, sent s ctx)"
proof -
  let ?h = "print_hex (length b) @ crlf"
  have "length ?h < 2 ^ 31" using length_print_hex [of "length b" 8] assms(4) by (simp add: crlf_def)
  moreover have "?h \<noteq> []" by (simp add: crlf_def)
  ultimately obtain n where n: "0 < n" "send_data net ?h ctx = (n, sent (take (nat n) ?h) ctx)"
    using send_data_some [OF assms(1)] by blast
  obtain m where m: "0 < m" "send_data net b (sent (take (nat n) ?h) ctx) = (m, sent (take (nat m) b) (sent (take (nat n) ?h) ctx))"
    using send_data_some [OF assms(1,3,4)] by blast
  have "crlf \<noteq> []" "length crlf < 2 ^ 31" by (simp_all add: crlf_def)
  then obtain k where k: "0 < k" "send_data net crlf (sent (take (nat n) ?h @ take (nat m) b) ctx)
      = (k, sent (take (nat k) crlf) (sent (take (nat n) ?h @ take (nat m) b) ctx))"
    using send_data_some [OF assms(1)] by blast
  show ?thesis
    using assms(2,3) n m k chunk_header_ok [OF assms(4)]
    by (simp add: chunked_send_chunk_def Let_def) blast
qed

lemma stream_loop_some:
  assumes "takes_some net" "\<not> finished ctx" "\<forall>b\<in>set bs. b \<noteq> [] \<and> length b < 2 ^ 31"
  shows "\<exists>s. stream_loop net (List.map Some bs) ctx = Inr (0, sent s ctx)"
  using assms(2,3)
proof (induction bs arbitrary: ctx)
  case Nil
  show ?case by (intro exI [of _ "[]"]) simp
next
  case (Cons b bs)
  obtain s where s: "chunked_send_chunk net b ctx = Inr (0, sent s ctx)"
    using send_chunk_some [OF assms(1) Cons.prems(1)] Cons.prems(2) by auto
  obtain t where "stream_loop net (List.map Some bs) (sent s ctx) = Inr (0, sent t (sent s ctx))"
    using Cons.IH [of "sent s ctx"] Cons.prems by auto
  with s Cons.prems(2) show ?case by auto
qed

lemma finish_some:
  assumes "takes_some net" "\<not> finished ctx"
  shows "\<exists>s. finish_stream net source None (0, ctx) = (0, (sent s ctx)\<lparr>finished := True\<rparr>)"
proof -
  let ?z = "CHR ''0'' # crlf"
  have "crlf \<noteq> []" "length crlf < 2 ^ 31" "length ?z < 2 ^ 31" by (simp_all add: crlf_def)
  then obtain n where n: "0 < n" "send_data net ?z ctx = (n, sent (take (nat n) ?z) ctx)"
    using send_data_some [OF assms(1)] by blast
  obtain k where k: "0 < k" "send_data net crlf (sent (take (nat n) ?z) ctx) = (k, sent (take (nat k) crlf) (sent (take (nat n) ?z) ctx))"
    using send_data_some [OF assms(1) \<open>crlf \<noteq> []\<close> \<open>length crlf < 2 ^ 31\<close>] by blast
  show ?thesis
    using assms(2) n k by (simp add: finish_stream_def chunked_send_final_chunk_def Let_def) blast
qed

section \<open>Properties\<close>

text \<open>C12. What the streaming loops put on the wire is read back by a decoder of the coding: over a
transport that takes what it is offered both loops succeed, finish the context, and the bytes
they sent decode to the blocks of the producer in order, respectively to the contents of the
file, with the configured trailer.\<close>

theorem chunked_stream_roundtrip:
  assumes "takes_all net" "\<not> finished ctx" "\<forall>b\<in>set bs. b \<noteq> [] \<and> length b < 2 ^ 31"
    and "0 < config_chunk_size config" "config_chunk_size config < 2 ^ 31"
  shows "\<exists>sctx fctx. chunked_send_stream net (List.map Some bs) config ctx = Inr (0, sctx) \<and>
      chunked_send_file_stream net (Some s) config ctx = Inr (0, fctx) \<and>
      finished sctx \<and> finished fctx \<and>
      take (length (wire ctx)) (wire sctx) = wire ctx \<and> take (length (wire ctx)) (wire fctx) = wire ctx \<and>
      dechunk (drop (length (wire ctx)) (wire sctx)) = Some (concat bs, trailer_of ''dynamic'' config @ crlf) \<and>
      dechunk (drop (length (wire ctx)) (wire fctx)) = Some (s, trailer_of ''file'' config @ crlf)"
proof -
  let ?cs = "blocks (config_chunk_size config) s"
  have cs: "\<forall>b\<in>set ?cs. b \<noteq> [] \<and> length b < 2 ^ 31" using blocks_size assms(5) by fastforce
  have run: "finish_stream net src config (0, sent (concat (List.map coded xs)) ctx) =
      (0, (sent (concat (List.map coded xs) @ CHR ''0'' # crlf @ trailer_of src config @ crlf) ctx)\<lparr>finished := True\<rparr>)"
    if "length src < 2 ^ 30" for src xs
    using finish_all [OF assms(1) _ that, of "sent (concat (List.map coded xs)) ctx"] assms(2) by simp
  have dec: "dechunk (concat (List.map coded xs) @ CHR ''0'' # crlf @ t) = Some (concat xs, t)"
    if "\<forall>b\<in>set xs. b \<noteq> [] \<and> length b < 2 ^ 31" for xs t
    using dechunk_all that by blast
  show ?thesis
    using assms(2) stream_loop_all [OF assms(1,2,3)] stream_loop_all [OF assms(1,2) cs] run [of "''dynamic''" bs]
      run [of "''file''" ?cs] dec [OF assms(3)] dec [OF cs] concat_blocks [OF assms(4)]
    by (simp add: chunked_send_stream_def chunked_send_file_stream_def)
qed

definition polite :: transport where
  "polite w d = int (length d)"

theorem chunked_stream_roundtrip_witness:
  "\<exists>sctx fctx. chunked_send_stream polite (List.map Some [''ab'', ''c'']) None (chunked_context_create False) = Inr (0, sctx) \<and>
      chunked_send_file_stream polite (Some ''file'') None (chunked_context_create False) = Inr (0, fctx) \<and>
      dechunk (wire sctx) = Some (''abc'', crlf) \<and> dechunk (wire fctx) = Some (''file'', crlf)"
  using chunked_stream_roundtrip [of polite "chunked_context_create False" "[''ab'', ''c'']" None "''file''"]
  by (auto simp: takes_all_def polite_def chunked_context_create_def config_chunk_size_def trailer_of_def)

text \<open>A short write is taken for success: send may accept a part of what it is offered, and
the loops never offer the rest. Over any transport that accepts at least one byte of each piece
a stream ends with result 0 and a finished context; if it accepts one byte each time, one digit
of each size and one byte of each block are all that arrives.\<close>

theorem chunked_short_write:
  assumes "takes_some net" "\<not> finished ctx" "\<forall>b\<in>set bs. b \<noteq> [] \<and> length b < 2 ^ 31"
  shows "\<exists>ctx'. chunked_send_stream net (List.map Some bs) None ctx = Inr (0, ctx') \<and> finished ctx' \<and>
    ((\<forall>w d. net w d = 1) \<longrightarrow>
      wire ctx' = wire ctx @ concat (List.map (\<lambda>b. [hd (print_hex (length b)), hd b, CHR 0x0D]) bs) @ [CHR ''0'', CHR 0x0D])"
proof -
  obtain s where s: "stream_loop net (List.map Some bs) ctx = Inr (0, sent s ctx)"
    using stream_loop_some [OF assms] by blast
  obtain t where t: "finish_stream net ''dynamic'' None (0, sent s ctx) = (0, (sent t (sent s ctx))\<lparr>finished := True\<rparr>)"
    using finish_some [OF assms(1)] assms(2) by (metis sent_simps(2))
  have r: "chunked_send_stream net (List.map Some bs) None ctx = Inr (0, (sent (s @ t) ctx)\<lparr>finished := True\<rparr>)"
    using s t assms(2) by (simp add: chunked_send_stream_def)
  have "s = concat (List.map (\<lambda>b. [hd (print_hex (length b)), hd b, CHR 0x0D]) bs) \<and> t = [CHR ''0'', CHR 0x0D]"
    if one: "\<forall>w d. net w d = 1"
  proof -
    have d: "send_data net d c = (1, sent [hd d] c)" if "d \<noteq> []" for d c
      using one that by (cases d) (simp_all add: send_data_def to_int32_id sent_def Let_def)
    have c: "chunked_send_chunk net b c = Inr (0, sent [hd (print_hex (length b)), hd b, CHR 0x0D] c)"
      if "b \<noteq> []" "length b < 2 ^ 31" "\<not> finished c" for b c
      using that d by (simp add: chunked_send_chunk_def chunk_header_ok Let_def print_hex_def crlf_def)
    have "stream_loop net (List.map Some bs) c =
        Inr (0, sent (concat (List.map (\<lambda>b. [hd (print_hex (length b)), hd b, CHR 0x0D]) bs)) c)"
      if "\<not> finished c" for c
      using assms(3) that by (induction bs arbitrary: c) (simp_all add: c)
    from this [OF assms(2)] s have "wire (sent s ctx) = wire (sent (concat (List.map (\<lambda>b. [hd (print_hex (length b)), hd b, CHR 0x0D]) bs)) ctx)"
      by simp
    moreover have "finish_stream net ''dynamic'' None (0, sent s ctx) =
        (0, (sent [CHR ''0'', CHR 0x0D] (sent s ctx))\<lparr>finished := True\<rparr>)"
      using assms(2) by (simp add: finish_stream_def chunked_send_final_chunk_def d crlf_def Let_def)
    then have "wire ((sent t (sent s ctx))\<lparr>finished := True\<rparr>) = wire ((sent [CHR ''0'', CHR 0x0D] (sent s ctx))\<lparr>finished := True\<rparr>)"
      using t by (metis prod.inject)
    ultimately show ?thesis by simp
  qed
  with r show ?thesis by auto
qed

theorem chunked_short_write_witness:
  "\<exists>ctx'. chunked_send_stream (\<lambda>w d. 1) [Some ''hello''] None (chunked_context_create False) = Inr (0, ctx') \<and>
    wire ctx' = [CHR ''5'', CHR ''h'', CHR 0x0D, CHR ''0'', CHR 0x0D]"
  using chunked_short_write [of "\<lambda>w d. 1" "chunked_context_create False" "[''hello'']"]
  by (auto simp: takes_some_def chunked_context_create_def print_hex_def print_base.simps digit_char_def Suc_le_eq char_of_def bit_0)

end
