(* ===== verification/Headers.thy ===== *)
theory Headers
  imports Config
begin

text \<open>
  Header manipulation (src/http/headers.c): the operations and settings read from directives,
  and their application to a response or a request held as text in a buffer. A buffer is its
  string up to the NUL and its size. memmove and memcpy within the string are concatenation.
\<close>

section \<open>Operations\<close>

datatype header_operation_type_t = HEADER_ADD | HEADER_SET | HEADER_REMOVE

record header_operation =
  op_type :: header_operation_type_t
  op_name :: string
  op_value :: "string option"
  op_always :: bool

text \<open>\<open>add_header name value [always]\<close>, \<open>set_header\<close> alike, and \<open>remove_header name [always]\<close>.\<close>

definition header_words :: "string \<Rightarrow> string list" where
  "header_words v = strtok_all {CHR '' '', CHR 0x09} v"

definition value_operation :: "header_operation_type_t \<Rightarrow> string \<Rightarrow> header_operation list" where
  "value_operation t v =
     (case header_words v of
        n # x # rest \<Rightarrow> [\<lparr>op_type = t, op_name = n, op_value = Some x,
                          op_always = (rest \<noteq> [] \<and> hd rest = ''always'')\<rparr>]
      | _ \<Rightarrow> [])"

definition remove_operation :: "string \<Rightarrow> header_operation list" where
  "remove_operation v =
     (case header_words v of
        n # rest \<Rightarrow> [\<lparr>op_type = HEADER_REMOVE, op_name = n, op_value = None,
                      op_always = (rest \<noteq> [] \<and> hd rest = ''always'')\<rparr>]
      | _ \<Rightarrow> [])"

text \<open>A missing key or value is NULL for strcmp and strdup.\<close>

definition header_operation_of :: "directive \<Rightarrow> header_operation list run" where
  "header_operation_of d =
     (case d_key d of
        None \<Rightarrow> Inl BadPointer
      | Some k \<Rightarrow>
          if k \<in> {''add_header'', ''set_header'', ''remove_header''}
          then (case d_value d of
                  None \<Rightarrow> Inl BadPointer
                | Some v \<Rightarrow> Inr (if k = ''add_header'' then value_operation HEADER_ADD v
                                else if k = ''set_header'' then value_operation HEADER_SET v
                                else remove_operation v))
          else Inr [])"

fun parse_header_operations :: "directive list \<Rightarrow> header_operation list run" where
  "parse_header_operations [] = Inr []"
| "parse_header_operations (d # ds) =
     bindR (header_operation_of d) (\<lambda>xs. bindR (parse_header_operations ds) (\<lambda>ys. Inr (xs @ ys)))"

section \<open>Security and standard headers\<close>

record security_headers =
  enable_hsts :: bool
  hsts_value :: "string option"
  enable_xframe_options :: bool
  xframe_options_value :: "string option"
  enable_xcontent_type_options :: bool
  enable_xss_protection :: bool
  enable_referrer_policy :: bool
  referrer_policy_value :: "string option"
  enable_content_security_policy :: bool
  csp_value :: "string option"

record standard_headers =
  enable_server_header :: bool
  server_value :: "string option"
  enable_date_header :: bool
  enable_connection_header :: bool
  connection_value :: "string option"

definition security_keys :: "string list" where
  "security_keys =
     [''enable_hsts'', ''hsts_value'', ''enable_xframe_options'', ''xframe_options_value'',
      ''enable_xcontent_type_options'', ''enable_xss_protection'', ''enable_referrer_policy'',
      ''referrer_policy_value'', ''enable_content_security_policy'', ''csp_value'']"

definition security_setting :: "string \<Rightarrow> string \<Rightarrow> security_headers \<Rightarrow> security_headers" where
  "security_setting k v s =
     (let on = (v = ''on'') in
      if k = ''enable_hsts'' then s\<lparr>enable_hsts := on\<rparr>
      else if k = ''hsts_value'' then s\<lparr>hsts_value := Some v\<rparr>
      else if k = ''enable_xframe_options'' then s\<lparr>enable_xframe_options := on\<rparr>
      else if k = ''xframe_options_value'' then s\<lparr>xframe_options_value := Some v\<rparr>
      else if k = ''enable_xcontent_type_options'' then s\<lparr>enable_xcontent_type_options := on\<rparr>
      else if k = ''enable_xss_protection'' then s\<lparr>enable_xss_protection := on\<rparr>
      else if k = ''enable_referrer_policy'' then s\<lparr>enable_referrer_policy := on\<rparr>
      else if k = ''referrer_policy_value'' then s\<lparr>referrer_policy_value := Some v\<rparr>
      else if k = ''enable_content_security_policy'' then s\<lparr>enable_content_security_policy := on\<rparr>
      else s\<lparr>csp_value := Some v\<rparr>)"

definition standard_keys :: "string list" where
  "standard_keys =
     [''enable_server_header'', ''server_value'', ''enable_date_header'', ''enable_connection_header'', ''connection_value'']"

definition standard_setting :: "string \<Rightarrow> string \<Rightarrow> standard_headers \<Rightarrow> standard_headers" where
  "standard_setting k v s =
     (let on = (v = ''on'') in
      if k = ''enable_server_header'' then s\<lparr>enable_server_header := on\<rparr>
      else if k = ''server_value'' then s\<lparr>server_value := Some v\<rparr>
      else if k = ''enable_date_header'' then s\<lparr>enable_date_header := on\<rparr>
      else if k = ''enable_connection_header'' then s\<lparr>enable_connection_header := on\<rparr>
      else s\<lparr>connection_value := Some v\<rparr>)"

text \<open>A loop over the directives whose key is known, each of which needs a value.\<close>

fun apply_keyed :: "string list \<Rightarrow> (string \<Rightarrow> string \<Rightarrow> 's \<Rightarrow> 's) \<Rightarrow> directive list \<Rightarrow> 's \<Rightarrow> 's run" where
  "apply_keyed keys f [] s = Inr s"
| "apply_keyed keys f (d # ds) s =
     (case d_key d of
        None \<Rightarrow> Inl BadPointer
      | Some k \<Rightarrow>
          if k \<in> set keys
          then (case d_value d of None \<Rightarrow> Inl BadPointer | Some v \<Rightarrow> apply_keyed keys f ds (f k v s))
          else apply_keyed keys f ds s)"

definition parse_security_headers :: "directive list \<Rightarrow> security_headers run" where
  "parse_security_headers ds = apply_keyed security_keys security_setting ds
     \<lparr>enable_hsts = False, hsts_value = None, enable_xframe_options = False, xframe_options_value = None,
      enable_xcontent_type_options = False, enable_xss_protection = False, enable_referrer_policy = False,
      referrer_policy_value = None, enable_content_security_policy = False, csp_value = None\<rparr>"

definition parse_standard_headers :: "directive list \<Rightarrow> standard_headers run" where
  "parse_standard_headers ds = apply_keyed standard_keys standard_setting ds
     \<lparr>enable_server_header = True, server_value = None, enable_date_header = True,
      enable_connection_header = True, connection_value = None\<rparr>"

record header_context =
  operations :: "header_operation list"
  security :: "security_headers option"
  standard :: "standard_headers option"

definition create_header_context :: "directive list \<Rightarrow> header_context run" where
  "create_header_context ds =
     bindR (parse_header_operations ds) (\<lambda>ops. Inr \<lparr>operations = ops, security = None, standard = None\<rparr>)"

section \<open>Application\<close>

definition blank_line :: string where
  "blank_line = crlf @ crlf"

text \<open>The line is formatted into 512 bytes.\<close>

definition header_line :: "header_operation \<Rightarrow> string \<Rightarrow> string" where
  "header_line op v = snprintf 512 (op_name op @ '': '' @ v @ crlf)"

definition response_operation :: "nat \<Rightarrow> bool \<Rightarrow> header_operation \<Rightarrow> string \<Rightarrow> string" where
  "response_operation n is_error op buf =
     (if is_error \<and> \<not> op_always op then buf
      else case (op_type op, op_value op) of
        (HEADER_REMOVE, _) \<Rightarrow> buf
      | (_, None) \<Rightarrow> buf
      | (_, Some v) \<Rightarrow>
          (case strstr buf blank_line of
             None \<Rightarrow> buf
           | Some headers_end \<Rightarrow>
               let line = header_line op v in
               if length buf + length line < n
               then before buf headers_end @ crlf @ line @ drop 2 headers_end else buf))"

definition apply_headers_to_response :: "nat \<Rightarrow> header_context option \<Rightarrow> int \<Rightarrow> string \<Rightarrow> string" where
  "apply_headers_to_response n ctx status_code buf =
     (case ctx of None \<Rightarrow> buf
      | Some c \<Rightarrow> foldl (\<lambda>b op. response_operation n (status_code \<ge> 400) op b) buf (operations c))"

definition request_operation :: "nat \<Rightarrow> header_operation \<Rightarrow> string \<Rightarrow> string" where
  "request_operation n op buf =
     (case (op_type op, op_value op) of
        (HEADER_REMOVE, _) \<Rightarrow> buf
      | (_, None) \<Rightarrow> buf
      | (_, Some v) \<Rightarrow>
          (case strstr buf blank_line of
             None \<Rightarrow> buf
           | Some headers_end \<Rightarrow>
               let line = header_line op v in
               if length buf + length line < n
               then before buf headers_end @ line @ headers_end else buf))"

definition apply_headers_to_proxy_request :: "nat \<Rightarrow> header_context option \<Rightarrow> string \<Rightarrow> string" where
  "apply_headers_to_proxy_request n ctx buf =
     (case ctx of None \<Rightarrow> buf
      | Some c \<Rightarrow> foldl (\<lambda>b op. request_operation n op b) buf (operations c))"

text \<open>sscanf with \<open>HTTP/%*s %d\<close>: a word is skipped, then a number is read, if there is one.\<close>

definition response_status :: "string \<Rightarrow> int" where
  "response_status buf =
     (if starts_with ''HTTP/'' buf
      then let w = dropWhile isspace (drop 5 buf);
               rest = dropWhile isspace (dropWhile (\<lambda>c. \<not> isspace c) w);
               (v, end) = strtol10 rest
           in if w = [] \<or> end = rest then 200 else to_int32 v
      else 200)"

definition process_proxy_response_headers :: "nat \<Rightarrow> header_context option \<Rightarrow> string \<Rightarrow> string" where
  "process_proxy_response_headers n ctx buf =
     (case ctx of None \<Rightarrow> buf | Some _ \<Rightarrow> apply_headers_to_response n ctx (response_status buf) buf)"

section \<open>Messages as lines\<close>

definition line_ok :: "string \<Rightarrow> bool" where
  "line_ok l \<longleftrightarrow> l \<noteq> [] \<and> CHR 0x0D \<notin> set l \<and> CHR 0x0A \<notin> set l"

definition head_text :: "string list \<Rightarrow> string" where
  "head_text ls = concat (List.map (\<lambda>l. l @ crlf) ls)"

lemma before_append [simp]: "before (u @ t) t = u"
  by (simp add: before_def)

lemma strstr_skip: "CHR 0x0D \<notin> set l \<Longrightarrow> strstr (l @ s) blank_line = strstr s blank_line"
  by (induction l) (auto simp: starts_with_def blank_line_def crlf_def)

lemma strstr_line_end:
  "c \<noteq> CHR 0x0D \<Longrightarrow> strstr (crlf @ c # s) blank_line = strstr (c # s) blank_line"
  by (simp add: starts_with_def blank_line_def crlf_def)

lemma strstr_here: "strstr (blank_line @ s) blank_line = Some (blank_line @ s)"
  by (simp add: blank_line_def crlf_def starts_with_def)

lemma find_blank_line:
  "\<forall>l\<in>set (ls @ [l]). line_ok l \<Longrightarrow>
   strstr (head_text ls @ l @ blank_line @ s) blank_line = Some (blank_line @ s)"
proof (induction ls)
  case Nil
  then have "CHR 0x0D \<notin> set l" by (simp add: line_ok_def)
  then show ?case using strstr_skip [of l "blank_line @ s"] strstr_here by (simp add: head_text_def)
next
  case (Cons k ls)
  have "\<exists>c r. head_text ls @ l @ blank_line @ s = c # r \<and> c \<noteq> CHR 0x0D"
  proof (cases ls)
    case Nil
    then show ?thesis using Cons.prems by (cases l) (auto simp: head_text_def line_ok_def)
  next
    case (Cons j js)
    then show ?thesis using Cons.prems \<open>ls = j # js\<close> by (cases j) (auto simp: head_text_def line_ok_def)
  qed
  then obtain c r where c: "head_text ls @ l @ blank_line @ s = c # r" "c \<noteq> CHR 0x0D" by blast
  have "strstr (head_text (k # ls) @ l @ blank_line @ s) blank_line = strstr (k @ crlf @ c # r) blank_line"
    using c(1) by (simp add: head_text_def)
  also have "\<dots> = strstr (c # r) blank_line"
    using Cons.prems strstr_skip [of k] strstr_line_end [OF c(2)] by (simp add: line_ok_def)
  also have "\<dots> = Some (blank_line @ s)" using Cons c(1) by simp
  finally show ?case .
qed

text \<open>A message: its head lines, the last of which is not empty, a blank line, and the rest.\<close>

definition message :: "string list \<Rightarrow> string \<Rightarrow> string" where
  "message ls body = head_text ls @ crlf @ body"

lemma message_last: "message (ls @ [l]) body = head_text ls @ l @ blank_line @ body"
  by (simp add: message_def head_text_def blank_line_def)

definition op_text :: "header_operation \<Rightarrow> string" where
  "op_text op = op_name op @ '': '' @ (case op_value op of None \<Rightarrow> [] | Some v \<Rightarrow> v)"

definition applies :: "bool \<Rightarrow> header_operation \<Rightarrow> bool" where
  "applies is_error op \<longleftrightarrow> (is_error \<longrightarrow> op_always op) \<and> op_type op \<noteq> HEADER_REMOVE \<and> op_value op \<noteq> None"

definition op_ok :: "header_operation \<Rightarrow> bool" where
  "op_ok op \<longleftrightarrow> op_value op \<noteq> None \<longrightarrow> line_ok (op_text op) \<and> length (op_text op) < 510"

lemma header_line_ok: "op_ok op \<Longrightarrow> op_value op = Some v \<Longrightarrow> header_line op v = op_text op @ crlf"
  using snprintf_fits [of "op_text op @ crlf" 512] by (simp add: header_line_def op_ok_def op_text_def crlf_def)

lemma not_applies:
  "\<not> applies is_error op \<Longrightarrow> response_operation n is_error op buf = buf"
  "\<not> applies False op \<Longrightarrow> request_operation n op buf = buf"
  by (cases "op_type op"; cases "op_value op"; simp add: applies_def response_operation_def request_operation_def)+

lemma response_operation_message:
  assumes "applies is_error op" "op_ok op" "\<forall>k\<in>set (ls @ [l]). line_ok k"
    and "length (message (ls @ [l, op_text op]) body) < n"
  shows "response_operation n is_error op (message (ls @ [l]) body) = message (ls @ [l, op_text op]) body"
proof -
  obtain v where v: "op_value op = Some v" "op_type op \<noteq> HEADER_REMOVE" "\<not> (is_error \<and> \<not> op_always op)"
    using assms(1) by (auto simp: applies_def)
  have "message (ls @ [l, op_text op]) body = (head_text ls @ l) @ crlf @ (op_text op @ crlf) @ crlf @ body"
    by (simp add: message_def head_text_def)
  moreover have "strstr (message (ls @ [l]) body) blank_line = Some (blank_line @ body)"
    using find_blank_line [OF assms(3), of body] by (simp add: message_last)
  moreover have "before (message (ls @ [l]) body) (blank_line @ body) = head_text ls @ l"
    using before_append [of "head_text ls @ l" "blank_line @ body"] by (simp add: message_last)
  moreover have "drop 2 (blank_line @ body) = crlf @ body" by (simp add: blank_line_def crlf_def)
  moreover have "length (message (ls @ [l]) body) + length (op_text op @ crlf) < n"
    using assms(4) by (simp add: message_def head_text_def)
  ultimately show ?thesis
    using v header_line_ok [OF assms(2) v(1)]
    by (cases "op_type op"; cases is_error) (simp_all add: response_operation_def Let_def)
qed

lemma request_operation_message:
  assumes "applies False op" "op_ok op" "\<forall>k\<in>set (ls @ [l]). line_ok k"
    and "length (message (ls @ [l @ op_text op]) (crlf @ body)) < n"
  shows "request_operation n op (message (ls @ [l]) body) = message (ls @ [l @ op_text op]) (crlf @ body)"
proof -
  obtain v where v: "op_value op = Some v" "op_type op \<noteq> HEADER_REMOVE" using assms(1) by (auto simp: applies_def)
  have "message (ls @ [l @ op_text op]) (crlf @ body) = (head_text ls @ l) @ (op_text op @ crlf) @ blank_line @ body"
    by (simp add: message_last blank_line_def)
  moreover have "strstr (message (ls @ [l]) body) blank_line = Some (blank_line @ body)"
    using find_blank_line [OF assms(3), of body] by (simp add: message_last)
  moreover have "before (message (ls @ [l]) body) (blank_line @ body) = head_text ls @ l"
    using before_append [of "head_text ls @ l" "blank_line @ body"] by (simp add: message_last)
  moreover have "length (message (ls @ [l]) body) + length (op_text op @ crlf) < n"
    using assms(4) by (simp add: message_def head_text_def)
  ultimately show ?thesis
    using v header_line_ok [OF assms(2) v(1)] by (cases "op_type op") (simp_all add: request_operation_def Let_def)
qed

lemma line_ok_append: "line_ok k \<Longrightarrow> line_ok l \<Longrightarrow> line_ok (k @ l)"
  by (simp add: line_ok_def)

lemma response_all:
  assumes "\<forall>op\<in>set ops. op_ok op" "\<forall>k\<in>set ls. line_ok k" "ls \<noteq> []"
    and "length (message (ls @ List.map op_text (filter (applies is_error) ops)) body) < n"
  shows "foldl (\<lambda>b op. response_operation n is_error op b) (message ls body) ops =
    message (ls @ List.map op_text (filter (applies is_error) ops)) body"
  using assms
proof (induction ops arbitrary: ls)
  case (Cons op ops)
  obtain ks k where ls: "ls = ks @ [k]" using Cons.prems(3) by (cases ls rule: rev_cases) auto
  show ?case
  proof (cases "applies is_error op")
    case True
    then have ok: "line_ok (op_text op)" using Cons.prems(1) by (auto simp: op_ok_def applies_def)
    have "length (message (ks @ [k, op_text op]) body) < n"
      using Cons.prems(4) True by (simp add: ls message_def head_text_def)
    then have "response_operation n is_error op (message ls body) = message (ls @ [op_text op]) body"
      using response_operation_message [OF True, of ks k body n] Cons.prems(1,2) by (simp add: ls)
    with Cons.IH [of "ls @ [op_text op]"] Cons.prems True ok show ?thesis by auto
  next
    case False
    with Cons show ?thesis by (simp add: not_applies)
  qed
qed simp

lemma replicate_swap: "concat (replicate k xs) @ xs = xs @ concat (replicate k xs)"
  by (induction k) simp_all

lemma request_all:
  assumes "\<forall>op\<in>set ops. op_ok op" "\<forall>k\<in>set (ls @ [l]). line_ok k"
    and "length (message (ls @ [l @ concat (List.map op_text (filter (applies False) ops))])
      (concat (replicate (length (filter (applies False) ops)) crlf) @ body)) < n"
  shows "foldl (\<lambda>b op. request_operation n op b) (message (ls @ [l]) body) ops =
    message (ls @ [l @ concat (List.map op_text (filter (applies False) ops))])
      (concat (replicate (length (filter (applies False) ops)) crlf) @ body)"
  using assms
proof (induction ops arbitrary: l body)
  case (Cons op ops)
  show ?case
  proof (cases "applies False op")
    case True
    let ?k = "length (filter (applies False) ops)"
    have ok: "line_ok (op_text op)" using Cons.prems(1) True by (auto simp: op_ok_def applies_def)
    have swap: "concat (replicate ?k crlf) @ crlf @ body = crlf @ concat (replicate ?k crlf) @ body"
      using replicate_swap [of ?k crlf] by (metis append.assoc)
    have "length (message (ls @ [l @ op_text op]) (crlf @ body)) < n"
      using Cons.prems(3) True by (simp add: message_def head_text_def)
    then have "request_operation n op (message (ls @ [l]) body) = message (ls @ [l @ op_text op]) (crlf @ body)"
      using request_operation_message [OF True, of ls l body n] Cons.prems(1,2) by simp
    with Cons.IH [of "l @ op_text op" "crlf @ body"] Cons.prems True ok swap show ?thesis
      by (auto simp: line_ok_append)
  next
    case False
    with Cons show ?thesis by (simp add: not_applies)
  qed
qed simp

text \<open>
  A header of 511 characters or more loses its line end to the buffer of the line, and with it
  the message loses its blank line: the body follows the header at once.
\<close>

lemma long_header_swallows_blank_line:
  assumes "applies is_error op" "511 \<le> length (op_text op)" "\<forall>k\<in>set (ls @ [l]). line_ok k"
    and "length (message (ls @ [l]) body) + 511 < n"
  shows "response_operation n is_error op (message (ls @ [l]) body) =
    head_text (ls @ [l]) @ take 511 (op_text op) @ crlf @ body"
proof -
  obtain v where v: "op_value op = Some v" "op_type op \<noteq> HEADER_REMOVE" "\<not> (is_error \<and> \<not> op_always op)"
    using assms(1) by (auto simp: applies_def)
  then have t: "op_text op = op_name op @ '': '' @ v" by (simp add: op_text_def)
  have "header_line op v = take 511 (op_text op @ crlf)" by (simp add: header_line_def t snprintf_def)
  then have line: "header_line op v = take 511 (op_text op)" using assms(2) by simp
  have "strstr (message (ls @ [l]) body) blank_line = Some (blank_line @ body)"
    using find_blank_line [OF assms(3), of body] by (simp add: message_last)
  moreover have "before (message (ls @ [l]) body) (blank_line @ body) = head_text ls @ l"
    using before_append [of "head_text ls @ l" "blank_line @ body"] by (simp add: message_last)
  moreover have "drop 2 (blank_line @ body) = crlf @ body" by (simp add: blank_line_def crlf_def)
  ultimately show ?thesis
    using v line assms(2,4)
    by (cases "op_type op"; cases is_error) (simp_all add: response_operation_def Let_def head_text_def)
qed

section \<open>Properties\<close>


definition sample_context :: header_context where
  "sample_context = \<lparr>operations = [\<lparr>op_type = HEADER_ADD, op_name = ''A'', op_value = Some ''b'', op_always = False\<rparr>],
     security = None, standard = None\<rparr>"


end
