(* ===== verification/Proxy.thy ===== *)
theory Proxy
  imports LoadBalancer Headers Chunked
begin

text \<open>
  The reverse proxy (src/proxy/proxy.c) and the proxy over the load balancer
  (src/proxy/lb_proxy.c). The network is a parameter: a connect is a function from host and
  port, sending the request to a backend a function from the text to the result of send, the
  backend a function from the bytes it received to the answers of the reads of its socket
  (\<open>None\<close> an error, an empty block the end of the response), and the client a transport as in
  Chunked. What is written to the client is the last component of a result.
\<close>

section \<open>URLs\<close>

record proxy_url_t =
  u_protocol :: string
  u_host :: string
  u_port :: int
  u_path :: string

text \<open>The scheme of the url with its default port, and the rest.\<close>

definition url_scheme :: "string \<Rightarrow> string \<times> int \<times> string" where
  "url_scheme url =
     (if starts_with ''http://'' url then (''http'', 80, drop 7 url)
      else if starts_with ''https://'' url then (''https'', 443, drop 8 url)
      else (''http'', 80, url))"

definition parse_proxy_url :: "string option \<Rightarrow> proxy_url_t option" where
  "parse_proxy_url url =
     (case url of None \<Rightarrow> None
      | Some url \<Rightarrow>
          let (scheme, dport, p) = url_scheme url;
              (h, pt, p) =
                (case (strchr p CHR '':'', strchr p CHR ''/'') of
                   (Some host_end, Some path_start) \<Rightarrow>
                     if length host_end > length path_start
                     then (case strchr (tl host_end) CHR ''/'' of
                             Some port_end \<Rightarrow> (before p host_end, atoi (before (tl host_end) port_end), port_end)
                           | None \<Rightarrow> (before p host_end, atoi (tl host_end), []))
                     else (before p path_start, dport, path_start)
                 | (Some host_end, None) \<Rightarrow>
                     (case strchr (tl host_end) CHR ''/'' of
                        Some port_end \<Rightarrow> (before p host_end, atoi (before (tl host_end) port_end), port_end)
                      | None \<Rightarrow> (before p host_end, atoi (tl host_end), []))
                 | (None, Some path_start) \<Rightarrow> (before p path_start, dport, path_start)
                 | (None, None) \<Rightarrow> (p, dport, []))
          in Some \<lparr>u_protocol = scheme, u_host = h, u_port = pt,
                   u_path = (if p \<noteq> [] \<and> hd p = CHR ''/'' then p else ''/'')\<rparr>)"

text \<open>Whether a proxy_pass value names an upstream group, and the name.\<close>

definition upstream_char :: "char \<Rightarrow> bool" where
  "upstream_char c \<longleftrightarrow> isalnum c \<or> c = CHR ''_'' \<or> c = CHR ''-''"

definition is_upstream_proxy :: "string option \<Rightarrow> bool" where
  "is_upstream_proxy v =
     (case v of None \<Rightarrow> False
      | Some v \<Rightarrow>
          if starts_with ''http://'' v
          then let p = drop 7 v in
               if strchr p CHR ''.'' \<noteq> None \<or> strchr p CHR '':'' \<noteq> None then False
               else list_all upstream_char (takeWhile (\<lambda>c. c \<noteq> CHR ''/'' \<and> c \<noteq> CHR ''?'') p)
          else starts_with ''upstream://'' v)"

definition extract_upstream_name :: "string option \<Rightarrow> string option" where
  "extract_upstream_name v =
     (case v of None \<Rightarrow> None
      | Some v \<Rightarrow>
          if starts_with ''http://'' v
          then (case strchr (drop 7 v) CHR ''/'' of
                  Some end \<Rightarrow> Some (before (drop 7 v) end) | None \<Rightarrow> Some (drop 7 v))
          else if starts_with ''upstream://'' v
          then (case strchr (drop 11 v) CHR ''/'' of
                  Some end \<Rightarrow> Some (before (drop 11 v) end) | None \<Rightarrow> Some (drop 11 v))
          else None)"

section \<open>Requests\<close>

text \<open>\<open>offset += snprintf (buf + offset, n - offset, ...)\<close>, piece after piece.\<close>

fun snprintf_all :: "nat \<Rightarrow> string list \<Rightarrow> string \<times> nat \<Rightarrow> (string \<times> nat) run" where
  "snprintf_all n [] b = Inr b"
| "snprintf_all n (p # ps) b = bindR (snprintf_at n p b) (snprintf_all n ps)"

text \<open>\<open>strncasecmp (line, pre, strlen pre) == 0\<close>, the prefix in lower case.\<close>

definition starts_with_ci :: "string \<Rightarrow> string \<Rightarrow> bool" where
  "starts_with_ci pre line \<longleftrightarrow> List.map tolower (take (length pre) line) = pre"

definition header_lines :: "string option \<Rightarrow> string list" where
  "header_lines headers = (case headers of None \<Rightarrow> [] | Some h \<Rightarrow> strtok_all {CHR 0x0D, CHR 0x0A} h)"

definition forwarded_line :: "string \<Rightarrow> bool" where
  "forwarded_line line \<longleftrightarrow> \<not> starts_with_ci ''host:'' line \<and> \<not> starts_with_ci ''connection:'' line"

definition build_proxy_request ::
  "string \<Rightarrow> string \<Rightarrow> string \<Rightarrow> string option \<Rightarrow> string \<Rightarrow> int \<Rightarrow> string run" where
  "build_proxy_request meth original_path http_version headers backend_host backend_port =
     (let new_path = snprintf 512 original_path in
      bindR (snprintf_all 8192
               ([meth @ '' '' @ new_path @ '' '' @ http_version @ crlf,
                 ''Host: '' @ backend_host @ '':'' @ print_int backend_port @ crlf,
                 ''X-Forwarded-For: 127.0.0.1'' @ crlf,
                 ''X-Forwarded-Proto: http'' @ crlf] @
                List.map (\<lambda>l. l @ crlf) (filter forwarded_line (header_lines headers)) @
                [''Connection: close'' @ crlf, crlf]) ([], 0))
        (\<lambda>(buf, _). Inr buf))"

definition lb_forwarded_line :: "string \<Rightarrow> bool" where
  "lb_forwarded_line line \<longleftrightarrow>
     \<not> starts_with_ci ''host:'' line \<and> \<not> starts_with_ci ''connection:'' line \<and>
     \<not> starts_with_ci ''x-forwarded-'' line \<and> \<not> starts_with_ci ''x-real-ip:'' line"

definition build_lb_proxy_request ::
  "string \<Rightarrow> string \<Rightarrow> string \<Rightarrow> string option \<Rightarrow> upstream_server \<Rightarrow> string option \<Rightarrow> string run" where
  "build_lb_proxy_request meth original_path http_version headers server ip =
     bindR (snprintf_all 8192
              ([meth @ '' '' @ original_path @ '' '' @ http_version @ crlf,
                ''Host: '' @ host server @ '':'' @ print_int (port server) @ crlf] @
               (case ip of None \<Rightarrow> [] | Some a \<Rightarrow> [''X-Forwarded-For: '' @ a @ crlf]) @
               [''X-Forwarded-Proto: http'' @ crlf,
                ''X-Real-IP: '' @ (case ip of None \<Rightarrow> ''unknown'' | Some a \<Rightarrow> a) @ crlf,
                ''X-Load-Balancer: ANX-LB/1.0'' @ crlf] @
               List.map (\<lambda>l. l @ crlf) (filter lb_forwarded_line (header_lines headers)) @
               [''Connection: close'' @ crlf, crlf]) ([], 0))
       (\<lambda>(buf, _). Inr buf)"

section \<open>Responses\<close>

text \<open>Copying to a client socket with write: short writes are counted, not repeated.\<close>

fun forward_response :: "transport \<Rightarrow> string option list \<Rightarrow> int \<Rightarrow> string \<Rightarrow> int \<times> string" where
  "forward_response net [] tot w = (tot, w)"
| "forward_response net (None # bs) tot w = (-1, w)"
| "forward_response net (Some b # bs) tot w =
     (if b = [] then (tot, w)
      else let n = net w b in
           if n < 0 then (-1, w)
           else forward_response net bs (to_int32 (tot + n)) (w @ take (nat n) b))"

text \<open>Copying with SSL_write.\<close>

fun forward_ssl :: "transport \<Rightarrow> string option list \<Rightarrow> int \<Rightarrow> string \<Rightarrow> int \<times> string" where
  "forward_ssl net [] tot w = (tot, w)"
| "forward_ssl net (None # bs) tot w = (-1, w)"
| "forward_ssl net (Some b # bs) tot w =
     (if b = [] then (tot, w)
      else let n = net w b in
           if n \<le> 0 then (-1, w)
           else forward_ssl net bs (to_int32 (tot + int (length b))) (w @ take (nat n) b))"

definition forward_lb_response :: "transport \<Rightarrow> string option list \<Rightarrow> string \<Rightarrow> int \<times> string" where
  "forward_lb_response net bs w = forward_response net bs 0 w"

definition forward_lb_https_response :: "transport \<Rightarrow> string option list \<Rightarrow> string \<Rightarrow> int \<times> string" where
  "forward_lb_https_response net bs w = forward_ssl net bs 0 w"

text \<open>
  The response head of handle_https_proxy_request: blocks without a blank line are collected in
  a buffer of 4096 bytes that is never checked; the first block with one sends what is there.
  The result is the byte count, -1 after a failed write, with the answers that are left. The
  two header fields that are looked up here are never used.
\<close>

fun ssl_head :: "transport \<Rightarrow> string option list \<Rightarrow> string \<Rightarrow> string \<Rightarrow> (int \<times> string \<times> string option list) run" where
  "ssl_head net [] hdr w = Inr (0, w, [])"
| "ssl_head net (None # bs) hdr w = Inr (0, w, bs)"
| "ssl_head net (Some b # bs) hdr w =
     (if b = [] then Inr (0, w, bs)
      else case strstr b blank_line of
             None \<Rightarrow>
               if length hdr + length b > 4096 then Inl OutOfRange else ssl_head net bs (hdr @ b) w
           | Some header_end \<Rightarrow>
               let headers_size = length b - length header_end + 4;
                   head = hdr @ take headers_size b;
                   rest = drop headers_size b;
                   n = net w head
               in if length head > 4096 then Inl OutOfRange
                  else if n \<le> 0 then Inr (-1, w, bs)
                  else let w = w @ take (nat n) head in
                       if rest = [] then Inr (int (length head), w, bs)
                       else let m = net w rest in
                            if m \<le> 0 then Inr (-1, w, bs)
                            else Inr (int (length head) + int (length rest), w @ take (nat m) rest, bs))"

definition forward_https_response :: "transport \<Rightarrow> string option list \<Rightarrow> string \<Rightarrow> (int \<times> string) run" where
  "forward_https_response net answers w =
     bindR (ssl_head net answers [] w) (\<lambda>(tot, w, answers).
     if tot < 0 then Inr (-1, w) else Inr (forward_ssl net answers tot w))"

section \<open>Handlers\<close>

record backend =
  dial :: "string \<Rightarrow> int \<Rightarrow> int option"
  send_to :: "string \<Rightarrow> int"
  answers :: "string \<Rightarrow> string option list"

text \<open>One exchange with the backend: what it received is what send took of the request.\<close>

definition exchange :: "backend \<Rightarrow> string \<Rightarrow> string option list option" where
  "exchange be request =
     (let n = send_to be request in if n < 0 then None else Some (answers be (take (nat n) request)))"

text \<open>htons keeps the low 16 bits of the port.\<close>

definition connect_to_backend :: "backend \<Rightarrow> string \<Rightarrow> int \<Rightarrow> int option" where
  "connect_to_backend be h p = dial be h (p mod 65536)"

definition handle_proxy_request :: "backend \<Rightarrow> transport \<Rightarrow> string \<Rightarrow> string option \<Rightarrow> string \<Rightarrow> (int \<times> string) run" where
  "handle_proxy_request be net req_path proxy_pass w =
     (case parse_proxy_url proxy_pass of None \<Rightarrow> Inr (-1, w)
      | Some u \<Rightarrow>
          (case connect_to_backend be (u_host u) (u_port u) of None \<Rightarrow> Inr (-1, w)
           | Some fd \<Rightarrow>
               bindR (build_proxy_request ''GET'' req_path ''HTTP/1.1'' (Some []) (u_host u) (u_port u)) (\<lambda>request.
               case exchange be request of None \<Rightarrow> Inr (-1, w)
               | Some bs \<Rightarrow> Inr (forward_response net bs 0 w))))"

definition handle_https_proxy_request ::
  "backend \<Rightarrow> transport \<Rightarrow> string \<Rightarrow> string \<Rightarrow> string \<Rightarrow> string option \<Rightarrow> string option \<Rightarrow> string \<Rightarrow> (int \<times> string) run" where
  "handle_https_proxy_request be net meth path http_version headers proxy_pass_url w =
     (case parse_proxy_url proxy_pass_url of None \<Rightarrow> Inr (-1, w)
      | Some u \<Rightarrow>
          (case connect_to_backend be (u_host u) (u_port u) of None \<Rightarrow> Inr (-1, w)
           | Some fd \<Rightarrow>
               bindR (build_proxy_request meth path http_version headers (u_host u) (u_port u)) (\<lambda>request.
               case exchange be request of None \<Rightarrow> Inr (-1, w)
               | Some bs \<Rightarrow> forward_https_response net bs w)))"

text \<open>
  The proxy over a group: \<open>t_select\<close> are the clock readings of the selection,
  \<open>t_connect\<close> and \<open>t_stats\<close> those of the connect and of the statistics, \<open>t_elapsed\<close> the measured time in milliseconds.
\<close>

definition set_server :: "nat \<Rightarrow> upstream_server \<Rightarrow> upstream_group \<Rightarrow> upstream_group" where
  "set_server i s g = g\<lparr>servers := (servers g)[i := s]\<rparr>"

definition update_server_stats :: "int \<Rightarrow> bool \<Rightarrow> rat \<Rightarrow> upstream_server \<Rightarrow> upstream_server" where
  "update_server_stats now success response_time s = lb_update_stats now success response_time s"

record lb_request =
  rq_method :: string
  rq_path :: string
  rq_version :: string
  rq_headers :: "string option"
  rq_ip :: "string option"

record lb_clock =
  t_select :: "nat \<Rightarrow> int"
  t_connect :: int
  t_stats :: int
  t_elapsed :: rat
  t_random :: nat

definition lb_proxy ::
  "(string option list \<Rightarrow> string \<Rightarrow> int \<times> string) \<Rightarrow> backend \<Rightarrow> lb_clock \<Rightarrow> lb_request \<Rightarrow>
   upstream_group \<Rightarrow> session_state \<Rightarrow> string \<Rightarrow> (int \<times> string \<times> upstream_group \<times> session_state) run" where
  "lb_proxy forward be clk rq g st w =
     bindR (lb_select_server (t_select clk) (t_random clk) (rq_ip rq) None g st) (\<lambda>(selection, g, st).
     case selection of None \<Rightarrow> Inr (-1, w, g, st)
     | Some sel \<Rightarrow>
         let i = sel_server sel;
             (backend_fd, s) = lb_connect_to_server (t_connect clk) (dial be) (servers g ! i)
         in if backend_fd < 0 then Inr (-1, w, set_server i s g, st)
            else bindR (build_lb_proxy_request (rq_method rq) (rq_path rq) (rq_version rq) (rq_headers rq) s (rq_ip rq)) (\<lambda>request.
              case exchange be request of
                None \<Rightarrow> Inr (-1, w, set_server i (lb_close_connection backend_fd s) g, st)
              | Some bs \<Rightarrow>
                  let (result, w) = forward bs w;
                      s = update_server_stats (t_stats clk) (result \<ge> 0) (t_elapsed clk) s
                  in Inr (result, w, set_server i (lb_close_connection backend_fd s) g, st)))"

fun update_group :: "string \<Rightarrow> upstream_group \<Rightarrow> upstream_group list \<Rightarrow> upstream_group list" where
  "update_group name g' [] = []"
| "update_group name g' (g # gs) = (if g_name g = name then g' # gs else g # update_group name g' gs)"

definition lb_proxy_config ::
  "(string option list \<Rightarrow> string \<Rightarrow> int \<times> string) \<Rightarrow> backend \<Rightarrow> lb_clock \<Rightarrow> lb_request \<Rightarrow> string \<Rightarrow>
   lb_config option \<Rightarrow> session_state \<Rightarrow> string \<Rightarrow> (int \<times> string \<times> lb_config option \<times> session_state) run" where
  "lb_proxy_config forward be clk rq upstream_name config st w =
     (case config of None \<Rightarrow> Inr (-1, w, None, st)
      | Some c \<Rightarrow>
          (case lb_config_get_group c upstream_name of None \<Rightarrow> Inr (-1, w, Some c, st)
           | Some g \<Rightarrow>
               bindR (lb_proxy forward be clk rq g st w) (\<lambda>(result, w, g, st).
               Inr (result, w, Some (c\<lparr>groups := update_group upstream_name g (groups c)\<rparr>), st))))"

definition handle_lb_proxy_request ::
  "backend \<Rightarrow> transport \<Rightarrow> lb_clock \<Rightarrow> lb_request \<Rightarrow> string \<Rightarrow> lb_config option \<Rightarrow> session_state \<Rightarrow> string \<Rightarrow>
   (int \<times> string \<times> lb_config option \<times> session_state) run" where
  "handle_lb_proxy_request be net = lb_proxy_config (forward_lb_response net) be"

definition handle_lb_https_proxy_request ::
  "backend \<Rightarrow> transport \<Rightarrow> lb_clock \<Rightarrow> lb_request \<Rightarrow> string \<Rightarrow> lb_config option \<Rightarrow> session_state \<Rightarrow> string \<Rightarrow>
   (int \<times> string \<times> lb_config option \<times> session_state) run" where
  "handle_lb_https_proxy_request be net = lb_proxy_config (forward_lb_https_response net) be"

section \<open>Urls are read back\<close>

definition url_text :: "string \<Rightarrow> string \<Rightarrow> int option \<Rightarrow> string \<Rightarrow> string" where
  "url_text scheme h pt path =
     scheme @ ''://'' @ h @ (case pt of None \<Rightarrow> [] | Some n \<Rightarrow> '':'' @ print_int n) @ path"

lemma starts_with_cons: "starts_with (a # p) (b # s) \<longleftrightarrow> a = b \<and> starts_with p s" "starts_with [] s"
  by (auto simp: starts_with_def)

lemma url_scheme_text:
  "scheme = ''http'' \<Longrightarrow> url_scheme (url_text scheme h pt path) = (''http'', 80, drop 7 (url_text scheme h pt path))"
  "scheme = ''https'' \<Longrightarrow> url_scheme (url_text scheme h pt path) = (''https'', 443, drop 8 (url_text scheme h pt path))"
  by (simp_all add: url_scheme_def url_text_def starts_with_cons)

lemma strchr_skip: "c \<notin> set h \<Longrightarrow> strchr (h @ s) c = strchr s c"
  by (induction h) auto

lemma digit_not: "list_all isdigit ds \<Longrightarrow> CHR ''/'' \<notin> set ds" "list_all isdigit ds \<Longrightarrow> CHR '':'' \<notin> set ds"
  by (auto simp: list_all_iff isdigit_def)

lemma parse_after_scheme:
  assumes "url_scheme url = (scheme, dport, h @ (case pt of None \<Rightarrow> [] | Some n \<Rightarrow> '':'' @ print_int n) @ path)"
    and "CHR '':'' \<notin> set h" "CHR ''/'' \<notin> set h" "path = [] \<or> hd path = CHR ''/''"
    and "\<And>n. pt = Some n \<Longrightarrow> 0 \<le> n \<and> n < 2 ^ 31"
  shows "parse_proxy_url (Some url) = Some \<lparr>u_protocol = scheme, u_host = h,
    u_port = (case pt of None \<Rightarrow> dport | Some n \<Rightarrow> n), u_path = (if path = [] then ''/'' else path)\<rparr>"
proof (cases pt)
  case None
  show ?thesis
  proof (cases path)
    case Nil
    then show ?thesis using assms None
      by (simp add: parse_proxy_url_def strchr_skip [where s = "[]", simplified])
  next
    case (Cons c cs)
    then have c: "path = CHR ''/'' # cs" using assms(4) by simp
    have f: "strchr (h @ path) CHR ''/'' = Some path" using assms(3) c by (simp add: strchr_skip)
    show ?thesis
    proof (cases "strchr cs CHR '':''")
      case None: None
      then have "strchr (h @ path) CHR '':'' = None" using assms(2) c by (simp add: strchr_skip)
      then show ?thesis using assms(1) f None \<open>pt = None\<close> c by (simp add: parse_proxy_url_def)
    next
      case (Some t)
      then have "strchr (h @ path) CHR '':'' = Some t" using assms(2) c by (simp add: strchr_skip)
      moreover have "length t \<le> length cs" using strchr_Some [OF Some] by (metis length_append le_add2)
      ultimately show ?thesis using assms(1) f \<open>pt = None\<close> c by (simp add: parse_proxy_url_def)
    qed
  qed
next
  case (Some n)
  let ?ds = "print_int n"
  have ds: "list_all isdigit ?ds" "atoi ?ds = n"
    using assms(5) [OF Some] print_int_digits atoi_print_int by auto
  have colon: "strchr (h @ CHR '':'' # ?ds @ path) CHR '':'' = Some (CHR '':'' # ?ds @ path)"
    using assms(2) by (simp add: strchr_skip)
  have bef: "before (h @ CHR '':'' # ?ds @ path) (CHR '':'' # ?ds @ path) = h" by simp
  show ?thesis
  proof (cases path)
    case Nil
    have "strchr (h @ CHR '':'' # ?ds) CHR ''/'' = None" "strchr ?ds CHR ''/'' = None"
      using assms(3) digit_not(1) [OF ds(1)] by (simp_all add: cstr_simps)
    then show ?thesis using assms(1) colon bef ds(2) Some Nil by (simp add: parse_proxy_url_def)
  next
    case (Cons c cs)
    then have c: "path = CHR ''/'' # cs" using assms(4) by simp
    have s: "strchr (?ds @ path) CHR ''/'' = Some path" using digit_not(1) [OF ds(1)] c by (simp add: strchr_skip)
    then have "strchr (h @ CHR '':'' # ?ds @ path) CHR ''/'' = Some path" using assms(3) by (simp add: strchr_skip)
    with s show ?thesis using assms(1) colon bef ds(2) Some c by (simp add: parse_proxy_url_def)
  qed
qed

section \<open>The text of a request\<close>

text \<open>With any lengths: what is kept is a prefix, and the length counts what did not fit.\<close>

lemma snprintf_all_text:
  assumes "buf = take (n - 1) s" "len = length s" "ps \<noteq> []" "0 < n"
  shows "snprintf_all n ps (buf, len) =
    (if length (s @ concat (butlast ps)) > n then Inl OutOfRange
     else Inr (take (n - 1) (s @ concat ps), length (s @ concat ps)))"
  using assms
proof (induction ps arbitrary: buf len s)
  case (Cons p ps)
  show ?case
  proof (cases "length s > n")
    case True
    then show ?thesis using Cons.prems by (cases ps) (auto simp: snprintf_at_def)
  next
    case False
    have k: "snprintf n (buf @ p) = take (n - 1) (s @ p)"
      using Cons.prems(1) False by (cases "length s = n") (auto simp: snprintf_def)
    show ?thesis
    proof (cases ps)
      case Nil
      then show ?thesis using False k Cons.prems by (simp add: snprintf_at_def)
    next
      case (Cons q qs)
      then have "ps \<noteq> []" by simp
      from Cons.IH [OF refl refl this Cons.prems(4), of "s @ p"] show ?thesis
        using False k Cons.prems \<open>ps = q # qs\<close> by (simp add: snprintf_at_def)
    qed
  qed
qed simp

lemma snprintf_all_start:
  assumes "ps \<noteq> []" "0 < n"
  shows "snprintf_all n ps ([], 0) =
    (if length (concat (butlast ps)) > n then Inl OutOfRange else Inr (take (n - 1) (concat ps), length (concat ps)))"
  using snprintf_all_text [of "[]" n "[]" 0 ps] assms by simp

definition lb_request_lines ::
  "string \<Rightarrow> string \<Rightarrow> string \<Rightarrow> string option \<Rightarrow> upstream_server \<Rightarrow> string option \<Rightarrow> string list" where
  "lb_request_lines meth path version headers server ip =
     [meth @ '' '' @ path @ '' '' @ version, ''Host: '' @ host server @ '':'' @ print_int (port server)] @
     (case ip of None \<Rightarrow> [] | Some a \<Rightarrow> [''X-Forwarded-For: '' @ a]) @
     [''X-Forwarded-Proto: http'', ''X-Real-IP: '' @ (case ip of None \<Rightarrow> ''unknown'' | Some a \<Rightarrow> a),
      ''X-Load-Balancer: ANX-LB/1.0''] @
     filter lb_forwarded_line (header_lines headers) @ [''Connection: close'']"

lemma lb_request_text:
  "build_lb_proxy_request meth path version headers server ip =
     (let text = message (lb_request_lines meth path version headers server ip) [] in
      if length text > 8194 then Inl OutOfRange else Inr (take 8191 text))"
proof -
  define ps where "ps = [meth @ '' '' @ path @ '' '' @ version @ crlf,
       ''Host: '' @ host server @ '':'' @ print_int (port server) @ crlf] @
      (case ip of None \<Rightarrow> [] | Some a \<Rightarrow> [''X-Forwarded-For: '' @ a @ crlf]) @
      [''X-Forwarded-Proto: http'' @ crlf,
       ''X-Real-IP: '' @ (case ip of None \<Rightarrow> ''unknown'' | Some a \<Rightarrow> a) @ crlf,
       ''X-Load-Balancer: ANX-LB/1.0'' @ crlf] @
      List.map (\<lambda>l. l @ crlf) (filter lb_forwarded_line (header_lines headers)) @
      [''Connection: close'' @ crlf]"
  have t: "concat (ps @ [crlf]) = message (lb_request_lines meth path version headers server ip) []"
    by (cases ip) (simp_all add: ps_def message_def head_text_def lb_request_lines_def)
  have "build_lb_proxy_request meth path version headers server ip =
      bindR (snprintf_all 8192 (ps @ [crlf]) ([], 0)) (\<lambda>(buf, _). Inr buf)"
    by (simp add: build_lb_proxy_request_def ps_def)
  also have "\<dots> = (if length (concat (ps @ [crlf])) > 8194 then Inl OutOfRange else Inr (take 8191 (concat (ps @ [crlf]))))"
    by (simp add: snprintf_all_start) (simp add: crlf_def)
  finally show ?thesis by (simp only: t Let_def)
qed

lemma header_lines_message:
  assumes "\<forall>l\<in>set ls. line_ok l"
  shows "header_lines (Some (message ls [])) = ls"
proof -
  have sep: "strtok_all {CHR 0x0D, CHR 0x0A} (crlf @ s) = strtok_all {CHR 0x0D, CHR 0x0A} s" for s
    by (simp add: crlf_def strtok_all.simps [of _ "CHR 0x0D # CHR 0x0A # s"] strtok_all.simps [of _ s])
  have "strtok_all {CHR 0x0D, CHR 0x0A} (head_text ls @ crlf) = ls"
    using assms
  proof (induction ls)
    case Nil
    show ?case using sep [of "[]"] by (simp add: head_text_def)
  next
    case (Cons l ls)
    then have "strtok_all {CHR 0x0D, CHR 0x0A} (l @ CHR 0x0D # CHR 0x0A # head_text ls @ crlf) =
        l # strtok_all {CHR 0x0D, CHR 0x0A} (CHR 0x0A # head_text ls @ crlf)"
      by (intro strtok_all_cons) (auto simp: line_ok_def)
    moreover have "strtok_all {CHR 0x0D, CHR 0x0A} (CHR 0x0A # u) = strtok_all {CHR 0x0D, CHR 0x0A} u" for u
      by (simp add: strtok_all.simps [of _ "CHR 0x0A # u"] strtok_all.simps [of _ u])
    moreover have "head_text (l # ls) @ crlf = l @ CHR 0x0D # CHR 0x0A # head_text ls @ crlf"
      by (simp add: head_text_def crlf_def)
    ultimately show ?case using Cons by simp
  qed
  then show ?thesis by (simp add: header_lines_def message_def)
qed

lemma header_lines_ok: "l \<in> set (header_lines h) \<Longrightarrow> line_ok l"
  using strtok_all_ne by (cases h) (fastforce simp: header_lines_def line_ok_def)+

definition clean :: "string \<Rightarrow> bool" where
  "clean s \<longleftrightarrow> CHR 0x0D \<notin> set s \<and> CHR 0x0A \<notin> set s"

lemma clean_print_int: "0 \<le> p \<Longrightarrow> clean (print_int p)"
  using print_int_digits [of p] by (auto simp: clean_def list_all_iff isdigit_def)

lemma lb_request_lines_ok:
  assumes "clean meth" "clean path" "clean version" "clean (host server)" "0 \<le> port server"
    and "case ip of None \<Rightarrow> True | Some a \<Rightarrow> clean a"
  shows "\<forall>l\<in>set (lb_request_lines meth path version headers server ip). line_ok l"
  using assms clean_print_int [OF assms(5)] header_lines_ok
  by (cases ip) (auto simp: lb_request_lines_def line_ok_def clean_def)

section \<open>Forwarding to an honest client\<close>

lemma forward_response_all:
  assumes "takes_all net" "\<forall>b\<in>set bs. b \<noteq> []"
  shows "snd (forward_response net (List.map Some bs) tot w) = w @ concat bs"
    "to_int32 tot = tot \<Longrightarrow> fst (forward_response net (List.map Some bs) tot w) = to_int32 (tot + int (length (concat bs)))"
proof -
  have "to_int32 (to_int32 a + b) = to_int32 (a + b)" for a b
  proof -
    have "signed_take_bit 31 (signed_take_bit 31 a + b) =
        signed_take_bit 31 (signed_take_bit 31 (signed_take_bit 31 a) + signed_take_bit 31 b)"
      by (simp only: signed_take_bit_add)
    also have "\<dots> = signed_take_bit 31 (signed_take_bit 31 a + signed_take_bit 31 b)"
      by (simp only: signed_take_bit_signed_take_bit min.idem)
    also have "\<dots> = signed_take_bit 31 (a + b)" by (simp only: signed_take_bit_add)
    finally show ?thesis by (simp only: to_int32_def)
  qed
  moreover have "to_int32 (to_int32 a) = to_int32 a" for a by (simp add: to_int32_def)
  ultimately show "snd (forward_response net (List.map Some bs) tot w) = w @ concat bs"
    "to_int32 tot = tot \<Longrightarrow> fst (forward_response net (List.map Some bs) tot w) = to_int32 (tot + int (length (concat bs)))"
    using assms by (induction bs arbitrary: tot w) (auto simp: takes_all_def add.assoc)
qed

lemma forward_ssl_all:
  assumes "takes_all net" "\<forall>b\<in>set bs. b \<noteq> []" "0 \<le> tot" "tot + int (length (concat bs)) < 2 ^ 31"
  shows "forward_ssl net (List.map Some bs) tot w = (tot + int (length (concat bs)), w @ concat bs)"
  using assms(2-) by (induction bs arbitrary: tot w) (use assms(1) in \<open>simp_all add: takes_all_def to_int32_id\<close>)

definition plain_block :: "string \<Rightarrow> bool" where
  "plain_block b \<longleftrightarrow> strstr b blank_line = None"

text \<open>How much of the response is collected before it is sent: up to the first blank line that
  lies within one block, or all of it.\<close>

definition collected :: "string list \<Rightarrow> nat" where
  "collected bs = length (concat (takeWhile plain_block bs)) +
     (case dropWhile plain_block bs of [] \<Rightarrow> 0
      | b # _ \<Rightarrow> length b - length (the (strstr b blank_line)) + 4)"

lemma ssl_head_all:
  assumes "takes_all net" "\<forall>b\<in>set bs. b \<noteq> []" "length hdr \<le> 4096"
  shows "ssl_head net (List.map Some bs) hdr w =
    (if length hdr + collected bs > 4096 then Inl OutOfRange
     else case dropWhile plain_block bs of
            [] \<Rightarrow> Inr (0, w, [])
          | b # cs \<Rightarrow> Inr (int (length (hdr @ concat (takeWhile plain_block bs) @ b)),
                         w @ hdr @ concat (takeWhile plain_block bs) @ b, List.map Some cs))"
  using assms(2,3)
proof (induction bs arbitrary: hdr)
  case Nil
  then show ?case by (simp add: collected_def)
next
  case (Cons b bs)
  show ?case
  proof (cases "plain_block b")
    case True
    then have c: "collected (b # bs) = length b + collected bs" by (simp add: collected_def)
    show ?thesis
    proof (cases "length hdr + length b > 4096")
      case True
      with Cons \<open>plain_block b\<close> c show ?thesis by (simp add: plain_block_def)
    next
      case False
      with Cons.prems \<open>plain_block b\<close>
      have "ssl_head net (List.map Some (b # bs)) hdr w = ssl_head net (List.map Some bs) (hdr @ b) w"
        by (simp add: plain_block_def)
      also have "\<dots> = (if length (hdr @ b) + collected bs > 4096 then Inl OutOfRange
         else case dropWhile plain_block bs of
            [] \<Rightarrow> Inr (0, w, [])
          | b' # cs \<Rightarrow> Inr (int (length ((hdr @ b) @ concat (takeWhile plain_block bs) @ b')),
                         w @ (hdr @ b) @ concat (takeWhile plain_block bs) @ b', List.map Some cs))"
        using Cons.prems False by (intro Cons.IH) simp_all
      finally show ?thesis using c True by (simp add: add.assoc cong: list.case_cong)
    qed
  next
    case False
    then obtain t where t: "strstr b blank_line = Some t" by (auto simp: plain_block_def)
    define k where "k = length b - length t + 4"
    obtain u v where uv: "b = u @ t" "t = blank_line @ v" using strstr_Some [OF t] by blast
    then have k: "k \<le> length b" "0 < k" by (simp_all add: k_def blank_line_def crlf_def)
    have c: "collected (b # bs) = k" using False t by (simp add: collected_def k_def)
    have l: "length (hdr @ take k b) = length hdr + k" using k by simp
    have h: "net w (hdr @ take k b) = int (length hdr + k)" using assms(1) l by (simp add: takes_all_def)
    have n: "nat (int (length hdr) + int k) - length hdr = k" by simp
    have r: "net w' (drop k b) = int (length b - k)" for w' using assms(1) by (simp add: takes_all_def)
    have "ssl_head net (List.map Some (b # bs)) hdr w =
        (if length hdr + k > 4096 then Inl OutOfRange
         else if drop k b = [] then Inr (int (length hdr + k), w @ hdr @ take k b, List.map Some bs)
         else Inr (int (length hdr + k) + int (length b - k), w @ hdr @ take k b @ drop k b, List.map Some bs))"
      using Cons.prems(1) t k h r l n unfolding k_def [symmetric]
      by (simp add: Let_def k_def [symmetric] del: append_take_drop_id)
    also have "\<dots> = (if length hdr + k > 4096 then Inl OutOfRange
        else Inr (int (length (hdr @ b)), w @ hdr @ b, List.map Some bs))"
      using k by (cases "k = length b") simp_all
    finally show ?thesis using False c by simp
  qed
qed

lemma https_response:
  assumes "takes_all net" "\<forall>b\<in>set bs. b \<noteq> []" "length (concat bs) < 2 ^ 31"
  shows "forward_https_response net (List.map Some bs) w =
    (if collected bs > 4096 then Inl OutOfRange
     else if list_all plain_block bs then Inr (0, w)
     else Inr (int (length (concat bs)), w @ concat bs))"
proof (cases "dropWhile plain_block bs")
  case Nil
  then have "list_all plain_block bs" by (simp add: list_all_iff dropWhile_eq_Nil_conv)
  moreover have "ssl_head net (List.map Some bs) [] w = (if collected bs > 4096 then Inl OutOfRange else Inr (0, w, []))"
    using ssl_head_all [OF assms(1,2), of "[]" w] unfolding Nil by simp
  ultimately show ?thesis by (simp add: forward_https_response_def)
next
  case (Cons b cs)
  then have "\<not> list_all plain_block bs" by (metis dropWhile_eq_Nil_conv list.distinct(1) list_all_iff)
  moreover have split: "bs = takeWhile plain_block bs @ b # cs" using Cons by (metis takeWhile_dropWhile_id)
  have "forward_ssl net (List.map Some cs) (int (length (concat (takeWhile plain_block bs) @ b))) v =
      (int (length (concat bs)), v @ concat cs)" for v
  proof -
    have l: "length (concat bs) = length (concat (takeWhile plain_block bs) @ b) + length (concat cs)"
      by (subst split) simp
    have "\<forall>b\<in>set cs. b \<noteq> []" using assms(2) split by (metis UnCI list.set_intros(2) set_append)
    with forward_ssl_all [OF assms(1), of cs "int (length (concat (takeWhile plain_block bs) @ b))" v] assms(3) l
    show ?thesis by simp
  qed
  moreover have "w @ concat bs = w @ (concat (takeWhile plain_block bs) @ b) @ concat cs" by (subst split) simp
  ultimately show ?thesis
    using ssl_head_all [OF assms(1,2), of "[]" w] Cons by (simp add: forward_https_response_def)
qed

section \<open>The proxy over a group\<close>

lemma select_frame:
  assumes "\<not> session_persistence g" "lb_select_server now r ip None g st = Inr (res, g', st')"
  shows "st' = st \<and> length (servers g') = length (servers g) \<and>
    (\<forall>j<length (servers g).
       current_connections (servers g' ! j) = current_connections (servers g ! j) \<and>
       srv_total_requests (servers g' ! j) = srv_total_requests (servers g ! j) +
         (if map_option sel_server res = Some j then 1 else 0)) \<and>
    (\<forall>sel. res = Some sel \<longrightarrow> sel_server sel < length (servers g))"
proof (cases "server_count g = 0")
  case True
  with assms(2) show ?thesis by (simp add: lb_select_server_def)
next
  case False
  have ses: "lb_session_server now ip None g st = Inr (None, g, st)"
    using assms(1) by (simp add: lb_session_server_def)
  obtain p g1 where p: "lb_pick (\<lambda>k. now (k + 2)) r ip g = Inr (p, g1)"
    using assms(2) False by (cases "lb_pick (\<lambda>k. now (k + 2)) r ip g") (auto simp: lb_select_server_def ses)
  have fr: "same_group g g1" by (rule any_strategy.pick_frame [OF p])
  then have np: "\<not> session_persistence g1" and len: "length (servers g1) = length (servers g)"
    and id: "\<forall>j<length (servers g). same_identity (servers g ! j) (servers g1 ! j)"
    using assms(1) by (auto simp: same_group_def list_all2_conv_all_nth)
  show ?thesis
  proof (cases p)
    case None
    with assms(2) False p id len show ?thesis by (auto simp: lb_select_server_def ses same_identity_def)
  next
    case (Some i)
    with assms(2) False p np have res: "res = Some \<lparr>sel_server = i, proxy_url = lb_build_proxy_url (servers g1 ! i), connection_id = 0\<rparr>"
      "st' = st" "servers g' = (servers g1)[i := (servers g1 ! i)\<lparr>srv_total_requests := srv_total_requests (servers g1 ! i) + 1\<rparr>]"
      by (auto simp: lb_select_server_def ses Let_def)
    have "i < length (servers g)" using any_strategy.pick_usable [OF p [unfolded Some]] by blast
    with res id len show ?thesis by (auto simp: nth_list_update same_identity_def)
  qed
qed

lemma connect_cases:
  obtains "lb_connect_to_server t d s = (-1, settle t s)"
  | fd where "d (host s) (port s) = Some fd" "lb_connect_to_server t d s = (fd, lb_update_connection_count 1 (settle t s))"
proof -
  have "host (settle t s) = host s" "port (settle t s) = port s" by (simp_all add: settle_def)
  then show ?thesis using that by (cases "usable t s"; cases "d (host s) (port s)") (auto simp: lb_connect_to_server_def available_eq)
qed

lemma settle_frame [simp]:
  "current_connections (settle t s) = current_connections s" "srv_total_requests (settle t s) = srv_total_requests s"
  "srv_failed_requests (settle t s) = srv_failed_requests s"
  by (simp_all add: settle_def)

definition no_negative :: "backend \<Rightarrow> bool" where
  "no_negative be \<longleftrightarrow> (\<forall>h p fd. dial be h p = Some fd \<longrightarrow> 0 \<le> fd)"

lemma proxy_outcome:
  assumes "no_negative be" "lb_select_server (t_select clk) (t_random clk) (rq_ip rq) None g st = Inr (Some sel, g1, st1)"
    and "lb_proxy forward be clk rq g st w = Inr (result, w', g', st')"
    and "0 \<le> current_connections (servers g1 ! sel_server sel)"
  shows "st' = st1 \<and> (\<exists>s. g' = set_server (sel_server sel) s g1 \<and>
    current_connections s = current_connections (servers g1 ! sel_server sel) \<and>
    srv_total_requests s = srv_total_requests (servers g1 ! sel_server sel) + (if 0 \<le> result then 1 else 0))"
proof -
  let ?i = "sel_server sel"
  let ?s = "servers g1 ! ?i"
  consider "lb_connect_to_server (t_connect clk) (dial be) ?s = (-1, settle (t_connect clk) ?s)"
    | fd where "dial be (host ?s) (port ?s) = Some fd"
        "lb_connect_to_server (t_connect clk) (dial be) ?s = (fd, lb_update_connection_count 1 (settle (t_connect clk) ?s))"
    using connect_cases by blast
  then show ?thesis
  proof cases
    case 1
    with assms(2,3) show ?thesis by (auto simp: lb_proxy_def Let_def)
  next
    case (2 fd)
    then have fd: "0 \<le> fd" using assms(1) by (auto simp: no_negative_def)
    let ?c = "lb_update_connection_count 1 (settle (t_connect clk) ?s)"
    obtain request where rq: "build_lb_proxy_request (rq_method rq) (rq_path rq) (rq_version rq) (rq_headers rq) ?c (rq_ip rq) = Inr request"
      using assms(2,3) 2(2) fd by (cases "build_lb_proxy_request (rq_method rq) (rq_path rq) (rq_version rq) (rq_headers rq) ?c (rq_ip rq)")
        (auto simp: lb_proxy_def Let_def)
    show ?thesis
    proof (cases "exchange be request")
      case None
      with assms(2,3,4) 2(2) fd rq show ?thesis
        by (auto simp: lb_proxy_def Let_def lb_close_connection_def lb_update_connection_count_def)
    next
      case (Some bs)
      obtain rs v where f: "forward bs w = (rs, v)" by fastforce
      with Some assms(2,3,4) 2(2) fd rq show ?thesis
        by (auto simp: lb_proxy_def Let_def lb_close_connection_def lb_update_connection_count_def
            update_server_stats_def lb_update_stats_def)
    qed
  qed
qed

lemma proxy_balanced:
  assumes "\<not> session_persistence g" "\<forall>s\<in>set (servers g). 0 \<le> current_connections s" "no_negative be"
    and "lb_proxy forward be clk rq g st w = Inr (result, w', g', st')"
  shows "st' = st \<and> length (servers g') = length (servers g) \<and>
    (\<forall>j<length (servers g). current_connections (servers g' ! j) = current_connections (servers g ! j)) \<and>
    (\<exists>sel. \<forall>j<length (servers g). srv_total_requests (servers g' ! j) = srv_total_requests (servers g ! j) +
       (if sel = Some j then if 0 \<le> result then 2 else 1 else 0))"
proof -
  obtain res g1 st1 where s: "lb_select_server (t_select clk) (t_random clk) (rq_ip rq) None g st = Inr (res, g1, st1)"
    using assms(4) by (cases "lb_select_server (t_select clk) (t_random clk) (rq_ip rq) None g st") (auto simp: lb_proxy_def)
  note fr = select_frame [OF assms(1) s]
  show ?thesis
  proof (cases res)
    case None
    with s assms(4) have "g' = g1" "st' = st1" by (simp_all add: lb_proxy_def)
    with fr None show ?thesis by (intro conjI exI [of _ None]) auto
  next
    case (Some sel)
    let ?i = "sel_server sel"
    have i: "?i < length (servers g)" using fr Some by auto
    then have "0 \<le> current_connections (servers g1 ! ?i)" using fr assms(2) by auto
    from proxy_outcome [OF assms(3) s [unfolded Some] assms(4) this] obtain s' where
      o: "st' = st1" "g' = set_server ?i s' g1" "current_connections s' = current_connections (servers g1 ! ?i)"
        "srv_total_requests s' = srv_total_requests (servers g1 ! ?i) + (if 0 \<le> result then 1 else 0)" by blast
    show ?thesis
      using fr i Some o by (intro conjI exI [of _ "Some ?i"]) (auto simp: set_server_def nth_list_update)
  qed
qed

text \<open>Least connections over servers that stay ready: the first minimum is selected.\<close>

lemma least_scan_none:
  "\<forall>s\<in>set ss. ready s \<and> m \<le> current_connections s \<Longrightarrow> least_scan now i ss best m = (ss, best)"
  by (induction ss arbitrary: i) (auto simp: available_eq ready_usable)

lemma least_scan_ready:
  assumes "\<forall>s\<in>set ss. ready s" "k < length ss" "current_connections (ss ! k) < m"
    and "\<forall>j<k. current_connections (ss ! k) < current_connections (ss ! j)"
    and "\<forall>j<length ss. current_connections (ss ! k) \<le> current_connections (ss ! j)"
  shows "least_scan now i ss best m = (ss, Some (i + k))"
  using assms
proof (induction ss arbitrary: i k best m)
  case (Cons s ss)
  show ?case
  proof (cases k)
    case 0
    then have "\<forall>t\<in>set ss. ready t \<and> current_connections s \<le> current_connections t"
      using Cons.prems(1,5) by (fastforce simp: in_set_conv_nth)
    with Cons.prems(1,3) 0 show ?thesis by (simp add: available_eq ready_usable least_scan_none)
  next
    case (Suc k')
    have r: "usable (now i) s" "settle (now i) s = s" using Cons.prems(1) ready_usable by auto
    have lt: "current_connections (ss ! k') < current_connections s" using Cons.prems(4) Suc by fastforce
    have p: "\<forall>j<k'. current_connections (ss ! k') < current_connections (ss ! j)"
      "\<forall>j<length ss. current_connections (ss ! k') \<le> current_connections (ss ! j)"
      using Cons.prems(4,5) Suc by fastforce+
    have "least_scan now (Suc i) ss b n = (ss, Some (Suc i + k'))" if "current_connections (ss ! k') < n" for b n
      using Cons.IH [of k' n "Suc i" b] Cons.prems(1,2) Suc p that by simp
    with r lt Cons.prems(3) Suc show ?thesis by (simp add: available_eq)
  qed
qed simp

definition black_hole :: "backend \<Rightarrow> nat \<Rightarrow> upstream_group \<Rightarrow> bool" where
  "black_hole be k g \<longleftrightarrow> g_strategy g = LB_STRATEGY_LEAST_CONNECTIONS \<and> \<not> session_persistence g \<and>
     server_count g = length (servers g) \<and> list_all ready (servers g) \<and> k < length (servers g) \<and>
     current_connections (servers g ! k) < 2 ^ 31 - 1 \<and>
     (\<forall>j<k. current_connections (servers g ! k) < current_connections (servers g ! j)) \<and>
     (\<forall>j<length (servers g). current_connections (servers g ! k) \<le> current_connections (servers g ! j)) \<and>
     dial be (host (servers g ! k)) (port (servers g ! k)) = None"

definition failure_counts :: "upstream_group \<Rightarrow> (int \<times> int \<times> server_status_t) list" where
  "failure_counts g = List.map (\<lambda>s. (srv_failed_requests s, consecutive_failures s, status s)) (servers g)"

lemma black_hole_step:
  assumes "black_hole be k g"
  shows "\<exists>g'. lb_proxy forward be clk rq g st w = Inr (-1, w, g', st) \<and> black_hole be k g' \<and>
    failure_counts g' = failure_counts g"
proof -
  let ?s = "servers g ! k"
  let ?s' = "?s\<lparr>srv_total_requests := srv_total_requests ?s + 1\<rparr>"
  let ?g = "g\<lparr>servers := (servers g)[k := ?s'], total_requests := total_requests g + 1\<rparr>"
  have a: "list_all ready (servers g)" "k < length (servers g)" "server_count g \<noteq> 0"
    using assms by (auto simp: black_hole_def)
  have "least_scan n 0 (servers g) None (2 ^ 31 - 1) = (servers g, Some k)" for n
    using least_scan_ready [of "servers g" k "2 ^ 31 - 1" n 0 None] assms by (auto simp: black_hole_def list_all_iff)
  then have sel: "lb_select_server n r ip None g st = Inr (Some \<lparr>sel_server = k, proxy_url = lb_build_proxy_url ?s, connection_id = 0\<rparr>, ?g, st)" for n r ip
    using assms a(3) by (simp add: black_hole_def lb_select_server_def lb_session_server_def lb_pick_def lb_least_connections_def Let_def)
  have r: "ready ?s'" using a by (simp add: list_all_length ready_def)
  then have "upstream_server_is_available t ?s' = (True, ?s')" for t by (simp add: available_eq ready_usable)
  then have con: "lb_connect_to_server t (dial be) ?s' = (-1, ?s')" for t
    using assms by (simp add: lb_connect_to_server_def black_hole_def)
  have run: "lb_proxy forward be clk rq g st w = Inr (-1, w, ?g, st)"
    using sel con a(2) by (simp add: lb_proxy_def set_server_def Let_def)
  moreover have "black_hole be k ?g"
    using assms r by (auto simp: black_hole_def list_all_length nth_list_update)
  moreover have "failure_counts ?g = failure_counts g"
    using a(2) by (auto simp: failure_counts_def map_update intro!: list_update_same_conv [THEN iffD2])
  ultimately show ?thesis by blast
qed

fun lb_requests ::
  "(string option list \<Rightarrow> string \<Rightarrow> int \<times> string) \<Rightarrow> backend \<Rightarrow> (lb_clock \<times> lb_request) list \<Rightarrow>
   upstream_group \<Rightarrow> session_state \<Rightarrow> string \<Rightarrow> (int list \<times> string \<times> upstream_group \<times> session_state) run" where
  "lb_requests forward be [] g st w = Inr ([], w, g, st)"
| "lb_requests forward be ((clk, rq) # rqs) g st w =
     bindR (lb_proxy forward be clk rq g st w) (\<lambda>(r, w, g, st).
     bindR (lb_requests forward be rqs g st w) (\<lambda>(rs, w, g, st). Inr (r # rs, w, g, st)))"

section \<open>Properties\<close>

text \<open>C17. A proxy_pass url is read back: scheme, host, an optional port and an optional path that
begins with a slash give the fields they were printed from, with the default port of the scheme
and the root path where they are left out.\<close>

theorem proxy_url_roundtrip:
  assumes "scheme = ''http'' \<or> scheme = ''https''" "CHR '':'' \<notin> set h" "CHR ''/'' \<notin> set h"
    and "path = [] \<or> hd path = CHR ''/''" "\<And>n. pt = Some n \<Longrightarrow> 0 \<le> n \<and> n < 2 ^ 31"
  shows "parse_proxy_url (Some (url_text scheme h pt path)) = Some \<lparr>u_protocol = scheme, u_host = h,
    u_port = (case pt of None \<Rightarrow> if scheme = ''http'' then 80 else 443 | Some n \<Rightarrow> n),
    u_path = (if path = [] then ''/'' else path)\<rparr>"
proof (rule disjE [OF assms(1)])
  assume s: "scheme = ''http''"
  then have "url_scheme (url_text scheme h pt path) = (scheme, 80, h @ (case pt of None \<Rightarrow> [] | Some n \<Rightarrow> '':'' @ print_int n) @ path)"
    by (simp add: url_scheme_text) (simp add: url_text_def)
  from parse_after_scheme [OF this assms(2-5)] s show ?thesis by simp
next
  assume s: "scheme = ''https''"
  then have "url_scheme (url_text scheme h pt path) = (scheme, 443, h @ (case pt of None \<Rightarrow> [] | Some n \<Rightarrow> '':'' @ print_int n) @ path)"
    by (simp add: url_scheme_text) (simp add: url_text_def)
  from parse_after_scheme [OF this assms(2-5)] s show ?thesis by simp
qed

theorem proxy_url_roundtrip_witness:
  "parse_proxy_url (Some (url_text ''https'' ''backend'' (Some 8443) ''/v1:x'')) =
    Some \<lparr>u_protocol = ''https'', u_host = ''backend'', u_port = 8443, u_path = ''/v1:x''\<rparr>"
  using proxy_url_roundtrip [of "''https''" "''backend''" "''/v1:x''" "Some 8443"] by simp

text \<open>C18. The request to a balanced server: with clean parts and a text that fits the buffer of 8192
bytes the request is exactly its lines and a blank line, and a reader of the lines gets the
request line, one Host line with the server's address, the client address in X-Forwarded-For and
X-Real-IP, then the client's header lines in order without its own Host, Connection,
X-Forwarded- and X-Real-IP lines, then Connection: close. A longer text loses its end, and
behind 8194 bytes snprintf is called on a pointer outside of the buffer.\<close>

theorem lb_request_wire:
  assumes "clean meth" "clean path" "clean version" "clean (host server)" "0 \<le> port server"
    and "case ip of None \<Rightarrow> True | Some a \<Rightarrow> clean a"
  shows "let ls = lb_request_lines meth path version headers server ip; text = message ls [] in
    build_lb_proxy_request meth path version headers server ip =
      (if length text \<le> 8191 then Inr text
       else if length text \<le> 8194 then Inr (take 8191 text) else Inl OutOfRange) \<and>
    header_lines (Some text) = ls \<and>
    list_all (\<lambda>l. \<not> starts_with_ci ''host:'' l \<and> \<not> starts_with_ci ''connection:'' l \<and>
        \<not> starts_with_ci ''x-forwarded-'' l \<and> \<not> starts_with_ci ''x-real-ip:'' l)
      (drop (if ip = None then 5 else 6) (butlast ls))"
proof -
  let ?ls = "lb_request_lines meth path version headers server ip"
  have "list_all lb_forwarded_line (drop (if ip = None then 5 else 6) (butlast ?ls))"
    by (cases ip) (simp_all add: lb_request_lines_def butlast_append list_all_iff)
  then have "list_all (\<lambda>l. \<not> starts_with_ci ''host:'' l \<and> \<not> starts_with_ci ''connection:'' l \<and>
        \<not> starts_with_ci ''x-forwarded-'' l \<and> \<not> starts_with_ci ''x-real-ip:'' l)
      (drop (if ip = None then 5 else 6) (butlast ?ls))"
    unfolding lb_forwarded_line_def .
  then show ?thesis
    using header_lines_message [OF lb_request_lines_ok [OF assms]] lb_request_text
    by (simp add: Let_def)
qed

theorem lb_request_wire_witness:
  "header_lines (Some (message (lb_request_lines ''GET'' ''/'' ''HTTP/1.1'' (Some ''Host: evil'') (sample_server ''a'' 1) (Some ''10.0.0.1'')) []))
    = lb_request_lines ''GET'' ''/'' ''HTTP/1.1'' (Some ''Host: evil'') (sample_server ''a'' 1) (Some ''10.0.0.1'')"
  using lb_request_wire [of "''GET''" "''/''" "''HTTP/1.1''" "sample_server ''a'' 1" "Some ''10.0.0.1''" "Some ''Host: evil''"]
  by (simp add: clean_def sample_server_def upstream_server_create_def Let_def)




definition sample_backend :: backend where
  "sample_backend = \<lparr>dial = \<lambda>h p. None, send_to = \<lambda>r. 0, answers = \<lambda>r. []\<rparr>"

definition sample_clock :: lb_clock where
  "sample_clock = \<lparr>t_select = \<lambda>_. 0, t_connect = 0, t_stats = 0, t_elapsed = 0, t_random = 0\<rparr>"

definition sample_request :: lb_request where
  "sample_request = \<lparr>rq_method = ''GET'', rq_path = ''/'', rq_version = ''HTTP/1.1'', rq_headers = None, rq_ip = None\<rparr>"

definition least_group :: upstream_group where
  "least_group = sample_group\<lparr>g_strategy := LB_STRATEGY_LEAST_CONNECTIONS\<rparr>"

lemma least_group_hole: "black_hole sample_backend 0 least_group"
proof -
  have "ready (sample_server ''a'' 2)" "ready (sample_server ''b'' 1)" by (simp_all add: sample_server_ready)
  then show ?thesis
    by (simp add: black_hole_def least_group_def sample_group_def sample_backend_def upstream_group_create_def)
      (simp add: sample_server_def upstream_server_create_def All_less_Suc)
qed


text \<open>A refused connection is never counted as a failure: in a least-connections group of ready
servers where the first server with the fewest connections refuses, every one of any number of
requests is sent to it and fails, and no failure counter and no status of any server changes, so
the group never recovers however many other servers would answer.\<close>

theorem lb_proxy_black_hole:
  assumes "black_hole be k g"
  shows "\<exists>g'. lb_requests forward be rqs g st w = Inr (replicate (length rqs) (-1), w, g', st) \<and>
    failure_counts g' = failure_counts g"
  using assms
proof (induction rqs arbitrary: g)
  case (Cons x rqs)
  obtain clk rq where x: "x = (clk, rq)" by fastforce
  obtain g1 where g1: "lb_proxy forward be clk rq g st w = Inr (-1, w, g1, st)" "black_hole be k g1"
    "failure_counts g1 = failure_counts g"
    using black_hole_step [OF Cons.prems] by blast
  from Cons.IH [OF g1(2)] g1 x show ?case by auto
qed simp

theorem lb_proxy_black_hole_witness:
  "\<exists>g'. lb_requests (forward_lb_response polite) sample_backend [(sample_clock, sample_request), (sample_clock, sample_request)]
      least_group \<lparr>session_table = [], session_locked = False\<rparr> [] =
    Inr ([-1, -1], [], g', \<lparr>session_table = [], session_locked = False\<rparr>)"
  using lb_proxy_black_hole [OF least_group_hole, of "forward_lb_response polite"
      "[(sample_clock, sample_request), (sample_clock, sample_request)]"] by (simp add: numeral_2_eq_2) blast

end
