(* ===== verification/AsmMem.thy ===== *)
theory AsmMem
  imports Prelude
begin

text \<open>
  The memory routines of src/utils/asm/asm_opt.c on aarch64: copying, moving, setting and
  comparing with 128-bit registers. Memory is a total function from addresses to bytes, so
  that overlapping operands alias; a pair of ldp instructions loads 64 bytes before the stp
  pair stores them. \<open>cpu\<close> is the global cpu_features. Below the sizes handled here the sources
  call the C library, whose memcpy is modelled for operands that do not overlap. References
  for the results are mem_copy, mem_fill and mem_cmp.
\<close>

type_synonym mem = "addr \<Rightarrow> u8"

definition CPU_FEATURE_NEON :: u32 where
  "CPU_FEATURE_NEON = 1"

definition has_neon :: "u32 \<Rightarrow> bool" where
  "has_neon cpu \<longleftrightarrow> cpu AND CPU_FEATURE_NEON \<noteq> 0"

section \<open>Reference routines\<close>

definition mem_copy :: "mem \<Rightarrow> addr \<Rightarrow> addr \<Rightarrow> nat \<Rightarrow> mem" where
  "mem_copy m d s n = (\<lambda>a. if d \<le> a \<and> a < d + n then m (s + (a - d)) else m a)"

definition mem_fill :: "mem \<Rightarrow> addr \<Rightarrow> u8 \<Rightarrow> nat \<Rightarrow> mem" where
  "mem_fill m d v n = (\<lambda>a. if d \<le> a \<and> a < d + n then v else m a)"

text \<open>The difference of the first bytes that differ: memcmp and its sign.\<close>

fun mem_cmp :: "mem \<Rightarrow> addr \<Rightarrow> addr \<Rightarrow> nat \<Rightarrow> int" where
  "mem_cmp m p q 0 = 0"
| "mem_cmp m p q (Suc n) = (if m p \<noteq> m q then uint (m p) - uint (m q) else mem_cmp m (Suc p) (Suc q) n)"

section \<open>Copying\<close>

text \<open>One byte after the other, upwards and downwards.\<close>

fun copy_up :: "mem \<Rightarrow> addr \<Rightarrow> addr \<Rightarrow> nat \<Rightarrow> mem" where
  "copy_up m d s 0 = m"
| "copy_up m d s (Suc n) = copy_up (m(d := m s)) (Suc d) (Suc s) n"

fun copy_down :: "mem \<Rightarrow> addr \<Rightarrow> addr \<Rightarrow> nat \<Rightarrow> mem" where
  "copy_down m d s 0 = m"
| "copy_down m d s (Suc n) = copy_down (m(d + n := m (s + n))) d s n"

text \<open>Bytes up to a 16-byte boundary of the destination, then 64 bytes at a time.\<close>

fun align_dest :: "mem \<Rightarrow> addr \<Rightarrow> addr \<Rightarrow> nat \<Rightarrow> mem \<times> addr \<times> addr \<times> nat" where
  "align_dest m d s 0 = (m, d, s, 0)"
| "align_dest m d s (Suc n) =
     (if d mod 16 \<noteq> 0 then align_dest (m(d := m s)) (Suc d) (Suc s) n else (m, d, s, Suc n))"

function copy_blocks :: "nat \<Rightarrow> mem \<Rightarrow> addr \<Rightarrow> addr \<Rightarrow> nat \<Rightarrow> mem \<times> addr \<times> addr \<times> nat" where
  "copy_blocks b m d s n =
     (if 0 < b \<and> b \<le> n then copy_blocks b (mem_copy m d s b) (d + b) (s + b) (n - b) else (m, d, s, n))"
  by pat_completeness auto
termination by (relation "measure (\<lambda>(b, m, d, s, n). n)") auto

declare copy_blocks.simps [simp del]

definition asm_opt_memcpy :: "u32 \<Rightarrow> mem \<Rightarrow> addr \<Rightarrow> addr \<Rightarrow> nat \<Rightarrow> mem" where
  "asm_opt_memcpy cpu m dest src n =
     (if 64 \<le> n \<and> has_neon cpu
      then let (m, d, s, n) = align_dest m dest src n;
               (m, d, s, n) = copy_blocks 64 m d s n
           in copy_up m d s n
      else mem_copy m dest src n)"

text \<open>Whole blocks from the end, then the bytes that are left in front.\<close>

function move_blocks :: "mem \<Rightarrow> addr \<Rightarrow> addr \<Rightarrow> nat \<Rightarrow> mem \<times> nat" where
  "move_blocks m d s n =
     (if 64 \<le> n then move_blocks (mem_copy m (d + (n - 64)) (s + (n - 64)) 64) d s (n - 64) else (m, n))"
  by pat_completeness auto
termination by (relation "measure (\<lambda>(m, d, s, n). n)") auto

declare move_blocks.simps [simp del]

definition asm_opt_memmove :: "u32 \<Rightarrow> mem \<Rightarrow> addr \<Rightarrow> addr \<Rightarrow> nat \<Rightarrow> mem" where
  "asm_opt_memmove cpu m dest src n =
     (if 64 \<le> n \<and> has_neon cpu
      then if dest > src \<and> dest < src + n
           then let (m, n) = move_blocks m dest src n in copy_down m dest src n
           else asm_opt_memcpy cpu m dest src n
      else mem_copy m dest src n)"

definition asm_opt_network_buffer_copy :: "u32 \<Rightarrow> mem \<Rightarrow> addr \<Rightarrow> addr \<Rightarrow> nat \<Rightarrow> nat \<times> mem" where
  "asm_opt_network_buffer_copy cpu m dest src len =
     (if 128 \<le> len \<and> has_neon cpu
      then let (m, d, s, n) = copy_blocks 128 m dest src len;
               m = (if 0 < n then asm_opt_memcpy cpu m d s n else m)
           in (d - dest + n, m)
      else (len, asm_opt_memcpy cpu m dest src len))"

definition asm_opt_buffer_copy :: "u32 \<Rightarrow> mem \<Rightarrow> addr \<Rightarrow> addr \<Rightarrow> nat \<Rightarrow> nat \<times> mem" where
  "asm_opt_buffer_copy cpu m dest src n = (n, asm_opt_memcpy cpu m dest src n)"

section \<open>Filling\<close>

fun fill_up :: "mem \<Rightarrow> addr \<Rightarrow> u8 \<Rightarrow> nat \<Rightarrow> mem" where
  "fill_up m d v 0 = m"
| "fill_up m d v (Suc n) = fill_up (m(d := v)) (Suc d) v n"

fun align_fill :: "mem \<Rightarrow> addr \<Rightarrow> u8 \<Rightarrow> nat \<Rightarrow> mem \<times> addr \<times> nat" where
  "align_fill m d v 0 = (m, d, 0)"
| "align_fill m d v (Suc n) =
     (if d mod 16 \<noteq> 0 then align_fill (m(d := v)) (Suc d) v n else (m, d, Suc n))"

function fill_blocks :: "nat \<Rightarrow> mem \<Rightarrow> addr \<Rightarrow> u8 \<Rightarrow> nat \<Rightarrow> mem \<times> addr \<times> nat" where
  "fill_blocks b m d v n =
     (if 0 < b \<and> b \<le> n then fill_blocks b (mem_fill m d v b) (d + b) v (n - b) else (m, d, n))"
  by pat_completeness auto
termination by (relation "measure (\<lambda>(b, m, d, v, n). n)") auto

declare fill_blocks.simps [simp del]

definition asm_opt_memset :: "u32 \<Rightarrow> mem \<Rightarrow> addr \<Rightarrow> int \<Rightarrow> nat \<Rightarrow> mem" where
  "asm_opt_memset cpu m s c n =
     (let v = word_of_int c in
      if 64 \<le> n \<and> has_neon cpu
      then let (m, d, n) = align_fill m s v n;
               (m, d, n) = fill_blocks 64 m d v n
           in fill_up m d v n
      else mem_fill m s v n)"

definition asm_opt_simd_zero_buffer :: "u32 \<Rightarrow> mem \<Rightarrow> addr \<Rightarrow> nat \<Rightarrow> mem" where
  "asm_opt_simd_zero_buffer cpu m buf n =
     (if 64 \<le> n \<and> has_neon cpu
      then let (m, d, n) = fill_blocks 64 m buf 0 n;
               (m, d, n) = fill_blocks 16 m d 0 n
           in fill_up m d 0 n
      else asm_opt_memset cpu m buf 0 n)"

section \<open>Comparing\<close>

text \<open>Two 64-bit registers of each operand: 16 bytes are equal.\<close>

definition same_block :: "mem \<Rightarrow> addr \<Rightarrow> addr \<Rightarrow> bool" where
  "same_block m p q \<longleftrightarrow> list_all (\<lambda>i. m (p + i) = m (q + i)) [0..<16]"

function cmp_blocks :: "mem \<Rightarrow> addr \<Rightarrow> addr \<Rightarrow> nat \<Rightarrow> int + (addr \<times> addr \<times> nat)" where
  "cmp_blocks m p q n =
     (if 16 \<le> n
      then if same_block m p q then cmp_blocks m (p + 16) (q + 16) (n - 16) else Inl (mem_cmp m p q 16)
      else Inr (p, q, n))"
  by pat_completeness auto
termination by (relation "measure (\<lambda>(m, p, q, n). n)") auto

declare cmp_blocks.simps [simp del]

definition asm_opt_memcmp :: "u32 \<Rightarrow> mem \<Rightarrow> addr \<Rightarrow> addr \<Rightarrow> nat \<Rightarrow> int" where
  "asm_opt_memcmp cpu m p q n =
     (if 16 \<le> n \<and> has_neon cpu
      then case cmp_blocks m p q n of Inl r \<Rightarrow> r | Inr (p, q, n) \<Rightarrow> mem_cmp m p q n
      else mem_cmp m p q n)"

definition asm_opt_buffer_compare :: "u32 \<Rightarrow> mem \<Rightarrow> addr \<Rightarrow> addr \<Rightarrow> nat \<Rightarrow> int" where
  "asm_opt_buffer_compare cpu m p q n = asm_opt_memcmp cpu m p q n"

section \<open>Upward copies\<close>

text \<open>An upward copy is right unless the destination lies inside the rest of the source.\<close>

definition up_safe :: "addr \<Rightarrow> addr \<Rightarrow> nat \<Rightarrow> bool" where
  "up_safe d s n \<longleftrightarrow> d \<le> s \<or> s + n \<le> d"

lemma mem_copy_split:
  "up_safe d s (k + n) \<Longrightarrow> mem_copy (mem_copy m d s k) (d + k) (s + k) n = mem_copy m d s (k + n)"
  by (rule ext) (auto simp: mem_copy_def up_safe_def)

lemma mem_copy_0 [simp]: "mem_copy m d s 0 = m"
  by (rule ext) (auto simp: mem_copy_def)

lemma mem_copy_1: "m(d := m s) = mem_copy m d s 1"
proof
  fix a
  have "d \<le> a \<and> a < d + 1 \<longleftrightarrow> a = d" by arith
  then show "(m(d := m s)) a = mem_copy m d s 1 a" by (simp add: mem_copy_def)
qed

lemma up_safe_tail: "up_safe d s (k + n) \<Longrightarrow> up_safe (d + k) (s + k) n"
  by (auto simp: up_safe_def)

lemma mem_copy_Suc:
  "up_safe d s (Suc n) \<Longrightarrow> mem_copy (m(d := m s)) (Suc d) (Suc s) n = mem_copy m d s (Suc n)"
  "up_safe d s (Suc n) \<Longrightarrow> up_safe (Suc d) (Suc s) n"
  using mem_copy_split [of d s 1 n m] up_safe_tail [of d s 1 n] by (simp_all add: mem_copy_1)

lemma copy_up_eq: "up_safe d s n \<Longrightarrow> copy_up m d s n = mem_copy m d s n"
  by (induction m d s n rule: copy_up.induct) (simp_all add: mem_copy_Suc)

lemma align_dest_eq:
  "align_dest m d s n = (m', d', s', n') \<Longrightarrow> up_safe d s n \<Longrightarrow>
   up_safe d' s' n' \<and> mem_copy m' d' s' n' = mem_copy m d s n"
  by (induction m d s n rule: align_dest.induct) (auto simp: mem_copy_Suc split: if_splits)

lemma copy_blocks_eq:
  "copy_blocks b m d s n = (m', d', s', n') \<Longrightarrow> up_safe d s n \<Longrightarrow>
   up_safe d' s' n' \<and> mem_copy m' d' s' n' = mem_copy m d s n \<and> d' + n' = d + n \<and> d \<le> d'"
proof (induction b m d s n rule: copy_blocks.induct)
  case (1 b m d s n)
  show ?case
  proof (cases "0 < b \<and> b \<le> n")
    case True
    from True 1(2) have "copy_blocks b (mem_copy m d s b) (d + b) (s + b) (n - b) = (m', d', s', n')"
      by (simp add: copy_blocks.simps [of b m d s n])
    moreover have "up_safe (d + b) (s + b) (n - b)" using up_safe_tail [of d s b "n - b"] 1(3) True by simp
    moreover have "mem_copy (mem_copy m d s b) (d + b) (s + b) (n - b) = mem_copy m d s n"
      using mem_copy_split [of d s b "n - b" m] 1(3) True by simp
    ultimately show ?thesis using 1(1) [OF True] True by auto
  next
    case False
    with 1(2,3) show ?thesis by (auto simp: copy_blocks.simps [of b m d s n])
  qed
qed

lemma memcpy_eq: "up_safe dest src n \<Longrightarrow> asm_opt_memcpy cpu m dest src n = mem_copy m dest src n"
proof (cases "64 \<le> n \<and> has_neon cpu")
  case True
  assume safe: "up_safe dest src n"
  obtain m1 d1 s1 n1 where a: "align_dest m dest src n = (m1, d1, s1, n1)" by (metis prod_cases4)
  obtain m2 d2 s2 n2 where b: "copy_blocks 64 m1 d1 s1 n1 = (m2, d2, s2, n2)" by (metis prod_cases4)
  note 1 = align_dest_eq [OF a safe]
  note 2 = copy_blocks_eq [OF b conjunct1 [OF 1]]
  have "copy_up m2 d2 s2 n2 = mem_copy m dest src n" using 1 2 copy_up_eq [of d2 s2 n2 m2] by simp
  with True a b show ?thesis by (simp add: asm_opt_memcpy_def)
qed (auto simp: asm_opt_memcpy_def)

section \<open>Downward copies\<close>

lemma mem_copy_split_down:
  "s \<le> d \<Longrightarrow> mem_copy (mem_copy m (d + n) (s + n) k) d s n = mem_copy m d s (n + k)"
  by (rule ext) (auto simp: mem_copy_def)

lemma copy_down_eq: "s \<le> d \<Longrightarrow> copy_down m d s n = mem_copy m d s n"
proof (induction m d s n rule: copy_down.induct)
  case (2 m d s n)
  then have "copy_down m d s (Suc n) = mem_copy (m(d + n := m (s + n))) d s n" by (simp only: copy_down.simps)
  also have "\<dots> = mem_copy m d s (n + 1)" using mem_copy_split_down [of s d m n 1] 2(2) by (simp add: mem_copy_1)
  finally show ?case by simp
qed simp

lemma move_blocks_eq: "move_blocks m d s n = (m', n') \<Longrightarrow> s \<le> d \<Longrightarrow> mem_copy m' d s n' = mem_copy m d s n"
proof (induction m d s n rule: move_blocks.induct)
  case (1 m d s n)
  show ?case
  proof (cases "64 \<le> n")
    case True
    with 1 have "mem_copy m' d s n' = mem_copy (mem_copy m (d + (n - 64)) (s + (n - 64)) 64) d s (n - 64)"
      by (simp add: move_blocks.simps [of m d s n])
    with mem_copy_split_down [of s d m "n - 64" 64] True 1(3) show ?thesis by simp
  next
    case False
    with 1(2) show ?thesis by (simp add: move_blocks.simps [of m d s n])
  qed
qed

lemma memmove_eq: "asm_opt_memmove cpu m dest src n = mem_copy m dest src n"
proof -
  consider "\<not> (64 \<le> n \<and> has_neon cpu)" | "64 \<le> n \<and> has_neon cpu" "dest > src \<and> dest < src + n"
    | "64 \<le> n \<and> has_neon cpu" "\<not> (dest > src \<and> dest < src + n)" by blast
  then show ?thesis
  proof cases
    case 1
    then show ?thesis by (auto simp: asm_opt_memmove_def)
  next
    case 2
    obtain m' n' where b: "move_blocks m dest src n = (m', n')" by fastforce
    with 2 move_blocks_eq [OF b] copy_down_eq [of src dest m' n'] show ?thesis by (simp add: asm_opt_memmove_def)
  next
    case 3
    then have "up_safe dest src n" by (auto simp: up_safe_def)
    with 3 show ?thesis by (auto simp: asm_opt_memmove_def memcpy_eq)
  qed
qed

section \<open>Fills and comparisons\<close>

lemma mem_fill_split: "mem_fill (mem_fill m d v k) (d + k) v n = mem_fill m d v (k + n)"
  by (rule ext) (auto simp: mem_fill_def)

lemma mem_fill_Suc: "mem_fill (m(d := v)) (Suc d) v n = mem_fill m d v (Suc n)"
  by (rule ext) (auto simp: mem_fill_def)

lemma mem_fill_0 [simp]: "mem_fill m d v 0 = m"
  by (rule ext) (auto simp: mem_fill_def)

lemma fill_up_eq: "fill_up m d v n = mem_fill m d v n"
proof (induction m d v n rule: fill_up.induct)
  case (2 m d v n)
  then show ?case by (simp only: fill_up.simps mem_fill_Suc)
qed simp

lemma align_fill_eq: "align_fill m d v n = (m', d', n') \<Longrightarrow> mem_fill m' d' v n' = mem_fill m d v n"
  by (induction m d v n rule: align_fill.induct) (auto simp: mem_fill_Suc split: if_splits)

lemma fill_blocks_eq: "fill_blocks b m d v n = (m', d', n') \<Longrightarrow> mem_fill m' d' v n' = mem_fill m d v n"
proof (induction b m d v n rule: fill_blocks.induct)
  case (1 b m d v n)
  then show ?case
    using mem_fill_split [of m d v b "n - b"] by (subst (asm) (2) fill_blocks.simps) (auto split: if_splits)
qed

lemma memset_eq: "asm_opt_memset cpu m s c n = mem_fill m s (word_of_int c) n"
proof -
  obtain m1 d1 n1 where a: "align_fill m s (word_of_int c) n = (m1, d1, n1)" by (metis prod_cases3)
  obtain m2 d2 n2 where b: "fill_blocks 64 m1 d1 (word_of_int c) n1 = (m2, d2, n2)" by (metis prod_cases3)
  show ?thesis using a b align_fill_eq [OF a] fill_blocks_eq [OF b]
    by (cases "64 \<le> n \<and> has_neon cpu") (auto simp: asm_opt_memset_def fill_up_eq Let_def)
qed

lemma zero_buffer_eq: "asm_opt_simd_zero_buffer cpu m d n = mem_fill m d 0 n"
proof -
  obtain m1 d1 n1 where a: "fill_blocks 64 m d 0 n = (m1, d1, n1)" by (metis prod_cases3)
  obtain m2 d2 n2 where b: "fill_blocks 16 m1 d1 0 n1 = (m2, d2, n2)" by (metis prod_cases3)
  show ?thesis using a b fill_blocks_eq [OF a] fill_blocks_eq [OF b]
    by (simp add: asm_opt_simd_zero_buffer_def fill_up_eq memset_eq)
qed

lemma mem_cmp_add:
  "mem_cmp m p q (k + n) = (if \<forall>i<k. m (p + i) = m (q + i) then mem_cmp m (p + k) (q + k) n else mem_cmp m p q k)"
proof (induction k arbitrary: p q)
  case (Suc k)
  have "(\<forall>i<Suc k. m (p + i) = m (q + i)) \<longleftrightarrow> m p = m q \<and> (\<forall>i<k. m (Suc p + i) = m (Suc q + i))"
    by (auto simp: less_Suc_eq_0_disj)
  with Suc show ?case by auto
qed simp

lemma cmp_blocks_eq:
  "(case cmp_blocks m p q n of Inl r \<Rightarrow> r | Inr (p, q, n) \<Rightarrow> mem_cmp m p q n) = mem_cmp m p q n"
proof (induction m p q n rule: cmp_blocks.induct)
  case (1 m p q n)
  have "same_block m p q \<longleftrightarrow> (\<forall>i<16. m (p + i) = m (q + i))" by (auto simp: same_block_def list_all_iff)
  with 1 mem_cmp_add [of m p q 16 "n - 16"] show ?case by (subst cmp_blocks.simps) auto
qed

lemma memcmp_eq: "asm_opt_memcmp cpu m p q n = mem_cmp m p q n"
  using cmp_blocks_eq [of m p q n] by (simp add: asm_opt_memcmp_def)

text \<open>What the reference comparison decides: its sign is the order of the byte strings.\<close>

lemma mem_cmp_spec:
  "mem_cmp m p q n = 0 \<longleftrightarrow> (\<forall>i<n. m (p + i) = m (q + i))"
  "mem_cmp m p q n < 0 \<longleftrightarrow> (\<exists>k<n. (\<forall>i<k. m (p + i) = m (q + i)) \<and> m (p + k) < m (q + k))"
proof -
  show "mem_cmp m p q n = 0 \<longleftrightarrow> (\<forall>i<n. m (p + i) = m (q + i))"
    by (induction m p q n rule: mem_cmp.induct) (auto simp: All_less_Suc2 simp flip: word_uint_eq_iff)
  show "mem_cmp m p q n < 0 \<longleftrightarrow> (\<exists>k<n. (\<forall>i<k. m (p + i) = m (q + i)) \<and> m (p + k) < m (q + k))"
    by (induction m p q n rule: mem_cmp.induct) (auto simp: Ex_less_Suc2 All_less_Suc2 word_less_def)
qed

section \<open>Properties\<close>



end
