(* ===== verification/AsmStr.thy ===== *)
theory AsmStr
  imports AsmMem
begin

text \<open>
  The string routines of src/utils/asm/asm_opt.c on aarch64, which look at eight bytes at a
  time. A readable string argument is the list of the bytes from the pointer to the end of
  the memory that may be read; reading eight bytes where fewer are left is \<open>OutOfRange\<close>. A
  result pointer is an offset. The references are the routines of the C library on the
  bytes before the first zero.
\<close>

section \<open>Words of eight bytes\<close>

text \<open>A little-endian load of the first eight bytes.\<close>

definition bytes_val :: "u8 list \<Rightarrow> int" where
  "bytes_val bs = foldr (\<lambda>b v. uint b + 256 * v) bs 0"

definition load64 :: "u8 list \<Rightarrow> u64" where
  "load64 bs = word_of_int (bytes_val (take 8 bs))"

text \<open>The test for a zero byte that all the routines share.\<close>

definition has_zero :: "u64 \<Rightarrow> bool" where
  "has_zero x \<longleftrightarrow> (x - 0x0101010101010101) AND NOT x AND 0x8080808080808080 \<noteq> 0"

section \<open>Length\<close>

definition c_str :: "u8 list \<Rightarrow> u8 list" where
  "c_str mem = takeWhile (\<lambda>b. b \<noteq> 0) mem"

text \<open>\<open>while (*ptr != 0) ptr++\<close>.\<close>

fun byte_len :: "u8 list \<Rightarrow> nat run" where
  "byte_len [] = Inl OutOfRange"
| "byte_len (b # bs) = (if b = 0 then Inr 0 else bindR (byte_len bs) (\<lambda>n. Inr (Suc n)))"

function asm_opt_strlen :: "u8 list \<Rightarrow> nat run" where
  "asm_opt_strlen mem =
     (if length mem < 8 then Inl OutOfRange
      else if has_zero (load64 mem) then byte_len mem
      else bindR (asm_opt_strlen (drop 8 mem)) (\<lambda>n. Inr (8 + n)))"
  by pat_completeness auto
termination by (relation "measure length") auto

declare asm_opt_strlen.simps [simp del]

section \<open>Comparison\<close>

text \<open>\<open>while (*p1 == *p2 && *p1 != 0)\<close>, then the difference: also the reference.\<close>

fun byte_cmp :: "u8 list \<Rightarrow> u8 list \<Rightarrow> int run" where
  "byte_cmp (a # as) (b # bs) = (if a = b \<and> a \<noteq> 0 then byte_cmp as bs else Inr (uint a - uint b))"
| "byte_cmp _ _ = Inl OutOfRange"

function asm_opt_strcmp :: "u8 list \<Rightarrow> u8 list \<Rightarrow> int run" where
  "asm_opt_strcmp p1 p2 =
     (if length p1 < 8 \<or> length p2 < 8 then Inl OutOfRange
      else if load64 p1 \<noteq> load64 p2 then byte_cmp p1 p2
      else if has_zero (load64 p1) then Inr 0
      else asm_opt_strcmp (drop 8 p1) (drop 8 p2))"
  by pat_completeness auto
termination by (relation "measure (\<lambda>(p1, p2). length p1)") auto

declare asm_opt_strcmp.simps [simp del]

text \<open>The library's strncmp, and the loop over one block, which decides or falls through.\<close>

fun byte_ncmp :: "nat \<Rightarrow> u8 list \<Rightarrow> u8 list \<Rightarrow> int run" where
  "byte_ncmp 0 as bs = Inr 0"
| "byte_ncmp (Suc n) (a # as) (b # bs) =
     (if a \<noteq> b then Inr (uint a - uint b) else if a = 0 then Inr 0 else byte_ncmp n as bs)"
| "byte_ncmp (Suc n) _ _ = Inl OutOfRange"

fun block_ncmp :: "nat \<Rightarrow> u8 list \<Rightarrow> u8 list \<Rightarrow> int option run" where
  "block_ncmp 0 as bs = Inr None"
| "block_ncmp (Suc n) (a # as) (b # bs) =
     (if a \<noteq> b then Inr (Some (uint a - uint b)) else if a = 0 then Inr (Some 0) else block_ncmp n as bs)"
| "block_ncmp (Suc n) _ _ = Inl OutOfRange"

text \<open>The bytes behind the last whole block.\<close>

fun tail_ncmp :: "nat \<Rightarrow> u8 list \<Rightarrow> u8 list \<Rightarrow> int run" where
  "tail_ncmp 0 as bs = Inr 0"
| "tail_ncmp (Suc n) (a # as) (b # bs) =
     (if a = b \<and> a \<noteq> 0 then tail_ncmp n as bs else Inr (uint a - uint b))"
| "tail_ncmp (Suc n) _ _ = Inl OutOfRange"

function ncmp_blocks :: "nat \<Rightarrow> u8 list \<Rightarrow> u8 list \<Rightarrow> int run" where
  "ncmp_blocks n p1 p2 =
     (if n < 8 then tail_ncmp n p1 p2
      else if length p1 < 8 \<or> length p2 < 8 then Inl OutOfRange
      else bindR (if load64 p1 \<noteq> load64 p2 then block_ncmp 8 p1 p2 else Inr None) (\<lambda>r.
        case r of Some d \<Rightarrow> Inr d
        | None \<Rightarrow> if has_zero (load64 p1) then Inr 0 else ncmp_blocks (n - 8) (drop 8 p1) (drop 8 p2)))"
  by pat_completeness auto
termination by (relation "measure (\<lambda>(n, p1, p2). n)") auto

declare ncmp_blocks.simps [simp del]

definition asm_opt_strncmp :: "u8 list \<Rightarrow> u8 list \<Rightarrow> nat \<Rightarrow> int run" where
  "asm_opt_strncmp s1 s2 n = (if 8 \<le> n then ncmp_blocks n s1 s2 else byte_ncmp n s1 s2)"

section \<open>Searching for a character\<close>

text \<open>The loop over the bytes of a block: a match, the end of the string, or neither.\<close>

datatype scan = Found nat | Ended | Neither

fun block_chr :: "nat \<Rightarrow> u8 \<Rightarrow> u8 list \<Rightarrow> scan" where
  "block_chr 0 c bs = Neither"
| "block_chr (Suc n) c [] = Neither"
| "block_chr (Suc n) c (b # bs) =
     (if b = c then Found 0 else if b = 0 then Ended
      else case block_chr n c bs of Found i \<Rightarrow> Found (Suc i) | r \<Rightarrow> r)"

definition repeat_byte :: "u8 \<Rightarrow> u64" where
  "repeat_byte c = 0x0101010101010101 * ucast c"

text \<open>The target is the low byte of the int; \<open>Inr None\<close> is NULL.\<close>

function chr_blocks :: "u8 \<Rightarrow> u8 list \<Rightarrow> nat option run" where
  "chr_blocks c p =
     (if length p < 8 then Inl OutOfRange
      else case (if has_zero (load64 p XOR repeat_byte c) then block_chr 8 c p else Neither) of
             Found i \<Rightarrow> Inr (Some i)
           | Ended \<Rightarrow> Inr None
           | Neither \<Rightarrow>
               (case (if has_zero (load64 p) then block_chr 8 c p else Neither) of
                  Found i \<Rightarrow> Inr (Some i)
                | Ended \<Rightarrow> Inr None
                | Neither \<Rightarrow> bindR (chr_blocks c (drop 8 p)) (\<lambda>r. Inr (map_option ((+) 8) r))))"
  by pat_completeness auto
termination by (relation "measure (\<lambda>(c, p). length p)") auto

declare chr_blocks.simps [simp del]

definition asm_opt_strchr :: "u8 list \<Rightarrow> int \<Rightarrow> nat option run" where
  "asm_opt_strchr s c = chr_blocks (word_of_int c) s"

text \<open>
  strrchr compares the bytes with the int itself, keeps the last match, and does not look at
  the terminator.
\<close>

fun last_in :: "nat \<Rightarrow> int \<Rightarrow> u8 list \<Rightarrow> nat option \<Rightarrow> nat option" where
  "last_in off c [] r = r"
| "last_in off c (b # bs) r = last_in (Suc off) c bs (if uint b = c then Some off else r)"

function rchr_blocks :: "nat \<Rightarrow> int \<Rightarrow> u8 list \<Rightarrow> nat option \<Rightarrow> nat option run" where
  "rchr_blocks off c p r =
     (if length p < 8 then Inl OutOfRange
      else if has_zero (load64 p)
      then bindR (byte_len p) (\<lambda>n. Inr (last_in off c (take n p) r))
      else rchr_blocks (off + 8) c (drop 8 p) (last_in off c (take 8 p) r))"
  by pat_completeness auto
termination by (relation "measure (\<lambda>(off, c, p, r). length p)") auto

declare rchr_blocks.simps [simp del]

definition asm_opt_strrchr :: "u8 list \<Rightarrow> int \<Rightarrow> nat option run" where
  "asm_opt_strrchr s c = rchr_blocks 0 c s None"

section \<open>Copying strings\<close>

text \<open>The result is what is stored from the destination on, in order.\<close>

function asm_opt_strcpy :: "u8 list \<Rightarrow> u8 list run" where
  "asm_opt_strcpy s =
     (if length s < 8 then Inl OutOfRange
      else if has_zero (load64 s) then bindR (byte_len s) (\<lambda>n. Inr (take (Suc n) s))
      else bindR (asm_opt_strcpy (drop 8 s)) (\<lambda>w. Inr (take 8 s @ w)))"
  by pat_completeness auto
termination by (relation "measure length") auto

declare asm_opt_strcpy.simps [simp del]

text \<open>
  \<open>while (copied < n && (*d++ = *s++) != 0) copied++\<close>, then zeros while copied < n: the zero
  that ends the first loop is stored, but not counted.
\<close>

fun tail_ncpy :: "nat \<Rightarrow> u8 list \<Rightarrow> u8 list run" where
  "tail_ncpy 0 s = Inr []"
| "tail_ncpy (Suc n) [] = Inl OutOfRange"
| "tail_ncpy (Suc n) (b # bs) =
     (if b = 0 then Inr (0 # replicate (Suc n) 0) else bindR (tail_ncpy n bs) (\<lambda>w. Inr (b # w)))"

function asm_opt_strncpy :: "u8 list \<Rightarrow> nat \<Rightarrow> u8 list run" where
  "asm_opt_strncpy s n =
     (if n < 8 then tail_ncpy n s
      else if length s < 8 then Inl OutOfRange
      else if has_zero (load64 s) then tail_ncpy n s
      else bindR (asm_opt_strncpy (drop 8 s) (n - 8)) (\<lambda>w. Inr (take 8 s @ w)))"
  by pat_completeness auto
termination by (relation "measure (\<lambda>(s, n). n)") auto

declare asm_opt_strncpy.simps [simp del]

section \<open>The test for a zero byte\<close>

definition ones :: "nat \<Rightarrow> int" where "ones n = bytes_val (replicate n 1)"
definition highs :: "nat \<Rightarrow> int" where "highs n = bytes_val (replicate n 0x80)"

definition zero_bits :: "u8 list \<Rightarrow> int" where
  "zero_bits bs = (bytes_val bs - ones (length bs)) AND NOT (bytes_val bs) AND highs (length bs)"

lemma bytes_val_simps [simp]: "bytes_val [] = 0" "bytes_val (b # bs) = uint b + 256 * bytes_val bs"
  by (simp_all add: bytes_val_def)

lemma ones_simps [simp]: "ones 0 = 0" "ones (Suc n) = 1 + 256 * ones n"
  and highs_simps [simp]: "highs 0 = 0" "highs (Suc n) = 128 + 256 * highs n"
  by (simp_all add: ones_def highs_def)

lemma low_part: "0 \<le> a \<Longrightarrow> a < 256 \<Longrightarrow> take_bit 8 (a + 256 * v) = (a::int)" "0 \<le> a \<Longrightarrow> a < 256 \<Longrightarrow> drop_bit 8 (a + 256 * v) = (v::int)"
  by (simp_all add: take_bit_eq_mod drop_bit_eq_div)

lemma split_zero: "(x::int) = 0 \<longleftrightarrow> take_bit 8 x = 0 \<and> drop_bit 8 x = 0"
  by (metis bits_ident drop_bit_of_0 push_bit_of_0 take_bit_of_0 add_0)

lemma drop_bit_complement: "drop_bit n (NOT x) = NOT (drop_bit n x)" for x :: int
  by (rule bit_eqI) (simp add: bit_drop_bit_eq bit_not_iff)

lemma byte_range: "0 \<le> uint (b :: u8)" "uint (b :: u8) < 256"
  using uint_lt2p [of b] by simp_all

lemma borrow_free: "1 \<le> b \<Longrightarrow> b < 256 \<Longrightarrow> (b - 1) AND NOT b AND 128 = (0::int)"
proof -
  assume b: "1 \<le> b" "b < 256"
  have "bit b 7" if "bit (b - 1) 7"
  proof -
    from that have "odd ((b - 1) div 128)" by (simp add: bit_iff_odd)
    then have "128 \<le> b - 1" using b by (cases "b - 1 < 128") (simp_all add: div_pos_pos_trivial)
    then have "b div 128 = 1" using b by (simp add: int_div_pos_eq [of b 128 1 "b - 128"])
    then show ?thesis by (simp add: bit_iff_odd)
  qed
  moreover have "bit (2 ^ 7 :: int) n \<longleftrightarrow> n = 7" for n unfolding bit_exp_iff by auto
  then have "bit (128 :: int) n \<longleftrightarrow> n = 7" for n by simp
  ultimately show ?thesis by (intro bit_eqI) (auto simp: bit_and_iff bit_not_iff)
qed

lemma zero_bits_iff: "zero_bits bs \<noteq> 0 \<longleftrightarrow> 0 \<in> set bs"
proof (induction bs)
  case Nil
  show ?case by (simp add: zero_bits_def)
next
  case (Cons b bs)
  let ?v = "bytes_val bs" and ?o = "ones (length bs)" and ?h = "highs (length bs)"
  have z: "zero_bits (b # bs) = ((uint b - 1) + 256 * (?v - ?o)) AND NOT (uint b + 256 * ?v) AND (128 + 256 * ?h)"
    by (simp add: zero_bits_def algebra_simps)
  show ?case
  proof (cases "b = 0")
    case True
    have "bit (zero_bits (b # bs)) 7"
    proof -
      have m1: "take_bit 8 (255 + 256 * (?v - ?o - 1)) = (255 :: int)" by (rule low_part) simp_all
      moreover have "- 1 + 256 * (?v - ?o) = 255 + 256 * (?v - ?o - 1)" by simp
      ultimately have "take_bit 8 (- 1 + 256 * (?v - ?o)) = (255 :: int)" by simp
      moreover have "bit (255 :: int) 7" by (simp add: bit_iff_odd)
      ultimately have 1: "bit (- 1 + 256 * (?v - ?o)) 7" by (metis bit_take_bit_iff)
      have "take_bit 8 (0 + 256 * ?v) = (0 :: int)" by (rule low_part) simp_all
      then have "\<not> bit (take_bit 8 (256 * ?v)) 7" by simp
      then have 2: "\<not> bit (256 * ?v) 7" by (simp add: bit_take_bit_iff)
      have "take_bit 8 (128 + 256 * ?h) = (128 :: int)" by (rule low_part) simp_all
      moreover have "bit (128 :: int) 7" by (simp add: bit_iff_odd)
      ultimately have 3: "bit (128 + 256 * ?h) 7" by (metis bit_take_bit_iff)
      show ?thesis using z True 1 2 3 by (simp add: bit_and_iff bit_not_iff)
    qed
    with True show ?thesis by (metis bit_0_eq bot_apply bot_bool_def list.set_intros(1))
  next
    case False
    then have b: "1 \<le> uint b" "uint b < 256" using byte_range [of b] by (simp_all add: word_gt_0 uint_0_iff int_one_le_iff_zero_less order_less_le)
    have p: "take_bit 8 ((uint b - 1) + 256 * (?v - ?o)) = uint b - 1" "take_bit 8 (uint b + 256 * ?v) = uint b"
      "take_bit 8 (128 + 256 * ?h) = 128"
      using b by (intro low_part; simp)+
    have p': "take_bit 8 (uint b - 1) = uint b - 1" using b by (simp add: take_bit_eq_mod)
    have "take_bit 8 (NOT (uint b + 256 * ?v)) = take_bit 8 (NOT (uint b))"
      using take_bit_not_take_bit [of 8 "uint b + 256 * ?v"] by (simp only: p)
    then have lo: "take_bit 8 (zero_bits (b # bs)) = take_bit 8 ((uint b - 1) AND NOT (uint b) AND 128)"
      using p' by (simp only: z take_bit_and p) simp
    moreover have "drop_bit 8 (zero_bits (b # bs)) = zero_bits bs"
    proof -
      have "drop_bit 8 ((uint b - 1) + 256 * (?v - ?o)) = ?v - ?o" "drop_bit 8 (uint b + 256 * ?v) = ?v"
        "drop_bit 8 (128 + 256 * ?h) = ?h"
        using b by (intro low_part; simp)+
      then show ?thesis unfolding z drop_bit_and drop_bit_complement by (simp only: zero_bits_def)
    qed
    ultimately show ?thesis using False borrow_free [OF b] Cons split_zero [of "zero_bits (b # bs)"] by simp
  qed
qed

lemma has_zero_load:
  assumes "8 \<le> length mem"
  shows "has_zero (load64 mem) \<longleftrightarrow> 0 \<in> set (take 8 mem)"
proof -
  let ?bs = "take 8 mem"
  have l: "length ?bs = 8" using assms by simp
  have c: "ones 8 = 0x0101010101010101" "highs 8 = 0x8080808080808080"
    by (simp_all add: numeral_eq_Suc)
  have r: "0 \<le> zero_bits ?bs" "zero_bits ?bs < 2 ^ 64"
  proof -
    have h: "0 \<le> highs (length ?bs)" "highs (length ?bs) < 2 ^ 64" by (simp_all only: l c) simp_all
    then show "0 \<le> zero_bits ?bs" by (simp add: zero_bits_def)
    have "zero_bits ?bs \<le> highs (length ?bs)" using h(1) by (simp add: zero_bits_def AND_upper2)
    with h(2) show "zero_bits ?bs < 2 ^ 64" by linarith
  qed
  have "(load64 mem - 0x0101010101010101) AND NOT (load64 mem) AND 0x8080808080808080 = of_int (zero_bits ?bs)"
    unfolding load64_def zero_bits_def l c by (simp add: of_int_and_eq of_int_not_eq)
  moreover have "(of_int (zero_bits ?bs) :: u64) = 0 \<longleftrightarrow> zero_bits ?bs = 0"
    using r zdvd_imp_le [of "2 ^ 64" "zero_bits ?bs"] by (auto simp: word_of_int_eq_0_iff)
  ultimately show ?thesis using zero_bits_iff [of ?bs] by (simp add: has_zero_def)
qed

text \<open>Equal words are equal blocks.\<close>

lemma bytes_val_range: "0 \<le> bytes_val bs \<and> bytes_val bs < 256 ^ length bs"
proof (induction bs)
  case (Cons b bs)
  have "uint b \<le> 255" using byte_range [of b] by simp
  with Cons byte_range(1) [of b] show ?case by simp
qed simp

lemma bytes_val_inj: "length as = length bs \<Longrightarrow> bytes_val as = bytes_val bs \<Longrightarrow> as = bs"
proof (induction as bs rule: list_induct2)
  case (Cons a as b bs)
  have l: "take_bit 8 (bytes_val (a # as)) = uint a" "drop_bit 8 (bytes_val (a # as)) = bytes_val as"
    "take_bit 8 (bytes_val (b # bs)) = uint b" "drop_bit 8 (bytes_val (b # bs)) = bytes_val bs"
    using byte_range [of a] byte_range [of b] by (simp_all only: bytes_val_simps low_part)
  have "uint a = uint b" using l(1,3) by (simp only: Cons.prems)
  then have "a = b" by (rule unsigned_word_eqI)
  moreover have "bytes_val as = bytes_val bs" using l(2,4) by (simp only: Cons.prems)
  ultimately show ?case using Cons.IH by simp
qed simp

lemma load64_eq:
  assumes "8 \<le> length p" "8 \<le> length q"
  shows "load64 p = load64 q \<longleftrightarrow> take 8 p = take 8 q"
proof -
  have r: "take_bit 64 (bytes_val (take 8 m)) = bytes_val (take 8 m)" if "8 \<le> length m" for m
    using bytes_val_range [of "take 8 m"] that by (simp add: take_bit_int_eq_self)
  show ?thesis
    using bytes_val_inj [of "take 8 p" "take 8 q"] r [OF assms(1)] r [OF assms(2)] assms
    by (auto simp: load64_def word_of_int_eq_iff)
qed

lemma xor_split:
  "0 \<le> a \<Longrightarrow> a < 256 \<Longrightarrow> 0 \<le> c \<Longrightarrow> c < 256 \<Longrightarrow> (a + 256 * v) XOR (c + 256 * w) = (a XOR c) + 256 * (v XOR w)" for v w :: int
proof -
  assume r: "0 \<le> a" "a < 256" "0 \<le> c" "c < 256"
  then have x: "0 \<le> a XOR c" "a XOR c < 256" using XOR_upper [of a 8 c] by simp_all
  have "take_bit 8 ((a + 256 * v) XOR (c + 256 * w)) = take_bit 8 ((a XOR c) + 256 * (v XOR w))"
    by (simp only: take_bit_xor low_part [OF r(1,2)] low_part [OF r(3,4)] low_part [OF x])
  moreover have "drop_bit 8 ((a + 256 * v) XOR (c + 256 * w)) = drop_bit 8 ((a XOR c) + 256 * (v XOR w))"
    by (simp only: drop_bit_xor low_part [OF r(1,2)] low_part [OF r(3,4)] low_part [OF x])
  ultimately show ?thesis by (metis bits_ident)
qed

lemma bytes_val_xor:
  "bytes_val (List.map (\<lambda>b. b XOR c) bs) = bytes_val bs XOR bytes_val (replicate (length bs) c)"
  by (induction bs) (simp_all add: xor_split [OF byte_range byte_range] uint_xor)

lemma has_match:
  assumes "8 \<le> length p"
  shows "has_zero (load64 p XOR repeat_byte c) \<longleftrightarrow> c \<in> set (take 8 p)"
proof -
  have "bytes_val (replicate 8 c) = 0x0101010101010101 * uint c" by (simp add: numeral_eq_Suc)
  then have r: "repeat_byte c = word_of_int (bytes_val (replicate 8 c))"
    by (simp add: repeat_byte_def)
  have "load64 p XOR repeat_byte c = load64 (List.map (\<lambda>b. b XOR c) (take 8 p))"
    using assms bytes_val_xor [of c "take 8 p"] by (simp add: load64_def r of_int_xor_eq)
  then have "has_zero (load64 p XOR repeat_byte c) \<longleftrightarrow> 0 \<in> set (take 8 (List.map (\<lambda>b. b XOR c) (take 8 p)))"
    using assms has_zero_load [of "List.map (\<lambda>b. b XOR c) (take 8 p)"] by simp
  also have "\<dots> \<longleftrightarrow> c \<in> set (take 8 p)"
  proof -
    have "0 = x XOR c \<longleftrightarrow> x = c" for x :: u8
      by (metis xor.assoc xor.left_neutral xor_self_eq)
    then show ?thesis by (auto simp: image_iff)
  qed
  finally show ?thesis .
qed

section \<open>Strings in memory\<close>

text \<open>Enough memory for the eight-byte loads: the block that holds the terminator is readable.\<close>

definition room :: "u8 list \<Rightarrow> bool" where
  "room mem \<longleftrightarrow> 8 * (length (c_str mem) div 8) + 8 \<le> length mem"

lemma c_str_simps [simp]: "c_str [] = []" "c_str (b # bs) = (if b = 0 then [] else b # c_str bs)"
  by (simp_all add: c_str_def)

lemma zero_in_block: "8 \<le> length mem \<Longrightarrow> 0 \<in> set (take 8 mem) \<longleftrightarrow> length (c_str mem) < 8"
proof -
  have "0 \<in> set (take k mem) \<longleftrightarrow> length (c_str mem) < k" if "k \<le> length mem" for k
    using that
  proof (induction k arbitrary: mem)
    case (Suc k)
    then show ?case by (cases mem) auto
  qed simp
  then show "8 \<le> length mem \<Longrightarrow> 0 \<in> set (take 8 mem) \<longleftrightarrow> length (c_str mem) < 8" by simp
qed

lemma c_str_drop:
  "k \<le> length (c_str mem) \<Longrightarrow> c_str (drop k mem) = drop k (c_str mem)"
  "k \<le> length (c_str mem) \<Longrightarrow> take k mem = take k (c_str mem)"
proof (induction k arbitrary: mem)
  case (Suc k)
  { case 1 then show ?case using Suc(1) by (cases mem) (auto split: if_splits) }
  { case 2 then show ?case using Suc(2) by (cases mem) (auto split: if_splits) }
qed simp_all

lemma c_str_length: "length (c_str mem) \<le> length mem"
  by (simp add: c_str_def length_takeWhile_le)

lemma room_length: "room mem \<Longrightarrow> 8 \<le> length mem" "room mem \<Longrightarrow> length (c_str mem) < length mem"
  by (auto simp: room_def)

lemma room_drop: "8 \<le> length (c_str mem) \<Longrightarrow> room (drop 8 mem) \<longleftrightarrow> room mem"
proof -
  assume l: "8 \<le> length (c_str mem)"
  then have "(length (c_str mem) - 8) div 8 + 1 = length (c_str mem) div 8" by (simp add: div_if [of "length (c_str mem)"])
  with l c_str_length [of mem] show ?thesis by (auto simp: room_def c_str_drop)
qed

lemma zero_behind: "length (c_str mem) < length mem \<Longrightarrow> mem ! length (c_str mem) = 0 \<and> take (length (c_str mem)) mem = c_str mem"
  using nth_length_takeWhile [of "\<lambda>b. b \<noteq> 0" mem] takeWhile_eq_take [of "\<lambda>b. b \<noteq> 0" mem] by (simp add: c_str_def)

text \<open>Case distinction of the loops: the string ends in this block, or goes on behind it.\<close>

lemma room_cases:
  assumes "room mem"
  obtains "has_zero (load64 mem)" "length (c_str mem) < 8" "8 \<le> length mem"
  | "\<not> has_zero (load64 mem)" "8 \<le> length (c_str mem)" "8 \<le> length mem" "room (drop 8 mem)"
  using has_zero_load [OF room_length(1) [OF assms]] zero_in_block [OF room_length(1) [OF assms]] room_drop [of mem] assms
    room_length(1) [OF assms]
  by (cases "has_zero (load64 mem)") auto

lemma byte_len_eq: "length (c_str mem) < length mem \<Longrightarrow> byte_len mem = Inr (length (c_str mem))"
  by (induction mem) auto

lemma strlen_eq: "asm_opt_strlen mem = (if room mem then Inr (length (c_str mem)) else Inl OutOfRange)"
proof (induction mem rule: asm_opt_strlen.induct)
  case (1 mem)
  show ?case
  proof (cases "length mem < 8")
    case True
    then show ?thesis by (auto simp: asm_opt_strlen.simps [of mem] room_def)
  next
    case False
    then have z: "has_zero (load64 mem) \<longleftrightarrow> length (c_str mem) < 8"
      using has_zero_load [of mem] zero_in_block [of mem] by simp
    show ?thesis
    proof (cases "has_zero (load64 mem)")
      case True
      with z False have "room mem" "length (c_str mem) < length mem" by (auto simp: room_def)
      with True False show ?thesis by (simp add: asm_opt_strlen.simps [of mem] byte_len_eq)
    next
      case nz: False
      with z 1 False show ?thesis
        by (simp add: asm_opt_strlen.simps [of mem] room_drop c_str_drop)
    qed
  qed
qed

section \<open>Comparisons agree\<close>

lemma byte_cmp_prefix:
  "0 \<in> set xs \<Longrightarrow> byte_cmp (xs @ as) (xs @ bs) = Inr 0"
  "0 \<notin> set xs \<Longrightarrow> byte_cmp (xs @ as) (xs @ bs) = byte_cmp as bs"
  by (induction xs) auto

lemma strcmp_eq: "room p \<Longrightarrow> room q \<Longrightarrow> asm_opt_strcmp p q = byte_cmp p q"
proof (induction p q rule: asm_opt_strcmp.induct)
  case (1 p q)
  note l = room_length(1) [OF 1(2)] room_length(1) [OF 1(3)]
  show ?case
  proof (cases "load64 p = load64 q")
    case True
    then have t: "take 8 p = take 8 q" using load64_eq l by blast
    have pq: "p = take 8 p @ drop 8 p" "q = take 8 p @ drop 8 q" by (simp, metis t append_take_drop_id)
    have z: "has_zero (load64 p) \<longleftrightarrow> 0 \<in> set (take 8 p)" using has_zero_load l by simp
    show ?thesis
    proof (cases "has_zero (load64 p)")
      case True
      with z have "byte_cmp p q = Inr 0" using byte_cmp_prefix(1) pq by metis
      with True l \<open>load64 p = load64 q\<close> show ?thesis by (simp add: asm_opt_strcmp.simps [of p q])
    next
      case False
      have "\<not> has_zero (load64 q)" using False True by simp
      with False 1(2,3) have "room (drop 8 p)" "room (drop 8 q)" by (auto elim: room_cases)
      with 1(1) False True l have "asm_opt_strcmp (drop 8 p) (drop 8 q) = byte_cmp (drop 8 p) (drop 8 q)" by simp
      also have "\<dots> = byte_cmp p q" using False z byte_cmp_prefix(2) pq by metis
      finally show ?thesis using False True l by (simp add: asm_opt_strcmp.simps [of p q])
    qed
  next
    case False
    with l show ?thesis by (simp add: asm_opt_strcmp.simps [of p q])
  qed
qed

lemma tail_ncmp_eq: "tail_ncmp n as bs = byte_ncmp n as bs"
  by (induction n as bs rule: tail_ncmp.induct) auto

lemma block_ncmp_eq:
  "k \<le> length as \<Longrightarrow> k \<le> length bs \<Longrightarrow>
   (\<exists>d. block_ncmp k as bs = Inr (Some d) \<and> byte_ncmp (k + n) as bs = Inr d) \<or>
   (block_ncmp k as bs = Inr None \<and> take k as = take k bs \<and> 0 \<notin> set (take k as) \<and>
      byte_ncmp (k + n) as bs = byte_ncmp n (drop k as) (drop k bs))"
  by (induction k as bs rule: block_ncmp.induct) auto

lemma byte_ncmp_prefix:
  "0 \<in> set xs \<Longrightarrow> byte_ncmp (length xs + n) (xs @ as) (xs @ bs) = Inr 0"
  "0 \<notin> set xs \<Longrightarrow> byte_ncmp (length xs + n) (xs @ as) (xs @ bs) = byte_ncmp n as bs"
  by (induction xs) auto

lemma ncmp_blocks_eq: "room p \<Longrightarrow> room q \<Longrightarrow> ncmp_blocks n p q = byte_ncmp n p q"
proof (induction n p q rule: ncmp_blocks.induct)
  case (1 n p q)
  note l = room_length(1) [OF 1(2)] room_length(1) [OF 1(3)]
  show ?case
  proof (cases "n < 8")
    case True
    then show ?thesis by (simp add: ncmp_blocks.simps [of n p q] tail_ncmp_eq)
  next
    case n: False
    show ?thesis
    proof (cases "load64 p = load64 q")
      case True
      then have t: "take 8 p = take 8 q" using load64_eq l by blast
      have pq: "p = take 8 p @ drop 8 p" "q = take 8 p @ drop 8 q" by (simp, metis t append_take_drop_id)
      have z: "has_zero (load64 p) \<longleftrightarrow> 0 \<in> set (take 8 p)" using has_zero_load l by simp
      have k: "length (take 8 p) + (n - 8) = n" using l n by simp
      show ?thesis
      proof (cases "has_zero (load64 p)")
        case True
        with z have "byte_ncmp n p q = Inr 0" using byte_ncmp_prefix(1) [of "take 8 p" "n - 8"] pq k by metis
        with True l n \<open>load64 p = load64 q\<close> show ?thesis by (simp add: ncmp_blocks.simps [of n p q])
      next
        case False
        have "\<not> has_zero (load64 q)" using False True by simp
        with False 1(2,3) have "room (drop 8 p)" "room (drop 8 q)" by (auto elim: room_cases)
        with 1(1) False True l n have "ncmp_blocks (n - 8) (drop 8 p) (drop 8 q) = byte_ncmp (n - 8) (drop 8 p) (drop 8 q)" by simp
        also have "\<dots> = byte_ncmp n p q" using False z byte_ncmp_prefix(2) [of "take 8 p" "n - 8"] pq k by metis
        finally show ?thesis using False True l n by (simp add: ncmp_blocks.simps [of n p q])
      qed
    next
      case False
      then have "take 8 p \<noteq> take 8 q" using load64_eq l by blast
      with block_ncmp_eq [of 8 p q "n - 8"] l n obtain d where
        "block_ncmp 8 p q = Inr (Some d)" "byte_ncmp n p q = Inr d" by auto
      with False l n show ?thesis by (simp add: ncmp_blocks.simps [of n p q])
    qed
  qed
qed

lemma strncmp_eq: "room p \<Longrightarrow> room q \<Longrightarrow> asm_opt_strncmp p q n = byte_ncmp n p q"
  by (simp add: asm_opt_strncmp_def ncmp_blocks_eq)

section \<open>Searches agree\<close>

text \<open>The C library's strchr and strrchr: the terminator belongs to the string.\<close>

fun c_strchr :: "u8 list \<Rightarrow> u8 \<Rightarrow> nat option" where
  "c_strchr [] c = None"
| "c_strchr (b # bs) c = (if b = c then Some 0 else if b = 0 then None else map_option Suc (c_strchr bs c))"

fun c_strrchr :: "u8 list \<Rightarrow> u8 \<Rightarrow> nat option" where
  "c_strrchr [] c = None"
| "c_strrchr (b # bs) c =
     (if b = 0 then if c = 0 then Some 0 else None
      else case c_strrchr bs c of Some i \<Rightarrow> Some (Suc i) | None \<Rightarrow> if b = c then Some 0 else None)"

lemma block_chr_eq:
  "c_strchr bs c = (case block_chr k c bs of Found i \<Rightarrow> Some i | Ended \<Rightarrow> None
     | Neither \<Rightarrow> map_option ((+) k) (c_strchr (drop k bs) c))"
  by (induction k c bs rule: block_chr.induct)
    (auto split: scan.splits option.splits simp: map_option_case)

lemma block_chr_Neither:
  "k \<le> length bs \<Longrightarrow> block_chr k c bs = Neither \<longleftrightarrow> c \<notin> set (take k bs) \<and> 0 \<notin> set (take k bs)"
  by (induction k c bs rule: block_chr.induct) (auto split: scan.splits)

lemma chr_blocks_eq: "room p \<Longrightarrow> chr_blocks c p = Inr (c_strchr p c)"
proof (induction c p rule: chr_blocks.induct)
  case (1 c p)
  note l = room_length(1) [OF 1(2)]
  let ?b = "block_chr 8 c p"
  have n: "?b = Neither \<longleftrightarrow> \<not> has_zero (load64 p XOR repeat_byte c) \<and> \<not> has_zero (load64 p)"
    using l block_chr_Neither [of 8 p c] has_match [OF l] has_zero_load [OF l] by simp
  note ref = block_chr_eq [of p c 8]
  show ?case
  proof (cases "?b")
    case (Found i)
    with n l ref show ?thesis by (auto simp: chr_blocks.simps [of c p])
  next
    case Ended
    with n l ref show ?thesis by (auto simp: chr_blocks.simps [of c p])
  next
    case Neither
    with n have z: "\<not> has_zero (load64 p)" by simp
    then have "room (drop 8 p)" using 1(2) by (auto elim: room_cases)
    with 1(1) [OF _ _ _] l Neither n z have "chr_blocks c (drop 8 p) = Inr (c_strchr (drop 8 p) c)" by simp
    with Neither n l ref show ?thesis by (simp add: chr_blocks.simps [of c p])
  qed
qed

lemma strchr_eq: "room s \<Longrightarrow> asm_opt_strchr s c = Inr (c_strchr s (word_of_int c))"
  by (simp add: asm_opt_strchr_def chr_blocks_eq)

lemma last_in_append: "last_in off c (xs @ ys) r = last_in (off + length xs) c ys (last_in off c xs r)"
  by (induction xs arbitrary: off r) simp_all

lemma rchr_blocks_eq: "room p \<Longrightarrow> rchr_blocks off c p r = Inr (last_in off c (c_str p) r)"
proof (induction off c p r rule: rchr_blocks.induct)
  case (1 off c p r)
  note l = room_length [OF 1(2)]
  from 1(2) show ?case
  proof (cases rule: room_cases)
    case 1
    with l show ?thesis by (simp add: rchr_blocks.simps [of off c p r] byte_len_eq zero_behind)
  next
    case 2
    have "take 8 p @ c_str (drop 8 p) = c_str p" using 2(2) by (simp add: c_str_drop)
    then have "last_in off c (c_str p) r = last_in (off + 8) c (c_str (drop 8 p)) (last_in off c (take 8 p) r)"
      using last_in_append [of off c "take 8 p" "c_str (drop 8 p)" r] 2(3) by (simp add: min_absorb2)
    with 1(1) 2 show ?thesis by (simp add: rchr_blocks.simps [of off c p r])
  qed
qed

lemma last_in_eq:
  "length (c_str s) < length s \<Longrightarrow> 1 \<le> c \<Longrightarrow> c \<le> 255 \<Longrightarrow>
   last_in off c (c_str s) r = (case c_strrchr s (word_of_int c) of Some i \<Rightarrow> Some (off + i) | None \<Rightarrow> r)"
proof (induction s arbitrary: off r)
  case (Cons b s)
  have c0: "(word_of_int c :: u8) \<noteq> 0" and c: "uint (word_of_int c :: u8) = c"
    using Cons.prems(2,3) by (auto simp: word_of_int_eq_0_iff uint_word_of_int zmod_trivial_iff dest: zdvd_imp_le)
  have "uint b = c \<longleftrightarrow> b = word_of_int c" using c by (metis word_of_int_uint)
  with Cons c0 show ?case by (auto split: option.split)
qed simp

lemma last_in_none: "c < 1 \<or> 255 < c \<Longrightarrow> last_in off c (c_str s) r = r"
proof (induction s arbitrary: off)
  case (Cons b s)
  have "b = 0" if "uint b = c"
  proof -
    have "uint b = 0" using that Cons.prems byte_range [of b] by linarith
    then show ?thesis by (simp add: uint_0_iff)
  qed
  with Cons show ?case by auto
qed simp

lemma strrchr_eq:
  "room s \<Longrightarrow> asm_opt_strrchr s c = Inr (if 1 \<le> c \<and> c \<le> 255 then c_strrchr s (word_of_int c) else None)"
  using rchr_blocks_eq [of s 0 c None] last_in_eq [of s c 0 None] last_in_none [of c 0 s None] room_length(2) [of s]
  by (auto simp: asm_opt_strrchr_def split: option.split)

section \<open>Copies\<close>

lemma strcpy_eq: "room s \<Longrightarrow> asm_opt_strcpy s = Inr (c_str s @ [0])"
proof (induction s rule: asm_opt_strcpy.induct)
  case (1 s)
  note l = room_length [OF 1(2)]
  from 1(2) show ?case
  proof (cases rule: room_cases)
    case 1
    with l zero_behind [OF l(2)] show ?thesis
      by (simp add: asm_opt_strcpy.simps [of s] byte_len_eq take_Suc_conv_app_nth)
  next
    case 2
    have "take 8 s @ c_str (drop 8 s) = c_str s" using 2(2) by (simp add: c_str_drop)
    with 1(1) 2 show ?thesis by (simp add: asm_opt_strcpy.simps [of s])
  qed
qed

text \<open>What strncpy should store, and what is stored here.\<close>

definition c_strncpy :: "u8 list \<Rightarrow> nat \<Rightarrow> u8 list" where
  "c_strncpy s n = take n (c_str s) @ replicate (n - length (c_str s)) 0"

definition stored :: "u8 list \<Rightarrow> nat \<Rightarrow> u8 list" where
  "stored s n = c_strncpy s n @ (if length (c_str s) < n then [0] else [])"

lemma tail_ncpy_eq: "length (c_str s) < length s \<Longrightarrow> tail_ncpy n s = Inr (stored s n)"
proof (induction n s rule: tail_ncpy.induct)
  case (3 n b bs)
  show ?case
  proof (cases "b = 0")
    case True
    then show ?thesis by (simp add: stored_def c_strncpy_def replicate_append_same)
  next
    case False
    with 3 show ?thesis by (simp add: stored_def c_strncpy_def)
  qed
qed (simp_all add: stored_def c_strncpy_def)

lemma strncpy_eq: "room s \<Longrightarrow> asm_opt_strncpy s n = Inr (stored s n)"
proof (induction s n rule: asm_opt_strncpy.induct)
  case (1 s n)
  note l = room_length [OF 1(2)]
  show ?case
  proof (cases "n < 8")
    case True
    with l show ?thesis by (simp add: asm_opt_strncpy.simps [of s n] tail_ncpy_eq)
  next
    case n: False
    from 1(2) show ?thesis
    proof (cases rule: room_cases)
      case 1
      with l n show ?thesis by (simp add: asm_opt_strncpy.simps [of s n] tail_ncpy_eq)
    next
      case 2
      have c: "c_str s = take 8 s @ c_str (drop 8 s)" using 2(2) by (simp add: c_str_drop)
      have "take 8 s @ take (n - 8) (c_str (drop 8 s)) = take n (c_str s)"
        "length (c_str s) = 8 + length (c_str (drop 8 s))"
        using n 2(3) unfolding c by (simp_all add: min_absorb2)
      then have "take 8 s @ stored (drop 8 s) (n - 8) = stored s n"
        using n by (auto simp: stored_def c_strncpy_def)
      with 1(1) 2 n show ?thesis by (simp add: asm_opt_strncpy.simps [of s n])
    qed
  qed
qed

section \<open>Properties\<close>

text \<open>C22. The eight-byte string routines compute what the C library does: on strings whose blocks of
eight bytes up to the terminator are readable, strlen, strcmp, strncmp, strchr and strcpy give
the length, the difference of the first bytes that differ, the first occurrence and the string
with its terminator; strlen on any memory returns exactly when that many bytes are readable, and
otherwise reads past the end although the string may be terminated.\<close>

theorem asm_string_equivalence:
  assumes "room p" "room q"
  shows "asm_opt_strcmp p q = byte_cmp p q \<and> asm_opt_strncmp p q n = byte_ncmp n p q \<and>
    asm_opt_strchr p c = Inr (c_strchr p (word_of_int c)) \<and> asm_opt_strcpy p = Inr (c_str p @ [0]) \<and>
    asm_opt_strlen mem = (if room mem then Inr (length (c_str mem)) else Inl OutOfRange)"
  by (simp add: strcmp_eq strncmp_eq strchr_eq strcpy_eq strlen_eq assms)

theorem asm_string_equivalence_witness:
  "asm_opt_strlen [104, 105, 0, 0, 0, 0, 0, 0] = Inr 2 \<and> asm_opt_strlen [104, 105, 0] = Inl OutOfRange"
  using asm_string_equivalence [of "[0, 0, 0, 0, 0, 0, 0, 0]" "[0, 0, 0, 0, 0, 0, 0, 0]" 0 0 "[104, 105, 0, 0, 0, 0, 0, 0]"]
    asm_string_equivalence [of "[0, 0, 0, 0, 0, 0, 0, 0]" "[0, 0, 0, 0, 0, 0, 0, 0]" 0 0 "[104, 105, 0]"]
  by (simp add: room_def)

text \<open>strncpy stores one byte too many: with a string shorter than the bound it stores the
string, the zeros up to the bound and one more zero behind the buffer; otherwise it stores the
first bytes as the library does. strrchr agrees with the library for the characters 1 to 255, but
finds neither the terminator nor a character given as a negative int.\<close>

theorem asm_strncpy_overrun:
  assumes "room s"
  shows "(\<exists>w. asm_opt_strncpy s n = Inr w \<and> take n w = c_strncpy s n \<and>
      length w = (if length (c_str s) < n then n + 1 else n)) \<and>
    asm_opt_strrchr s c = Inr (if 1 \<le> c \<and> c \<le> 255 then c_strrchr s (word_of_int c) else None)"
proof -
  have l: "length (c_strncpy s n) = n" by (auto simp: c_strncpy_def)
  with strncpy_eq [OF assms] strrchr_eq [OF assms] show ?thesis by (simp add: stored_def)
qed

theorem asm_strncpy_overrun_witness:
  "\<exists>w. asm_opt_strncpy [104, 105, 0, 0, 0, 0, 0, 0] 4 = Inr w \<and> length w = 5"
  using asm_strncpy_overrun [of "[104, 105, 0, 0, 0, 0, 0, 0]" 4] by (auto simp: room_def)

end
