(* ===== verification/AsmCodec.thy ===== *)
theory AsmCodec
  imports AsmStr
begin

text \<open>
  Coding routines of src/utils/asm/asm_opt.c on aarch64: base64, URL decoding, byte order,
  checksums and hashes. A routine that stores into a buffer gives the bytes it stores.
  Memory copies of fixed blocks are the blocks themselves (see AsmMem for the copy routine).
  The CRC32 instructions are not enabled by the flags of the Makefile, so the software
  versions of the checksum and of the string hash are what is built.
\<close>

section \<open>Base64\<close>

definition base64_table :: "u8 list" where
  "base64_table = List.map of_char ''ABCDEFGHIJKLMNOPQRSTUVWXYZabcdefghijklmnopqrstuvwxyz0123456789+/''"

definition base64_char :: "u32 \<Rightarrow> u8" where
  "base64_char v = base64_table ! unat v"

definition equals_sign :: u8 where
  "equals_sign = of_char CHR ''=''"

definition triple :: "u8 \<Rightarrow> u8 \<Rightarrow> u8 \<Rightarrow> u32" where
  "triple a b c = push_bit 16 (ucast a) OR push_bit 8 (ucast b) OR ucast c"

text \<open>Six bits of a triple, and one byte.\<close>

definition sextet_of :: "nat \<Rightarrow> u32 \<Rightarrow> u32" where
  "sextet_of k t = drop_bit k t AND 0x3F"

definition byte_of :: "nat \<Rightarrow> u32 \<Rightarrow> u8" where
  "byte_of k t = ucast (drop_bit k t AND 0xFF)"

definition encode3 :: "u8 \<Rightarrow> u8 \<Rightarrow> u8 \<Rightarrow> u8 list" where
  "encode3 a b c =
     (let t = triple a b c in
      [base64_char (sextet_of 18 t), base64_char (sextet_of 12 t),
       base64_char (sextet_of 6 t), base64_char (sextet_of 0 t)])"

text \<open>Twelve bytes at a time: four triples, and the input that is left.\<close>

fun encode_blocks :: "u8 list \<Rightarrow> u8 list \<times> u8 list" where
  "encode_blocks (a # b # c # d # e # f # g # h # i # j # k # l # rest) =
     (let (out, left) = encode_blocks rest
      in (encode3 a b c @ encode3 d e f @ encode3 g h i @ encode3 j k l @ out, left))"
| "encode_blocks bs = ([], bs)"

fun encode_rest :: "u8 list \<Rightarrow> u8 list" where
  "encode_rest (a # b # c # rest) = encode3 a b c @ encode_rest rest"
| "encode_rest [a, b] =
     (let t = push_bit 16 (ucast a) OR push_bit 8 (ucast b) in
      [base64_char (sextet_of 18 t), base64_char (sextet_of 12 t),
       base64_char (sextet_of 6 t), equals_sign])"
| "encode_rest [a] =
     (let t = push_bit 16 (ucast a) in
      [base64_char (sextet_of 18 t), base64_char (sextet_of 12 t), equals_sign, equals_sign])"
| "encode_rest [] = []"

text \<open>What is stored before the final zero; the empty result for a buffer that is too small.\<close>

definition asm_opt_base64_encode :: "u32 \<Rightarrow> u8 list \<Rightarrow> nat \<Rightarrow> u8 list" where
  "asm_opt_base64_encode cpu src dst_len =
     (if dst_len < (length src + 2) div 3 * 4 + 1 then []
      else let (out, left) = (if 12 \<le> length src \<and> has_neon cpu then encode_blocks src else ([], src))
           in out @ encode_rest left)"

text \<open>
  The table has 14 rows of 16 entries for 256 indices: the last 32 are the zero that the
  initialiser leaves.
\<close>

definition decode_val :: "u8 \<Rightarrow> int" where
  "decode_val b =
     (let n = uint b in
      if 65 \<le> n \<and> n \<le> 90 then n - 65
      else if 97 \<le> n \<and> n \<le> 122 then n - 71
      else if 48 \<le> n \<and> n \<le> 57 then n + 4
      else if n = 43 then 62 else if n = 47 then 63
      else if 224 \<le> n then 0 else -1)"

definition decode4 :: "u8 \<Rightarrow> u8 \<Rightarrow> u8 \<Rightarrow> u8 \<Rightarrow> u8 list option" where
  "decode4 p q r s =
     (if decode_val p = -1 \<or> decode_val q = -1 \<or> decode_val r = -1 \<or> decode_val s = -1 then None
      else let t = push_bit 18 (word_of_int (decode_val p)) OR push_bit 12 (word_of_int (decode_val q)) OR
                   push_bit 6 (word_of_int (decode_val r)) OR (word_of_int (decode_val s) :: u32)
           in Some [byte_of 16 t, byte_of 8 t, byte_of 0 t])"

definition append_opt :: "u8 list option \<Rightarrow> u8 list option \<Rightarrow> u8 list option" where
  "append_opt x y = (case x of None \<Rightarrow> None | Some a \<Rightarrow> map_option ((@) a) y)"

text \<open>Sixteen characters at a time: \<open>None\<close> is an invalid character.\<close>

fun decode_blocks :: "u8 list \<Rightarrow> (u8 list \<times> u8 list) option" where
  "decode_blocks (a # b # c # d # e # f # g # h # i # j # k # l # m # n # p # q # rest) =
     (case append_opt (decode4 a b c d) (append_opt (decode4 e f g h)
             (append_opt (decode4 i j k l) (decode4 m n p q))) of
        None \<Rightarrow> None
      | Some out \<Rightarrow> map_option (\<lambda>(o', left). (out @ o', left)) (decode_blocks rest))"
| "decode_blocks bs = Some ([], bs)"

fun decode_rest :: "u8 list \<Rightarrow> u8 list option" where
  "decode_rest (a # b # c # d # rest) = append_opt (decode4 a b c d) (decode_rest rest)"
| "decode_rest [a, b, c] =
     (if decode_val a = -1 \<or> decode_val b = -1 then None
      else if decode_val c = -1 then None
      else let t = push_bit 18 (word_of_int (decode_val a)) OR push_bit 12 (word_of_int (decode_val b)) OR
                   (push_bit 6 (word_of_int (decode_val c)) :: u32)
           in Some [byte_of 16 t, byte_of 8 t])"
| "decode_rest [a, b] =
     (if decode_val a = -1 \<or> decode_val b = -1 then None
      else let t = push_bit 18 (word_of_int (decode_val a)) OR (push_bit 12 (word_of_int (decode_val b)) :: u32)
           in Some [byte_of 16 t])"
| "decode_rest [a] = Some []"
| "decode_rest [] = Some []"

definition strip_padding :: "u8 list \<Rightarrow> u8 list" where
  "strip_padding src = rev (dropWhile (\<lambda>b. b = equals_sign) (rev src))"

text \<open>The decoded bytes; \<open>None\<close> where the source returns 0 for a small buffer or an invalid character.\<close>

definition asm_opt_base64_decode :: "u32 \<Rightarrow> u8 list \<Rightarrow> nat \<Rightarrow> u8 list option" where
  "asm_opt_base64_decode cpu src dst_len =
     (let src = strip_padding src in
      if dst_len < length src * 3 div 4 then None
      else case (if 16 \<le> length src \<and> has_neon cpu then decode_blocks src else Some ([], src)) of
             None \<Rightarrow> None
           | Some (out, left) \<Rightarrow> map_option ((@) out) (decode_rest left))"

section \<open>Byte order\<close>

definition asm_opt_htons :: "u16 \<Rightarrow> u16" where
  "asm_opt_htons x = drop_bit 8 x OR push_bit 8 x"

definition asm_opt_htonl :: "u32 \<Rightarrow> u32" where
  "asm_opt_htonl x = (drop_bit 24 x AND 0xFF) OR (drop_bit 8 x AND 0xFF00) OR
     (push_bit 8 x AND 0xFF0000) OR (push_bit 24 x AND 0xFF000000)"

definition asm_opt_ntohs :: "u16 \<Rightarrow> u16" where
  "asm_opt_ntohs x = asm_opt_htons x"

definition asm_opt_ntohl :: "u32 \<Rightarrow> u32" where
  "asm_opt_ntohl x = asm_opt_htonl x"

section \<open>Checksums and hashes\<close>

text \<open>The table of 256 entries that is initialised with its first 12.\<close>

definition crc_table :: "u32 \<Rightarrow> u32" where
  "crc_table i =
     (let t = [0x00000000, 0x77073096, 0xEE0E612C, 0x990951BA, 0x076DC419, 0x706AF48F,
               0xE963A535, 0x9E6495A3, 0x0EDB8832, 0x79DCB8A4, 0xE0D5E91E, 0x97D2D988]
      in if unat i < 12 then t ! unat i else 0)"

definition crc_step :: "u32 \<Rightarrow> u8 \<Rightarrow> u32" where
  "crc_step crc b = crc_table ((crc XOR ucast b) AND 0xFF) XOR drop_bit 8 crc"

definition asm_opt_crc32 :: "u8 list \<Rightarrow> u32" where
  "asm_opt_crc32 data = foldl crc_step 0xFFFFFFFF data XOR 0xFFFFFFFF"

definition asm_opt_hash_data :: "u8 list \<Rightarrow> u32" where
  "asm_opt_hash_data data = asm_opt_crc32 data"

definition asm_opt_compress_prepare :: "u8 list \<Rightarrow> u32" where
  "asm_opt_compress_prepare data = asm_opt_crc32 data"

definition asm_opt_compress_finalize :: "u8 list \<Rightarrow> u32" where
  "asm_opt_compress_finalize data = asm_opt_crc32 data"

definition asm_opt_hash_string :: "u8 list \<Rightarrow> u32" where
  "asm_opt_hash_string s = foldl (\<lambda>hash b. (push_bit 5 hash + hash) + ucast b) 5381 (c_str s)"

section \<open>Decoding of urls\<close>

definition hex_digit :: "char \<Rightarrow> nat option" where
  "hex_digit c =
     (let n = (of_char c :: nat) in
      if 48 \<le> n \<and> n \<le> 57 then Some (n - 48)
      else if 65 \<le> n \<and> n \<le> 70 then Some (n - 55)
      else if 97 \<le> n \<and> n \<le> 102 then Some (n - 87) else None)"

text \<open>One character of the output and the input that is left.\<close>

definition percent_code :: "string \<Rightarrow> (char \<times> string) option" where
  "percent_code s =
     (case tl s of
        h # l # rest \<Rightarrow>
          (case (hex_digit h, hex_digit l) of
             (Some x, Some y) \<Rightarrow> Some (char_of (16 * x + y), rest)
           | _ \<Rightarrow> None)
      | _ \<Rightarrow> None)"

definition url_char :: "string \<Rightarrow> char \<times> string" where
  "url_char s =
     (if hd s = CHR ''%'' then (case percent_code s of Some r \<Rightarrow> r | None \<Rightarrow> (hd s, tl s))
      else (if hd s = CHR ''+'' then CHR '' '' else hd s, tl s))"

lemma url_char_length: "s \<noteq> [] \<Longrightarrow> length (snd (url_char s)) < length s"
  by (cases s) (auto simp: url_char_def percent_code_def split: list.splits option.splits)

text \<open>The loop over characters, with room for \<open>n\<close> more before the terminator.\<close>

function url_loop :: "nat \<Rightarrow> string \<Rightarrow> string" where
  "url_loop n s = (if s = [] \<or> n = 0 then [] else fst (url_char s) # url_loop (n - 1) (snd (url_char s)))"
  by pat_completeness auto
termination by (relation "measure (\<lambda>(n, s). length s)") (auto simp: url_char_length)

declare url_loop.simps [simp del]

text \<open>Whole blocks of 16 characters without a percent sign are copied.\<close>

function url_blocks :: "string \<Rightarrow> string \<times> string" where
  "url_blocks s =
     (if 16 \<le> length s \<and> CHR ''%'' \<notin> set (take 16 s)
      then let (out, left) = url_blocks (drop 16 s) in (take 16 s @ out, left)
      else ([], s))"
  by pat_completeness auto
termination by (relation "measure length") auto

declare url_blocks.simps [simp del]

text \<open>
  The blocks are stored without a look at the size of the buffer; \<open>dst_len - 1\<close> is huge for an
  empty buffer. A short input is not decoded: nothing is stored and 0 is returned.
\<close>

definition asm_opt_simd_url_decode :: "u32 \<Rightarrow> string \<Rightarrow> nat \<Rightarrow> string option run" where
  "asm_opt_simd_url_decode cpu src dst_len =
     (if 16 \<le> length src \<and> has_neon cpu
      then let (out, left) = url_blocks src in
           if length out > dst_len then Inl OutOfRange
           else let limit = (if dst_len = 0 then 2 ^ 64 - 1 else dst_len - 1);
                    res = out @ (if length out < limit then url_loop (limit - length out) left else [])
                in if length res < dst_len then Inr (Some res) else Inl OutOfRange
      else Inr None)"

section \<open>Base64 is read back\<close>

lemma mask6: "(0x3F :: u32) = mask 6" and mask8: "(0xFF :: u32) = mask 8"
  by (simp_all add: mask_eq_exp_minus_1)

lemma base64_table_length: "length base64_table = 64"
  by (simp add: base64_table_def)

lemma decode_table: "list_all2 (\<lambda>b i. decode_val b = int i \<and> b \<noteq> equals_sign) base64_table [0..<64]"
  by (simp add: base64_table_def decode_val_def equals_sign_def upt_conv_Cons)

lemma decode_char: "unat v < 64 \<Longrightarrow> decode_val (base64_char v) = int (unat v) \<and> base64_char v \<noteq> equals_sign"
  using list_all2_nthD [OF decode_table, of "unat v"] by (simp add: base64_table_length base64_char_def)

lemma sextet: "unat (sextet_of k t) < 64"
proof -
  have "sextet_of k t = take_bit 6 (drop_bit k t)" by (simp add: sextet_of_def mask6 take_bit_eq_mask)
  then have "unat (sextet_of k t) = take_bit 6 (unat (drop_bit k t))" by (simp only: unsigned_take_bit_eq)
  then show ?thesis using take_bit_nat_less_exp [of 6 "unat (drop_bit k t)"] by simp
qed

lemma decode_sextet [simp]: "decode_val (base64_char (sextet_of k t)) = uint (sextet_of k t)"
  "base64_char (sextet_of k t) \<noteq> equals_sign"
  using decode_char [OF sextet [of k t]] by simp_all

lemma uint_valid [simp]: "uint v \<noteq> -1"
  using uint_ge_0 [of v] by linarith

lemma bit_sextet: "k \<le> 18 \<Longrightarrow> bit (push_bit k (sextet_of k t)) n \<longleftrightarrow> k \<le> n \<and> n < k + 6 \<and> bit t n"
  unfolding sextet_of_def mask6 using bit_imp_le_length [of t n] by (auto simp: bit_simps)

lemma bit_byte: "k \<le> 16 \<Longrightarrow> bit (byte_of k t) n \<longleftrightarrow> n < 8 \<and> bit t (k + n)"
  unfolding byte_of_def mask8 by (auto simp: bit_simps)

lemma byte_of_eq: "k \<le> 16 \<Longrightarrow> (\<And>n. k \<le> n \<Longrightarrow> n < k + 8 \<Longrightarrow> bit t n = bit u n) \<Longrightarrow> byte_of k t = byte_of k u"
  by (rule bit_word_eqI) (auto simp: bit_byte)

lemma triple_bytes: "byte_of 16 (triple a b c) = a" "byte_of 8 (triple a b c) = b" "byte_of 0 (triple a b c) = c"
  by (rule bit_word_eqI; use bit_imp_le_length [of a] bit_imp_le_length [of b] bit_imp_le_length [of c]
      in \<open>force simp: bit_byte triple_def bit_simps\<close>)+

text \<open>What the sextets of a triple are put together to.\<close>

lemma regroup_bit:
  "bit (push_bit 18 (sextet_of 18 t) OR push_bit 12 (sextet_of 12 t)) n \<longleftrightarrow> 12 \<le> n \<and> n < 24 \<and> bit t n"
  "bit (push_bit 18 (sextet_of 18 t) OR push_bit 12 (sextet_of 12 t) OR push_bit 6 (sextet_of 6 t)) n \<longleftrightarrow> 6 \<le> n \<and> n < 24 \<and> bit t n"
  "bit (push_bit 18 (sextet_of 18 t) OR push_bit 12 (sextet_of 12 t) OR push_bit 6 (sextet_of 6 t) OR sextet_of 0 t) n \<longleftrightarrow> n < 24 \<and> bit t n"
  using bit_sextet [of 0 t n] by (auto simp: bit_or_iff bit_sextet)

lemma regroup_bytes:
  "byte_of 16 (push_bit 18 (sextet_of 18 t) OR push_bit 12 (sextet_of 12 t)) = byte_of 16 t"
  "k \<in> {8, 16} \<Longrightarrow> byte_of k (push_bit 18 (sextet_of 18 t) OR push_bit 12 (sextet_of 12 t) OR push_bit 6 (sextet_of 6 t)) = byte_of k t"
  "k \<le> 16 \<Longrightarrow> byte_of k (push_bit 18 (sextet_of 18 t) OR push_bit 12 (sextet_of 12 t) OR push_bit 6 (sextet_of 6 t) OR sextet_of 0 t) = byte_of k t"
  by (auto intro!: byte_of_eq simp: regroup_bit simp del: bit_or_iff)

lemma decode_encode3: "decode4 p q r s = Some [a, b, c]" if "encode3 a b c = [p, q, r, s]"
  using that triple_bytes [of a b c]
  by (auto simp: encode3_def decode4_def Let_def regroup_bytes simp del: or.assoc)

lemma encode_blocks_eq: "(case encode_blocks bs of (out, left) \<Rightarrow> out @ encode_rest left) = encode_rest bs"
  by (induction bs rule: encode_blocks.induct) (auto split: prod.splits)

lemma append_opt_assoc: "append_opt (append_opt x y) z = append_opt x (append_opt y z)"
  by (cases x; cases y; cases z) (simp_all add: append_opt_def)

lemma decode_blocks_eq:
  "(case decode_blocks bs of None \<Rightarrow> None | Some (out, left) \<Rightarrow> map_option ((@) out) (decode_rest left)) = decode_rest bs"
proof (induction bs rule: decode_blocks.induct)
  case (1 a b c d e f g h i j k l m n p q rest)
  let ?x = "append_opt (decode4 a b c d) (append_opt (decode4 e f g h) (append_opt (decode4 i j k l) (decode4 m n p q)))"
  have "decode_rest (a # b # c # d # e # f # g # h # i # j # k # l # m # n # p # q # rest) = append_opt ?x (decode_rest rest)"
    by (simp add: append_opt_assoc)
  then show ?case
    using 1 by (cases ?x; cases "decode_blocks rest"; cases "decode_rest rest")
      (auto simp: append_opt_def map_option_case split: option.splits prod.splits)
qed (simp_all add: map_option_case split: option.splits)

text \<open>The characters without the padding.\<close>

fun unpadded :: "u8 list \<Rightarrow> u8 list" where
  "unpadded (a # b # c # rest) = encode3 a b c @ unpadded rest"
| "unpadded [a, b] = take 3 (encode3 a b 0)"
| "unpadded [a] = take 2 (encode3 a 0 0)"
| "unpadded [] = []"

lemma encode_rest_split: "\<exists>k. encode_rest bs = unpadded bs @ replicate k equals_sign"
  by (induction bs rule: unpadded.induct) (auto simp: Let_def encode3_def triple_def numeral_2_eq_2 intro: exI [of _ "Suc 0"] exI [of _ "Suc (Suc 0)"] exI [of _ 0])

lemma equals_unpadded: "equals_sign \<notin> set (unpadded bs)"
  by (induction bs rule: unpadded.induct) (auto simp: encode3_def Let_def dest: sym)

lemma strip_replicate: "x \<notin> set xs \<Longrightarrow> rev (dropWhile (\<lambda>b. b = x) (rev (xs @ replicate k x))) = xs"
proof -
  assume "x \<notin> set xs"
  then have "dropWhile (\<lambda>b. b = x) (rev xs) = rev xs" by (cases "rev xs") (simp_all, metis list.set_intros(1) set_rev)
  moreover have "dropWhile (\<lambda>b. b = x) (replicate k x @ ys) = dropWhile (\<lambda>b. b = x) ys" for ys
    by (induction k) simp_all
  ultimately show ?thesis by simp
qed

lemma strip_encode: "strip_padding (encode_rest bs) = unpadded bs"
  using encode_rest_split [of bs] strip_replicate [OF equals_unpadded] by (auto simp: strip_padding_def)

lemma decode_unpadded: "decode_rest (unpadded bs) = Some bs"
proof (induction bs rule: unpadded.induct)
  case (1 a b c rest)
  obtain p q r s where e: "encode3 a b c = [p, q, r, s]" by (simp add: encode3_def Let_def)
  with 1 decode_encode3 [OF e] show ?case by (simp add: append_opt_def)
next
  case (2 a b)
  show ?case using triple_bytes [of a b 0] by (simp add: encode3_def Let_def regroup_bytes)
next
  case (3 a)
  show ?case using triple_bytes [of a 0 0] by (simp add: encode3_def Let_def regroup_bytes numeral_2_eq_2)
qed simp

lemma unpadded_length: "length (unpadded bs) * 3 div 4 = length bs" "length (encode_rest bs) = (length bs + 2) div 3 * 4"
proof -
  show "length (unpadded bs) * 3 div 4 = length bs"
    by (induction bs rule: unpadded.induct) (auto simp: encode3_def Let_def)
  have "(5 + n) div 3 = Suc ((2 + n) div 3)" for n :: nat by simp
  then show "length (encode_rest bs) = (length bs + 2) div 3 * 4"
    by (induction bs rule: unpadded.induct) (auto simp: encode3_def Let_def)
qed

section \<open>Byte order and checksums\<close>

lemma htons_involution: "asm_opt_ntohs (asm_opt_htons x) = x"
  unfolding asm_opt_ntohs_def asm_opt_htons_def
proof (rule bit_word_eqI)
  fix n assume "n < LENGTH(16)"
  then show "bit (drop_bit 8 (drop_bit 8 x OR push_bit 8 x) OR push_bit 8 (drop_bit 8 x OR push_bit 8 x)) n = bit x n"
    using bit_imp_le_length [of x] by (cases "n < 8") (auto simp: bit_simps)
qed

text \<open>Bytes that never hit an initialised entry of the table.\<close>

definition off_table :: "u8 \<Rightarrow> bool" where
  "off_table b \<longleftrightarrow> 12 \<le> uint b \<and> uint b < 244"

lemma crc_table_zero: "12 \<le> unat i \<Longrightarrow> crc_table i = 0"
  by (simp add: crc_table_def)

lemma low_byte: "((c :: u32) XOR ucast b) AND 0xFF = ucast (ucast c XOR b)" for b :: u8
  unfolding mask8 by (rule bit_word_eqI) (use bit_imp_le_length [of b] in \<open>auto simp: bit_simps\<close>)

lemma crc_step_off:
  assumes "12 \<le> unat (ucast c XOR b)"
  shows "crc_step c b = drop_bit 8 c"
proof -
  have "unat (ucast c XOR b) < 2 ^ 32" by (rule order.strict_trans [OF unsigned_less]) simp
  then have "unat (ucast (ucast c XOR b) :: u32) = unat (ucast c XOR b)" by (simp add: unsigned_ucast_eq take_bit_nat_eq_self)
  with assms show ?thesis unfolding crc_step_def low_byte by (simp add: crc_table_zero)
qed

lemma off_table_index:
  assumes "off_table b"
  shows "12 \<le> unat (ucast (0 :: u32) XOR b)" "12 \<le> unat (mask 8 XOR b :: u8)"
proof -
  have u: "uint b = int (unat b)" "uint (NOT b) = int (unat (NOT b))" by (simp_all only: uint_nat)
  have n: "12 \<le> unat b" "unat b < 244" using assms u(1) unfolding off_table_def by linarith+
  then show "12 \<le> unat (ucast (0 :: u32) XOR b)" by simp
  have m: "mask 8 XOR b = NOT b" by (rule bit_word_eqI) (auto simp: bit_simps)
  have "uint (NOT b) = take_bit 8 (NOT (uint b))" by (simp add: unsigned_not_eq)
  also have "\<dots> = (- uint b - 1) mod 256" by (simp add: take_bit_eq_mod not_int_def)
  also have "- uint b - 1 = (255 - uint b) + 256 * (- 1)" by simp
  also have "\<dots> mod 256 = (255 - uint b) mod 256" by (rule mod_mult_self2)
  also have "\<dots> = 255 - uint b" using byte_range [of b] by (intro mod_pos_pos_trivial) linarith+
  finally show "12 \<le> unat (mask 8 XOR b :: u8)" unfolding m using n u by linarith
qed

lemma crc_start: "k \<in> {8, 16, 24, 32} \<Longrightarrow> off_table b \<Longrightarrow> crc_step (mask k) b = mask (k - 8)"
proof -
  assume k: "k \<in> {8, 16, 24, 32}" and b: "off_table b"
  have "(ucast (mask k :: u32) :: u8) = mask 8" using k by (intro bit_word_eqI) (auto simp: bit_simps)
  then have "crc_step (mask k) b = drop_bit 8 (mask k)" using off_table_index(2) [OF b] by (intro crc_step_off) simp
  also have "\<dots> = mask (k - 8)" using k by (intro bit_word_eqI) (auto simp: bit_simps)
  finally show ?thesis .
qed

lemma crc_stays_zero: "\<forall>b\<in>set bs. off_table b \<Longrightarrow> foldl crc_step 0 bs = 0"
proof (induction bs)
  case (Cons b bs)
  then have "crc_step 0 b = 0" using crc_step_off [OF off_table_index(1), of b] by simp
  with Cons show ?case by simp
qed simp

lemma crc_constant:
  assumes "4 \<le> length bs" "\<forall>b\<in>set bs. off_table b"
  shows "asm_opt_crc32 bs = 0xFFFFFFFF"
proof -
  obtain a b c d cs where bs: "bs = a # b # c # d # cs"
    using assms(1) by (metis Suc_le_length_iff numeral_eq_Suc pred_numeral_simps(2,3) BitM.simps(1,2) eval_nat_numeral(3))
  have m: "(0xFFFFFFFF :: u32) = mask 32" "mask 0 = (0 :: u32)" by (simp_all add: mask_eq_exp_minus_1)
  have "foldl crc_step 0xFFFFFFFF bs = foldl crc_step 0 cs"
    using assms(2) crc_start [of 32 a] crc_start [of 24 b] crc_start [of 16 c] crc_start [of 8 d]
    by (simp add: bs m)
  with crc_stays_zero [of cs] assms(2) show ?thesis by (simp add: asm_opt_crc32_def bs)
qed

section \<open>Decoded urls\<close>

text \<open>The whole of a url decoded: percent codes and plus signs.\<close>

definition url_decode :: "string \<Rightarrow> string" where
  "url_decode s = url_loop (length s) s"

definition plus_to_space :: "char \<Rightarrow> char" where
  "plus_to_space c = (if c = CHR ''+'' then CHR '' '' else c)"

lemma url_loop_enough: "length s \<le> n \<Longrightarrow> length s \<le> m \<Longrightarrow> url_loop n s = url_loop m s"
proof (induction n s arbitrary: m rule: url_loop.induct)
  case (1 n s)
  show ?case
  proof (cases "s = []")
    case True
    then show ?thesis by (simp add: url_loop.simps [of _ "[]"])
  next
    case False
    then have "n \<noteq> 0" "m \<noteq> 0" using 1(2,3) by (cases s; auto)+
    moreover have "url_loop (n - 1) (snd (url_char s)) = url_loop (m - 1) (snd (url_char s))"
      using 1 url_char_length [OF False] False \<open>n \<noteq> 0\<close> by simp
    ultimately show ?thesis by (simp add: url_loop.simps [of n s] url_loop.simps [of m s])
  qed
qed

lemma url_loop_length: "length (url_loop n s) \<le> length s"
proof (induction n s rule: url_loop.induct)
  case (1 n s)
  show ?case
  proof (cases "s = [] \<or> n = 0")
    case False
    then have "length (url_loop (n - 1) (snd (url_char s))) \<le> length (snd (url_char s))" using 1 by simp
    also have "\<dots> < length s" using False url_char_length by simp
    finally show ?thesis using False by (simp add: url_loop.simps [of n s])
  qed (auto simp: url_loop.simps [of n s])
qed

lemma url_decode_plain:
  "CHR ''%'' \<notin> set out \<Longrightarrow> url_decode (out @ s) = List.map plus_to_space out @ url_decode s"
proof (induction out)
  case (Cons c out)
  have "url_char ((c # out) @ s) = (plus_to_space c, out @ s)" using Cons.prems by (auto simp: url_char_def plus_to_space_def)
  then have "url_decode ((c # out) @ s) = plus_to_space c # url_decode (out @ s)"
    by (simp add: url_decode_def url_loop.simps [of "Suc (length out + length s)"])
  with Cons show ?case by simp
qed simp

lemma url_blocks_split:
  "url_blocks s = (out, left) \<Longrightarrow> s = out @ left \<and> CHR ''%'' \<notin> set out \<and> length out mod 16 = 0 \<and>
   (length left < 16 \<or> CHR ''%'' \<in> set (take 16 left))"
proof (induction s arbitrary: out left rule: url_blocks.induct)
  case (1 s)
  show ?case
  proof (cases "16 \<le> length s \<and> CHR ''%'' \<notin> set (take 16 s)")
    case True
    obtain o' l' where r: "url_blocks (drop 16 s) = (o', l')" by fastforce
    with 1(2) True have o: "out = take 16 s @ o'" "left = l'" by (simp_all add: url_blocks.simps [of s])
    from 1(1) [OF True r] have i: "drop 16 s = o' @ l'" "CHR ''%'' \<notin> set o'" "length o' mod 16 = 0"
      "length l' < 16 \<or> CHR ''%'' \<in> set (take 16 l')" by blast+
    have "s = take 16 s @ (o' @ l')" using i(1) by (metis append_take_drop_id)
    then have "s = out @ left" using o by simp
    moreover have "CHR ''%'' \<notin> set out" using True o i(2) by simp
    moreover have "length out = 16 + length o'" using True o by simp
    then have "length out mod 16 = 0" using i(3) by simp
    ultimately show ?thesis using o(2) i(4) by simp
  next
    case False
    with 1(2) show ?thesis by (auto simp: url_blocks.simps [of s])
  qed
qed

section \<open>Properties\<close>

text \<open>C23. Base64 is read back: whatever the processors of the two sides offer, decoding what was
encoded gives the bytes again when both buffers are large enough, and the encoding has four
characters for every three bytes begun. A buffer too small for text and terminator stays empty.\<close>

theorem asm_base64_roundtrip:
  assumes "length src \<le> dst_len" "(length src + 2) div 3 * 4 < enc_len"
  shows "asm_opt_base64_decode cpu' (asm_opt_base64_encode cpu src enc_len) dst_len = Some src \<and>
    length (asm_opt_base64_encode cpu src enc_len) = (length src + 2) div 3 * 4"
proof -
  have "(case (if 12 \<le> length src \<and> has_neon cpu then encode_blocks src else ([], src)) of
      (out, left) \<Rightarrow> out @ encode_rest left) = encode_rest src"
    using encode_blocks_eq [of src] by simp
  then have e: "asm_opt_base64_encode cpu src enc_len = encode_rest src"
    using assms(2) by (simp add: asm_opt_base64_encode_def)
  have "(case (if 16 \<le> length u \<and> has_neon cpu' then decode_blocks u else Some ([], u)) of
      None \<Rightarrow> None | Some (out, left) \<Rightarrow> map_option ((@) out) (decode_rest left)) = decode_rest u" for u
    using decode_blocks_eq [of u] by (cases "decode_rest u") simp_all
  then show ?thesis
    using assms(1) by (simp add: e asm_opt_base64_decode_def strip_encode unpadded_length decode_unpadded)
qed

theorem asm_base64_roundtrip_witness:
  "asm_opt_base64_decode 0 (asm_opt_base64_encode 1 [1, 2, 3, 4, 5, 6, 7, 8, 9, 10, 11, 12, 255] 25) 13 =
    Some [1, 2, 3, 4, 5, 6, 7, 8, 9, 10, 11, 12, 255]"
  using asm_base64_roundtrip [of "[1, 2, 3, 4, 5, 6, 7, 8, 9, 10, 11, 12, 255]" 13 25 0 1] by simp

text \<open>The software checksum does not see its input: only the first 12 of the 256 entries of the
table are written out, so every text of four or more bytes from 12 to 243, which includes all
printable text, has the checksum 0xFFFFFFFF.\<close>

theorem asm_crc32_constant:
  assumes "4 \<le> length bs" "\<forall>b\<in>set bs. off_table b"
  shows "asm_opt_crc32 bs = 0xFFFFFFFF \<and> asm_opt_hash_data bs = 0xFFFFFFFF \<and>
    asm_opt_compress_prepare bs = asm_opt_compress_finalize bs"
  using crc_constant [OF assms]
  by (simp add: asm_opt_hash_data_def asm_opt_compress_prepare_def asm_opt_compress_finalize_def)

theorem asm_crc32_constant_witness:
  "asm_opt_crc32 [65, 66, 67, 68] = asm_opt_crc32 [97, 98, 99, 100, 101]"
  using asm_crc32_constant [of "[65, 66, 67, 68]"] asm_crc32_constant [of "[97, 98, 99, 100, 101]"]
  by (simp add: off_table_def)

text \<open>Decoding a url: a short input is not decoded at all. An input of 16 characters or more, into
a buffer that is longer than the input, gives the whole blocks in front of the first percent sign as they are
and the rest decoded, which is the decoded url exactly when those blocks hold no plus sign. The
blocks are stored without a check, so they overrun a shorter buffer.\<close>

theorem asm_url_decode_spec:
  assumes "has_neon cpu" "url_blocks src = (out, left)" "length src < 2 ^ 64 - 1"
  shows "(length src < 16 \<longrightarrow> asm_opt_simd_url_decode cpu src dst_len = Inr None) \<and>
    (16 \<le> length src \<and> length src < dst_len \<longrightarrow>
       asm_opt_simd_url_decode cpu src dst_len = Inr (Some (out @ url_decode left)) \<and>
       (out @ url_decode left = url_decode src \<longleftrightarrow> CHR ''+'' \<notin> set out)) \<and>
    (16 \<le> length src \<and> dst_len \<le> length out \<longrightarrow> asm_opt_simd_url_decode cpu src dst_len = Inl OutOfRange)"
proof -
  have s: "src = out @ left" "CHR ''%'' \<notin> set out" using url_blocks_split [OF assms(2)] by auto
  have "List.map plus_to_space out = out \<longleftrightarrow> CHR ''+'' \<notin> set out"
    by (induction out) (auto simp: plus_to_space_def)
  then have d: "out @ url_decode left = url_decode src \<longleftrightarrow> CHR ''+'' \<notin> set out"
    using url_decode_plain [OF s(2), of left] s(1) by auto
  have "asm_opt_simd_url_decode cpu src dst_len = Inr (Some (out @ url_decode left))"
    if "16 \<le> length src" "length src < dst_len"
  proof -
    have l: "length out + length left < dst_len" using that(2) s(1) by simp
    have "url_loop (dst_len - 1 - length out) left = url_decode left"
      unfolding url_decode_def using l by (intro url_loop_enough) simp_all
    moreover have "out = [] \<or> left \<noteq> [] \<or> url_decode left = []" by (simp add: url_decode_def url_loop.simps [of _ "[]"])
    moreover have "length (url_decode left) \<le> length left" by (simp add: url_decode_def url_loop_length)
    moreover have "url_decode left = []" if "\<not> length out < dst_len - 1"
    proof -
      have "left = []" using l that by (cases left) auto
      then show ?thesis by (simp add: url_decode_def url_loop.simps [of _ "[]"])
    qed
    ultimately show ?thesis using that l assms(1,2) by (auto simp: asm_opt_simd_url_decode_def Let_def)
  qed
  moreover have "asm_opt_simd_url_decode cpu src dst_len = Inl OutOfRange" if "16 \<le> length src" "dst_len \<le> length out"
    using that assms(1,2) by (auto simp: asm_opt_simd_url_decode_def Let_def)
  ultimately show ?thesis using d by (auto simp: asm_opt_simd_url_decode_def)
qed

theorem asm_url_decode_spec_witness:
  "asm_opt_simd_url_decode 1 ''0123456789abcde+%41'' 20 = Inr (Some ''0123456789abcde+A'') \<and>
   asm_opt_simd_url_decode 1 ''%41'' 20 = Inr None \<and>
   asm_opt_simd_url_decode 1 ''0123456789abcde+%41'' 16 = Inl OutOfRange"
proof -
  have n: "has_neon 1" by (simp add: has_neon_def CPU_FEATURE_NEON_def)
  have b: "url_blocks ''0123456789abcde+%41'' = (''0123456789abcde+'', ''%41'')" "url_blocks ''%41'' = ([], ''%41'')"
    by (simp_all add: url_blocks.simps [of "''0123456789abcde+%41''"] url_blocks.simps [of "''%41''"])
  have d: "url_decode ''%41'' = ''A''"
    by (simp add: url_decode_def url_loop.simps url_char_def percent_code_def hex_digit_def char_of_def bit_0)
  show ?thesis
    using asm_url_decode_spec [OF n b(1), of 20] asm_url_decode_spec [OF n b(1), of 16] asm_url_decode_spec [OF n b(2), of 20] d
    by simp
qed

end
