(* ===== verification/AsmHttp.thy ===== *)
theory AsmHttp
  imports AsmCodec
begin

text \<open>
  The HTTP routines of src/utils/asm/asm_opt.c on aarch64: searching buffers, recognising
  methods, writing status lines and headers, and parsing a header. Buffers are lists of bytes,
  texts that are written are lists of characters; a write behind the end of a buffer is
  \<open>OutOfRange\<close>.
\<close>

definition bytes :: "string \<Rightarrow> u8 list" where
  "bytes s = List.map of_char s"

section \<open>Searching\<close>

definition matches_at :: "u8 list \<Rightarrow> u8 list \<Rightarrow> nat \<Rightarrow> bool" where
  "matches_at buf pat i \<longleftrightarrow> take (length pat) (drop i buf) = pat"

text \<open>First every fourth position, by its first four bytes, then every position.\<close>

definition asm_opt_buffer_find :: "u32 \<Rightarrow> u8 list \<Rightarrow> u8 list \<Rightarrow> nat option" where
  "asm_opt_buffer_find cpu buf pat =
     (if pat = [] \<or> length pat > length buf then None
      else let n = length buf - length pat;
               fast = (if 4 \<le> length pat \<and> has_neon cpu
                       then List.find (\<lambda>i. take 4 (drop i buf) = take 4 pat \<and> matches_at buf pat i)
                              (List.map ((*) 4) [0..<Suc (n div 4)])
                       else None)
           in case fast of Some i \<Rightarrow> Some i | None \<Rightarrow> List.find (matches_at buf pat) [0..<Suc n])"

text \<open>The library's strstr on the strings in memory.\<close>

definition c_strstr :: "u8 list \<Rightarrow> u8 list \<Rightarrow> nat option" where
  "c_strstr hay needle = List.find (matches_at hay needle) [0..<Suc (length hay)]"

definition asm_opt_strstr :: "u32 \<Rightarrow> u8 list \<Rightarrow> u8 list \<Rightarrow> nat option run" where
  "asm_opt_strstr cpu haystack needle =
     (if c_str needle = [] then Inr (Some 0)
      else bindR (asm_opt_strlen needle) (\<lambda>needle_len.
        if 4 \<le> needle_len \<and> has_neon cpu
        then bindR (asm_opt_strlen haystack) (\<lambda>haystack_len.
               Inr (asm_opt_buffer_find cpu (take haystack_len haystack) (take needle_len needle)))
        else Inr (c_strstr (c_str haystack) (c_str needle))))"

definition end_mark :: "u8 list" where
  "end_mark = [13, 10, 13, 10]"

text \<open>
  Blocks of eight bytes: only a mark at the first two positions is noticed. The result is the
  position behind the mark.
\<close>

function end_blocks :: "nat \<Rightarrow> u8 list \<Rightarrow> nat option" where
  "end_blocks off rest =
     (if length rest < 8 then None
      else case (if matches_at rest end_mark 0 \<or> matches_at rest end_mark 1
                 then List.find (\<lambda>i. i + 3 < length rest \<and> matches_at rest end_mark i) [0..<8] else None) of
             Some i \<Rightarrow> Some (off + i + 4)
           | None \<Rightarrow> end_blocks (off + 8) (drop 8 rest))"
  by pat_completeness auto
termination by (relation "measure (\<lambda>(off, rest). length rest)") auto

declare end_blocks.simps [simp del]

text \<open>With fewer than three bytes \<open>len - 3\<close> wraps around and the loop leaves the buffer.\<close>

definition asm_opt_find_http_header_end :: "u32 \<Rightarrow> u8 list \<Rightarrow> int run" where
  "asm_opt_find_http_header_end cpu buf =
     (case (if 8 \<le> length buf \<and> has_neon cpu then end_blocks 0 buf else None) of
        Some k \<Rightarrow> Inr (int k)
      | None \<Rightarrow>
          if length buf < 3 then Inl OutOfRange
          else (case List.find (matches_at buf end_mark) [0..<length buf - 3] of
                  Some i \<Rightarrow> Inr (int i + 4) | None \<Rightarrow> Inr (-1)))"

section \<open>Methods\<close>

definition asm_opt_validate_http_method :: "u8 list \<Rightarrow> bool" where
  "asm_opt_validate_http_method m =
     list_ex (\<lambda>s. m = bytes s) [''GET'', ''POST'', ''PUT'', ''DELETE'', ''HEAD'', ''OPTIONS'']"

text \<open>The bytes of the method in a 64-bit word, the first one lowest.\<close>

fun method_word :: "u8 list \<Rightarrow> u64" where
  "method_word [] = 0"
| "method_word (b # bs) = ucast b OR push_bit 8 (method_word bs)"

definition slow_http_method_detect :: "u8 list \<Rightarrow> int" where
  "slow_http_method_detect m =
     (if m = bytes ''GET'' then 1 else if m = bytes ''POST'' then 2 else if m = bytes ''PUT'' then 3
      else if m = bytes ''DELETE'' then 4 else if m = bytes ''HEAD'' then 5
      else if m = bytes ''OPTIONS'' then 6 else 0)"

definition asm_opt_fast_http_method_detect :: "u32 \<Rightarrow> u8 list \<Rightarrow> int" where
  "asm_opt_fast_http_method_detect cpu m =
     (if 3 \<le> length m \<and> length m \<le> 7 \<and> has_neon cpu
      then let w = method_word m in
           if w = 0x544547 then 1
           else if w = 0x54534F50 then 2
           else if w = 0x545550 then 3
           else if w = 0x45544544454C then 4
           else if w = 0x44414548 then 5
           else if w = 0x534E4F4954504F then 6
           else 0
      else slow_http_method_detect m)"

section \<open>Writing\<close>

text \<open>The value that is returned and the characters that are stored, without a terminator.\<close>

definition store :: "nat \<Rightarrow> string \<Rightarrow> (nat \<times> string) run" where
  "store buffer_size text' =
     (if length text' > buffer_size then Inl OutOfRange else Inr (length text', text'))"

definition print_into :: "nat \<Rightarrow> string \<Rightarrow> (nat \<times> string) run" where
  "print_into buffer_size text' = Inr (length text', snprintf buffer_size text')"

definition code_digits :: "int \<Rightarrow> string" where
  "code_digits code =
     [char_of (48 + c_div code 100), char_of (48 + c_mod (c_div code 10) 10), char_of (48 + c_mod code 10)]"

definition status_text :: "string \<Rightarrow> string \<Rightarrow> string" where
  "status_text code reason = ''HTTP/1.1 '' @ code @ '' '' @ reason @ crlf"

definition asm_opt_simd_generate_status_line :: "u32 \<Rightarrow> nat \<Rightarrow> int \<Rightarrow> string \<Rightarrow> (nat \<times> string) run" where
  "asm_opt_simd_generate_status_line cpu buffer_size code reason =
     (if 64 \<le> buffer_size \<and> has_neon cpu then store buffer_size (status_text (code_digits code) reason)
      else print_into buffer_size (status_text (print_int code) reason))"

definition asm_opt_generate_status_response :: "u32 \<Rightarrow> nat \<Rightarrow> int \<Rightarrow> string \<Rightarrow> (nat \<times> string) run" where
  "asm_opt_generate_status_response cpu buffer_size code reason =
     (if 32 \<le> buffer_size \<and> has_neon cpu then store buffer_size (status_text (code_digits code) reason)
      else print_into buffer_size (status_text (print_int code) reason))"

definition asm_opt_write_http_header :: "u32 \<Rightarrow> nat \<Rightarrow> string \<Rightarrow> string \<Rightarrow> (nat \<times> string) run" where
  "asm_opt_write_http_header cpu buffer_size name value =
     (if 64 \<le> buffer_size \<and> has_neon cpu
      then if length name + length value + 4 > buffer_size then Inr (0, [])
           else store buffer_size (name @ '': '' @ value @ crlf)
      else print_into buffer_size (name @ '': '' @ value @ crlf))"

text \<open>The digits of a number, the last one first, and their reversal.\<close>

fun digits_loop :: "nat \<Rightarrow> string" where
  "digits_loop n = (if n = 0 then [] else char_of (48 + n mod 10) # digits_loop (n div 10))"

declare digits_loop.simps [simp del]

definition asm_opt_generate_content_length_header :: "u32 \<Rightarrow> nat \<Rightarrow> nat \<Rightarrow> (nat \<times> string) run" where
  "asm_opt_generate_content_length_header cpu buffer_size content_length =
     (if 32 \<le> buffer_size \<and> has_neon cpu
      then let num_str = (if content_length = 0 then ''0'' else digits_loop content_length)
           in store buffer_size (''Content-Length: '' @ rev num_str @ crlf)
      else print_into buffer_size (''Content-Length: '' @ print_nat content_length @ crlf))"

section \<open>Parsing\<close>

definition blank :: "u8 \<Rightarrow> bool" where
  "blank b \<longleftrightarrow> b = 32 \<or> b = 9"

text \<open>Key and value of a header in memory, of which the first \<open>len\<close> bytes count.\<close>

definition asm_opt_parse_http_header :: "u8 list \<Rightarrow> nat \<Rightarrow> (u8 list \<times> u8 list) option run" where
  "asm_opt_parse_http_header header len =
     (if len = 0 then Inr None
      else bindR (asm_opt_strchr header 58) (\<lambda>colon.
        case colon of None \<Rightarrow> Inr None
        | Some c \<Rightarrow>
            if c \<ge> len then Inr None
            else let value_start = dropWhile blank (drop (Suc c) (take len header));
                     value_end = takeWhile (\<lambda>b. b \<noteq> 13 \<and> b \<noteq> 10) value_start
                 in Inr (Some (take c header, rev (dropWhile blank (rev value_end))))))"

section \<open>Tokens\<close>

definition asm_opt_bandwidth_update_tokens :: "u64 \<Rightarrow> u64 \<Rightarrow> u64 \<Rightarrow> u64" where
  "asm_opt_bandwidth_update_tokens tokens rate interval = tokens + rate * interval div 1000000"

definition asm_opt_bandwidth_check_limit :: "u64 \<Rightarrow> u64 \<Rightarrow> bool" where
  "asm_opt_bandwidth_check_limit tokens required \<longleftrightarrow> tokens \<ge> required"

section \<open>What the searches find\<close>

lemma find_upt:
  "List.find P [0..<n] = Some i \<longleftrightarrow> i < n \<and> P i \<and> (\<forall>j<i. \<not> P j)"
  "List.find P [0..<n] = None \<longleftrightarrow> (\<forall>i<n. \<not> P i)"
proof -
  show "List.find P [0..<n] = Some i \<longleftrightarrow> i < n \<and> P i \<and> (\<forall>j<i. \<not> P j)"
    by (subst find_Some_iff) auto
  show "List.find P [0..<n] = None \<longleftrightarrow> (\<forall>i<n. \<not> P i)"
    by (auto simp: find_None_iff)
qed

lemma find_map: "List.find P (List.map f xs) = map_option f (List.find (P \<circ> f) xs)"
  by (induction xs) auto

lemma matches_bound: "matches_at buf pat i \<Longrightarrow> pat \<noteq> [] \<Longrightarrow> i + length pat \<le> length buf"
proof -
  assume m: "matches_at buf pat i" and ne: "pat \<noteq> []"
  from m have "length (take (length pat) (drop i buf)) = length pat" by (simp add: matches_at_def)
  with ne show ?thesis by (cases "i \<le> length buf") auto
qed

lemma buffer_find_eq:
  assumes "pat \<noteq> []"
  shows "(asm_opt_buffer_find cpu buf pat = None \<longleftrightarrow> (\<forall>i. \<not> matches_at buf pat i)) \<and>
    (\<forall>i. asm_opt_buffer_find cpu buf pat = Some i \<longrightarrow> matches_at buf pat i \<and>
      (\<forall>j<i. matches_at buf pat j \<longrightarrow> has_neon cpu \<and> 4 \<le> length pat \<and> i mod 4 = 0 \<and> j mod 4 \<noteq> 0))"
proof (cases "length pat > length buf")
  case True
  with matches_bound [OF _ assms] show ?thesis by (fastforce simp: asm_opt_buffer_find_def)
next
  case False
  let ?n = "length buf - length pat"
  let ?P = "\<lambda>i. take 4 (drop i buf) = take 4 pat \<and> matches_at buf pat i"
  let ?fast = "List.find ?P (List.map ((*) 4) [0..<Suc (?n div 4)])"
  have b: "i < Suc ?n" if "matches_at buf pat i" for i using matches_bound [OF that assms] by simp
  have p: "?P i \<longleftrightarrow> matches_at buf pat i" if "4 \<le> length pat" for i
  proof -
    have "take 4 pat = take 4 (drop i buf)" if m: "take (length pat) (drop i buf) = pat"
    proof -
      have "take 4 pat = take 4 (take (length pat) (drop i buf))" by (simp only: m)
      with \<open>4 \<le> length pat\<close> show ?thesis by (simp only: take_take min_absorb1)
    qed
    then show ?thesis by (auto simp: matches_at_def)
  qed
  have slow: "(List.find (matches_at buf pat) [0..<Suc ?n] = None \<longleftrightarrow> (\<forall>i. \<not> matches_at buf pat i)) \<and>
    (\<forall>i. List.find (matches_at buf pat) [0..<Suc ?n] = Some i \<longrightarrow> matches_at buf pat i \<and> (\<forall>j<i. \<not> matches_at buf pat j))"
    unfolding find_upt using b by blast
  show ?thesis
  proof (cases "4 \<le> length pat \<and> has_neon cpu")
    case True
    show ?thesis
    proof (cases ?fast)
      case None
      with True False assms have "asm_opt_buffer_find cpu buf pat = List.find (matches_at buf pat) [0..<Suc ?n]"
        by (simp add: asm_opt_buffer_find_def Let_def del: upt_Suc)
      with slow show ?thesis by auto
    next
      case (Some k)
      then obtain q where q: "k = 4 * q" "List.find (?P \<circ> (*) 4) [0..<Suc (?n div 4)] = Some q"
        by (auto simp: find_map simp del: upt_Suc)
      from q(2) have "?P (4 * q) \<and> (\<forall>j<q. \<not> ?P (4 * j))" unfolding find_upt comp_def by blast
      then have "matches_at buf pat k" "\<forall>j<q. \<not> matches_at buf pat (4 * j)" using p True q(1) by blast+
      moreover have "\<forall>j<k. j mod 4 = 0 \<longrightarrow> (\<exists>i<q. j = 4 * i)" using q(1) by (auto elim!: dvdE simp flip: dvd_eq_mod_eq_0)
      moreover have "asm_opt_buffer_find cpu buf pat = Some k" using True False assms Some by (simp add: asm_opt_buffer_find_def Let_def del: upt_Suc)
      ultimately show ?thesis using True q(1) by fastforce
    qed
  next
    case nofast: False
    then have "asm_opt_buffer_find cpu buf pat = List.find (matches_at buf pat) [0..<Suc ?n]"
      using False assms by (auto simp: asm_opt_buffer_find_def Let_def simp del: upt_Suc)
    with slow show ?thesis by auto
  qed
qed

lemma end_blocks_eq:
  "end_blocks off rest = Some k \<Longrightarrow> \<exists>i. k = off + i + 4 \<and> matches_at rest end_mark i"
proof (induction off rest arbitrary: k rule: end_blocks.induct)
  case (1 off rest)
  let ?f = "if matches_at rest end_mark 0 \<or> matches_at rest end_mark 1
    then List.find (\<lambda>i. i + 3 < length rest \<and> matches_at rest end_mark i) [0..<8] else None"
  have l: "\<not> length rest < 8" using 1(2) by (auto simp: end_blocks.simps [of off rest])
  show ?case
  proof (cases ?f)
    case None
    with 1(2) l have "end_blocks (off + 8) (drop 8 rest) = Some k" by (simp add: end_blocks.simps [of off rest])
    from 1(1) [OF l None this] obtain i where "k = off + 8 + i + 4" "matches_at (drop 8 rest) end_mark i" by blast
    then show ?thesis by (intro exI [of _ "8 + i"]) (simp add: matches_at_def add.commute)
  next
    case (Some i)
    then have "matches_at rest end_mark i" by (auto simp: find_upt split: if_splits)
    with Some 1(2) l show ?thesis by (auto simp: end_blocks.simps [of off rest])
  qed
qed

section \<open>What the methods are\<close>

lemma method_word_eq: "method_word bs = word_of_int (bytes_val bs)"
proof (induction bs)
  case (Cons b bs)
  have "uint b AND push_bit 8 (bytes_val bs) = 0"
    using bit_imp_le_length [of b] by (intro bit_eqI) (fastforce simp: bit_simps bit_unsigned_iff)
  then have "uint b + push_bit 8 (bytes_val bs) = uint b OR push_bit 8 (bytes_val bs)" by (rule disjunctive_add_eq_or)
  moreover have "256 * bytes_val bs = push_bit 8 (bytes_val bs)" by (simp add: push_bit_eq_mult)
  ultimately have "bytes_val (b # bs) = uint b OR push_bit 8 (bytes_val bs)" by simp
  then show ?case using Cons by (simp add: of_int_or_eq of_int_push_bit del: bytes_val_simps)
qed simp

lemma bytes_val_zeros: "bytes_val (bs @ replicate k 0) = bytes_val bs"
  by (induction bs) (simp_all, induction k, simp_all)

lemma method_word_inj:
  assumes "length as \<le> 8" "length bs \<le> 8" "0 \<notin> set as" "0 \<notin> set bs" "method_word as = method_word bs"
  shows "as = bs"
proof -
  let ?p = "\<lambda>xs. xs @ replicate (8 - length xs) (0 :: u8)"
  have r: "take_bit 64 (bytes_val xs) = bytes_val xs" if "length xs \<le> 8" for xs
  proof -
    have "bytes_val xs < 256 ^ length xs" "0 \<le> bytes_val xs" using bytes_val_range [of xs] by auto
    moreover have "(256::int) ^ length xs \<le> 256 ^ 8" using that by (intro power_increasing) simp_all
    ultimately show ?thesis by (simp add: take_bit_int_eq_self)
  qed
  have "bytes_val as = bytes_val bs"
    using assms(5) r [OF assms(1)] r [OF assms(2)] by (simp add: method_word_eq word_of_int_eq_iff)
  then have "bytes_val (?p as) = bytes_val (?p bs)" by (simp only: bytes_val_zeros)
  moreover have "length (?p as) = length (?p bs)" using assms(1,2) by simp
  ultimately have "?p as = ?p bs" by (intro bytes_val_inj)
  moreover have "takeWhile (\<lambda>b. b \<noteq> 0) (?p xs) = xs" if "0 \<notin> set xs" for xs :: "u8 list"
  proof -
    have "takeWhile (\<lambda>b. b \<noteq> 0) (xs @ replicate n (0 :: u8)) = xs" for n
      using that by (cases n) (auto simp: takeWhile_append)
    then show ?thesis .
  qed
  ultimately show ?thesis using assms(3,4) by metis
qed

lemma bytes_clean: "CHR 0x00 \<notin> set t \<Longrightarrow> 0 \<notin> set (bytes t)"
proof -
  have "c = CHR 0x00" if "(of_char c :: u8) = 0" for c
  proof -
    have "(of_nat (of_char c) :: u8) = 0" using that by (simp add: of_nat_of_char)
    then have "256 dvd (of_char c :: nat)" by (simp add: word_of_nat_eq_0_iff)
    then have "(of_char c :: nat) mod 256 = 0" by (rule dvd_imp_mod_0)
    then have "(of_char c :: nat) = of_char CHR 0x00" by simp
    then show ?thesis by (rule of_char_eqI)
  qed
  then show "CHR 0x00 \<notin> set t \<Longrightarrow> 0 \<notin> set (bytes t)" by (auto simp: bytes_def)
qed

lemma is_method:
  assumes "length m \<le> 8" "0 \<notin> set m" "length t \<le> 8" "CHR 0x00 \<notin> set t"
  shows "method_word m = method_word (bytes t) \<longleftrightarrow> m = bytes t"
  using method_word_inj [of m "bytes t"] assms bytes_clean [of t] by (auto simp: bytes_def)

lemma method_words:
  "0x544547 = method_word (bytes ''GET'')" "0x54534F50 = method_word (bytes ''POST'')"
  "0x545550 = method_word (bytes ''PUT'')" "0x45544544454C = method_word (bytes ''LEDETE'')"
  "0x44414548 = method_word (bytes ''HEAD'')" "0x534E4F4954504F = method_word (bytes ''OPTIONS'')"
  by (simp_all add: bytes_def)

section \<open>Texts agree\<close>

lemma code_digits_eq: "100 \<le> code \<Longrightarrow> code < 1000 \<Longrightarrow> code_digits code = print_int code"
proof -
  assume c: "100 \<le> code" "code < 1000"
  define n where "n = nat code"
  have n: "100 \<le> n" "n < 1000" "code = int n" using c by (simp_all add: n_def)
  have d: "c_div (int a) (int b) = int (a div b)" "c_mod (int a) (int b) = int (a mod b)" if "0 < b" for a b :: nat
    using that by (simp_all add: c_div_def c_mod_nonneg zdiv_int sgn_if zmod_int)
  have q: "n div 10 div 10 = n div 100" "n div 10 \<ge> 10" "n div 100 < 10" using n by (simp_all add: div_mult2_eq [symmetric])
  have ch: "char_of (48 + int k) = digit_char k" if "k < 10" for k
  proof -
    have "(of_char (char_of (48 + k)) :: int) = int (of_char (char_of (48 + k)))" by (rule of_nat_of_char [symmetric])
    then have "(of_char (char_of (48 + int k)) :: int) = of_char (char_of (48 + k))" by (simp add: zmod_int)
    then have "char_of (48 + int k) = char_of (48 + k)" by (rule of_char_eqI)
    then show ?thesis by (simp only: digit_char_def that if_True)
  qed
  have "print_int code = [digit_char (n div 100), digit_char (n div 10 mod 10), digit_char (n mod 10)]"
    using n q print_nat_step [of n] print_nat_step [of "n div 10"] print_nat_step [of "n div 100"]
    by (simp add: print_int_def)
  moreover have "code_digits code = [char_of (48 + int (n div 100)), char_of (48 + int (n div 10 mod 10)), char_of (48 + int (n mod 10))]"
    using d(1) [of 100 n] d(1) [of 10 n] d(2) [of 10 "n div 10"] d(2) [of 10 n] n(3) by (simp add: code_digits_def)
  ultimately show ?thesis using q ch by simp
qed

lemma digits_loop_eq: "0 < n \<Longrightarrow> rev (digits_loop n) = print_nat n"
proof (induction n rule: less_induct)
  case (less n)
  show ?case
  proof (cases "n < 10")
    case True
    with less.prems show ?thesis
      by (simp add: digits_loop.simps [of n] digits_loop.simps [of 0] print_nat_step [of n] digit_char_def)
  next
    case False
    with less.IH [of "n div 10"] show ?thesis
      by (simp add: digits_loop.simps [of n] print_nat_step [of n] digit_char_def)
  qed
qed

section \<open>Properties\<close>

text \<open>The vectorised substring search finds an occurrence exactly when there is one, but not always
the first: an occurrence at a multiple of four is preferred to every earlier one that is not.
Without vector instructions and for patterns below four bytes it is the first one. strstr on
strings whose blocks are readable answers alike.\<close>

theorem asm_strstr_spec:
  assumes "room hay" "room needle" "c_str needle \<noteq> []"
  shows "\<exists>r. asm_opt_strstr cpu hay needle = Inr r \<and>
    (r = None \<longleftrightarrow> (\<forall>i. \<not> matches_at (c_str hay) (c_str needle) i)) \<and>
    (\<forall>i. r = Some i \<longrightarrow> matches_at (c_str hay) (c_str needle) i \<and>
      (\<forall>j<i. matches_at (c_str hay) (c_str needle) j \<longrightarrow>
         has_neon cpu \<and> 4 \<le> length (c_str needle) \<and> i mod 4 = 0 \<and> j mod 4 \<noteq> 0))"
proof (cases "4 \<le> length (c_str needle) \<and> has_neon cpu")
  case True
  have "take (length (c_str m)) m = c_str m" if "room m" for m using zero_behind [OF room_length(2) [OF that]] by simp
  then have "asm_opt_strstr cpu hay needle = Inr (asm_opt_buffer_find cpu (c_str hay) (c_str needle))"
    using True assms by (simp add: asm_opt_strstr_def strlen_eq)
  with buffer_find_eq [OF assms(3)] show ?thesis by (intro exI [of _ "asm_opt_buffer_find cpu (c_str hay) (c_str needle)"]) simp
next
  case False
  then have run: "asm_opt_strstr cpu hay needle = Inr (c_strstr (c_str hay) (c_str needle))"
    using assms by (auto simp: asm_opt_strstr_def strlen_eq)
  have b: "i < Suc (length (c_str hay))" if "matches_at (c_str hay) (c_str needle) i" for i
    using matches_bound [OF that assms(3)] by simp
  have "(c_strstr (c_str hay) (c_str needle) = None \<longleftrightarrow> (\<forall>i. \<not> matches_at (c_str hay) (c_str needle) i)) \<and>
    (\<forall>i. c_strstr (c_str hay) (c_str needle) = Some i \<longrightarrow> matches_at (c_str hay) (c_str needle) i \<and>
      (\<forall>j<i. \<not> matches_at (c_str hay) (c_str needle) j))"
    unfolding c_strstr_def find_upt using b by blast
  with run show ?thesis by (intro exI [of _ "c_strstr (c_str hay) (c_str needle)"]) auto
qed

definition sample_hay :: "u8 list" where
  "sample_hay = bytes ''xabcdzzzabcd'' @ [0, 0, 0, 0]"

definition sample_needle :: "u8 list" where
  "sample_needle = bytes ''abcd'' @ [0, 0, 0, 0]"

theorem asm_strstr_spec_witness:
  "\<exists>r. asm_opt_strstr 1 sample_hay sample_needle = Inr r \<and> r \<noteq> None \<and>
    asm_opt_buffer_find 1 (c_str sample_hay) (c_str sample_needle) = Some 8 \<and>
    matches_at (c_str sample_hay) (c_str sample_needle) 1"
proof -
  have e: "c_str sample_hay = bytes ''xabcdzzzabcd''" "c_str sample_needle = bytes ''abcd''"
    by (simp_all add: sample_hay_def sample_needle_def bytes_def)
  have m: "matches_at (c_str sample_hay) (c_str sample_needle) 1" unfolding e by (simp add: bytes_def matches_at_def)
  have r: "room sample_hay" "room sample_needle"
    by (simp_all add: room_def e) (simp_all add: sample_hay_def sample_needle_def bytes_def)
  have ne: "c_str sample_needle \<noteq> []" by (simp add: e bytes_def)
  have "asm_opt_buffer_find 1 (bytes ''xabcdzzzabcd'') (bytes ''abcd'') = Some 8"
    by (simp add: asm_opt_buffer_find_def bytes_def matches_at_def has_neon_def CPU_FEATURE_NEON_def upt_conv_Cons)
  with asm_strstr_spec [OF r ne, of 1] m show ?thesis unfolding e by auto
qed

text \<open>The search for the end of a header: the result is the position behind an end mark, and -1
means that there is none; but a mark is only noticed at the first two bytes of a block of eight,
so a later mark, of the body, can be reported instead. Without vector instructions the first one
is reported; with fewer than three bytes the loop leaves the buffer.\<close>

theorem asm_header_end_spec:
  assumes "asm_opt_find_http_header_end cpu buf = Inr r"
  shows "(r = -1 \<longleftrightarrow> (\<forall>i. \<not> matches_at buf end_mark i)) \<and>
    (r \<noteq> -1 \<longrightarrow> (\<exists>i. r = int i + 4 \<and> matches_at buf end_mark i \<and>
      (\<not> has_neon cpu \<longrightarrow> (\<forall>j<i. \<not> matches_at buf end_mark j)))) \<and> 3 \<le> length buf"
proof (cases "if 8 \<le> length buf \<and> has_neon cpu then end_blocks 0 buf else None")
  case None
  with assms have l: "3 \<le> length buf" by (auto simp: asm_opt_find_http_header_end_def split: if_splits)
  have b: "i < length buf - 3" if "matches_at buf end_mark i" for i
    using matches_bound [OF that] by (simp add: end_mark_def)
  show ?thesis
  proof (cases "List.find (matches_at buf end_mark) [0..<length buf - 3]")
    case none: None
    then have "\<forall>i. \<not> matches_at buf end_mark i" using b by (auto simp: find_upt)
    moreover have "r = -1" using assms None none l by (simp add: asm_opt_find_http_header_end_def)
    ultimately show ?thesis using l by auto
  next
    case (Some i)
    then have "matches_at buf end_mark i" "\<forall>j<i. \<not> matches_at buf end_mark j" by (auto simp: find_upt)
    moreover have "r = int i + 4" using assms None Some l by (simp add: asm_opt_find_http_header_end_def)
    ultimately show ?thesis using l by auto
  qed
next
  case (Some k)
  then obtain i where i: "k = i + 4" "matches_at buf end_mark i" and c: "8 \<le> length buf" "has_neon cpu"
    using end_blocks_eq [of 0 buf k] by (auto split: if_splits)
  have "r = int i + 4" using assms Some i(1) by (simp add: asm_opt_find_http_header_end_def)
  then show ?thesis using i(2) c by auto
qed

definition sample_request_bytes :: "u8 list" where
  "sample_request_bytes = bytes ''Get'' @ end_mark @ bytes ''a'' @ end_mark @ bytes ''body''"

theorem asm_header_end_spec_witness:
  "asm_opt_find_http_header_end 1 sample_request_bytes = Inr 12 \<and>
   asm_opt_find_http_header_end 0 sample_request_bytes = Inr 7 \<and>
   (\<exists>i. (12 :: int) = int i + 4 \<and> matches_at sample_request_bytes end_mark i)"
proof -
  have 1: "asm_opt_find_http_header_end 1 sample_request_bytes = Inr 12"
    by (simp add: asm_opt_find_http_header_end_def sample_request_bytes_def bytes_def end_mark_def matches_at_def
        has_neon_def CPU_FEATURE_NEON_def end_blocks.simps upt_conv_Cons)
  have 0: "asm_opt_find_http_header_end 0 sample_request_bytes = Inr 7"
    by (simp add: asm_opt_find_http_header_end_def sample_request_bytes_def bytes_def end_mark_def matches_at_def
        has_neon_def CPU_FEATURE_NEON_def upt_conv_Cons)
  from asm_header_end_spec [OF 1] 1 0 show ?thesis by auto
qed

text \<open>Recognising the method in one register agrees with the comparison of strings for every
method without a zero byte, but for DELETE: its constant spells LEDETE, so DELETE is unknown to
the fast path and LEDETE is taken for it.\<close>

theorem asm_method_detect_spec:
  assumes "0 \<notin> set m"
  shows "asm_opt_fast_http_method_detect cpu m =
    (if has_neon cpu \<and> m = bytes ''DELETE'' then 0
     else if has_neon cpu \<and> m = bytes ''LEDETE'' then 4 else slow_http_method_detect m)"
proof (cases "3 \<le> length m \<and> length m \<le> 7 \<and> has_neon cpu")
  case True
  then have l: "length m \<le> 8" by simp
  note w = is_method [OF l assms]
  have "asm_opt_fast_http_method_detect cpu m =
      (if m = bytes ''GET'' then 1 else if m = bytes ''POST'' then 2 else if m = bytes ''PUT'' then 3
       else if m = bytes ''LEDETE'' then 4 else if m = bytes ''HEAD'' then 5 else if m = bytes ''OPTIONS'' then 6 else 0)"
    using True w [of "''GET''"] w [of "''POST''"] w [of "''PUT''"] w [of "''LEDETE''"] w [of "''HEAD''"] w [of "''OPTIONS''"]
    unfolding asm_opt_fast_http_method_detect_def Let_def method_words by simp
  with True show ?thesis by (simp add: slow_http_method_detect_def bytes_def)
next
  case False
  have "length (bytes ''DELETE'') = 6" "length (bytes ''LEDETE'') = 6" by (simp_all add: bytes_def)
  then have n: "\<not> (has_neon cpu \<and> m = bytes ''DELETE'')" "\<not> (has_neon cpu \<and> m = bytes ''LEDETE'')"
    using False by fastforce+
  have "asm_opt_fast_http_method_detect cpu m = slow_http_method_detect m"
    unfolding asm_opt_fast_http_method_detect_def using False by (rule if_not_P)
  then show ?thesis by (simp only: n if_False)
qed

theorem asm_method_detect_spec_witness:
  "asm_opt_fast_http_method_detect 1 (bytes ''DELETE'') = 0 \<and> asm_opt_validate_http_method (bytes ''DELETE'')"
  using asm_method_detect_spec [of "bytes ''DELETE''" 1]
  by (simp add: bytes_def has_neon_def CPU_FEATURE_NEON_def asm_opt_validate_http_method_def)

text \<open>The texts written with vector instructions are those of the printing routines: for a buffer
that is longer than the text, of at least 64 bytes, and a status of three digits the status
lines, the header lines and the Content-Length header are the same with the same returned length
on every processor. A reason that does not fit is written behind the buffer.\<close>

theorem asm_texts_agree:
  assumes "64 \<le> n" "100 \<le> code" "code < 1000"
  shows "(length (status_text (print_int code) reason) < n \<longrightarrow>
      asm_opt_simd_generate_status_line cpu n code reason = print_into n (status_text (print_int code) reason) \<and>
      asm_opt_generate_status_response cpu n code reason = print_into n (status_text (print_int code) reason)) \<and>
    (length (name @ '': '' @ value @ crlf) < n \<longrightarrow>
      asm_opt_write_http_header cpu n name value = print_into n (name @ '': '' @ value @ crlf)) \<and>
    (length (''Content-Length: '' @ print_nat k @ crlf) < n \<longrightarrow>
      asm_opt_generate_content_length_header cpu n k = print_into n (''Content-Length: '' @ print_nat k @ crlf)) \<and>
    (has_neon cpu \<and> n < length (status_text (print_int code) reason) \<longrightarrow>
      asm_opt_simd_generate_status_line cpu n code reason = Inl OutOfRange)"
proof -
  have s: "length t < n \<Longrightarrow> store n t = print_into n t" "n < length t \<Longrightarrow> store n t = Inl OutOfRange" for t
    by (simp_all add: store_def print_into_def snprintf_fits)
  have z: "print_nat 0 = ''0''" by (simp add: print_nat_step [of 0] digit_char_def char_of_def bit_0)
  have d: "rev (if k = 0 then ''0'' else digits_loop k) = print_nat k" using digits_loop_eq [of k] by (simp add: z)
  have h: "asm_opt_write_http_header cpu n name value = print_into n (name @ '': '' @ value @ crlf)"
    if "length (name @ '': '' @ value @ crlf) < n"
    using that assms(1) s(1) [OF that] by (simp add: asm_opt_write_http_header_def crlf_def)
  have c: "asm_opt_generate_content_length_header cpu n k = print_into n (''Content-Length: '' @ print_nat k @ crlf)"
    if "length (''Content-Length: '' @ print_nat k @ crlf) < n"
    using s(1) [OF that] unfolding asm_opt_generate_content_length_header_def Let_def d by simp
  show ?thesis
    using assms(1) s h c code_digits_eq [OF assms(2,3)]
    by (simp add: asm_opt_simd_generate_status_line_def asm_opt_generate_status_response_def)
qed

theorem asm_texts_agree_witness:
  "asm_opt_simd_generate_status_line 1 64 200 ''OK'' = print_into 64 (status_text (print_int 200) ''OK'')"
proof -
  have "print_int 200 = ''200''"
    by (simp add: print_int_def print_nat_step digit_char_def char_of_def bit_0)
  then have "length (status_text (print_int 200) ''OK'') < 64" by (simp add: status_text_def crlf_def)
  with asm_texts_agree [of 64 200 "''OK''" 1] show ?thesis by simp
qed

end
