(* ===== verification/AsmSimd.thy ===== *)
theory AsmSimd
  imports AsmHttp
begin

text \<open>
  The array and text checks of src/utils/asm/asm_opt.c on aarch64 that work on vector
  registers: sums, maxima, the test for printable text and the test for characters that JSON
  escapes. A text is the list of the bytes from the pointer to the end of the memory that may
  be read. In the two tests the assembler returns its verdict in the register of the length.
\<close>

section \<open>Sums\<close>

text \<open>uadalp: neighbours are added and accumulated, two lanes of 64 bits for four elements.\<close>

fun pair_sums :: "u32 list \<Rightarrow> u64 list" where
  "pair_sums (a # b # xs) = (ucast a + ucast b) # pair_sums xs"
| "pair_sums _ = []"

function sum_blocks :: "u64 list \<Rightarrow> u32 list \<Rightarrow> u64 list \<times> u32 list" where
  "sum_blocks acc xs =
     (if 16 \<le> length xs then sum_blocks (map2 (+) acc (pair_sums (take 16 xs))) (drop 16 xs) else (acc, xs))"
  by pat_completeness auto
termination by (relation "measure (\<lambda>(acc, xs). length xs)") auto

declare sum_blocks.simps [simp del]

fun add_rest :: "u64 \<Rightarrow> u32 list \<Rightarrow> u64" where
  "add_rest s [] = s"
| "add_rest s (x # xs) = add_rest (s + ucast x) xs"

text \<open>The eight lanes of v0 to v3 are added up pairwise in the end.\<close>

definition asm_opt_simd_sum_array :: "u32 \<Rightarrow> u32 list \<Rightarrow> u64" where
  "asm_opt_simd_sum_array cpu xs =
     (if 16 \<le> length xs \<and> has_neon cpu
      then let (acc, rest) = sum_blocks (replicate 8 0) xs;
               lane0 = (acc ! 0 + acc ! 2) + (acc ! 4 + acc ! 6);
               lane1 = (acc ! 1 + acc ! 3) + (acc ! 5 + acc ! 7)
           in add_rest (lane0 + lane1) rest
      else add_rest 0 xs)"

section \<open>Maxima\<close>

function max_blocks :: "u32 list \<Rightarrow> u32 list \<Rightarrow> u32 list \<times> u32 list" where
  "max_blocks acc xs =
     (if 16 \<le> length xs then max_blocks (map2 max acc (take 16 xs)) (drop 16 xs) else (acc, xs))"
  by pat_completeness auto
termination by (relation "measure (\<lambda>(acc, xs). length xs)") auto

declare max_blocks.simps [simp del]

fun max_rest :: "u32 \<Rightarrow> u32 list \<Rightarrow> u32" where
  "max_rest m [] = m"
| "max_rest m (x # xs) = max_rest (if x > m then x else m) xs"

text \<open>All four registers start with the first four elements; umax and umaxp join the 16 lanes.\<close>

definition asm_opt_simd_max_array :: "u32 \<Rightarrow> u32 list \<Rightarrow> u32" where
  "asm_opt_simd_max_array cpu xs =
     (if 16 \<le> length xs \<and> has_neon cpu
      then let v = take 4 xs;
               (acc, rest) = max_blocks (v @ v @ v @ v) xs
           in max_rest (foldr max acc 0) rest
      else max_rest 0 xs)"

section \<open>Printable text\<close>

fun ascii_rest :: "u8 list \<Rightarrow> nat \<Rightarrow> bool run" where
  "ascii_rest mem 0 = Inr True"
| "ascii_rest [] (Suc n) = Inl OutOfRange"
| "ascii_rest (b # bs) (Suc n) = (if b < 0x20 \<or> b > 0x7E then Inr False else ascii_rest bs n)"

text \<open>
  umaxv is all ones as soon as one byte passes; fmov replaces the length with it. cmhi is a
  strict comparison.
\<close>

function ascii_blocks :: "u8 list \<Rightarrow> u64 \<Rightarrow> bool run" where
  "ascii_blocks mem len =
     (if 16 \<le> len
      then if length mem < 16 then Inl OutOfRange
           else let len' = (if list_ex (\<lambda>b. 0x20 \<le> b \<and> b < 0x7E) (take 16 mem) then 0xFF else 0)
                in if len' AND 0xFF \<noteq> 0xFF then Inr False else ascii_blocks (drop 16 mem) (len' - 16)
      else ascii_rest mem (unat len))"
  by pat_completeness auto
termination by (relation "measure (\<lambda>(mem, len). length mem)") auto

declare ascii_blocks.simps [simp del]

definition asm_opt_simd_validate_ascii :: "u32 \<Rightarrow> u8 list \<Rightarrow> u64 \<Rightarrow> bool run" where
  "asm_opt_simd_validate_ascii cpu mem len =
     (if 16 \<le> len \<and> has_neon cpu then ascii_blocks mem len else ascii_rest mem (unat len))"

section \<open>Characters that JSON escapes\<close>

definition escaped :: "u8 \<Rightarrow> bool" where
  "escaped b \<longleftrightarrow> b < 0x20 \<or> b = 0x22 \<or> b = 0x5C \<or> b = 0x2F"

fun json_rest :: "u8 list \<Rightarrow> nat \<Rightarrow> bool run" where
  "json_rest mem 0 = Inr False"
| "json_rest [] (Suc n) = Inl OutOfRange"
| "json_rest (b # bs) (Suc n) = (if escaped b then Inr True else json_rest bs n)"

function json_blocks :: "u8 list \<Rightarrow> u64 \<Rightarrow> bool run" where
  "json_blocks mem len =
     (if 16 \<le> len
      then if length mem < 16 then Inl OutOfRange
           else let len' = (if list_ex escaped (take 16 mem) then 0xFF else 0)
                in if len' AND 0xFF \<noteq> 0 then Inr True else json_blocks (drop 16 mem) (len' - 16)
      else json_rest mem (unat len))"
  by pat_completeness auto
termination by (relation "measure (\<lambda>(mem, len). length mem)") auto

declare json_blocks.simps [simp del]

definition asm_opt_simd_needs_json_escape :: "u32 \<Rightarrow> u8 list \<Rightarrow> u64 \<Rightarrow> bool run" where
  "asm_opt_simd_needs_json_escape cpu mem len =
     (if 16 \<le> len \<and> has_neon cpu then json_blocks mem len else json_rest mem (unat len))"

section \<open>Sums and maxima are those of the elements\<close>

definition array_total :: "u32 list \<Rightarrow> u64" where
  "array_total xs = sum_list (List.map ucast xs)"

lemma pair_sums_total: "even (length xs) \<Longrightarrow> sum_list (pair_sums xs) = array_total xs \<and> length (pair_sums xs) = length xs div 2"
  by (induction xs rule: pair_sums.induct) (auto simp: array_total_def algebra_simps)

lemma sum_map2: "length xs = length ys \<Longrightarrow> sum_list (map2 (+) xs ys) = sum_list xs + sum_list (ys :: u64 list)"
  by (induction xs ys rule: list_induct2) (simp_all add: algebra_simps)

lemma sum_blocks_total:
  "length acc = 8 \<Longrightarrow> sum_blocks acc xs = (acc', rest) \<Longrightarrow>
   length acc' = 8 \<and> sum_list acc' + array_total rest = sum_list acc + array_total xs"
proof (induction acc xs rule: sum_blocks.induct)
  case (1 acc xs)
  show ?case
  proof (cases "16 \<le> length xs")
    case True
    let ?a = "map2 (+) acc (pair_sums (take 16 xs))"
    have p: "sum_list (pair_sums (take 16 xs)) = array_total (take 16 xs)" "length (pair_sums (take 16 xs)) = 8"
      using pair_sums_total [of "take 16 xs"] True by (simp_all add: min_absorb2)
    have "array_total xs = array_total (take 16 xs) + array_total (drop 16 xs)"
      by (metis append_take_drop_id map_append sum_list_append array_total_def)
    moreover have "sum_list ?a = sum_list acc + array_total (take 16 xs)" using sum_map2 [of acc "pair_sums (take 16 xs)"] p 1(2) by simp
    moreover have "length ?a = 8" using p 1(2) by simp
    moreover have "sum_blocks ?a (drop 16 xs) = (acc', rest)" using 1(3) True by (simp add: sum_blocks.simps [of acc xs])
    ultimately show ?thesis using 1(1) [OF True] by (simp add: algebra_simps)
  next
    case False
    with 1(2,3) show ?thesis by (simp add: sum_blocks.simps [of acc xs])
  qed
qed

lemma add_rest_total: "add_rest s xs = s + array_total xs"
  by (induction s xs rule: add_rest.induct) (simp_all add: array_total_def algebra_simps)

lemma eight: "length xs = 8 \<Longrightarrow> sum_list xs = xs ! 0 + xs ! 1 + xs ! 2 + xs ! 3 + xs ! 4 + xs ! 5 + xs ! 6 + xs ! 7"
  for xs :: "u64 list"
  by (simp add: sum_list_sum_nth numeral_eq_Suc)

lemma sum_array_eq: "asm_opt_simd_sum_array cpu xs = array_total xs"
proof (cases "16 \<le> length xs \<and> has_neon cpu")
  case True
  obtain acc rest where b: "sum_blocks (replicate 8 0) xs = (acc, rest)" by fastforce
  have "length acc = 8" "sum_list acc + array_total rest = array_total xs"
    using sum_blocks_total [OF _ b] by (simp_all add: sum_list_replicate)
  then show ?thesis
    using True b eight [of acc] by (simp add: asm_opt_simd_sum_array_def add_rest_total algebra_simps)
next
  case False
  then show ?thesis by (auto simp: asm_opt_simd_sum_array_def add_rest_total)
qed

definition array_max :: "u32 list \<Rightarrow> u32" where
  "array_max xs = foldr max xs 0"

lemma maximum_simps [simp]: "array_max [] = 0" "array_max (x # xs) = max x (array_max xs)"
  by (simp_all add: array_max_def)

lemma maximum_append: "array_max (xs @ ys) = max (array_max xs) (array_max ys)"
  by (induction xs) (simp_all add: max.assoc)

lemma maximum_map2: "length xs = length ys \<Longrightarrow> array_max (map2 max xs ys) = max (array_max xs) (array_max ys)"
  by (induction xs ys rule: list_induct2) (simp_all add: max.assoc max.left_commute max.commute)

lemma max_rest_eq: "max_rest m xs = max m (array_max xs)"
  by (induction m xs rule: max_rest.induct) (auto simp: max_def)

lemma max_blocks_eq:
  "length acc = 16 \<Longrightarrow> max_blocks acc xs = (acc', rest) \<Longrightarrow> max (array_max acc') (array_max rest) = max (array_max acc) (array_max xs)"
proof (induction acc xs rule: max_blocks.induct)
  case (1 acc xs)
  show ?case
  proof (cases "16 \<le> length xs")
    case True
    have "array_max xs = max (array_max (take 16 xs)) (array_max (drop 16 xs))"
      by (metis append_take_drop_id maximum_append)
    moreover have "array_max (map2 max acc (take 16 xs)) = max (array_max acc) (array_max (take 16 xs))"
      using True 1(2) by (intro maximum_map2) simp
    moreover have "max_blocks (map2 max acc (take 16 xs)) (drop 16 xs) = (acc', rest)"
      using 1(3) True by (simp add: max_blocks.simps [of acc xs])
    ultimately show ?thesis using 1(1) [OF True] 1(2) True by (simp add: max.assoc)
  next
    case False
    with 1(2,3) show ?thesis by (simp add: max_blocks.simps [of acc xs])
  qed
qed

lemma max_array_eq: "asm_opt_simd_max_array cpu xs = array_max xs"
proof (cases "16 \<le> length xs \<and> has_neon cpu")
  case True
  let ?v = "take 4 xs"
  obtain acc rest where b: "max_blocks (?v @ ?v @ ?v @ ?v) xs = (acc, rest)" by fastforce
  have "max (array_max acc) (array_max rest) = max (array_max (?v @ ?v @ ?v @ ?v)) (array_max xs)"
    using True max_blocks_eq [OF _ b] by simp
  also have "\<dots> = max (array_max ?v) (array_max xs)" by (simp add: maximum_append)
  also have "\<dots> = array_max xs" by (metis append_take_drop_id maximum_append max.left_idem)
  finally show ?thesis using True b by (simp add: asm_opt_simd_max_array_def max_rest_eq array_max_def)
next
  case False
  then show ?thesis by (auto simp: asm_opt_simd_max_array_def max_rest_eq)
qed

section \<open>The tests\<close>

lemma ascii_blocks_never: "16 \<le> len \<Longrightarrow> ascii_blocks mem len \<noteq> Inr True"
proof (induction mem len rule: ascii_blocks.induct)
  case (1 mem len)
  have "(16 :: u64) \<le> 0xFF - 16" by simp
  with 1 show ?case by (subst ascii_blocks.simps) (auto simp: Let_def)
qed

lemma json_blocks_never: "16 \<le> len \<Longrightarrow> json_blocks mem len \<noteq> Inr False"
proof (induction mem len rule: json_blocks.induct)
  case (1 mem len)
  have "(16 :: u64) \<le> 0 - 16" by simp
  with 1 show ?case by (subst json_blocks.simps) (auto simp: Let_def)
qed

lemma ascii_rest_eq: "n \<le> length mem \<Longrightarrow> ascii_rest mem n = Inr (list_all (\<lambda>b. 0x20 \<le> b \<and> b \<le> 0x7E) (take n mem))"
  by (induction mem n rule: ascii_rest.induct) auto

lemma json_rest_eq: "n \<le> length mem \<Longrightarrow> json_rest mem n = Inr (list_ex escaped (take n mem))"
  by (induction mem n rule: json_rest.induct) auto

section \<open>Properties\<close>

text \<open>The array routines agree with the plain loops on every array and every processor: the sum
of the elements modulo 2 to the 64, and their maximum.\<close>

theorem asm_arrays_agree:
  "asm_opt_simd_sum_array cpu xs = sum_list (List.map ucast xs) \<and>
   asm_opt_simd_max_array cpu xs = foldr max xs 0"
  using sum_array_eq [of cpu xs] max_array_eq [of cpu xs] by (simp add: array_total_def array_max_def)

text \<open>The two text tests destroy their length: with vector instructions no text of 16 bytes or more
is ever accepted as printable, and none is ever reported free of characters to escape, whatever
the memory holds; the loop ends at a block behind the text or runs out of memory. Without
vector instructions, and for shorter texts, both tests are right.\<close>

theorem asm_text_tests:
  assumes "unat len \<le> length mem"
  shows "(if 16 \<le> len \<and> has_neon cpu
     then asm_opt_simd_validate_ascii cpu mem len \<noteq> Inr True \<and> asm_opt_simd_needs_json_escape cpu mem len \<noteq> Inr False
     else asm_opt_simd_validate_ascii cpu mem len = Inr (list_all (\<lambda>b. 0x20 \<le> b \<and> b \<le> 0x7E) (take (unat len) mem)) \<and>
       asm_opt_simd_needs_json_escape cpu mem len = Inr (list_ex escaped (take (unat len) mem)))"
  using ascii_blocks_never json_blocks_never ascii_rest_eq [OF assms] json_rest_eq [OF assms]
  by (auto simp: asm_opt_simd_validate_ascii_def asm_opt_simd_needs_json_escape_def)

theorem asm_text_tests_witness:
  "asm_opt_simd_validate_ascii 1 (replicate 16 65) 16 \<noteq> Inr True \<and>
   asm_opt_simd_validate_ascii 0 (replicate 16 65) 16 = Inr True"
proof -
  have n: "has_neon 1" "\<not> has_neon 0" by (simp_all add: has_neon_def CPU_FEATURE_NEON_def)
  show ?thesis
    using n asm_text_tests [of 16 "replicate 16 65" 1] asm_text_tests [of 16 "replicate 16 65" 0]
    by (simp add: list_all_iff)
qed

end
