(* ===== verification/AsmText.thy ===== *)
theory AsmText
  imports AsmHttp
begin

text \<open>
  Strings in memory: what the routines of AsmStr and AsmHttp compute on a string with its
  terminator is what the routines of the C library (Prelude) compute on the string. The handlers
  that call the optimised routines are verified through these equations.
\<close>

definition in_memory :: "u8 list \<Rightarrow> string \<Rightarrow> u8 list" where
  "in_memory sl s = bytes s @ 0 # sl"

definition chars :: "u8 list \<Rightarrow> string" where
  "chars bs = List.map (\<lambda>b. char_of (unat b)) bs"

named_theorems in_memory_simps \<open>optimised routines on strings in memory\<close>

definition clean :: "string \<Rightarrow> bool" where
  "clean s \<longleftrightarrow> CHR 0x00 \<notin> set s"

lemma clean_simps [simp]:
  "clean []" "clean (c # s) \<longleftrightarrow> c \<noteq> CHR 0x00 \<and> clean s" "clean (s @ t) \<longleftrightarrow> clean s \<and> clean t"
  by (auto simp: clean_def)

lemma clean_parts: "clean s \<Longrightarrow> clean (take k s)" "clean s \<Longrightarrow> clean (drop k s)"
  by (auto simp: clean_def dest: in_set_takeD in_set_dropD)

section \<open>Bytes of characters\<close>

lemma byte_of_char: "unat (of_char c :: u8) = of_char c"
proof -
  have "unat (of_char c :: u8) = unat (of_nat (of_char c) :: u8)" by (simp add: of_nat_of_char)
  also have "\<dots> = of_char c" by (simp add: unat_of_nat)
  finally show ?thesis .
qed

lemma byte_inj [simp]: "(of_char c :: u8) = of_char d \<longleftrightarrow> c = d"
  by (metis byte_of_char of_char_eqI)

lemma byte_zero [simp]: "(of_char c :: u8) = 0 \<longleftrightarrow> c = CHR 0x00"
  using byte_inj [of c "CHR 0x00"] by simp

lemma uint_byte [simp]:
  "uint (of_char c :: u8) = uint (of_char d :: u8) \<longleftrightarrow> c = d" "uint (of_char c :: u8) = 0 \<longleftrightarrow> c = CHR 0x00"
  by (simp_all add: word_uint_eq_iff [symmetric] uint_0_iff)

lemma bytes_simps [simp]: "bytes [] = []" "bytes (c # s) = of_char c # bytes s" "bytes (s @ t) = bytes s @ bytes t"
  "length (bytes s) = length s" "bytes s = [] \<longleftrightarrow> s = []"
  by (simp_all add: bytes_def)

lemma bytes_inj [simp]: "bytes s = bytes t \<longleftrightarrow> s = t"
  by (auto simp: bytes_def inj_map_eq_map inj_def)

lemma bytes_take: "take k (bytes s) = bytes (take k s)" "drop k (bytes s) = bytes (drop k s)"
  by (simp_all add: bytes_def take_map drop_map)

lemma chars_bytes [simp]: "chars (bytes s) = s"
  by (induction s) (simp_all add: chars_def byte_of_char)

section \<open>Strings with their terminator\<close>

lemma c_str_memory [in_memory_simps]: "clean s \<Longrightarrow> c_str (in_memory sl s) = bytes s"
  by (induction s) (simp_all add: in_memory_def)

lemma room_memory [in_memory_simps]: "clean s \<Longrightarrow> 7 \<le> length sl \<Longrightarrow> room (in_memory sl s)"
proof -
  assume a: "clean s" "7 \<le> length sl"
  have "8 * (length s div 8) \<le> length s" by simp
  with a show ?thesis by (simp add: room_def c_str_memory) (simp add: in_memory_def)
qed

lemma drop_memory [in_memory_simps]: "k \<le> length s \<Longrightarrow> drop k (in_memory sl s) = in_memory sl (drop k s)"
  by (simp add: in_memory_def bytes_take)

lemma take_memory [in_memory_simps]: "k \<le> length s \<Longrightarrow> take k (in_memory sl s) = bytes (take k s)"
  by (simp add: in_memory_def bytes_take)

lemma memory_simps [simp]: "in_memory sl [] = 0 # sl" "in_memory sl (c # s) = of_char c # in_memory sl s"
  "in_memory sl s \<noteq> []" "length (in_memory sl s) = length s + 1 + length sl"
  by (simp_all add: in_memory_def)

section \<open>The routines\<close>

lemma c_strchr_memory: "clean s \<Longrightarrow> c \<noteq> CHR 0x00 \<Longrightarrow>
  c_strchr (in_memory sl s) (of_char c) = map_option (\<lambda>t. length s - length t) (strchr s c)"
proof (induction s)
  case (Cons x s)
  have "length t \<le> length s" if "strchr s c = Some t" for t
    using strchr_Some [OF that] by (metis length_append le_add2)
  with Cons show ?case by (auto simp: Suc_diff_le split: option.splits) (cases "strchr s c"; force simp: Suc_diff_le)
qed auto

lemma strchr_memory [in_memory_simps]:
  assumes "clean s" "c \<noteq> CHR 0x00" "7 \<le> length sl" "word_of_int i = (of_char c :: u8)"
  shows "asm_opt_strchr (in_memory sl s) i = Inr (map_option (\<lambda>t. length s - length t) (strchr s c))"
  using assms by (simp add: strchr_eq room_memory c_strchr_memory)

lemma c_strstr_bytes: "c_strstr (bytes s) (bytes p) = map_option (\<lambda>t. length s - length t) (strstr s p)"
proof (induction s)
  case Nil
  show ?case by (cases p) (simp_all add: c_strstr_def matches_at_def)
next
  case (Cons x s)
  have z: "matches_at (bytes (x # s)) (bytes p) 0 \<longleftrightarrow> starts_with p (x # s)"
    by (simp add: matches_at_def bytes_take starts_with_def del: bytes_simps(2))
  have f: "matches_at (bytes (x # s)) (bytes p) \<circ> Suc = matches_at (bytes s) (bytes p)"
    by (simp add: matches_at_def fun_eq_iff)
  have u: "[0..<Suc (Suc (length s))] = 0 # List.map Suc [0..<Suc (length s)]"
    by (simp only: map_Suc_upt) (simp add: upt_conv_Cons del: upt_Suc)
  have "c_strstr (bytes (x # s)) (bytes p) =
      (if starts_with p (x # s) then Some 0 else map_option Suc (c_strstr (bytes s) (bytes p)))"
    by (simp only: c_strstr_def bytes_simps(4) length_Cons u find_map f List.find.simps z)
  moreover have "length t \<le> length s" if "strstr s p = Some t" for t
    using strstr_Some [OF that] by auto
  ultimately show ?case using Cons by (cases "strstr s p") (auto simp: Suc_diff_le)
qed

lemma strstr_memory [in_memory_simps]:
  assumes "clean s" "clean p" "p \<noteq> []" "length p < 4" "7 \<le> length sl"
  shows "asm_opt_strstr cpu (in_memory sl s) (in_memory sl p) = Inr (map_option (\<lambda>t. length s - length t) (strstr s p))"
  using assms by (simp add: asm_opt_strstr_def c_str_memory strlen_eq room_memory c_strstr_bytes)

lemma byte_ncmp_memory:
  "clean s \<Longrightarrow> clean p \<Longrightarrow> \<exists>r. byte_ncmp (length p) (in_memory sl s) (in_memory sl p) = Inr r \<and> (r = 0 \<longleftrightarrow> starts_with p s)"
proof (induction p arbitrary: s)
  case (Cons c p)
  then show ?case by (cases s) (auto simp: starts_with_def)
qed (simp add: starts_with_def)

lemma strncmp_memory:
  assumes "clean s" "clean p" "7 \<le> length sl"
  obtains r where "asm_opt_strncmp (in_memory sl s) (in_memory sl p) (length p) = Inr r" "r = 0 \<longleftrightarrow> starts_with p s"
  using byte_ncmp_memory [OF assms(1,2)] assms by (auto simp: AsmStr.strncmp_eq room_memory)

lemma byte_cmp_memory:
  "clean s \<Longrightarrow> clean t \<Longrightarrow> \<exists>r. byte_cmp (in_memory sl s) (in_memory sl t) = Inr r \<and> (r = 0 \<longleftrightarrow> s = t)"
proof (induction t arbitrary: s)
  case Nil
  then show ?case by (cases s) auto
next
  case (Cons c t)
  then show ?case by (cases s) auto
qed

lemma strcmp_memory:
  assumes "clean s" "clean t" "7 \<le> length sl"
  obtains r where "asm_opt_strcmp (in_memory sl s) (in_memory sl t) = Inr r" "r = 0 \<longleftrightarrow> s = t"
  using byte_cmp_memory [OF assms(1,2)] assms by (auto simp: strcmp_eq room_memory)

lemma c_strrchr_memory: "clean s \<Longrightarrow> c \<noteq> CHR 0x00 \<Longrightarrow>
  c_strrchr (in_memory sl s) (of_char c) = map_option (\<lambda>t. length s - length t) (strrchr s c)"
proof (induction s)
  case (Cons x s)
  have "length t \<le> length s" if "strrchr s c = Some t" for t
    using that by (induction s) (auto split: option.splits if_splits)
  with Cons show ?case by (auto simp: Suc_diff_le split: option.splits)
qed auto

end
