(* ===== verification/Http.thy ===== *)
theory Http
  imports CoreConf Proxy AsmText
begin

text \<open>
  The plain HTTP handler (src/http/http.c): the request line and the header fields are found
  with the optimised string routines, so they are read from a model of memory, a list of bytes
  that goes on behind the terminator of a string (\<open>slack\<close>). What the kernel does is a parameter:
  the files, the transport to the client, the backend of a proxied request and the clock. The
  result has the bytes written to the client, the entries of the access log and how often the
  socket has been closed. The memory pool is taken to have room.
\<close>

section \<open>The environment\<close>

datatype node = RegularFile bool string | Folder nat

text \<open>\<open>RegularFile r c\<close>: the content, and whether the server may open it. A folder has a size too.\<close>

record http_env =
  h_cpu :: u32
  slack :: "u8 list"
  h_files :: "string \<Rightarrow> node option"
  h_net :: transport
  h_backend :: backend
  h_now :: int
  h_elapsed :: rat

record outcome =
  written :: string
  logged :: "access_log_entry list"
  closes :: nat

section \<open>Reading the request\<close>

definition parse_http_request_optimized ::
  "u32 \<Rightarrow> u8 list \<Rightarrow> u8 list \<Rightarrow> nat \<Rightarrow> (string \<times> string \<times> string) option run" where
  "parse_http_request_optimized cpu sl buffer len =
     (if len = 0 then Inr None
      else bindR (asm_opt_strchr buffer 32) (\<lambda>method_end.
        case method_end of None \<Rightarrow> Inr None
        | Some i \<Rightarrow>
          if i \<ge> len then Inr None
          else let path_start = drop (i + 1) buffer in
            bindR (asm_opt_strchr path_start 32) (\<lambda>path_end.
            case path_end of None \<Rightarrow> Inr None
            | Some j \<Rightarrow>
              if i + 1 + j \<ge> len then Inr None
              else let version_start = drop (j + 1) path_start in
                bindR (asm_opt_strstr cpu version_start (in_memory sl crlf)) (\<lambda>version_end.
                case version_end of None \<Rightarrow> Inr None
                | Some k \<Rightarrow>
                  if i + 1 + j + 1 + k \<ge> len then Inr None
                  else Inr (Some (chars (take i buffer), chars (take j path_start), chars (take k version_start)))))))"

text \<open>The value behind the colon of a header line: its characters, and how many the pointer passes.\<close>

definition value_at :: "u8 list \<Rightarrow> u8 list \<times> nat" where
  "value_at s =
     (let v = dropWhile blank s; w = takeWhile (\<lambda>b. b \<noteq> 13 \<and> b \<noteq> 10) v
      in (w, length s - length v + length w))"

text \<open>One round of the loop per line; the line of the request is looked at too.\<close>

function extract_header_value_optimized :: "u32 \<Rightarrow> u8 list \<Rightarrow> string \<Rightarrow> u8 list \<Rightarrow> string option run" where
  "extract_header_value_optimized cpu sl name mem =
     (if mem = [] then Inl OutOfRange
      else if hd mem = 0 then Inr None
      else bindR (asm_opt_strncmp mem (in_memory sl name) (length name)) (\<lambda>r.
        let n = length name + 1;
            match = (r = 0 \<and> length name < length mem \<and> mem ! length name = 58);
            (v, k) = (if match then value_at (c_str (drop n mem)) else ([], 0));
            here = (if match then drop (n + k) mem else mem)
        in if v \<noteq> [] then Inr (Some (chars v))
           else bindR (asm_opt_strstr cpu here (in_memory sl crlf)) (\<lambda>line_end.
             case line_end of None \<Rightarrow> Inr None
             | Some i \<Rightarrow> extract_header_value_optimized cpu sl name (drop (i + 2) here))))"
  by pat_completeness auto
termination
  by (relation "measure (\<lambda>(cpu, sl, name, mem). length mem)") (auto simp: Let_def split: if_splits)

declare extract_header_value_optimized.simps [simp del]

section \<open>Content types\<close>

definition mime_table :: "(string \<times> string) list" where
  "mime_table =
     [(''html'', ''text/html''), (''htm'', ''text/html''), (''css'', ''text/css''),
      (''js'', ''application/javascript''), (''json'', ''application/json''), (''png'', ''image/png''),
      (''jpg'', ''image/jpeg''), (''jpeg'', ''image/jpeg''), (''gif'', ''image/gif''), (''ico'', ''image/x-icon''),
      (''svg'', ''image/svg+xml''), (''woff'', ''font/woff''), (''woff2'', ''font/woff2''), (''ttf'', ''font/ttf''),
      (''eot'', ''application/vnd.ms-fontobject''), (''otf'', ''font/otf''), (''pdf'', ''application/pdf''),
      (''zip'', ''application/zip''), (''gz'', ''application/gzip''), (''tar'', ''application/x-tar''),
      (''xml'', ''application/xml''), (''txt'', ''text/plain''), (''md'', ''text/markdown''), (''mp4'', ''video/mp4''),
      (''webm'', ''video/webm''), (''mp3'', ''audio/mpeg''), (''wav'', ''audio/wav''), (''ogg'', ''audio/ogg'')]"

fun mime_lookup :: "u8 list \<Rightarrow> u8 list \<Rightarrow> (string \<times> string) list \<Rightarrow> string run" where
  "mime_lookup sl ext [] = Inr ''application/octet-stream''"
| "mime_lookup sl ext ((e, t) # ts) =
     bindR (asm_opt_strcmp ext (in_memory sl e)) (\<lambda>r. if r = 0 then Inr t else mime_lookup sl ext ts)"

definition get_mime_type_optimized :: "u8 list \<Rightarrow> string \<Rightarrow> string run" where
  "get_mime_type_optimized sl path =
     bindR (asm_opt_strrchr (in_memory sl path) 46) (\<lambda>dot.
     case dot of None \<Rightarrow> Inr ''application/octet-stream''
     | Some i \<Rightarrow> mime_lookup sl (drop (i + 1) (in_memory sl path)) mime_table)"

section \<open>Files\<close>

definition is_regular :: "node option \<Rightarrow> bool" where
  "is_regular f = (case f of Some (RegularFile _ _) \<Rightarrow> True | _ \<Rightarrow> False)"

fun st_size :: "node \<Rightarrow> nat" where
  "st_size (RegularFile r c) = length c"
| "st_size (Folder k) = k"

definition static_head :: "string \<Rightarrow> nat \<Rightarrow> string" where
  "static_head mime file_size =
     ''HTTP/1.1 200 OK'' @ crlf @ ''Content-Type: '' @ mime @ crlf @
     ''Content-Length: '' @ print_nat file_size @ crlf @ ''Server: ANX HTTP Server/1.1.0+'' @ crlf @
     ''Accept-Ranges: bytes'' @ crlf @ ''Connection: close'' @ crlf @ crlf"

text \<open>A head longer than the buffer would be read past its end by write.\<close>

definition send_file_optimized :: "http_env \<Rightarrow> string \<Rightarrow> string \<Rightarrow> string \<Rightarrow> (int \<times> string) run" where
  "send_file_optimized env path mime w =
     (case h_files env path of
        None \<Rightarrow> Inr (-1, w)
      | Some (RegularFile False _) \<Rightarrow> Inr (-1, w)
      | Some f \<Rightarrow>
          let header = static_head mime (st_size f);
              n = h_net env w header
          in if length header > 8191 then Inl OutOfRange
             else if n < 0 then Inr (-1, w)
             else let w = w @ take (nat n) header in
                  case f of
                    Folder _ \<Rightarrow> Inr (-1, w)
                  | RegularFile _ fc \<Rightarrow>
                      let m = h_net env w fc in
                      if m < 0 then Inr (-1, w)
                      else Inr (if m = int (st_size f) then 0 else -1, w @ take (nat m) fc))"

section \<open>The handler\<close>

text \<open>
  The file a request names, with the buffer size and the default page of the handler. The
  https handler has the same statements.
\<close>

fun first_index :: "nat \<Rightarrow> (string \<Rightarrow> node option) \<Rightarrow> string \<Rightarrow> string list \<Rightarrow> string option" where
  "first_index n files rootdir [] = None"
| "first_index n files rootdir (f # fs) =
     (let p = snprintf n (rootdir @ ''/'' @ f) in
      if is_regular (files p) then Some p else first_index n files rootdir fs)"

definition document_root :: "server_block \<Rightarrow> location_block option \<Rightarrow> string" where
  "document_root srv loc =
     (let rootdir = get_directive_value ''root'' (s_directives srv);
          rootdir = (case loc of None \<Rightarrow> rootdir
                  | Some l \<Rightarrow> (case get_directive_value ''root'' (l_directives l) of None \<Rightarrow> rootdir | Some r \<Rightarrow> Some r))
      in case rootdir of None \<Rightarrow> ''./www'' | Some r \<Rightarrow> r)"

definition index_files :: "server_block \<Rightarrow> location_block option \<Rightarrow> string list" where
  "index_files srv loc =
     (let d = (case loc of None \<Rightarrow> None | Some l \<Rightarrow> get_directive_value ''index'' (l_directives l));
          d = (case d of None \<Rightarrow> get_directive_value ''index'' (s_directives srv) | Some v \<Rightarrow> Some v)
      in case d of None \<Rightarrow> [] | Some v \<Rightarrow> strtok_all {CHR '' '', CHR 0x09} v)"

definition static_path ::
  "nat \<Rightarrow> string \<Rightarrow> (string \<Rightarrow> node option) \<Rightarrow> server_block \<Rightarrow> location_block option \<Rightarrow> string \<Rightarrow> string" where
  "static_path n default_page files srv loc req_path =
     (let rootdir = document_root srv loc in
      if req_path = ''/''
      then (case first_index n files rootdir (index_files srv loc) of
              Some p \<Rightarrow> p | None \<Rightarrow> snprintf n (rootdir @ default_page))
      else snprintf n (rootdir @ req_path))"

text \<open>A location is allocated with calloc, and nothing sets its proxy_pass field.\<close>

definition location_proxy_pass :: "location_block \<Rightarrow> string option" where
  "location_proxy_pass loc = None"

definition proxy_request :: "backend \<Rightarrow> transport \<Rightarrow> string \<Rightarrow> string option \<Rightarrow> string \<Rightarrow> (int \<times> string) run" where
  "proxy_request be net req_path proxy_pass w =
     (if proxy_pass = None then Inr (-1, w) else handle_proxy_request be net req_path proxy_pass w)"

definition forbidden_response :: string where
  "forbidden_response = ''HTTP/1.1 403 Forbidden'' @ crlf @ ''Content-Type: text/plain'' @ crlf @
     ''Content-Length: 13'' @ crlf @ ''Connection: close'' @ crlf @ crlf @ ''Access Denied''"

definition error_response :: string where
  "error_response = ''HTTP/1.1 500 Internal Server Error'' @ crlf @ ''Content-Type: text/plain'' @ crlf @
     ''Content-Length: 21'' @ crlf @ ''Connection: close'' @ crlf @ crlf @ ''Internal Server Error''"

text \<open>\<open>write\<close> whose result is not looked at.\<close>

definition put :: "transport \<Rightarrow> string \<Rightarrow> string \<Rightarrow> string" where
  "put net data w = w @ take (nat (net w data)) data"

text \<open>The last part of the handler, from the content type on.\<close>

definition answer_file :: "http_env \<Rightarrow> access_log_entry \<Rightarrow> string \<Rightarrow> outcome run" where
  "answer_file env entry file_path =
     bindR (get_mime_type_optimized (slack env) file_path) (\<lambda>mime.
     bindR (send_file_optimized env file_path mime []) (\<lambda>(result, w).
     if result = 0
     then Inr \<lparr>written = w,
               logged = [respond 200 (case h_files env file_path of None \<Rightarrow> 0 | Some f \<Rightarrow> int (st_size f))
                           (h_elapsed env) entry], closes = 1\<rparr>
     else Inr \<lparr>written = put (h_net env) error_response w,
               logged = [respond 500 (int (length error_response)) (h_elapsed env) entry], closes = 1\<rparr>))"

definition serve_static :: "http_env \<Rightarrow> access_log_entry \<Rightarrow> route \<Rightarrow> string \<Rightarrow> outcome run" where
  "serve_static env entry rt req_path =
     (case r_server rt of
        None \<Rightarrow> Inl BadPointer
      | Some srv \<Rightarrow>
          let rootdir = document_root srv (r_location rt);
              file_path = static_path 8192 ''/test.html'' (h_files env) srv (r_location rt) req_path
          in if is_regular (h_files env file_path) then answer_file env entry file_path
             else answer_file env (entry\<lparr>access_log_entry.status_code := 404\<rparr>) (snprintf 8192 (rootdir @ ''/404.html'')))"

definition handle_http_request ::
  "http_env \<Rightarrow> http_block option \<Rightarrow> string \<Rightarrow> string option \<Rightarrow> outcome run" where
  "handle_http_request env http ip received =
     (case received of
        None \<Rightarrow> Inr \<lparr>written = [], logged = [], closes = 1\<rparr>
      | Some data \<Rightarrow>
          let data = take 8191 data; buffer = in_memory (slack env) data;
              header = (\<lambda>name. extract_header_value_optimized (h_cpu env) (slack env) name buffer)
          in bindR (parse_http_request_optimized (h_cpu env) (slack env) buffer (length data)) (\<lambda>parsed.
             case parsed of
               None \<Rightarrow> Inr \<lparr>written = [], logged = [], closes = 1\<rparr>
             | Some (m, req_path, version) \<Rightarrow>
                 bindR (header ''Host'') (\<lambda>h. bindR (header ''User-Agent'') (\<lambda>agent.
                 bindR (header ''Referer'') (\<lambda>ref. bindR (header ''If-None-Match'') (\<lambda>if_none_match.
                 bindR (header ''If-Modified-Since'') (\<lambda>if_modified_since.
                 let entry = create_access_log_entry\<lparr>access_log_entry.client_ip := Some ip, meth := Some m, request_uri := Some req_path,
                       access_log_entry.user_agent := agent, referer := ref, entry_timestamp := h_now env\<rparr>
                 in if strstr req_path ''..'' \<noteq> None
                    then Inr \<lparr>written = put (h_net env) forbidden_response [],
                              logged = [respond 403 (int (length forbidden_response)) (h_elapsed env) entry], closes = 2\<rparr>
                    else bindR (find_route http h (Some req_path) 80) (\<lambda>rt.
                      case Option.bind (r_location rt) location_proxy_pass of
                        Some pp \<Rightarrow>
                          bindR (proxy_request (h_backend env) (h_net env) req_path (Some pp) []) (\<lambda>(result, w).
                          Inr \<lparr>written = w,
                               logged = (if result \<ge> 0 then [respond 200 result (h_elapsed env) entry] else []), closes = 2\<rparr>)
                      | None \<Rightarrow> serve_static env entry rt req_path))))))))"
section \<open>Lines\<close>

lemma starts_crlf: "starts_with crlf s \<longleftrightarrow> (\<exists>t. s = CHR 0x0D # CHR 0x0A # t)"
  by (simp add: starts_with_iff crlf_def)

lemma strstr_crlf: "strstr s crlf = Some t \<longleftrightarrow> (\<exists>u v. s = u @ t \<and> t = crlf @ v \<and> strstr u crlf = None)"
proof
  show "strstr s crlf = Some t \<Longrightarrow> \<exists>u v. s = u @ t \<and> t = crlf @ v \<and> strstr u crlf = None"
  proof (induction s)
    case (Cons x s)
    show ?case
    proof (cases "starts_with crlf (x # s)")
      case True
      then obtain v where "x # s = crlf @ v" by (auto simp: starts_with_iff)
      moreover from True Cons.prems have "t = x # s" by simp
      ultimately show ?thesis by (intro exI [of _ "[]"] exI [of _ v]) (simp add: crlf_def)
    next
      case False
      with Cons obtain u v where u: "s = u @ t" "t = crlf @ v" "strstr u crlf = None" by auto
      with False have "strstr (x # u) crlf = None" by (auto simp: starts_crlf)
      with u show ?thesis by (intro exI [of _ "x # u"] exI [of _ v]) simp
    qed
  qed (simp add: crlf_def)
  show "\<exists>u v. s = u @ t \<and> t = crlf @ v \<and> strstr u crlf = None \<Longrightarrow> strstr s crlf = Some t"
  proof (elim exE conjE)
    fix u v
    assume s: "s = u @ t" "t = crlf @ v" and u: "strstr u crlf = None"
    have "strstr (u @ t) crlf = Some t"
      using u
    proof (induction u)
      case Nil
      then show ?case using s(2) by (simp add: crlf_def starts_with_def)
    next
      case (Cons x u)
      then have "\<not> starts_with crlf (x # u)" "strstr u crlf = None" by (auto split: if_splits)
      then have "\<not> starts_with crlf (x # u @ t)"
        unfolding starts_crlf using s(2) by (cases u) (auto simp: crlf_def)
      with Cons \<open>strstr u crlf = None\<close> show ?case by simp
    qed
    with s show "strstr s crlf = Some t" by simp
  qed
qed

lemma strchr_split: "strchr s c = Some t \<longleftrightarrow> (\<exists>u v. s = u @ t \<and> t = c # v \<and> c \<notin> set u)"
proof
  assume "strchr s c = Some t"
  from strchr_Some [OF this] obtain v where "s = takeWhile (\<lambda>x. x \<noteq> c) s @ t" "t = c # v" by blast
  moreover have "c \<notin> set (takeWhile (\<lambda>x. x \<noteq> c) s)" by (auto dest: set_takeWhileD)
  ultimately show "\<exists>u v. s = u @ t \<and> t = c # v \<and> c \<notin> set u" by blast
qed auto

lemma clean_crlf [simp]: "clean crlf" "crlf \<noteq> []" "length crlf = 2"
  by (simp_all add: crlf_def)

section \<open>The request line\<close>

text \<open>The request line read with the routines of the C library.\<close>

definition split_request :: "string \<Rightarrow> (string \<times> string \<times> string) option" where
  "split_request s =
     (case strchr s CHR '' '' of None \<Rightarrow> None
      | Some t \<Rightarrow> (case strchr (tl t) CHR '' '' of None \<Rightarrow> None
        | Some u \<Rightarrow> (case strstr (tl u) crlf of None \<Rightarrow> None
          | Some w \<Rightarrow> Some (before s t, before (tl t) u, before (tl u) w))))"

lemma split_request_iff:
  "split_request s = Some (m, p, v) \<longleftrightarrow>
    (\<exists>rest. s = m @ '' '' @ p @ '' '' @ v @ crlf @ rest \<and>
       CHR '' '' \<notin> set m \<and> CHR '' '' \<notin> set p \<and> strstr v crlf = None)"
proof
  assume "split_request s = Some (m, p, v)"
  then obtain t u w where "strchr s CHR '' '' = Some t" "strchr (tl t) CHR '' '' = Some u" "strstr (tl u) crlf = Some w"
    and r: "m = before s t" "p = before (tl t) u" "v = before (tl u) w"
    by (auto simp: split_request_def split: option.splits)
  then show "\<exists>rest. s = m @ '' '' @ p @ '' '' @ v @ crlf @ rest \<and>
       CHR '' '' \<notin> set m \<and> CHR '' '' \<notin> set p \<and> strstr v crlf = None"
    by (auto simp: strchr_split strstr_crlf before_def)
next
  assume "\<exists>rest. s = m @ '' '' @ p @ '' '' @ v @ crlf @ rest \<and>
       CHR '' '' \<notin> set m \<and> CHR '' '' \<notin> set p \<and> strstr v crlf = None"
  then obtain rest where s: "s = m @ '' '' @ p @ '' '' @ v @ crlf @ rest" "CHR '' '' \<notin> set m" "CHR '' '' \<notin> set p"
    and v: "strstr v crlf = None" by blast
  have "strstr (v @ crlf @ rest) crlf = Some (crlf @ rest)" using v by (auto simp: strstr_crlf)
  with s show "split_request s = Some (m, p, v)" by (simp add: split_request_def before_def)
qed

lemma find_space:
  "clean s \<Longrightarrow> 7 \<le> length sl \<Longrightarrow>
   asm_opt_strchr (in_memory sl s) 32 = Inr (map_option (\<lambda>t. length s - length t) (strchr s CHR '' ''))"
  by (rule strchr_memory) simp_all

lemma find_crlf:
  "clean s \<Longrightarrow> 7 \<le> length sl \<Longrightarrow>
   asm_opt_strstr cpu (in_memory sl s) (in_memory sl crlf) = Inr (map_option (\<lambda>t. length s - length t) (strstr s crlf))"
  by (rule strstr_memory) simp_all

lemma parse_request_eq:
  assumes "clean s" "7 \<le> length sl"
  shows "parse_http_request_optimized cpu sl (in_memory sl s) (length s) = Inr (split_request s)"
proof (cases "strchr s CHR '' ''")
  case None
  with assms show ?thesis by (simp add: parse_http_request_optimized_def split_request_def find_space)
next
  case (Some t)
  then obtain m t' where s: "s = m @ t" "t = CHR '' '' # t'" by (auto simp: strchr_split)
  have d: "drop (length m + 1) (in_memory sl s) = in_memory sl t'" "take (length m) (in_memory sl s) = bytes m"
    using s by (simp_all add: drop_memory take_memory)
  show ?thesis
  proof (cases "strchr t' CHR '' ''")
    case None
    with assms Some s d show ?thesis
      by (simp add: parse_http_request_optimized_def split_request_def find_space)
  next
    case u: (Some u)
    then obtain p u' where t: "t' = p @ u" "u = CHR '' '' # u'" by (auto simp: strchr_split)
    have e: "drop (length p + 1) (in_memory sl t') = in_memory sl u'" "take (length p) (in_memory sl t') = bytes p"
      using t by (simp_all add: drop_memory take_memory)
    have lw: "w \<noteq> [] \<and> (\<exists>v. u' = v @ w)" if "strstr u' crlf = Some w" for w
      using that by (auto simp: strstr_crlf)
    have "take (length v) (in_memory sl (v @ w)) = bytes v" for v w by (simp add: take_memory)
    with assms Some s d u t e lw show ?thesis
      by (auto simp: parse_http_request_optimized_def split_request_def find_space find_crlf before_def split: option.split
          dest!: lw)
  qed
qed

section \<open>Header fields\<close>

text \<open>The lines of a text, and the first line that begins with the name and has a value.\<close>

function lines_of :: "string \<Rightarrow> string list" where
  "lines_of s = (case strstr s crlf of None \<Rightarrow> [s] | Some t \<Rightarrow> before s t # lines_of (drop 2 t))"
  by pat_completeness auto
termination
  by (relation "measure length") (auto simp: strstr_crlf)

declare lines_of.simps [simp del]

definition blank_char :: "char \<Rightarrow> bool" where
  "blank_char c \<longleftrightarrow> c = CHR '' '' \<or> c = CHR 0x09"

definition line_value :: "string \<Rightarrow> string \<Rightarrow> string" where
  "line_value name l =
     (if starts_with (name @ '':'') l
      then takeWhile (\<lambda>c. c \<noteq> CHR 0x0D \<and> c \<noteq> CHR 0x0A) (dropWhile blank_char (drop (length name + 1) l))
      else [])"

definition field_value :: "string \<Rightarrow> string \<Rightarrow> string option" where
  "field_value name s = List.find (\<lambda>v. v \<noteq> []) (List.map (line_value name) (lines_of s))"

lemma value_at_bytes:
  "value_at (bytes s) = (let v = dropWhile blank_char s; w = takeWhile (\<lambda>c. c \<noteq> CHR 0x0D \<and> c \<noteq> CHR 0x0A) v
     in (bytes w, length s - length v + length w))"
proof -
  have c: "of_char c = (32 :: u8) \<longleftrightarrow> c = CHR '' ''" "of_char c = (9 :: u8) \<longleftrightarrow> c = CHR 0x09"
    "of_char c = (13 :: u8) \<longleftrightarrow> c = CHR 0x0D" "of_char c = (10 :: u8) \<longleftrightarrow> c = CHR 0x0A" for c
    using byte_inj [of c "CHR '' ''"] byte_inj [of c "CHR 0x09"] byte_inj [of c "CHR 0x0D"] byte_inj [of c "CHR 0x0A"]
    by (simp_all del: byte_inj)
  have "dropWhile blank (bytes s) = bytes (dropWhile blank_char s)" for s
    by (induction s) (simp_all add: blank_def blank_char_def c)
  moreover have "takeWhile (\<lambda>b. b \<noteq> 13 \<and> b \<noteq> 10) (bytes s) = bytes (takeWhile (\<lambda>c. c \<noteq> CHR 0x0D \<and> c \<noteq> CHR 0x0A) s)" for s
    by (induction s) (simp_all add: c)
  ultimately show ?thesis by (simp add: value_at_def Let_def)
qed

lemma first_line:
  obtains l t where "s = l @ t" "strstr l crlf = None" "strstr s crlf = (if t = [] then None else Some t)"
    "t = [] \<or> t = crlf @ drop 2 t" "lines_of s = l # (if t = [] then [] else lines_of (drop 2 t))"
proof (cases "strstr s crlf")
  case None
  then show ?thesis by (intro that [of s "[]"]) (simp_all add: lines_of.simps [of s])
next
  case (Some t)
  then obtain u v where u: "s = u @ t" "t = crlf @ v" "strstr u crlf = None" by (auto simp: strstr_crlf)
  then have t: "t \<noteq> []" "drop 2 t = v" "before s t = u" by (simp_all add: crlf_def before_def)
  moreover have "lines_of s = u # lines_of v" using Some t by (simp add: lines_of.simps [of s])
  ultimately show ?thesis using u Some by (intro that [of u t]) simp_all
qed

lemma lines_of_cons:
  assumes "strstr l crlf = None"
  shows "lines_of (l @ crlf @ s) = l # lines_of s" "lines_of l = [l]"
proof -
  have "strstr (l @ crlf @ s) crlf = Some (crlf @ s)" using assms by (auto simp: strstr_crlf)
  then show "lines_of (l @ crlf @ s) = l # lines_of s" by (simp add: lines_of.simps [of "l @ crlf @ s"] before_def)
qed (simp add: lines_of.simps assms)

lemma strstr_suffix: "strstr (u @ l) crlf = None \<Longrightarrow> strstr l crlf = None"
  by (metis strstr_None append_assoc)

lemma strstr_line:
  "strstr l crlf = None \<Longrightarrow> t = [] \<or> t = crlf @ drop 2 t \<Longrightarrow> strstr (l @ t) crlf = (if t = [] then None else Some t)"
  by (auto simp: strstr_crlf)

lemma starts_with_line:
  assumes "CHR 0x0D \<notin> set p" "t = [] \<or> t = crlf @ v"
  shows "starts_with p (l @ t) \<longleftrightarrow> starts_with p l"
proof
  assume "starts_with p (l @ t)"
  then obtain x where x: "l @ t = p @ x" by (auto simp: starts_with_iff)
  show "starts_with p l"
  proof (cases "length p \<le> length l")
    case True
    with x have "p = take (length p) l" by (metis append_eq_append_conv_if append_eq_conv_conj)
    then show ?thesis by (metis starts_with_def)
  next
    case False
    with x obtain y where "p = l @ y" "t = y @ x" "y \<noteq> []" by (auto simp: append_eq_append_conv2)
    with assms show ?thesis by (cases y) (auto simp: crlf_def)
  qed
qed (auto simp: starts_with_iff)

lemma value_on_line:
  assumes "t = [] \<or> t = crlf @ v"
  shows "dropWhile blank_char (l @ t) = dropWhile blank_char l @ t"
    "takeWhile (\<lambda>c. c \<noteq> CHR 0x0D \<and> c \<noteq> CHR 0x0A) (l @ t) = takeWhile (\<lambda>c. c \<noteq> CHR 0x0D \<and> c \<noteq> CHR 0x0A) l"
proof -
  show "dropWhile blank_char (l @ t) = dropWhile blank_char l @ t"
    using assms by (induction l) (auto simp: crlf_def blank_char_def)
  show "takeWhile (\<lambda>c. c \<noteq> CHR 0x0D \<and> c \<noteq> CHR 0x0A) (l @ t) = takeWhile (\<lambda>c. c \<noteq> CHR 0x0D \<and> c \<noteq> CHR 0x0A) l"
    using assms by (induction l) (auto simp: crlf_def)
qed

lemma name_matches:
  assumes "clean s" "clean name" "7 \<le> length sl"
  obtains r where "asm_opt_strncmp (in_memory sl s) (in_memory sl name) (length name) = Inr r"
    "r = 0 \<and> length name < length (in_memory sl s) \<and> in_memory sl s ! length name = 58 \<longleftrightarrow> starts_with (name @ '':'') s"
proof -
  obtain r where r: "asm_opt_strncmp (in_memory sl s) (in_memory sl name) (length name) = Inr r" "r = 0 \<longleftrightarrow> starts_with name s"
    using strncmp_memory [OF assms] by blast
  have "in_memory sl (name @ s') ! length name = 58 \<longleftrightarrow> (\<exists>x. s' = CHR '':'' # x)" for s'
  proof -
    have "in_memory sl (name @ s') ! length name = hd (in_memory sl s')" by (simp add: in_memory_def nth_append hd_conv_nth)
    also have "\<dots> = 58 \<longleftrightarrow> (\<exists>x. s' = CHR '':'' # x)"
      using byte_inj [of _ "CHR '':''"] by (cases s') (simp_all del: byte_inj)
    finally show ?thesis .
  qed
  then have "r = 0 \<and> length name < length (in_memory sl s) \<and> in_memory sl s ! length name = 58 \<longleftrightarrow> starts_with (name @ '':'') s"
    unfolding r(2) starts_with_iff by auto
  with r(1) show ?thesis by (rule that)
qed

text \<open>One round of the loop on a string.\<close>

lemma next_line:
  assumes "clean h" "7 \<le> length sl"
  shows "bindR (asm_opt_strstr cpu (in_memory sl h) (in_memory sl crlf)) (\<lambda>line_end.
      case line_end of None \<Rightarrow> Inr None | Some i \<Rightarrow> f (drop (i + 2) (in_memory sl h))) =
    (case strstr h crlf of None \<Rightarrow> Inr None | Some u \<Rightarrow> f (in_memory sl (drop 2 u)))"
proof -
  have "drop (length h - length u + 2) (in_memory sl h) = in_memory sl (drop 2 u)" if "strstr h crlf = Some u" for u
  proof -
    from that obtain x v where h: "h = x @ crlf @ v" "u = crlf @ v" by (auto simp: strstr_crlf)
    then have "drop (length x + 2) (in_memory sl h) = in_memory sl v" by (subst drop_memory) (simp_all add: crlf_def)
    with h show ?thesis by (simp add: crlf_def)
  qed
  with assms show ?thesis by (simp add: find_crlf split: option.split)
qed

lemma value_at_length: "snd (value_at s) \<le> length s"
proof -
  let ?v = "dropWhile blank s"
  have "length (takeWhile (\<lambda>b. b \<noteq> 13 \<and> b \<noteq> 10) ?v) \<le> length ?v" "length ?v \<le> length s"
    by (rule length_takeWhile_le length_dropWhile_le)+
  then show ?thesis by (simp add: value_at_def Let_def)
qed

lemma extract_step:
  assumes "clean s" "clean name" "7 \<le> length sl" "s \<noteq> []"
  shows "extract_header_value_optimized cpu sl name (in_memory sl s) =
    (let n = length name + 1; match = starts_with (name @ '':'') s;
         (v, k) = (if match then value_at (bytes (drop n s)) else ([], 0));
         here = (if match then drop (n + k) s else s)
     in if v \<noteq> [] then Inr (Some (chars v))
        else case strstr here crlf of None \<Rightarrow> Inr None
          | Some u \<Rightarrow> extract_header_value_optimized cpu sl name (in_memory sl (drop 2 u)))"
proof -
  obtain r where r: "asm_opt_strncmp (in_memory sl s) (in_memory sl name) (length name) = Inr r"
    "r = 0 \<and> length name < length (in_memory sl s) \<and> in_memory sl s ! length name = 58 \<longleftrightarrow> starts_with (name @ '':'') s"
    using name_matches [OF assms(1-3)] by blast
  have hd: "hd (in_memory sl s) \<noteq> 0" using assms by (cases s) simp_all
  let ?m = "in_memory sl s" and ?n = "length name + 1"
  have unfold: "extract_header_value_optimized cpu sl name ?m =
    (let (v, k) = (if starts_with (name @ '':'') s then value_at (c_str (drop ?n ?m)) else ([], 0));
         here = (if starts_with (name @ '':'') s then drop (?n + k) ?m else ?m)
     in if v \<noteq> [] then Inr (Some (chars v))
        else bindR (asm_opt_strstr cpu here (in_memory sl crlf)) (\<lambda>line_end.
          case line_end of None \<Rightarrow> Inr None
          | Some i \<Rightarrow> extract_header_value_optimized cpu sl name (drop (i + 2) here)))"
    by (subst extract_header_value_optimized.simps)
      (simp only: memory_simps(3) hd r(1) r(2) bindR.simps if_False Let_def simp_thms)
  show ?thesis
  proof (cases "starts_with (name @ '':'') s")
    case False
    with next_line [OF assms(1,3)] show ?thesis by (simp add: unfold Let_def del: add_2_eq_Suc')
  next
    case True
    then have n: "?n \<le> length s" by (auto simp: starts_with_iff)
    obtain v k where v: "value_at (bytes (drop ?n s)) = (v, k)" by fastforce
    with value_at_length [of "bytes (drop ?n s)"] n have k: "?n + k \<le> length s" by simp
    have "c_str (drop ?n ?m) = bytes (drop ?n s)"
      using n assms(1) by (simp add: drop_memory c_str_memory clean_parts)
    moreover have "drop (?n + k) ?m = in_memory sl (drop (?n + k) s)"
      using k by (rule drop_memory)
    ultimately show ?thesis
      using v True next_line [OF clean_parts(2) [OF assms(1)] assms(3), where f = "extract_header_value_optimized cpu sl name"]
      by (simp add: unfold Let_def del: add_2_eq_Suc')
  qed
qed

lemma extract_header_eq:
  assumes name: "clean name" "name \<noteq> []" "CHR 0x0D \<notin> set name" and sl: "7 \<le> length sl"
  shows "clean s \<Longrightarrow> extract_header_value_optimized cpu sl name (in_memory sl s) = Inr (field_value name s)"
proof (induction s rule: measure_induct_rule [of length])
  case (less s)
  obtain l t where s: "s = l @ t" "strstr l crlf = None" and t: "t = [] \<or> t = crlf @ drop 2 t"
    and ls: "lines_of s = l # (if t = [] then [] else lines_of (drop 2 t))"
    using first_line [of s] by metis
  show ?case
  proof (cases "s = []")
    case True
    then have "l = []" "t = []" using s by simp_all
    with True name ls show ?thesis
      by (simp add: extract_header_value_optimized.simps field_value_def line_value_def starts_with_def)
  next
    case ne: False
    note step = extract_step [OF less(2) name(1) sl ne, of cpu]
    have m: "starts_with (name @ '':'') s \<longleftrightarrow> starts_with (name @ '':'') l"
      using starts_with_line [of "name @ '':''" t "drop 2 t" l] t name(3) s(1) by auto
    have IH: "extract_header_value_optimized cpu sl name (in_memory sl (drop 2 t)) = Inr (field_value name (drop 2 t))"
      if "t \<noteq> []"
      using less(1) [of "drop 2 t"] less(2) s(1) that by (cases t) (simp_all add: clean_parts)
    show ?thesis
    proof (cases "starts_with (name @ '':'') l")
      case False
      then have "field_value name s = (if t = [] then None else field_value name (drop 2 t))"
        by (simp add: field_value_def ls line_value_def)
      moreover have "strstr s crlf = (if t = [] then None else Some t)" using strstr_line [OF s(2) t] s(1) by simp
      ultimately show ?thesis using False m IH by (simp add: step)
    next
      case True
      then obtain l1 where l: "l = name @ CHR '':'' # l1" by (auto simp: starts_with_iff)
      let ?l2 = "dropWhile blank_char l1"
      let ?w = "takeWhile (\<lambda>c. c \<noteq> CHR 0x0D \<and> c \<noteq> CHR 0x0A) ?l2"
      have d: "drop (length name + 1) s = l1 @ t" using s(1) l by simp
      have v: "value_at (bytes (l1 @ t)) = (bytes ?w, length l1 - length ?l2 + length ?w)"
        using value_on_line [OF t] length_dropWhile_le [of blank_char l1]
        by (simp add: value_at_bytes Let_def del: bytes_simps(3))
      have b: "drop (length l1 - length ?l2) (l1 @ t) = ?l2 @ t"
        by (metis add_diff_cancel_right' append.assoc append_eq_conv_conj length_append takeWhile_dropWhile_id)
      have "drop (length name + 1 + k) s = drop k (l1 @ t)" for k
        unfolding d [symmetric] by (simp add: add.commute)
      then have e: "drop (length name + 1 + (length l1 - length ?l2)) s = ?l2 @ t" using b by simp
      have f: "field_value name s = (if ?w \<noteq> [] then Some ?w else if t = [] then None else field_value name (drop 2 t))"
        using True l by (simp add: field_value_def ls line_value_def)
      have "strstr ?l2 crlf = None"
        using strstr_suffix [of "name @ CHR '':'' # takeWhile blank_char l1" ?l2] s(2) l by simp
      from strstr_line [OF this t] show ?thesis
        using True m IH d v e f by (simp add: step)
    qed
  qed
qed

section \<open>What a request leads to\<close>

lemma field_names: "clean ''Host''" "clean ''User-Agent''" "clean ''Referer''" "clean ''If-None-Match''" "clean ''If-Modified-Since''"
  by simp_all

lemma handle_request_eq:
  assumes "clean s" "length s \<le> 8191" "7 \<le> length (slack env)"
  shows "handle_http_request env http ip (Some s) =
    (case split_request s of None \<Rightarrow> Inr \<lparr>written = [], logged = [], closes = 1\<rparr>
     | Some (m, p, v) \<Rightarrow>
        let entry = create_access_log_entry\<lparr>access_log_entry.client_ip := Some ip, meth := Some m, request_uri := Some p,
              access_log_entry.user_agent := field_value ''User-Agent'' s, referer := field_value ''Referer'' s,
              entry_timestamp := h_now env\<rparr>
        in if strstr p ''..'' \<noteq> None
           then Inr \<lparr>written = put (h_net env) forbidden_response [],
                     logged = [respond 403 (int (length forbidden_response)) (h_elapsed env) entry], closes = 2\<rparr>
           else bindR (find_route http (field_value ''Host'' s) (Some p) 80) (\<lambda>rt. serve_static env entry rt p))"
proof -
  have h: "extract_header_value_optimized (h_cpu env) (slack env) name (in_memory (slack env) s) = Inr (field_value name s)"
    if "name \<in> {''Host'', ''User-Agent'', ''Referer'', ''If-None-Match'', ''If-Modified-Since''}" for name
    using that assms by (intro extract_header_eq) auto
  have l: "Option.bind x location_proxy_pass = None" for x by (cases x) (simp_all add: location_proxy_pass_def)
  show ?thesis
    using assms h by (simp add: handle_http_request_def parse_request_eq l Let_def split: option.split)
qed

lemma mime_lookup_eq:
  "clean e \<Longrightarrow> 7 \<le> length sl \<Longrightarrow> list_all (\<lambda>(x, t). clean x) ts \<Longrightarrow>
   mime_lookup sl (in_memory sl e) ts = Inr (case map_of ts e of None \<Rightarrow> ''application/octet-stream'' | Some t \<Rightarrow> t)"
proof (induction ts)
  case (Cons t ts)
  obtain r where "asm_opt_strcmp (in_memory sl e) (in_memory sl (fst t)) = Inr r" "r = 0 \<longleftrightarrow> e = fst t"
    using strcmp_memory [of e "fst t" sl] Cons.prems by (auto simp: case_prod_unfold)
  with Cons show ?case by (cases t) auto
qed simp

definition mime_type :: "string \<Rightarrow> string" where
  "mime_type path = (case strrchr path CHR ''.'' of None \<Rightarrow> ''application/octet-stream''
     | Some t \<Rightarrow> (case map_of mime_table (tl t) of None \<Rightarrow> ''application/octet-stream'' | Some m \<Rightarrow> m))"

lemma strrchr_split: "strrchr s c = Some t \<Longrightarrow> \<exists>u v. s = u @ t \<and> t = c # v"
  by (induction s) (auto split: option.splits if_splits intro: exI [of _ "_ # _"])

lemma get_mime_type_eq:
  assumes "clean path" "7 \<le> length sl"
  shows "get_mime_type_optimized sl path = Inr (mime_type path)"
proof -
  have dot: "asm_opt_strrchr (in_memory sl path) 46 = Inr (map_option (\<lambda>t. length path - length t) (strrchr path CHR ''.''))"
    using assms c_strrchr_memory [of path "CHR ''.''" sl] by (simp add: strrchr_eq room_memory)
  show ?thesis
  proof (cases "strrchr path CHR ''.''")
    case None
    with dot show ?thesis by (simp add: get_mime_type_optimized_def mime_type_def)
  next
    case (Some t)
    then obtain u e where p: "path = u @ t" "t = CHR ''.'' # e" using strrchr_split by blast
    then have "drop (length u + 1) (in_memory sl path) = in_memory sl e" by (simp add: drop_memory)
    moreover have "list_all (\<lambda>(x, t). clean x) mime_table" by (simp add: mime_table_def)
    ultimately show ?thesis
      using dot Some p assms by (simp add: get_mime_type_optimized_def mime_type_def mime_lookup_eq)
  qed
qed

lemma print_nat_length: "n < 10 ^ Suc k \<Longrightarrow> length (print_nat n) \<le> Suc k"
proof (induction k arbitrary: n)
  case 0
  then show ?case by (simp add: print_nat_step [of n])
next
  case (Suc k)
  from Suc.prems have "n div 10 < 10 ^ Suc k" by (simp add: div_less_iff_less_mult)
  with Suc.IH [of "n div 10"] show ?case by (simp add: print_nat_step [of n])
qed

lemma static_head_length: "k < 2 ^ 64 \<Longrightarrow> length (static_head (mime_type path) k) \<le> 8191"
proof -
  assume "k < 2 ^ 64"
  then have "length (print_nat k) \<le> Suc 19" by (intro print_nat_length) simp
  moreover have "list_all (\<lambda>(e, t). length t \<le> 30) mime_table" by (simp add: mime_table_def)
  then have "length t \<le> 30" if "map_of mime_table e = Some t" for e t
    using map_of_SomeD [OF that] by (auto simp: list_all_iff)
  then have "length (mime_type path) \<le> 30" by (simp add: mime_type_def split: option.split)
  ultimately show ?thesis by (simp add: static_head_def crlf_def)
qed

text \<open>The files a handler may look at: below a root, without a step up.\<close>

definition inside :: "string \<Rightarrow> string \<Rightarrow> bool" where
  "inside rootdir q \<longleftrightarrow> (\<exists>x. strstr x ''..'' = None \<and> q = take 8191 (rootdir @ x))"

lemma no_dots: "strstr ''/404.html'' ''..'' = None" "strstr ''/test.html'' ''..'' = None"
  "strstr f ''..'' = None \<Longrightarrow> strstr (CHR ''/'' # f) ''..'' = None"
  by (simp_all add: starts_with_def)

lemma answer_file_cong:
  assumes "h_files env q = files' q"
  shows "answer_file env entry q = answer_file (env\<lparr>h_files := files'\<rparr>) entry q"
proof -
  have e: "h_files (env\<lparr>h_files := files'\<rparr>) = files'" "h_net (env\<lparr>h_files := files'\<rparr>) = h_net env"
    "slack (env\<lparr>h_files := files'\<rparr>) = slack env" "h_elapsed (env\<lparr>h_files := files'\<rparr>) = h_elapsed env" by simp_all
  show ?thesis unfolding answer_file_def send_file_optimized_def e assms by (rule refl)
qed

lemma serve_static_cong:
  assumes r: "r_server rt = Some srv" and p: "strstr p ''..'' = None"
    and agree: "\<And>q. inside (document_root srv (r_location rt)) q \<Longrightarrow> h_files env q = files' q"
    and idx: "\<And>f. f \<in> set (index_files srv (r_location rt)) \<Longrightarrow> strstr f ''..'' = None"
  shows "serve_static env entry rt p = serve_static (env\<lparr>h_files := files'\<rparr>) entry rt p"
proof -
  let ?root = "document_root srv (r_location rt)"
  have same: "h_files env (snprintf 8192 (?root @ x)) = files' (snprintf 8192 (?root @ x))" if "strstr x ''..'' = None" for x
    using agree [of "snprintf 8192 (?root @ x)"] that by (auto simp: inside_def snprintf_def)
  have first: "first_index 8192 (h_files env) ?root fs = first_index 8192 files' ?root fs \<and>
      (\<forall>q. first_index 8192 (h_files env) ?root fs = Some q \<longrightarrow> h_files env q = files' q)"
    if "\<forall>f\<in>set fs. strstr f ''..'' = None" for fs
    using that
  proof (induction fs)
    case (Cons f fs)
    with same [of "''/'' @ f"] no_dots(3) [of f] show ?case by (simp add: Let_def)
  qed simp
  have path: "static_path 8192 ''/test.html'' (h_files env) srv (r_location rt) p =
      static_path 8192 ''/test.html'' files' srv (r_location rt) p \<and>
    h_files env (static_path 8192 ''/test.html'' files' srv (r_location rt) p) =
      files' (static_path 8192 ''/test.html'' files' srv (r_location rt) p)"
    using first [of "index_files srv (r_location rt)"] idx same [OF p] same [OF no_dots(2)]
    by (auto simp: static_path_def Let_def split: option.split)
  show ?thesis
    using r path same [OF no_dots(1)] answer_file_cong [of env _ files'] by (simp add: serve_static_def Let_def)
qed

lemma find_location_member: "find_location u locs best k = Some l \<Longrightarrow> best = Some l \<or> l \<in> set locs"
  by (induction u locs best k rule: find_location.induct) (auto split: if_splits)

lemma find_route_members:
  assumes "find_route (Some h) name (Some u) p = Inr rt" "r_server rt = Some srv"
  shows "srv \<in> set (h_servers h) \<and> r_location rt \<in> insert None (Some ` set (s_locations srv))"
proof (cases "h_servers h")
  case Nil
  with assms show ?thesis by (auto simp: find_route_def)
next
  case (Cons first srvs)
  from assms(1) Cons obtain m d where f: "find_server name p (h_servers h) None = Inr (m, d)"
    and rt: "rt = (let srv = (case m of Some s \<Rightarrow> s | None \<Rightarrow> (case d of Some s \<Rightarrow> s | None \<Rightarrow> first))
        in \<lparr>r_server = Some srv, r_location = find_location u (s_locations srv) None 0\<rparr>)"
    by (cases "find_server name p (h_servers h) None") (auto simp: find_route_def Let_def)
  from find_server_result [OF f] have "m = Some s \<Longrightarrow> s \<in> set (h_servers h)"
    "m = None \<Longrightarrow> d = Some s \<Longrightarrow> s \<in> set (h_servers h)" for s
    by (auto simp: find_Some_iff)
  then have "(case m of Some s \<Rightarrow> s | None \<Rightarrow> (case d of Some s \<Rightarrow> s | None \<Rightarrow> first)) \<in> set (h_servers h)"
    using Cons by (cases m; cases d) auto
  moreover have "find_location u (s_locations srv) None 0 \<in> insert None (Some ` set (s_locations srv))"
    using find_location_member [of u "s_locations srv" None 0] by (cases "find_location u (s_locations srv) None 0") auto
  ultimately show ?thesis using rt assms(2) by (auto simp: Let_def)
qed

lemma server_exists: "find_route (Some h) name u p = Inr rt \<Longrightarrow> h_servers h \<noteq> [] \<Longrightarrow> \<exists>srv. r_server rt = Some srv"
  by (auto simp: find_route_def bindR_Inr_iff Let_def split: list.splits)

section \<open>Properties\<close>

text \<open>The handler reads exactly the requests that begin with a method, a path and a version, each
up to the first separator behind it, and gives them back as they were sent; every other text is
answered by closing the connection, and no text makes the search leave the memory.\<close>

theorem http_request_roundtrip:
  assumes "clean s" "7 \<le> length sl"
  shows "\<exists>r. parse_http_request_optimized cpu sl (in_memory sl s) (length s) = Inr r \<and>
    (\<forall>m p v. r = Some (m, p, v) \<longleftrightarrow>
      (\<exists>rest. s = m @ '' '' @ p @ '' '' @ v @ crlf @ rest \<and>
         CHR '' '' \<notin> set m \<and> CHR '' '' \<notin> set p \<and> strstr v crlf = None))"
  using parse_request_eq [OF assms] split_request_iff by auto

definition sample_request_line :: string where
  "sample_request_line = ''GET /a HTTP/1.1'' @ crlf @ crlf"

theorem http_request_roundtrip_witness:
  "parse_http_request_optimized 1 (replicate 7 0) (in_memory (replicate 7 0) sample_request_line) (length sample_request_line) =
    Inr (Some (''GET'', ''/a'', ''HTTP/1.1''))"
proof -
  have c: "clean sample_request_line" "7 \<le> length (replicate 7 (0 :: u8))" by (simp_all add: sample_request_line_def)
  have "\<exists>rest. sample_request_line = ''GET'' @ '' '' @ ''/a'' @ '' '' @ ''HTTP/1.1'' @ crlf @ rest \<and>
      CHR '' '' \<notin> set ''GET'' \<and> CHR '' '' \<notin> set ''/a'' \<and> strstr ''HTTP/1.1'' crlf = None"
    by (simp add: sample_request_line_def starts_crlf)
  with http_request_roundtrip [OF c, of 1] show ?thesis by metis
qed

text \<open>A header field is looked up by lines: the result is the value of the first line that begins
with the name, in the same case, and a colon and whose value is not empty, up to its line end
and without leading blanks. The lines of the body and the request line count as well.\<close>

theorem http_header_lookup:
  assumes "clean s" "clean name" "name \<noteq> []" "CHR 0x0D \<notin> set name" "7 \<le> length sl"
  shows "extract_header_value_optimized cpu sl name (in_memory sl s) = Inr (field_value name s)"
  using assms by (intro extract_header_eq)

definition sample_fields :: string where
  "sample_fields = ''GET /a HTTP/1.1'' @ crlf @ ''host: a'' @ crlf @ crlf @ ''Host: b'' @ crlf"

theorem http_header_lookup_witness:
  "extract_header_value_optimized 1 (replicate 7 0) ''Host'' (in_memory (replicate 7 0) sample_fields) = Inr (Some ''b'')"
proof -
  have "lines_of sample_fields = [''GET /a HTTP/1.1'', ''host: a'', [], ''Host: b'', []]"
    unfolding sample_fields_def using lines_of_cons(1) [of "''GET /a HTTP/1.1''"] lines_of_cons(1) [of "''host: a''"]
      lines_of_cons(1) [of "[]"] lines_of_cons(1) [of "''Host: b''" "[]"] lines_of_cons(2) [of "[]"]
    by (simp add: starts_crlf)
  then have "field_value ''Host'' sample_fields = Some ''b''"
    by (simp add: field_value_def line_value_def starts_with_def blank_char_def)
  moreover have "clean sample_fields" by (simp add: sample_fields_def)
  ultimately show ?thesis using http_header_lookup [of sample_fields "''Host''" "replicate 7 0" 1] by simp
qed
text \<open>An environment whose socket takes everything.\<close>

definition sample_env :: "(string \<Rightarrow> node option) \<Rightarrow> http_env" where
  "sample_env files = \<lparr>h_cpu = 1, slack = replicate 7 0, h_files = files, h_net = (\<lambda>w d. int (length d)),
     h_backend = \<lparr>dial = \<lambda>h p. None, send_to = \<lambda>q. -1, answers = \<lambda>q. []\<rparr>, h_now = 0, h_elapsed = 0\<rparr>"

definition secret_files :: "string \<Rightarrow> node option" where
  "secret_files q = (if q = ''/etc/passwd'' then Some (RegularFile True ''x'') else None)"



definition dots_request :: string where
  "dots_request = ''GET /a..b HTTP/1.1'' @ crlf"


text \<open>The answer for a file that is there, cannot be read, or is a folder.\<close>

lemma answer_file_static:
  assumes sl: "7 \<le> length (slack env)" and net: "\<And>w d. h_net env w d = int (length d)"
    and ok: "clean q" and size: "\<And>f. h_files env q = Some f \<Longrightarrow> st_size f < 2 ^ 64"
  shows "\<exists>w e. answer_file env entry q = Inr \<lparr>written = w, logged = [e], closes = 1\<rparr> \<and> uri e = uri entry \<and>
    (case h_files env q of
       Some (RegularFile True c) \<Rightarrow> w = static_head (mime_type q) (length c) @ c \<and>
         access_log_entry.status_code e = 200 \<and> access_log_entry.response_size e = int (length c)
     | Some (Folder k) \<Rightarrow> w = static_head (mime_type q) k @ error_response \<and> access_log_entry.status_code e = 500
     | _ \<Rightarrow> w = error_response \<and> access_log_entry.status_code e = 500)"
proof (cases "h_files env q")
  case None
  then show ?thesis
    using get_mime_type_eq [OF ok sl] net by (simp add: answer_file_def send_file_optimized_def put_def respond_def)
next
  case (Some f)
  with size static_head_length [of "st_size f" q] have l: "length (static_head (mime_type q) (st_size f)) \<le> 8191" by simp
  show ?thesis
  proof (cases f)
    case (RegularFile r c)
    with Some l get_mime_type_eq [OF ok sl] net show ?thesis
      by (cases r) (simp_all add: answer_file_def send_file_optimized_def put_def respond_def Let_def)
  next
    case (Folder k)
    with Some l get_mime_type_eq [OF ok sl] net show ?thesis
      by (simp add: answer_file_def send_file_optimized_def put_def respond_def Let_def)
  qed
qed

definition missing_page :: "string \<Rightarrow> node option" where
  "missing_page q = (if q = ''./www/404.html'' then Some (RegularFile True ''gone'') else None)"


end
