(* ===== verification/Https.thy ===== *)
theory Https
  imports Http
begin

text \<open>
  The HTTPS handler (src/http/https.c): it reads a request from a TLS connection, routes it, and
  answers it through a proxy, from the response cache or from a file, which it may compress. The
  parameters of the plain handler are extended by those of zlib, the hash of an etag, the time
  stamps of files, what is in uninitialised memory, and what a descriptor that has been closed
  reads when another thread has opened a file under its number. The cache, the upstream groups and
  the sessions are the state the handler shares with other requests.
\<close>

section \<open>Reading the request\<close>

text \<open>strcasestr, and the value behind a label, up to the end of the line.\<close>

fun strcasestr :: "string \<Rightarrow> string \<Rightarrow> string option" where
  "strcasestr [] needle = (if needle = [] then Some [] else None)"
| "strcasestr (x # xs) needle =
     (if List.map tolower (take (length needle) (x # xs)) = List.map tolower needle then Some (x # xs)
      else strcasestr xs needle)"

definition value_after :: "string \<Rightarrow> string \<Rightarrow> string option" where
  "value_after label buffer =
     (case strcasestr buffer label of
        None \<Rightarrow> None
      | Some t \<Rightarrow>
          let start = drop (length label) t in
          case strstr start crlf of None \<Rightarrow> None | Some e \<Rightarrow> Some (before start e))"

definition get_host :: "string \<Rightarrow> string option" where
  "get_host buffer = value_after ''Host: '' buffer"

definition get_user_agent :: "string \<Rightarrow> string" where
  "get_user_agent buffer = (case value_after ''User-Agent: '' buffer of None \<Rightarrow> ''-'' | Some v \<Rightarrow> v)"

definition get_referer :: "string \<Rightarrow> string" where
  "get_referer buffer = (case value_after ''Referer: '' buffer of None \<Rightarrow> ''-'' | Some v \<Rightarrow> v)"

definition extract_ssl_headers :: "string \<Rightarrow> string option" where
  "extract_ssl_headers buffer =
     (case strchr buffer CHR 0x0A of
        None \<Rightarrow> None
      | Some t \<Rightarrow> (case strstr (tl t) blank_line of None \<Rightarrow> None | Some e \<Rightarrow> Some (before (tl t) e)))"

definition extract_header_value :: "string \<Rightarrow> string \<Rightarrow> string option" where
  "extract_header_value buffer name = value_after (snprintf 64 (name @ '': '')) buffer"

text \<open>One call of strtok: the token and the rest of the string behind its delimiter.\<close>

definition strtok_step :: "char set \<Rightarrow> string \<Rightarrow> (string \<times> string) option" where
  "strtok_step ds s =
     (let t = dropWhile (\<lambda>c. c \<in> ds) s in
      if t = [] then None else Some (takeWhile (\<lambda>c. c \<notin> ds) t, drop 1 (dropWhile (\<lambda>c. c \<notin> ds) t)))"

definition request_parts :: "string \<Rightarrow> string option \<times> string option \<times> string option" where
  "request_parts buffer =
     (case strtok_step {CHR '' ''} buffer of
        None \<Rightarrow> (None, None, None)
      | Some (m, s) \<Rightarrow> (case strtok_step {CHR '' ''} s of
          None \<Rightarrow> (Some m, None, None)
        | Some (p, s) \<Rightarrow> (Some m, Some p, map_option fst (strtok_step {CHR 0x0D, CHR 0x0A} s))))"

definition get_mime_type :: "string \<Rightarrow> string" where
  "get_mime_type path =
     (case strrchr path CHR ''.'' of
        None \<Rightarrow> ''application/octet-stream''
      | Some dot \<Rightarrow>
          if dot = path then ''application/octet-stream''
          else case map_of [(''.html'', ''text/html''), (''.css'', ''text/css''), (''.js'', ''application/javascript''),
                 (''.jpg'', ''image/jpeg''), (''.jpeg'', ''image/jpeg''), (''.png'', ''image/png'')] dot of
               None \<Rightarrow> ''application/octet-stream'' | Some t \<Rightarrow> t)"

section \<open>The environment and the state\<close>

record https_env = http_env +
  deflate_init :: "int \<Rightarrow> bool"
  deflate :: "string \<Rightarrow> nat \<Rightarrow> int \<Rightarrow> int \<times> string"
  md5 :: "string \<Rightarrow> string option"
  st_mtime :: "string \<Rightarrow> int"
  junk_size :: int
  stale_read :: "nat \<Rightarrow> string option"
  lb_time :: lb_clock

record https_state =
  s_cache :: "cache_manager option"
  s_lb :: "lb_config option"
  s_sessions :: session_state

section \<open>Answers\<close>

definition no_server_response :: string where
  "no_server_response = ''HTTP/1.1 500 Internal Server Error'' @ crlf @ crlf"

definition bad_gateway_response :: string where
  "bad_gateway_response = ''HTTP/1.1 502 Bad Gateway'' @ crlf @ ''Content-Type: text/plain'' @ crlf @
     ''Content-Length: 15'' @ crlf @ ''Connection: close'' @ crlf @ crlf @ ''Bad Gateway''"

definition not_modified_response :: string where
  "not_modified_response = ''HTTP/1.1 304 Not Modified'' @ crlf @ ''Server: ANX HTTP Server/0.6.0'' @ crlf @
     ''Connection: close'' @ crlf @ crlf"

text \<open>The name and the port of the server in the log entry.\<close>

definition log_server :: "server_block \<Rightarrow> access_log_entry \<Rightarrow> access_log_entry" where
  "log_server srv e =
     (let e = (case get_directive_value ''server_name'' (s_directives srv) of
                 None \<Rightarrow> e | Some n \<Rightarrow> e\<lparr>access_log_entry.server_name := Some n\<rparr>)
      in case get_directive_value ''listen'' (s_directives srv) of
           None \<Rightarrow> e
         | Some l \<Rightarrow> (case strtok_all {CHR '' ''} l of [] \<Rightarrow> e | t # _ \<Rightarrow> e\<lparr>server_port := atoi t\<rparr>))"

definition https_proxy ::
  "https_env \<Rightarrow> https_state \<Rightarrow> access_log_entry \<Rightarrow> string \<Rightarrow> string \<Rightarrow> string \<Rightarrow> string option \<Rightarrow> string \<Rightarrow> string \<Rightarrow>
   (outcome \<times> https_state) run" where
  "https_proxy env st entry m req_path version headers proxy_pass ip =
     bindR (if is_upstream_proxy (Some proxy_pass)
        then (case extract_upstream_name (Some proxy_pass) of
                None \<Rightarrow> Inr (-1, [], st)
              | Some name \<Rightarrow>
                  bindR (handle_lb_https_proxy_request (h_backend env) (h_net env) (lb_time env)
                     \<lparr>rq_method = m, rq_path = req_path, rq_version = version, rq_headers = headers, rq_ip = Some ip\<rparr>
                     name (s_lb st) (s_sessions st) [])
                    (\<lambda>(result, w, lb, se). Inr (result, w, st\<lparr>s_lb := lb, s_sessions := se\<rparr>)))
        else bindR (handle_https_proxy_request (h_backend env) (h_net env) m req_path version headers (Some proxy_pass) [])
               (\<lambda>(result, w). Inr (result, w, st)))
      (\<lambda>(result, w, st).
       let entry = entry\<lparr>upstream_addr := Some proxy_pass, request_duration_ms := h_elapsed env\<rparr> in
       Inr (if result < 0
            then \<lparr>written = put (h_net env) bad_gateway_response w,
                  logged = [respond 502 15 (h_elapsed env) (entry\<lparr>upstream_status := 502\<rparr>)], closes = 1\<rparr>
            else \<lparr>written = w,
                  logged = [respond 200 (access_log_entry.response_size entry) (h_elapsed env) (entry\<lparr>upstream_status := 200\<rparr>)],
                  closes = 1\<rparr>, st))"

text \<open>A response from the cache: its head, and the content as it was stored.\<close>

definition cached_head :: "cache_response \<Rightarrow> string run" where
  "cached_head r =
     bindR (snprintf_all 8192
        ([''HTTP/1.1 200 OK'' @ crlf @ ''Content-Type: '' @
            (case r_content_type r of None \<Rightarrow> ''application/octet-stream'' | Some t \<Rightarrow> t) @ crlf @
            ''Content-Length: '' @ print_nat (unat (r_content_length r)) @ crlf @
            ''Server: ANX HTTP Server/0.6.0'' @ crlf @ ''X-Cache: HIT'' @ crlf] @
         (case r_etag r of None \<Rightarrow> [] | Some e \<Rightarrow> [''ETag: '' @ e @ crlf]) @
         (if r_last_modified r > 0 then [''Last-Modified: '' @ print_int (r_last_modified r) @ crlf] else []) @
         (if r_is_compressed r then [''Content-Encoding: gzip'' @ crlf @ ''Vary: Accept-Encoding'' @ crlf] else []) @
         [''Connection: close'' @ crlf @ crlf]) ([], 0)) (\<lambda>(h, n). Inr h)"

text \<open>Compression of a file that is open: the bytes to send instead, if there are any.\<close>

definition compress_file :: "https_env \<Rightarrow> compress_config \<Rightarrow> string option \<Rightarrow> string \<Rightarrow> node option \<Rightarrow> int \<Rightarrow> string option" where
  "compress_file env cc accept_encoding mime f file_size =
     (if enable_compression cc \<and> accept_encoding \<noteq> None \<and> client_accepts_compression accept_encoding \<and>
         should_compress_mime_type cc (Some mime) \<and> (word_of_int file_size :: u64) \<ge> min_length cc
      then (case (f, compress_context_create (deflate_init env) cc) of
              (Some (RegularFile True c), Some ctx) \<Rightarrow>
                (case compress_data (deflate env) ctx c (length c + 1024) 4 of
                   (ret, Some out) \<Rightarrow> if ret = 1 then Some out else None
                 | _ \<Rightarrow> None)
            | _ \<Rightarrow> None)
      else None)"

definition response_head :: "int \<Rightarrow> string \<Rightarrow> int \<Rightarrow> bool \<Rightarrow> bool \<Rightarrow> string run" where
  "response_head code mime final_length compressed vary =
     bindR (snprintf_all 8192
        ([''HTTP/1.1 '' @ print_int code @ '' '' @ (if code = 200 then ''OK'' else ''Not Found'') @ crlf @
            ''Content-Type: '' @ mime @ crlf @ ''Content-Length: '' @ print_int final_length @ crlf @
            ''Server: ANX HTTP Server/0.6.0'' @ crlf] @
         (if compressed then (''Content-Encoding: gzip'' @ crlf) # (if vary then [''Vary: Accept-Encoding'' @ crlf] else []) else []) @
         [''Connection: close'' @ crlf @ crlf]) ([], 0)) (\<lambda>(h, n). Inr h)"

text \<open>The file is sent in blocks of 4096 bytes; what SSL_write returns is not looked at.\<close>

function send_blocks :: "transport \<Rightarrow> string \<Rightarrow> string \<Rightarrow> string" where
  "send_blocks net c w = (if c = [] then w else send_blocks net (drop 4096 c) (put net (take 4096 c) w))"
  by pat_completeness auto
termination by (relation "measure (\<lambda>(net, c, w). length c)") auto

declare send_blocks.simps [simp del]

text \<open>
  The part behind the response: the file is read again for the cache through the descriptor that
  has just been closed, and a compressed copy that has just been freed would be stored.
\<close>

definition store_in_cache ::
  "https_env \<Rightarrow> cache_config \<Rightarrow> string \<Rightarrow> string \<Rightarrow> string \<Rightarrow> int \<Rightarrow> string \<Rightarrow> nat \<Rightarrow> bool \<Rightarrow> cache_manager option \<Rightarrow> cache_manager option run" where
  "store_in_cache env conf m req_path file_path code mime file_size compressed cache =
     (case cache of
        None \<Rightarrow> Inr None
      | Some c \<Rightarrow>
          if m = ''GET'' \<and> code = 200 \<and> file_size > 0 \<and> cache_config_is_cacheable conf (Some mime) (of_nat file_size)
          then (case stale_read env file_size of
                  None \<Rightarrow> Inr (Some c)
                | Some d \<Rightarrow>
                    if length d \<noteq> file_size then Inr (Some c)
                    else if compressed then Inl BadPointer
                    else bindR (cache_put (md5 env) (h_now env) c req_path d (Some mime) (st_mtime env file_path) 0 False)
                           (\<lambda>(r, c). Inr (Some c)))
          else Inr (Some c))"

text \<open>What the handler answers from a lookup: an unchanged or a stored response.\<close>

definition answerable :: "cache_response option \<Rightarrow> cache_response option" where
  "answerable cached =
     (case cached of None \<Rightarrow> None
      | Some r \<Rightarrow> if needs_validation r \<or> (is_cached r \<and> r_content r \<noteq> None) then Some r else None)"

text \<open>A request for a file: first the conditional or the cached answer, then the file.\<close>

definition https_file ::
  "https_env \<Rightarrow> config \<Rightarrow> https_state \<Rightarrow> access_log_entry \<Rightarrow> server_block \<Rightarrow> location_block option \<Rightarrow>
   string \<Rightarrow> string \<Rightarrow> string \<Rightarrow> string option \<Rightarrow> int \<Rightarrow> (outcome \<times> https_state) run" where
  "https_file env cfg st entry srv loc m req_path buffer if_none_match if_modified_since =
     (let q = static_path 4096 ''/index.html'' (h_files env) srv loc req_path;
          code = (if is_regular (h_files env q) then 200 else 404);
          file_path = (if is_regular (h_files env q) then q else snprintf 4096 (document_root srv loc @ ''/404.html''));
          f = h_files env file_path;
          file_size = (case f of Some n \<Rightarrow> int (st_size n)
                       | None \<Rightarrow> (case h_files env q of Some n \<Rightarrow> int (st_size n) | None \<Rightarrow> junk_size env));
          mime = get_mime_type file_path;
          opened = (case f of None \<Rightarrow> False | Some (RegularFile r c) \<Rightarrow> r | Some (Folder k) \<Rightarrow> True);
          packed = compress_file env (cf_compress cfg) (extract_header_value buffer ''Accept-Encoding'') mime f file_size
      in bindR (case s_cache st of
             Some c \<Rightarrow> if m = ''GET''
                then bindR (cache_get (h_now env) c req_path if_none_match if_modified_since) (\<lambda>(r, c). Inr (answerable r, Some c))
                else Inr (None, Some c)
           | None \<Rightarrow> Inr (None, None)) (\<lambda>(cached, cache).
         let st = st\<lparr>s_cache := cache\<rparr> in
         case cached of
           Some r \<Rightarrow>
             if needs_validation r
             then Inr (\<lparr>written = put (h_net env) not_modified_response [],
                        logged = [respond 304 (int (length not_modified_response)) (h_elapsed env) entry], closes = 1\<rparr>, st)
             else bindR (cached_head r) (\<lambda>h.
                  let c = (case r_content r of None \<Rightarrow> [] | Some c \<Rightarrow> c) in
                  Inr (\<lparr>written = put (h_net env) c (put (h_net env) h []),
                        logged = [respond 200 (int (length h) + int (length c)) (h_elapsed env) entry], closes = 1\<rparr>, st))
         | None \<Rightarrow>
             bindR (response_head code mime (case packed of Some z \<Rightarrow> int (length z) | None \<Rightarrow> file_size)
                      (packed \<noteq> None) (enable_vary (cf_compress cfg))) (\<lambda>h.
             bindR (create_header_context (case loc of Some l \<Rightarrow> l_directives l | None \<Rightarrow> s_directives srv)) (\<lambda>ctx.
             let h = apply_headers_to_response 8192 (Some ctx) code h;
                 w = put (h_net env) h [];
                 (w, sent, code) =
                   (if opened
                    then (case packed of
                            Some z \<Rightarrow> (put (h_net env) z w, length z, code)
                          | None \<Rightarrow> (case f of Some (RegularFile r c) \<Rightarrow> (send_blocks (h_net env) c w, length c, code)
                                     | _ \<Rightarrow> (w, 0, code)))
                    else (put (h_net env) ''Internal Server Error'' w, length ''Internal Server Error'', 500))
             in bindR (store_in_cache env (cf_cache cfg) m req_path file_path code mime (nat file_size) (packed \<noteq> None) (s_cache st)) (\<lambda>cache.
                Inr (\<lparr>written = w, logged = [respond code (int (length h) + int sent) (h_elapsed env) entry], closes = 1\<rparr>,
                     st\<lparr>s_cache := cache\<rparr>))))))"

text \<open>The log entry of a request.\<close>

definition request_entry :: "string \<Rightarrow> string \<Rightarrow> string option \<Rightarrow> string option \<Rightarrow> string option \<Rightarrow> access_log_entry" where
  "request_entry ip buffer m req_path version =
     (let entry = create_access_log_entry\<lparr>access_log_entry.client_ip := Some ip,
            access_log_entry.user_agent := Some (get_user_agent buffer), referer := Some (get_referer buffer),
            server_port := 443\<rparr>;
          entry = (case m of None \<Rightarrow> entry | Some x \<Rightarrow> entry\<lparr>meth := Some x\<rparr>);
          entry = (case req_path of None \<Rightarrow> entry | Some x \<Rightarrow> entry\<lparr>uri := Some x\<rparr>)
      in case version of None \<Rightarrow> entry | Some x \<Rightarrow> entry\<lparr>access_log_entry.protocol := Some x\<rparr>)"

definition handle_https_request ::
  "https_env \<Rightarrow> config \<Rightarrow> https_state \<Rightarrow> string \<Rightarrow> string option \<Rightarrow> (outcome \<times> https_state) run" where
  "handle_https_request env cfg st ip received =
     (case received of
        None \<Rightarrow> Inr (\<lparr>written = [], logged = [], closes = 1\<rparr>, st)
      | Some data \<Rightarrow>
          if data = [] then Inr (\<lparr>written = [], logged = [], closes = 1\<rparr>, st)
          else
            let buffer = takeWhile (\<lambda>c. c \<noteq> CHR 0x00) (take 4095 data);
                (m, req_path, version) = request_parts buffer;
                entry = request_entry ip buffer m req_path version
            in case (m, req_path) of
                 (Some m, Some req_path) \<Rightarrow>
                   bindR (find_route (cf_http cfg) (get_host buffer) (Some req_path) 8443) (\<lambda>rt.
                   case r_server rt of
                     None \<Rightarrow> Inr (\<lparr>written = put (h_net env) no_server_response [],
                                logged = [respond 500 (int (length no_server_response)) (h_elapsed env) entry], closes = 1\<rparr>, st)
                   | Some srv \<Rightarrow>
                       let entry = log_server srv entry in
                       (case Option.bind (r_location rt) (\<lambda>l. get_directive_value ''proxy_pass'' (l_directives l)) of
                          Some proxy_pass \<Rightarrow>
                            https_proxy env st entry m req_path (case version of None \<Rightarrow> ''(null)'' | Some v \<Rightarrow> v)
                              (extract_ssl_headers buffer) proxy_pass ip
                        | None \<Rightarrow>
                            https_file env cfg st entry srv (r_location rt) m req_path buffer
                              (extract_header_value buffer ''If-None-Match'')
                              (case extract_header_value buffer ''If-Modified-Since'' of None \<Rightarrow> 0 | Some v \<Rightarrow> fst (strtol10 v))))
               | _ \<Rightarrow> Inr (\<lparr>written = [], logged = [respond 400 0 (h_elapsed env) entry], closes = 1\<rparr>, st))"

section \<open>Labels are searched without regard to lines\<close>

definition same_ci :: "string \<Rightarrow> string \<Rightarrow> bool" where
  "same_ci s t \<longleftrightarrow> List.map tolower s = List.map tolower t"

lemma strcasestr_split:
  "needle \<noteq> [] \<Longrightarrow> strcasestr s needle = Some t \<longleftrightarrow>
    (\<exists>u. s = u @ t \<and> same_ci (take (length needle) t) needle \<and>
       (\<forall>k<length u. \<not> same_ci (take (length needle) (drop k s)) needle))"
proof (induction s)
  case Nil
  then show ?case by (auto simp: same_ci_def)
next
  case (Cons x s)
  show ?case
  proof (cases "same_ci (take (length needle) (x # s)) needle")
    case True
    then have "strcasestr (x # s) needle = Some (x # s)" by (simp add: same_ci_def)
    moreover have "u = []" if "\<forall>k<length u. \<not> same_ci (take (length needle) (drop k (x # s))) needle" for u :: string
      using that True by (cases u) (auto dest: spec [of _ 0])
    ultimately show ?thesis using True by auto
  next
    case False
    then have r: "strcasestr (x # s) needle = strcasestr s needle" by (simp add: same_ci_def)
    show ?thesis
    proof
      assume "strcasestr (x # s) needle = Some t"
      with r Cons obtain u where u: "s = u @ t" "same_ci (take (length needle) t) needle"
        "\<forall>k<length u. \<not> same_ci (take (length needle) (drop k s)) needle" by auto
      with False have "\<forall>k<length (x # u). \<not> same_ci (take (length needle) (drop k (x # s))) needle"
        by (auto simp: less_Suc_eq_0_disj)
      with u show "\<exists>u. x # s = u @ t \<and> same_ci (take (length needle) t) needle \<and>
          (\<forall>k<length u. \<not> same_ci (take (length needle) (drop k (x # s))) needle)"
        by (intro exI [of _ "x # u"]) simp
    next
      assume "\<exists>u. x # s = u @ t \<and> same_ci (take (length needle) t) needle \<and>
          (\<forall>k<length u. \<not> same_ci (take (length needle) (drop k (x # s))) needle)"
      then obtain u where u: "x # s = u @ t" "same_ci (take (length needle) t) needle"
        "\<forall>k<length u. \<not> same_ci (take (length needle) (drop k (x # s))) needle" by blast
      with False obtain u' where u': "u = x # u'" "s = u' @ t" by (cases u) auto
      have "\<not> same_ci (take (length needle) (drop k s)) needle" if "k < length u'" for k
        using u(3) u' that by (auto dest: spec [of _ "Suc k"])
      with u u' Cons show "strcasestr (x # s) needle = Some t" unfolding r by blast
    qed
  qed
qed
section \<open>The cache stays empty\<close>

lemma bindR_assoc: "bindR (bindR r f) g = bindR r (\<lambda>x. bindR (f x) g)"
  by (cases r) simp_all

definition with_cache :: "cache_manager option \<Rightarrow> ('a \<times> https_state) run \<Rightarrow> ('a \<times> https_state) run" where
  "with_cache cache r = bindR r (\<lambda>(x, st). Inr (x, st\<lparr>s_cache := cache\<rparr>))"

text \<open>No cache or an empty one, and what a request may change in it.\<close>

definition empty_cache :: "cache_manager option \<Rightarrow> bool" where
  "empty_cache cache \<longleftrightarrow> (\<forall>c. cache = Some c \<longrightarrow> cache_inv c \<and> (\<forall>k. cache_entries c k = []))"

definition idle :: "cache_manager option \<Rightarrow> cache_manager option \<Rightarrow> bool" where
  "idle cache cache' \<longleftrightarrow>
     (case cache of None \<Rightarrow> cache' = None
      | Some c \<Rightarrow> \<exists>x. hits x = hits (stats c) \<and> current_entries x = current_entries (stats c) \<and>
          current_size x = current_size (stats c) \<and> cache' = Some (c\<lparr>stats := x\<rparr>))"

lemma idle_refl [simp]: "idle cache cache"
  by (cases cache) (auto simp: idle_def intro: exI [of _ "stats c" for c])

lemma idle_trans: "idle c c' \<Longrightarrow> idle c' c'' \<Longrightarrow> idle c c''"
  by (auto simp: idle_def split: option.splits)

lemma idle_empty: "empty_cache c \<Longrightarrow> idle c c' \<Longrightarrow> empty_cache c'"
proof -
  have "cache_inv (m\<lparr>stats := x\<rparr>)"
    if "cache_inv m" "current_entries x = current_entries (stats m)" "current_size x = current_size (stats m)" for m x
    using that ok_stats_lock by (auto simp: cache_inv_def)
  then show "empty_cache c \<Longrightarrow> idle c c' \<Longrightarrow> empty_cache c'"
    by (auto simp: empty_cache_def idle_def cache_entries_def split: option.splits)
qed

lemma idle_miss: "idle (Some c) (Some (c\<lparr>stats := count_miss (stats c)\<rparr>))"
  unfolding idle_def option.case by (rule exI [of _ "count_miss (stats c)"]) (simp add: count_miss_def)

lemma store_nothing: "stale_read env = (\<lambda>n. None) \<Longrightarrow> store_in_cache env conf m p q code mime n z cache = Inr cache"
  by (simp add: store_in_cache_def split: option.split)

lemma https_file_cache:
  assumes c: "empty_cache cache" and env: "stale_read env = (\<lambda>n. None)"
  obtains cache' where "idle cache cache'"
    "https_file env cfg (st\<lparr>s_cache := cache\<rparr>) entry srv loc m p buffer inm ims =
     with_cache cache' (https_file env cfg (st\<lparr>s_cache := None\<rparr>) entry srv loc m p buffer inm ims)"
proof -
  let ?look = "case cache of
      Some c \<Rightarrow> if m = ''GET''
        then bindR (cache_get (h_now env) c p inm ims) (\<lambda>(r, c). Inr (answerable r, Some c))
        else Inr (None, Some c)
    | None \<Rightarrow> Inr (None, None)"
  obtain cache' where i: "idle cache cache'" and look: "?look = Inr (None, cache')"
  proof (cases "\<exists>c. cache = Some c \<and> m = ''GET''")
    case True
    then obtain c where "cache = Some c" by blast
    with True c cache_get_miss [of c p "h_now env" inm ims] show ?thesis
      by (intro that [of "Some (c\<lparr>stats := count_miss (stats c)\<rparr>)"])
        (auto simp: idle_miss empty_cache_def answerable_def)
  next
    case False
    then show ?thesis by (intro that [of cache]) (auto split: option.split)
  qed
  have "https_file env cfg (st\<lparr>s_cache := cache\<rparr>) entry srv loc m p buffer inm ims =
    with_cache cache' (https_file env cfg (st\<lparr>s_cache := None\<rparr>) entry srv loc m p buffer inm ims)"
    by (simp add: https_file_def look store_nothing [OF env] with_cache_def bindR_assoc Let_def case_prod_unfold)
  with i show ?thesis by (rule that)
qed

lemma https_proxy_cache:
  "https_proxy env (st\<lparr>s_cache := cache\<rparr>) entry m p v hs pp ip =
    with_cache cache (https_proxy env (st\<lparr>s_cache := None\<rparr>) entry m p v hs pp ip)"
proof (cases "is_upstream_proxy (Some pp)")
  case False
  let ?r = "handle_https_proxy_request (h_backend env) (h_net env) m p v hs (Some pp) []"
  show ?thesis using False by (cases ?r) (auto simp: https_proxy_def with_cache_def Let_def)
next
  case True
  show ?thesis
  proof (cases "extract_upstream_name (Some pp)")
    case None
    with True show ?thesis by (simp add: https_proxy_def with_cache_def Let_def)
  next
    case (Some name)
    let ?r = "handle_lb_https_proxy_request (h_backend env) (h_net env) (lb_time env)
      \<lparr>rq_method = m, rq_path = p, rq_version = v, rq_headers = hs, rq_ip = Some ip\<rparr> name (s_lb st) (s_sessions st) []"
    from True Some show ?thesis by (cases ?r) (auto simp: https_proxy_def with_cache_def Let_def)
  qed
qed

text \<open>The request text as the handler sees it, and a request that is answered with a file.\<close>

definition request_text :: "string \<Rightarrow> string" where
  "request_text data = takeWhile (\<lambda>c. c \<noteq> CHR 0x00) (take 4095 data)"

lemma handle_https_file:
  assumes "data \<noteq> []" "request_parts (request_text data) = (Some m, Some p, v)"
    "find_route (cf_http cfg) (get_host (request_text data)) (Some p) 8443 = Inr rt" "r_server rt = Some srv"
    "Option.bind (r_location rt) (\<lambda>l. get_directive_value ''proxy_pass'' (l_directives l)) = None"
  shows "handle_https_request env cfg st ip (Some data) =
    https_file env cfg st (log_server srv (request_entry ip (request_text data) (Some m) (Some p) v)) srv (r_location rt) m p
      (request_text data) (extract_header_value (request_text data) ''If-None-Match'')
      (case extract_header_value (request_text data) ''If-Modified-Since'' of None \<Rightarrow> 0 | Some v \<Rightarrow> fst (strtol10 v))"
  using assms by (simp add: handle_https_request_def request_text_def Let_def)

lemma handle_https_cache:
  assumes c: "empty_cache cache" and env: "stale_read env = (\<lambda>n. None)"
  obtains cache' where "idle cache cache'"
    "handle_https_request env cfg (st\<lparr>s_cache := cache\<rparr>) ip received =
     with_cache cache' (handle_https_request env cfg (st\<lparr>s_cache := None\<rparr>) ip received)"
proof (cases received)
  case None
  then show ?thesis by (intro that [of cache]) (simp_all add: handle_https_request_def with_cache_def)
next
  case (Some data)
  let ?b = "takeWhile (\<lambda>c. c \<noteq> CHR 0x00) (take 4095 data)"
  obtain m q v where parts: "request_parts ?b = (m, q, v)" by (cases "request_parts ?b") auto
  show ?thesis
  proof (cases "data = [] \<or> m = None \<or> q = None")
    case True
    with Some parts show ?thesis
      by (intro that [of cache]) (auto simp: handle_https_request_def with_cache_def Let_def split: option.split)
  next
    case False
    then obtain m' q' where mq: "m = Some m'" "q = Some q'" "data \<noteq> []" by auto
    show ?thesis
    proof (cases "find_route (cf_http cfg) (get_host ?b) (Some q') 8443")
      case (Inl e)
      with Some parts mq show ?thesis
        by (intro that [of cache]) (simp_all add: handle_https_request_def with_cache_def Let_def)
    next
      case (Inr rt)
      show ?thesis
      proof (cases "r_server rt = None \<or> Option.bind (r_location rt) (\<lambda>l. get_directive_value ''proxy_pass'' (l_directives l)) \<noteq> None")
        case True
        with Inr Some parts mq https_proxy_cache [where cache = cache] show ?thesis
          by (intro that [of cache]) (auto simp: handle_https_request_def with_cache_def Let_def split: option.split)
      next
        case False
        then obtain srv where "r_server rt = Some srv"
          "Option.bind (r_location rt) (\<lambda>l. get_directive_value ''proxy_pass'' (l_directives l)) = None" by auto
        note hf = handle_https_file [where data = data, unfolded request_text_def, OF mq(3) _ Inr this]
        from parts mq have "request_parts ?b = (Some m', Some q', v)" by simp
        note hf = hf [OF this]
        show ?thesis unfolding Some hf by (rule https_file_cache [OF c env]) (rule that, unfold Some hf)
      qed
    qed
  qed
qed

text \<open>Requests one after the other.\<close>

fun serve_all ::
  "https_env \<Rightarrow> config \<Rightarrow> https_state \<Rightarrow> (string \<times> string option) list \<Rightarrow> (outcome list \<times> https_state) run" where
  "serve_all env cfg st [] = Inr ([], st)"
| "serve_all env cfg st ((ip, received) # rs) =
     bindR (handle_https_request env cfg st ip received) (\<lambda>(out, st).
     bindR (serve_all env cfg st rs) (\<lambda>(outs, st). Inr (out # outs, st)))"
section \<open>Properties\<close>

text \<open>C27. A server with a cache answers like a server without one, however many requests it handles: as
long as no other thread reopens the descriptor that is read after it was closed, the cache never
gets an entry, no lookup hits, and only the count of misses changes.\<close>

theorem https_cache_never_filled:
  assumes "empty_cache cache" "stale_read env = (\<lambda>n. None)"
  shows "\<exists>cache'. idle cache cache' \<and> empty_cache cache' \<and>
    serve_all env cfg (st\<lparr>s_cache := cache\<rparr>) rs = with_cache cache' (serve_all env cfg (st\<lparr>s_cache := None\<rparr>) rs)"
  using assms(1)
proof (induction rs arbitrary: cache st)
  case Nil
  then show ?case by (intro exI [of _ cache]) (simp add: with_cache_def)
next
  case (Cons r rs)
  obtain ip received where r: "r = (ip, received)" by fastforce
  let ?h = "\<lambda>cache. handle_https_request env cfg (st\<lparr>s_cache := cache\<rparr>) ip received"
  obtain c1 where c1: "idle cache c1" "?h cache = with_cache c1 (?h None)"
    using handle_https_cache [OF Cons.prems assms(2)] by metis
  obtain c0 where "idle None c0" "?h None = with_cache c0 (?h None)"
    using handle_https_cache [of None, OF _ assms(2)] by (metis empty_cache_def option.distinct(1))
  then have none: "?h None = with_cache None (?h None)" by (simp add: idle_def)
  show ?case
  proof (cases "?h None")
    case (Inl f)
    with c1 r idle_empty [OF Cons.prems c1(1)] show ?thesis by (intro exI [of _ c1]) (simp add: with_cache_def)
  next
    case (Inr res)
    obtain out st' where res: "?h None = Inr (out, st')" using Inr by (cases res) auto
    obtain c2 where c2: "idle c1 c2" "empty_cache c2" "serve_all env cfg (st'\<lparr>s_cache := c1\<rparr>) rs =
        with_cache c2 (serve_all env cfg (st'\<lparr>s_cache := None\<rparr>) rs)"
      using Cons.IH [OF idle_empty [OF Cons.prems c1(1)], of st'] by blast
    from none res have "st'\<lparr>s_cache := None\<rparr> = st'" by (simp add: with_cache_def)
    with c1 c2 r res idle_trans [OF c1(1) c2(1)] show ?thesis
      by (intro exI [of _ c2]) (simp add: with_cache_def bindR_assoc case_prod_unfold)
  qed
qed
text \<open>An environment whose socket takes everything and whose descriptors are not reused.\<close>

definition sample_https :: "(string \<Rightarrow> node option) \<Rightarrow> https_env" where
  "sample_https files = \<lparr>h_cpu = 1, slack = [], h_files = files, h_net = (\<lambda>w d. int (length d)),
     h_backend = \<lparr>dial = \<lambda>h p. None, send_to = \<lambda>q. -1, answers = \<lambda>q. []\<rparr>, h_now = 0, h_elapsed = 0,
     deflate_init = (\<lambda>l. False), deflate = (\<lambda>s n k. (-1, [])), md5 = (\<lambda>s. None), st_mtime = (\<lambda>p. 0), junk_size = 0,
     stale_read = (\<lambda>n. None), lb_time = \<lparr>t_select = \<lambda>k. 0, t_connect = 0, t_stats = 0, t_elapsed = 0, t_random = 0\<rparr>\<rparr>"

definition new_cache :: "cache_manager option" where
  "new_cache = Some (cache_manager_create cache_config_create)"

definition sample_https_config :: config where
  "sample_https_config = new_config\<lparr>cf_http := Some sample_http, cf_compress := compress_config_create\<lparr>enable_compression := False\<rparr>\<rparr>"

definition sample_https_state :: https_state where
  "sample_https_state = \<lparr>s_cache = new_cache, s_lb = None, s_sessions = \<lparr>session_table = [], session_locked = False\<rparr>\<rparr>"

lemma new_cache_empty: "empty_cache new_cache"
proof -
  have "cache_entries (cache_manager_create config) k = []" for config k
    by (simp add: cache_entries_def cache_manager_create_def)
  then show ?thesis by (auto simp: empty_cache_def new_cache_def cache_inv_create)
qed

theorem https_cache_never_filled_witness:
  "\<exists>cache'. empty_cache cache' \<and>
    serve_all (sample_https missing_page) sample_https_config (sample_https_state\<lparr>s_cache := new_cache\<rparr>) [(''10.0.0.1'', Some sample_request_line), (''10.0.0.2'', None)] =
    with_cache cache' (serve_all (sample_https missing_page) sample_https_config (sample_https_state\<lparr>s_cache := None\<rparr>)
      [(''10.0.0.1'', Some sample_request_line), (''10.0.0.2'', None)])"
proof -
  have "stale_read (sample_https missing_page) = (\<lambda>n. None)" by (simp add: sample_https_def)
  from https_cache_never_filled [OF new_cache_empty this, of sample_https_config sample_https_state] show ?thesis by blast
qed

lemma send_blocks_all: "(\<And>w d. net w d = int (length d)) \<Longrightarrow> send_blocks net c w = w @ c"
proof (induction net c w rule: send_blocks.induct)
  case (1 net c w)
  show ?case
  proof (cases "c = []")
    case False
    with 1(1) [OF False 1(2)] have "send_blocks net (drop 4096 c) (put net (take 4096 c) w) = put net (take 4096 c) w @ drop 4096 c" by simp
    moreover have "put net (take 4096 c) w = w @ take 4096 c" using 1(2) by (simp add: put_def min_def)
    ultimately show ?thesis using False by (simp add: send_blocks.simps [of net c w])
  qed (simp add: send_blocks.simps)
qed

definition https_head :: "int \<Rightarrow> string \<Rightarrow> nat \<Rightarrow> string" where
  "https_head code mime n =
     ''HTTP/1.1 '' @ print_int code @ '' '' @ (if code = 200 then ''OK'' else ''Not Found'') @ crlf @
     ''Content-Type: '' @ mime @ crlf @ ''Content-Length: '' @ print_nat n @ crlf @
     ''Server: ANX HTTP Server/0.6.0'' @ crlf @ ''Connection: close'' @ crlf @ crlf"

lemma mime_length: "length (get_mime_type path) \<le> 30"
  by (simp add: get_mime_type_def split: option.split)

lemma response_head_plain:
  assumes "code \<in> {200, 404}" "n < 2 ^ 64"
  shows "response_head code (get_mime_type path) (int n) False vary = Inr (https_head code (get_mime_type path) n)"
proof -
  let ?ps = "[''HTTP/1.1 '' @ print_int code @ '' '' @ (if code = 200 then ''OK'' else ''Not Found'') @ crlf @
            ''Content-Type: '' @ get_mime_type path @ crlf @ ''Content-Length: '' @ print_nat n @ crlf @
            ''Server: ANX HTTP Server/0.6.0'' @ crlf, ''Connection: close'' @ crlf @ crlf]"
  have p: "print_int (int n) = print_nat n" by (simp add: print_int_def)
  have "length (print_int code) \<le> 20" "length (print_nat n) \<le> 20"
    using assms print_nat_length [of n 19] print_nat_length [of "nat code" 19] by (auto simp: print_int_def)
  then have l: "length (concat ?ps) < 8191" using mime_length [of path] by (auto simp: crlf_def)
  then have "length (concat (butlast ?ps)) \<le> 8192" by simp
  with l have "snprintf_all 8192 ?ps ([], 0) = Inr (concat ?ps, length (concat ?ps))"
    using snprintf_all_start [of ?ps 8192] by simp
  then show ?thesis by (simp add: response_head_def https_head_def p)
qed
text \<open>C28. A request that is routed to a file, over a connection that takes everything: the readable file
that root and path name, joined as they are, is sent whole behind the head with the headers the
location or the server configures, and logged under its status and size. Nothing is asked of the
path, so unlike the plain handler this one follows steps up out of the root.\<close>

theorem https_file_response:
  assumes req: "data \<noteq> []" "request_parts (request_text data) = (Some m, Some p, v)"
      "find_route (cf_http cfg) (get_host (request_text data)) (Some p) 8443 = Inr rt" "r_server rt = Some srv"
      "Option.bind (r_location rt) (\<lambda>l. get_directive_value ''proxy_pass'' (l_directives l)) = None"
    and env: "\<And>w d. h_net env w d = int (length d)" "stale_read env = (\<lambda>n. None)"
    and st: "empty_cache (s_cache st)" "\<not> enable_compression (cf_compress cfg)"
    and fl: "q = static_path 4096 ''/index.html'' (h_files env) srv (r_location rt) p"
      "code = (if is_regular (h_files env q) then 200 else 404)"
      "q' = (if code = 200 then q else snprintf 4096 (document_root srv (r_location rt) @ ''/404.html''))"
      "h_files env q' = Some (RegularFile True c)" "length c < 2 ^ 63"
    and ctx: "create_header_context (case r_location rt of Some l \<Rightarrow> l_directives l | None \<Rightarrow> s_directives srv) = Inr ctx"
  shows "\<exists>e st'. handle_https_request env cfg st ip (Some data) =
      Inr (\<lparr>written = apply_headers_to_response 8192 (Some ctx) code (https_head code (get_mime_type q') (length c)) @ c,
            logged = [e], closes = 1\<rparr>, st') \<and>
    access_log_entry.status_code e = code \<and> uri e = Some p \<and>
    access_log_entry.response_size e =
      int (length (apply_headers_to_response 8192 (Some ctx) code (https_head code (get_mime_type q') (length c)))) + int (length c)"
proof -
  let ?e = "log_server srv (request_entry ip (request_text data) (Some m) (Some p) v)"
  let ?h = "apply_headers_to_response 8192 (Some ctx) code (https_head code (get_mime_type q') (length c))"
  obtain cache' where c: "handle_https_request env cfg st ip (Some data) =
      with_cache cache' (handle_https_request env cfg (st\<lparr>s_cache := None\<rparr>) ip (Some data))"
    using handle_https_cache [OF st(1) env(2), of cfg st ip "Some data"] by auto
  have u: "uri ?e = Some p"
    by (auto simp: log_server_def request_entry_def Let_def split: option.split list.split)
  have packed: "compress_file env (cf_compress cfg) a x y z = None" for a x y z
    using st(2) by (simp add: compress_file_def)
  have code: "code \<in> {200, 404}" using fl(2) by simp
  have path: "(if is_regular (h_files env q) then q else snprintf 4096 (document_root srv (r_location rt) @ ''/404.html'')) = q'"
    using fl(2,3) by simp
  have len: "length c < 2 ^ 64" using fl(5) by simp
  have put: "put (h_net env) d w = w @ d" for d w using env(1) by (simp add: put_def)
  have "handle_https_request env cfg (st\<lparr>s_cache := None\<rparr>) ip (Some data) =
      Inr (\<lparr>written = ?h @ c, logged = [respond code (int (length ?h) + int (length c)) (h_elapsed env) ?e], closes = 1\<rparr>,
        st\<lparr>s_cache := None\<rparr>)"
    unfolding handle_https_file [OF req] https_file_def Let_def fl(1) [symmetric] fl(2) [symmetric] path fl(4) packed
    using ctx response_head_plain [OF code len, of q'] send_blocks_all [OF env(1)] put store_nothing [OF env(2)]
    by simp
  with c u show ?thesis by (auto simp: with_cache_def respond_def)
qed

definition secret_page :: "string \<Rightarrow> node option" where
  "secret_page q = (if q = ''./www/../key.html'' then Some (RegularFile True ''x'') else None)"

definition step_up_request :: string where
  "step_up_request = ''GET /../key.html HTTP/1.1'' @ crlf @ crlf"

theorem https_file_response_witness:
  "\<exists>w e st'. handle_https_request (sample_https secret_page) sample_https_config
      sample_https_state ''10.0.0.1'' (Some step_up_request) =
    Inr (\<lparr>written = w @ ''x'', logged = [e], closes = 1\<rparr>, st') \<and> access_log_entry.status_code e = 200"
proof -
  let ?s = step_up_request
  have tx: "request_text ?s = ?s" by (simp add: request_text_def step_up_request_def crlf_def)
  have parts: "request_parts ?s = (Some ''GET'', Some ''/../key.html'', Some ''HTTP/1.1'')"
    by (simp add: request_parts_def strtok_step_def step_up_request_def crlf_def)
  obtain b where "listens_on 8443 [\<lparr>d_key = Some ''listen'', d_value = Some ''80''\<rparr>] = Inr b" by simp
  then obtain rt where rt: "find_route (Some sample_http) (get_host ?s) (Some ''/../key.html'') 8443 = Inr rt"
    by (cases "get_host ?s") (auto simp: find_route_def sample_http_def Let_def)
  then obtain srv where srv: "r_server rt = Some srv" using server_exists by (fastforce simp: sample_http_def)
  note m = find_route_members [OF rt srv]
  have root: "document_root srv (r_location rt) = ''./www''"
    "Option.bind (r_location rt) (\<lambda>l. get_directive_value ''proxy_pass'' (l_directives l)) = None"
    using m by (auto simp: sample_http_def document_root_def get_directive_value_def)
  have "\<exists>ctx. create_header_context (case r_location rt of Some l \<Rightarrow> l_directives l | None \<Rightarrow> s_directives srv) = Inr ctx"
    using m by (auto simp: sample_http_def create_header_context_def header_operation_of_def)
  then obtain ctx where ctx: "create_header_context (case r_location rt of Some l \<Rightarrow> l_directives l | None \<Rightarrow> s_directives srv) = Inr ctx" by blast
  have q: "static_path 4096 ''/index.html'' secret_page srv (r_location rt) ''/../key.html'' = ''./www/../key.html''"
    by (simp add: static_path_def root snprintf_def)
  show ?thesis
    using https_file_response [of ?s "''GET''" "''/../key.html''" "Some ''HTTP/1.1''" sample_https_config rt srv "sample_https secret_page"
        sample_https_state "''./www/../key.html''" 200 "''./www/../key.html''" "''x''" ctx "''10.0.0.1''"]
      tx parts rt srv root ctx q new_cache_empty
    by (auto simp: sample_https_state_def sample_https_def sample_https_config_def secret_page_def is_regular_def step_up_request_def)
qed

text \<open>The host of a request is looked for anywhere in its text: it is what stands, up to the end of
the line, behind the first place that reads like the label in any case, be it the end of the name
of another field, the path or a line of the body.\<close>

theorem https_host_lookup:
  "get_host s = Some v \<longleftrightarrow>
    (\<exists>u l rest. s = u @ l @ v @ crlf @ rest \<and> same_ci l ''Host: '' \<and> strstr v crlf = None \<and>
       (\<forall>k<length u. \<not> same_ci (take 6 (drop k s)) ''Host: ''))"
proof -
  have split: "strcasestr s ''Host: '' = Some t \<longleftrightarrow> (\<exists>u. s = u @ t \<and> same_ci (take 6 t) ''Host: '' \<and>
      (\<forall>k<length u. \<not> same_ci (take 6 (drop k s)) ''Host: ''))" for t
  proof -
    have "length ''Host: '' = 6" "''Host: '' \<noteq> []" by simp_all
    then show ?thesis using strcasestr_split [of "''Host: ''" s t] by (simp only: not_False_eq_True True_implies_equals)
  qed
  have host: "get_host s = (case strcasestr s ''Host: '' of None \<Rightarrow> None
      | Some t \<Rightarrow> (case strstr (drop 6 t) crlf of None \<Rightarrow> None | Some e \<Rightarrow> Some (before (drop 6 t) e)))"
  proof -
    have "length ''Host: '' = 6" by simp
    then show ?thesis unfolding get_host_def value_after_def Let_def by (simp only:)
  qed
  have six: "length l = 6" if "same_ci l ''Host: ''" for l
    using that map_eq_imp_length_eq [of tolower l tolower "''Host: ''"] by (simp add: same_ci_def)
  show ?thesis
  proof
    assume "get_host s = Some v"
    then obtain t e where t: "strcasestr s ''Host: '' = Some t" "strstr (drop 6 t) crlf = Some e" "v = before (drop 6 t) e"
      by (auto simp: host split: option.splits)
    then obtain u where u: "s = u @ t" "same_ci (take 6 t) ''Host: ''"
      "\<forall>k<length u. \<not> same_ci (take 6 (drop k s)) ''Host: ''" using split by blast
    from t(2) obtain x rest where x: "drop 6 t = x @ e" "e = crlf @ rest" "strstr x crlf = None" by (auto simp: strstr_crlf)
    with t(3) have "v = x" by (simp add: before_def)
    then have "s = u @ take 6 t @ v @ crlf @ rest" using u(1) x by (metis append_take_drop_id)
    with u x \<open>v = x\<close> show "\<exists>u l rest. s = u @ l @ v @ crlf @ rest \<and> same_ci l ''Host: '' \<and> strstr v crlf = None \<and>
       (\<forall>k<length u. \<not> same_ci (take 6 (drop k s)) ''Host: '')" by blast
  next
    assume "\<exists>u l rest. s = u @ l @ v @ crlf @ rest \<and> same_ci l ''Host: '' \<and> strstr v crlf = None \<and>
       (\<forall>k<length u. \<not> same_ci (take 6 (drop k s)) ''Host: '')"
    then obtain u l rest where s: "s = u @ l @ v @ crlf @ rest" "same_ci l ''Host: ''" "strstr v crlf = None"
      "\<forall>k<length u. \<not> same_ci (take 6 (drop k s)) ''Host: ''" by blast
    then have "strcasestr s ''Host: '' = Some (l @ v @ crlf @ rest)"
      using split [of "l @ v @ crlf @ rest"] six [OF s(2)] by (intro iffD2 [OF split] exI [of _ u]) simp
    moreover have "strstr (v @ crlf @ rest) crlf = Some (crlf @ rest)" using s(3) by (auto simp: strstr_crlf)
    ultimately show "get_host s = Some v" using six [OF s(2)] by (simp add: host before_def)
  qed
qed

definition forwarded_request :: string where
  "forwarded_request = ''X-Forwarded-Host: b'' @ crlf @ ''Host: a'' @ crlf"

theorem https_host_lookup_witness: "get_host forwarded_request = Some ''b''"
proof -
  have "\<not> same_ci (take 6 (drop k forwarded_request)) ''Host: ''" if "k < length ''X-Forwarded-''" for k
    using that by (auto simp: forwarded_request_def same_ci_def crlf_def tolower_def less_Suc_eq)
  then show ?thesis
    unfolding https_host_lookup
    by (intro exI [of _ "''X-Forwarded-''"] exI [of _ "''Host: ''"] exI [of _ "''Host: a'' @ crlf"])
      (simp add: forwarded_request_def same_ci_def starts_crlf)
qed

text \<open>The requests that are not answered with a file: a text without method and path is logged as
400 and the connection closed without a word; without servers the answer is a 500 without a
length; and when the only backend of a location refuses, a 502 is sent and logged that
announces fifteen bytes of content but has eleven.\<close>

theorem https_error_outcomes:
  assumes "data \<noteq> []" "request_parts (request_text data) = (m, p, v)"
  shows "(m = None \<or> p = None \<longrightarrow> (\<exists>e. handle_https_request env cfg st ip (Some data) =
        Inr (\<lparr>written = [], logged = [e], closes = 1\<rparr>, st) \<and> access_log_entry.status_code e = 400)) \<and>
    (m \<noteq> None \<and> p \<noteq> None \<and> cf_http cfg = None \<longrightarrow> (\<exists>e. handle_https_request env cfg st ip (Some data) =
        Inr (\<lparr>written = put (h_net env) no_server_response [], logged = [e], closes = 1\<rparr>, st) \<and>
          access_log_entry.status_code e = 500)) \<and>
    (\<forall>rt srv loc u. m \<noteq> None \<and> p \<noteq> None \<and>
        find_route (cf_http cfg) (get_host (request_text data)) p 8443 = Inr rt \<and> r_server rt = Some srv \<and>
        r_location rt = Some loc \<and> get_directive_value ''proxy_pass'' (l_directives loc) = Some u \<and>
        \<not> is_upstream_proxy (Some u) \<and> (\<forall>h n. dial (h_backend env) h n = None) \<longrightarrow>
      (\<exists>e. handle_https_request env cfg st ip (Some data) =
          Inr (\<lparr>written = put (h_net env) bad_gateway_response [], logged = [e], closes = 1\<rparr>, st) \<and>
        access_log_entry.status_code e = 502)) \<and>
    value_after ''Content-Length: '' bad_gateway_response = Some ''15'' \<and>
    strstr bad_gateway_response blank_line = Some (blank_line @ ''Bad Gateway'')"
proof -
  have l: "value_after ''Content-Length: '' bad_gateway_response = Some ''15''"
    by (simp add: value_after_def bad_gateway_response_def crlf_def tolower_def starts_with_def before_def Let_def)
  have b: "strstr bad_gateway_response blank_line = Some (blank_line @ ''Bad Gateway'')"
    by (simp add: bad_gateway_response_def blank_line_def crlf_def starts_with_def)
  have parse: "\<exists>x. parse_proxy_url (Some u) = Some x" for u by (simp add: parse_proxy_url_def Let_def case_prod_unfold)
  have refuse: "handle_https_proxy_request (h_backend env) net m p v hs (Some u) w = Inr (-1, w)"
    if "\<forall>h n. dial (h_backend env) h n = None" for net m p v hs u w
    using parse [of u] that by (auto simp: handle_https_proxy_request_def connect_to_backend_def)
  show ?thesis
    using assms l b refuse
    by (auto simp: handle_https_request_def request_text_def Let_def respond_def find_route_def https_proxy_def split: option.split)
qed

theorem https_error_outcomes_witness:
  "\<exists>e. handle_https_request (sample_https missing_page) sample_https_config sample_https_state ''10.0.0.1'' (Some ''GET'') =
      Inr (\<lparr>written = [], logged = [e], closes = 1\<rparr>, sample_https_state) \<and> access_log_entry.status_code e = 400"
proof -
  have "request_parts (request_text ''GET'') = (Some ''GET'', None, None)"
    by (simp add: request_parts_def strtok_step_def request_text_def)
  from https_error_outcomes [OF _ this, of "sample_https missing_page" sample_https_config sample_https_state "''10.0.0.1''"] show ?thesis by simp
qed

end
