(* ===== verification/Sockets.thy ===== *)
theory Sockets
  imports Prelude
begin

text \<open>
  What the servers ask of the kernel when they open a listening socket: the results of the
  calls for one attempt are a parameter (\<open>sock_env\<close>); inet_pton is the C library's, as glibc has
  it. \<open>sock_calls\<close> is the account a routine gives of the descriptors it opened and closed, and
  \<open>balance\<close> what is open behind it.
\<close>

record sock_env =
  y_socket :: int
  y_bind :: "string \<Rightarrow> u16 \<Rightarrow> bool"
  y_listen :: bool
  y_thread :: bool

text \<open>Digits go into the current octet, of at most three digits and no leading zero.\<close>

fun inet_pton4 :: "string \<Rightarrow> nat \<Rightarrow> bool \<Rightarrow> nat \<Rightarrow> bool" where
  "inet_pton4 [] octet saw_digit octets = (octets \<ge> 4)"
| "inet_pton4 (c # s) octet saw_digit octets =
     (if isdigit c
      then let new = octet * 10 + nat (digit_val c) in
        if (saw_digit \<and> octet = 0) \<or> new > 255 then False
        else if \<not> saw_digit then octets + 1 \<le> 4 \<and> inet_pton4 s new True (octets + 1)
        else inet_pton4 s new True octets
      else if c = CHR ''.'' \<and> saw_digit then octets \<noteq> 4 \<and> inet_pton4 s 0 False octets
      else False)"

definition inet_pton :: "string \<Rightarrow> bool" where
  "inet_pton s = inet_pton4 s 0 False 0"

lemma inet_pton_any [simp]: "inet_pton ''0.0.0.0''" "inet_pton ''127.0.0.1''" "\<not> inet_pton ''*''" "\<not> inet_pton ''localhost''"
  by code_simp+

section \<open>Descriptors\<close>

datatype sock_call = Opened int | Closed int

fun balance :: "sock_call list \<Rightarrow> int set \<Rightarrow> int set option" where
  "balance [] fds = Some fds"
| "balance (Opened d # cs) fds = (if d \<in> fds then None else balance cs (insert d fds))"
| "balance (Closed d # cs) fds = (if d \<in> fds then balance cs (fds - {d}) else None)"

text \<open>\<open>None\<close>: the kernel handed out a descriptor in use, or one that is not open was closed.\<close>

lemma balance_append [simp]: "balance (cs @ ds) fds = Option.bind (balance cs fds) (balance ds)"
  by (induction cs fds rule: balance.induct) auto

end
