(* ===== verification/Push.thy ===== *)
theory Push
  imports Http Sockets
begin

text \<open>
  The push service (src/stream/push.c, push.h): configuration, clients, channels, messages, the
  serialisation of a message as a server-sent event, the handling of a request for an event
  stream, and the start and stop of its server socket. The chains of clients, channels and
  messages are lists, the first element first. The static counters of the id generators are a
  state of their own (\<open>push_counters\<close>); what is written to a client is kept with it
  (\<open>cl_wire\<close>), and the transport to it is a parameter. Memory is taken to be available and
  the locks to initialise; a log line has no effect here.
\<close>

section \<open>Data\<close>

datatype push_type_t = PUSH_TYPE_SSE | PUSH_TYPE_WEBSOCKET | PUSH_TYPE_LONG_POLLING

datatype push_state_t =
  PUSH_STATE_CONNECTING | PUSH_STATE_CONNECTED | PUSH_STATE_SUBSCRIBING | PUSH_STATE_ACTIVE |
  PUSH_STATE_ERROR | PUSH_STATE_CLOSED

datatype push_message_type_t =
  PUSH_MSG_DATA | PUSH_MSG_EVENT | PUSH_MSG_HEARTBEAT | PUSH_MSG_SYSTEM | PUSH_MSG_ERROR

record push_message =
  pm_id :: "string option"
  pm_type :: push_message_type_t
  pm_event :: "string option"
  pm_data :: "string option"
  pm_data_length :: nat
  pm_timestamp :: int
  pm_retry_interval :: int
  pm_origin :: "string option"

record push_subscription =
  su_id :: string
  su_channel :: string
  su_event_filter :: "string option"
  su_active :: bool
  su_created_time :: int
  su_last_message_time :: int
  su_message_count :: int

record push_client =
  cl_id :: string
  cl_socket_fd :: int
  cl_is_ssl :: bool
  cl_type :: push_type_t
  cl_state :: push_state_t
  cl_user_agent :: "string option"
  cl_origin :: "string option"
  cl_ip :: string
  cl_connect_time :: int
  cl_last_activity :: int
  cl_subscriptions :: "push_subscription list"
  cl_subscription_count :: int
  cl_message_queue :: "push_message list"
  cl_queue_size :: int
  cl_max_queue_size :: int
  cl_heartbeat_interval :: int
  cl_timeout :: int
  cl_auto_reconnect :: bool
  cl_messages_sent :: u64
  cl_bytes_sent :: u64
  cl_last_message_time :: int
  cl_active :: bool
  cl_wire :: string

record push_channel =
  ch_name :: string
  ch_description :: "string option"
  ch_active :: bool
  ch_subscribers :: "push_client option list"
  ch_subscriber_count :: int
  ch_max_subscribers :: int
  ch_message_history :: "push_message list"
  ch_history_size :: int
  ch_max_history_size :: int
  ch_total_messages :: u64
  ch_total_subscribers :: u64
  ch_created_time :: int
  ch_last_message_time :: int

record push_config =
  pc_enabled :: bool
  pc_port :: int
  pc_bind_address :: string
  pc_max_clients :: int
  pc_client_timeout :: int
  pc_heartbeat_interval :: int
  pc_max_queue_size :: int
  pc_max_channels :: int
  pc_max_subscribers_per_channel :: int
  pc_message_history_size :: int
  pc_require_origin_check :: bool
  pc_allowed_origins :: "string list"
  pc_worker_threads :: int
  pc_buffer_size :: u64
  pc_enable_compression :: bool
  pc_access_log :: string
  pc_error_log :: string
  pc_enable_stats :: bool

record push_manager =
  pg_config :: push_config
  pg_clients :: "push_client list"
  pg_client_count :: int
  pg_channels :: "push_channel list"
  pg_channel_count :: int
  pg_server_socket :: int
  pg_running :: bool
  pg_total_connections :: u64
  pg_total_messages :: u64
  pg_total_bytes_sent :: u64
  pg_start_time :: int

record push_stats =
  ps_active_clients :: u64
  ps_total_connections :: u64
  ps_total_messages :: u64
  ps_total_channels :: u64
  ps_messages_per_second :: u64
  ps_avg_response_time :: rat
  ps_last_updated :: int

record push_counters =
  client_counter :: int
  msg_counter :: int
  sub_counter :: int

section \<open>Configuration, manager and channels\<close>

definition push_config_create :: push_config where
  "push_config_create =
     \<lparr>pc_enabled = False, pc_port = 8080, pc_bind_address = ''0.0.0.0'', pc_max_clients = 1000,
      pc_client_timeout = 300, pc_heartbeat_interval = 30, pc_max_queue_size = 100, pc_max_channels = 100,
      pc_max_subscribers_per_channel = 1000, pc_message_history_size = 50, pc_require_origin_check = False,
      pc_allowed_origins = [], pc_worker_threads = 4, pc_buffer_size = 8192, pc_enable_compression = False,
      pc_access_log = ''push_access.log'', pc_error_log = ''push_error.log'', pc_enable_stats = True\<rparr>"

definition push_manager_create :: "int \<Rightarrow> push_config option \<Rightarrow> push_manager option" where
  "push_manager_create now config =
     map_option (\<lambda>c. \<lparr>pg_config = c, pg_clients = [], pg_client_count = 0, pg_channels = [], pg_channel_count = 0,
        pg_server_socket = -1, pg_running = False, pg_total_connections = 0, pg_total_messages = 0,
        pg_total_bytes_sent = 0, pg_start_time = now\<rparr>) config"

definition push_channel_create :: "int \<Rightarrow> string option \<Rightarrow> string option \<Rightarrow> push_channel option" where
  "push_channel_create now name description =
     map_option (\<lambda>n. \<lparr>ch_name = n, ch_description = description, ch_active = True,
        ch_subscribers = replicate 1000 None, ch_subscriber_count = 0, ch_max_subscribers = 1000,
        ch_message_history = [], ch_history_size = 0, ch_max_history_size = 50, ch_total_messages = 0,
        ch_total_subscribers = 0, ch_created_time = now, ch_last_message_time = 0\<rparr>) name"

text \<open>The static counters are ints; the sum wraps around.\<close>

definition push_subscription_create ::
  "int \<Rightarrow> push_counters \<Rightarrow> string option \<Rightarrow> string option \<Rightarrow> push_subscription option \<times> push_counters" where
  "push_subscription_create now cs channel event_filter =
     (case channel of
        None \<Rightarrow> (None, cs)
      | Some c \<Rightarrow>
          let k = to_int32 (sub_counter cs + 1) in
          (Some \<lparr>su_id = snprintf 32 (''sub_'' @ print_int now @ ''_'' @ print_int k), su_channel = c,
                 su_event_filter = event_filter, su_active = True, su_created_time = now,
                 su_last_message_time = 0, su_message_count = 0\<rparr>, cs\<lparr>sub_counter := k\<rparr>))"

section \<open>Ids\<close>

definition push_generate_client_id :: "int \<times> int \<Rightarrow> push_counters \<Rightarrow> string \<Rightarrow> string \<times> push_counters" where
  "push_generate_client_id tv cs ip =
     (let (sec, usec) = tv; k = to_int32 (client_counter cs + 1) in
      (snprintf 64 (''client_'' @ ip @ ''_'' @ print_int sec @ ''_'' @ print_int usec @ ''_'' @ print_int k),
       cs\<lparr>client_counter := k\<rparr>))"

definition push_generate_message_id :: "int \<Rightarrow> push_counters \<Rightarrow> string \<times> push_counters" where
  "push_generate_message_id now cs =
     (let k = to_int32 (msg_counter cs + 1) in
      (snprintf 64 (''msg_'' @ print_int now @ ''_'' @ print_int k), cs\<lparr>msg_counter := k\<rparr>))"

section \<open>Clients and messages\<close>

definition push_client_create ::
  "int \<times> int \<Rightarrow> push_counters \<Rightarrow> int \<Rightarrow> bool \<Rightarrow> string option \<Rightarrow> push_client option \<times> push_counters" where
  "push_client_create tv cs fd ssl ip =
     (case ip of
        None \<Rightarrow> (None, cs)
      | Some ip \<Rightarrow>
          if fd < 0 then (None, cs)
          else let (i, cs) = push_generate_client_id tv cs ip in
            (Some \<lparr>cl_id = i, cl_socket_fd = fd, cl_is_ssl = ssl, cl_type = PUSH_TYPE_SSE,
                   cl_state = PUSH_STATE_CONNECTING, cl_user_agent = None, cl_origin = None, cl_ip = ip,
                   cl_connect_time = fst tv, cl_last_activity = fst tv, cl_subscriptions = [],
                   cl_subscription_count = 0, cl_message_queue = [], cl_queue_size = 0, cl_max_queue_size = 100,
                   cl_heartbeat_interval = 30, cl_timeout = 300, cl_auto_reconnect = True, cl_messages_sent = 0,
                   cl_bytes_sent = 0, cl_last_message_time = 0, cl_active = True, cl_wire = []\<rparr>, cs))"

definition push_message_create ::
  "int \<Rightarrow> push_counters \<Rightarrow> string option \<Rightarrow> string option \<Rightarrow> string option \<Rightarrow> push_message \<times> push_counters" where
  "push_message_create now cs event data i =
     (let (i, cs) = (case i of Some s \<Rightarrow> (s, cs) | None \<Rightarrow> push_generate_message_id now cs) in
      (\<lparr>pm_id = Some i, pm_type = PUSH_MSG_DATA, pm_event = event, pm_data = data,
        pm_data_length = (case data of None \<Rightarrow> 0 | Some d \<Rightarrow> length d), pm_timestamp = now,
        pm_retry_interval = 3000, pm_origin = None\<rparr>, cs))"

definition push_message_create_heartbeat :: "int \<Rightarrow> push_counters \<Rightarrow> push_message \<times> push_counters" where
  "push_message_create_heartbeat now cs =
     (let (m, cs) = push_message_create now cs (Some ''heartbeat'') (Some ''ping'') None in
      (m\<lparr>pm_type := PUSH_MSG_HEARTBEAT\<rparr>, cs))"

section \<open>Serialisation\<close>

definition newline :: string where
  "newline = [CHR 0x0A]"

text \<open>The loop over the lines of the data: it stops 20 bytes before the end of the buffer.\<close>

fun sse_data_lines :: "nat \<Rightarrow> string list \<Rightarrow> string \<times> nat \<Rightarrow> (string \<times> nat) run" where
  "sse_data_lines n [] b = Inr b"
| "sse_data_lines n (l # ls) b =
     (if snd b < n - 20 then bindR (snprintf_at n (''data: '' @ l @ newline) b) (sse_data_lines n ls) else Inr b)"

definition sse_fields :: "push_message \<Rightarrow> string list" where
  "sse_fields m =
     (case pm_id m of None \<Rightarrow> [] | Some i \<Rightarrow> [''id: '' @ i @ newline]) @
     (case pm_event m of None \<Rightarrow> [] | Some e \<Rightarrow> [''event: '' @ e @ newline]) @
     (if pm_retry_interval m > 0 then [''retry: '' @ print_int (pm_retry_interval m) @ newline] else [])"

definition push_message_serialize_sse :: "push_message \<Rightarrow> string run" where
  "push_message_serialize_sse m =
     (let n = 1024 + (if pm_data_length m > 0 then pm_data_length m * 2 else 0) in
      bindR (snprintf_all n (sse_fields m) ([], 0)) (\<lambda>b.
      bindR (case pm_data m of None \<Rightarrow> Inr b | Some d \<Rightarrow> sse_data_lines n (strtok_all {CHR 0x0A} d) b) (\<lambda>b.
      bindR (snprintf_at n newline b) (\<lambda>(s, len). Inr s))))"

section \<open>Sending\<close>

definition SSE_HEADERS :: string where
  "SSE_HEADERS = ''HTTP/1.1 200 OK'' @ crlf @ ''Content-Type: text/event-stream'' @ crlf @
     ''Cache-Control: no-cache'' @ crlf @ ''Connection: keep-alive'' @ crlf @
     ''Access-Control-Allow-Origin: *'' @ crlf @ ''Access-Control-Allow-Headers: Cache-Control'' @ crlf @ crlf"

definition push_send_sse_headers :: "transport \<Rightarrow> push_client \<Rightarrow> int \<times> push_client" where
  "push_send_sse_headers net c =
     (if cl_socket_fd c < 0 then (-1, c)
      else if net (cl_wire c) SSE_HEADERS < 0 then (-1, c)
      else (0, c\<lparr>cl_state := PUSH_STATE_CONNECTED, cl_wire := put net SSE_HEADERS (cl_wire c)\<rparr>))"

definition push_send_sse_message :: "transport \<Rightarrow> int \<Rightarrow> push_client \<Rightarrow> push_message \<Rightarrow> (int \<times> push_client) run" where
  "push_send_sse_message net now c m =
     (if cl_socket_fd c < 0 then Inr (-1, c)
      else bindR (push_message_serialize_sse m) (\<lambda>s.
        let sent = net (cl_wire c) s in
        if sent < 0 then Inr (-1, c)
        else Inr (0, c\<lparr>cl_messages_sent := cl_messages_sent c + 1, cl_bytes_sent := cl_bytes_sent c + word_of_int sent,
                       cl_last_message_time := now, cl_last_activity := now, cl_wire := put net s (cl_wire c)\<rparr>)))"

section \<open>A request for an event stream\<close>

definition header_text :: "string \<Rightarrow> string \<Rightarrow> string option" where
  "header_text label headers =
     (case strstr headers label of
        None \<Rightarrow> None
      | Some t \<Rightarrow>
          let v = drop (length label) t in
          (case strstr v crlf of None \<Rightarrow> None | Some e \<Rightarrow> Some (before v e)))"

definition push_client_headers :: "string option \<Rightarrow> push_client \<Rightarrow> push_client" where
  "push_client_headers headers c =
     (case headers of
        None \<Rightarrow> c
      | Some h \<Rightarrow>
          let c = (case header_text ''User-Agent:'' h of None \<Rightarrow> c | Some v \<Rightarrow> c\<lparr>cl_user_agent := Some v\<rparr>)
          in (case header_text ''Origin:'' h of None \<Rightarrow> c | Some v \<Rightarrow> c\<lparr>cl_origin := Some v\<rparr>))"

definition unavailable_response :: string where
  "unavailable_response = ''HTTP/1.1 503 Service Unavailable'' @ crlf @ ''Content-Type: text/plain'' @ crlf @
     ''Content-Length: 21'' @ crlf @ crlf @ ''Service Unavailable'' @ newline"

text \<open>The descriptors a client releases.\<close>

definition push_client_free :: "push_client \<Rightarrow> sock_call list" where
  "push_client_free c = (if cl_socket_fd c \<ge> 0 then [Closed (cl_socket_fd c)] else [])"

record sse_request =
  rq_net :: transport
  rq_time :: "int \<times> int"
  rq_socket :: int
  rq_ssl :: bool
  rq_text :: "string option"
  rq_client_ip :: "string option"

text \<open>
  The limit is checked in one critical section (\<open>sse_full\<close>) and the client is linked in
  another (\<open>sse_join\<close>); in between the lock is free. The result: what the function returns, what
  was written to a client that is not kept, and the descriptors it closed.
\<close>

definition sse_full :: "push_manager \<Rightarrow> bool" where
  "sse_full m \<longleftrightarrow> pg_client_count m \<ge> pc_max_clients (pg_config m)"

definition sse_join ::
  "sse_request \<Rightarrow> push_manager \<times> push_counters \<Rightarrow>
   ((int \<times> string \<times> sock_call list) \<times> push_manager \<times> push_counters) run" where
  "sse_join rq st =
     (let (m, cs) = st in
      case push_client_create (rq_time rq) cs (rq_socket rq) (rq_ssl rq) (rq_client_ip rq) of
        (None, cs) \<Rightarrow> Inr ((-1, [], []), m, cs)
      | (Some c, cs) \<Rightarrow>
          let c = push_client_headers (rq_text rq) c in
          case push_send_sse_headers (rq_net rq) c of
            (r, c) \<Rightarrow>
              if r < 0 then Inr ((-1, cl_wire c, push_client_free c), m, cs)
              else
                let m = m\<lparr>pg_clients := c # pg_clients m, pg_client_count := to_int32 (pg_client_count m + 1),
                          pg_total_connections := pg_total_connections m + 1\<rparr>;
                    (welcome, cs) = push_message_create (fst (rq_time rq)) cs (Some ''connected'')
                      (Some ''Welcome to ANX Push Service'') None
                in bindR (push_send_sse_message (rq_net rq) (fst (rq_time rq)) c welcome) (\<lambda>(_, c).
                     Inr ((0, [], []), m\<lparr>pg_clients := c # tl (pg_clients m)\<rparr>, cs)))"

definition push_handle_sse_request ::
  "sse_request \<Rightarrow> push_manager \<times> push_counters \<Rightarrow>
   ((int \<times> string \<times> sock_call list) \<times> push_manager \<times> push_counters) run" where
  "push_handle_sse_request rq st =
     (if rq_socket rq < 0 \<or> rq_client_ip rq = None then Inr ((-1, [], []), st)
      else if sse_full (fst st) then Inr ((-1, put (rq_net rq) unavailable_response [], []), st)
      else sse_join rq st)"

section \<open>Types and states as text\<close>

fun push_type_to_string :: "push_type_t \<Rightarrow> string" where
  "push_type_to_string PUSH_TYPE_SSE = ''SSE''"
| "push_type_to_string PUSH_TYPE_WEBSOCKET = ''WebSocket''"
| "push_type_to_string PUSH_TYPE_LONG_POLLING = ''Long Polling''"

definition push_type_from_string :: "string option \<Rightarrow> push_type_t" where
  "push_type_from_string type_str =
     (case type_str of
        None \<Rightarrow> PUSH_TYPE_SSE
      | Some t \<Rightarrow>
          if strcasecmp_eq t ''sse'' \<or> strcasecmp_eq t ''server-sent-events'' then PUSH_TYPE_SSE
          else if strcasecmp_eq t ''websocket'' \<or> strcasecmp_eq t ''ws'' then PUSH_TYPE_WEBSOCKET
          else if strcasecmp_eq t ''long-polling'' \<or> strcasecmp_eq t ''polling'' then PUSH_TYPE_LONG_POLLING
          else PUSH_TYPE_SSE)"

fun push_state_to_string :: "push_state_t \<Rightarrow> string" where
  "push_state_to_string PUSH_STATE_CONNECTING = ''Connecting''"
| "push_state_to_string PUSH_STATE_CONNECTED = ''Connected''"
| "push_state_to_string PUSH_STATE_SUBSCRIBING = ''Subscribing''"
| "push_state_to_string PUSH_STATE_ACTIVE = ''Active''"
| "push_state_to_string PUSH_STATE_ERROR = ''Error''"
| "push_state_to_string PUSH_STATE_CLOSED = ''Closed''"

section \<open>Start, stop and release\<close>

definition push_manager_start :: "sock_env \<Rightarrow> push_manager \<Rightarrow> int \<times> sock_call list \<times> push_manager" where
  "push_manager_start env m =
     (if pg_running m then (-1, [], m)
      else if \<not> pc_enabled (pg_config m) then (0, [], m)
      else
        let fd = y_socket env; m = m\<lparr>pg_server_socket := fd\<rparr> in
        if fd < 0 then (-1, [], m)
        else if \<not> inet_pton (pc_bind_address (pg_config m)) then (-1, [Opened fd, Closed fd], m)
        else if \<not> y_bind env (pc_bind_address (pg_config m)) (word_of_int (pc_port (pg_config m)))
          then (-1, [Opened fd, Closed fd], m)
        else if \<not> y_listen env then (-1, [Opened fd, Closed fd], m)
        else (0, [Opened fd], m\<lparr>pg_running := True\<rparr>))"

definition push_manager_stop :: "push_manager \<Rightarrow> int \<times> sock_call list \<times> push_manager" where
  "push_manager_stop m =
     (if \<not> pg_running m then (-1, [], m)
      else if pg_server_socket m \<ge> 0
        then (0, [Closed (pg_server_socket m)], m\<lparr>pg_running := False, pg_server_socket := -1\<rparr>)
      else (0, [], m\<lparr>pg_running := False\<rparr>))"

definition push_manager_free :: "push_manager \<Rightarrow> sock_call list" where
  "push_manager_free m =
     (let (_, cs, m) = (if pg_running m then push_manager_stop m else (0, [], m)) in
      cs @ concat (List.map push_client_free (pg_clients m)))"

definition push_get_stats :: "int \<Rightarrow> push_manager \<Rightarrow> push_stats" where
  "push_get_stats now m =
     \<lparr>ps_active_clients = word_of_int (pg_client_count m), ps_total_connections = pg_total_connections m,
      ps_total_messages = pg_total_messages m, ps_total_channels = word_of_int (pg_channel_count m),
      ps_messages_per_second = 0, ps_avg_response_time = 0, ps_last_updated = now\<rparr>"

section \<open>The text of an event\<close>

definition data_line :: "string \<Rightarrow> string" where
  "data_line l = ''data: '' @ l @ newline"

definition sse_lines :: "push_message \<Rightarrow> string list" where
  "sse_lines m = (case pm_data m of None \<Rightarrow> [] | Some d \<Rightarrow> strtok_all {CHR 0x0A} d)"

definition sse_room :: "push_message \<Rightarrow> nat" where
  "sse_room m = 1024 + 2 * pm_data_length m"

lemma length_data_line [simp]: "length (data_line l) = length l + 7"
  by (simp add: data_line_def newline_def)

lemma serialize_eq:
  "push_message_serialize_sse m =
    bindR (snprintf_all (sse_room m) (sse_fields m) ([], 0)) (\<lambda>b.
    bindR (sse_data_lines (sse_room m) (sse_lines m) b) (\<lambda>b.
    bindR (snprintf_at (sse_room m) newline b) (\<lambda>(s, len). Inr s)))"
proof -
  have "1024 + (if pm_data_length m > 0 then pm_data_length m * 2 else 0) = sse_room m"
    by (simp add: sse_room_def)
  moreover have "(case pm_data m of None \<Rightarrow> Inr b | Some d \<Rightarrow> sse_data_lines n (strtok_all {CHR 0x0A} d) b) =
      sse_data_lines n (sse_lines m) b" for n b
    by (cases "pm_data m") (simp_all add: sse_lines_def)
  ultimately show ?thesis unfolding push_message_serialize_sse_def Let_def by (simp only:)
qed

lemma data_lines_fit:
  "length buf + length (concat (List.map data_line ls)) + 13 \<le> n \<Longrightarrow> [] \<notin> set ls \<Longrightarrow>
   sse_data_lines n ls (buf, length buf) =
     Inr (buf @ concat (List.map data_line ls), length (buf @ concat (List.map data_line ls)))"
proof (induction ls arbitrary: buf)
  case (Cons l ls)
  from Cons.prems have "0 < length l" by auto
  moreover have "length buf + (length l + 7) + 13 \<le> n" using Cons.prems(1) by simp
  ultimately have "length buf < n - 20" and f: "length buf + length (data_line l) < n"
    unfolding length_data_line by linarith+
  moreover have "snprintf_at n (''data: '' @ l @ newline) (buf, length buf) = Inr (buf @ data_line l, length (buf @ data_line l))"
    using snprintf_at_fits [OF f] by (simp only: data_line_def)
  ultimately show ?case using Cons.IH [of "buf @ data_line l"] Cons.prems by (simp add: add_ac)
qed simp

text \<open>Short lines stop the loop before a text can go behind the buffer.\<close>

lemma data_lines_short:
  "length buf < n \<Longrightarrow> \<forall>l\<in>set ls. length l \<le> 12 \<Longrightarrow>
   \<exists>j \<le> length ls. sse_data_lines n ls (buf, length buf) =
       Inr (buf @ concat (List.map data_line (take j ls)), length (buf @ concat (List.map data_line (take j ls)))) \<and>
     length (buf @ concat (List.map data_line (take j ls))) < n \<and>
     (j < length ls \<longrightarrow> n - 20 \<le> length (buf @ concat (List.map data_line (take j ls))))"
proof (induction ls arbitrary: buf)
  case (Cons l ls)
  show ?case
  proof (cases "length buf < n - 20")
    case True
    moreover have "length l \<le> 12" using Cons.prems(2) by simp
    ultimately have f: "length buf + length (data_line l) < n" unfolding length_data_line by linarith
    have s: "snprintf_at n (''data: '' @ l @ newline) (buf, length buf) = Inr (buf @ data_line l, length (buf @ data_line l))"
      using snprintf_at_fits [OF f] by (simp only: data_line_def)
    from Cons.IH [of "buf @ data_line l"] f Cons.prems obtain j where
      j: "j \<le> length ls" "sse_data_lines n ls (buf @ data_line l, length (buf @ data_line l)) =
       Inr ((buf @ data_line l) @ concat (List.map data_line (take j ls)),
            length ((buf @ data_line l) @ concat (List.map data_line (take j ls))))"
      "length ((buf @ data_line l) @ concat (List.map data_line (take j ls))) < n"
      "j < length ls \<longrightarrow> n - 20 \<le> length ((buf @ data_line l) @ concat (List.map data_line (take j ls)))"
      by auto
    with True s show ?thesis by (intro exI [of _ "Suc j"]) auto
  next
    case False
    with Cons.prems show ?thesis by (intro exI [of _ 0]) simp
  qed
qed simp

lemma sse_fields_split:
  "concat (sse_fields m) =
    (case pm_id m of None \<Rightarrow> [] | Some i \<Rightarrow> ''id: '' @ i @ newline) @
    (case pm_event m of None \<Rightarrow> [] | Some e \<Rightarrow> ''event: '' @ e @ newline) @
    (if pm_retry_interval m > 0 then ''retry: '' @ print_int (pm_retry_interval m) @ newline else [])"
  by (simp add: sse_fields_def split: option.splits)

lemma fields_fit:
  assumes "length (concat (sse_fields m)) < sse_room m"
  shows "snprintf_all (sse_room m) (sse_fields m) ([], 0) = Inr (concat (sse_fields m), length (concat (sse_fields m)))"
proof (cases "sse_fields m = []")
  case False
  then have "concat (sse_fields m) = concat (butlast (sse_fields m)) @ last (sse_fields m)"
    by (metis append_butlast_last_id concat.simps concat_append append_Nil2)
  then have "length (concat (butlast (sse_fields m))) \<le> length (concat (sse_fields m))" by simp
  then show ?thesis using snprintf_all_start [OF False, of "sse_room m"] assms by simp
qed simp

text \<open>The whole text of an event whose parts fit.\<close>

definition sse_text :: "push_message \<Rightarrow> string" where
  "sse_text m = concat (sse_fields m) @ concat (List.map data_line (sse_lines m)) @ newline"

lemma sse_lines_ne: "[] \<notin> set (sse_lines m)"
  using strtok_all_ne by (fastforce simp: sse_lines_def split: option.splits)

lemma serialize_fits:
  assumes "length (sse_text m) + 12 \<le> sse_room m"
  shows "push_message_serialize_sse m = Inr (sse_text m)"
proof -
  let ?f = "concat (sse_fields m)" and ?d = "concat (List.map data_line (sse_lines m))"
  have l: "length ?f + length ?d + 13 \<le> sse_room m" using assms by (simp add: sse_text_def newline_def)
  then have "snprintf_all (sse_room m) (sse_fields m) ([], 0) = Inr (?f, length ?f)" by (intro fields_fit) simp
  moreover have "sse_data_lines (sse_room m) (sse_lines m) (?f, length ?f) = Inr (?f @ ?d, length (?f @ ?d))"
    using data_lines_fit [OF l sse_lines_ne] .
  moreover have "snprintf_at (sse_room m) newline (?f @ ?d, length (?f @ ?d)) = Inr ((?f @ ?d) @ newline, length ((?f @ ?d) @ newline))"
    using l by (intro snprintf_at_fits) (simp add: newline_def)
  ultimately show ?thesis by (simp add: serialize_eq sse_text_def)
qed

lemma tokens_length: "length (concat (strtok_all ds s)) \<le> length s"
proof (induction ds s rule: strtok_all.induct)
  case (1 ds s)
  let ?s = "dropWhile (\<lambda>c. c \<in> ds) s"
  show ?case
  proof (cases "?s = []")
    case True
    then show ?thesis by (simp add: strtok_all.simps [of ds s])
  next
    case False
    have "strtok_all ds s = takeWhile (\<lambda>c. c \<notin> ds) ?s # strtok_all ds (dropWhile (\<lambda>c. c \<notin> ds) ?s)"
      by (subst strtok_all.simps) (simp only: Let_def False if_False)
    moreover have "length (takeWhile (\<lambda>c. c \<notin> ds) ?s) + length (dropWhile (\<lambda>c. c \<notin> ds) ?s) = length ?s"
      by (metis length_append takeWhile_dropWhile_id)
    ultimately show ?thesis using 1 [OF refl False] length_dropWhile_le [of "\<lambda>c. c \<in> ds" s] by simp
  qed
qed

lemma length_sse_text:
  "length (sse_text m) \<le> length (concat (sse_fields m)) + 7 * length (sse_lines m) +
     (case pm_data m of None \<Rightarrow> 0 | Some d \<Rightarrow> length d) + 1"
proof -
  have "length (concat (List.map data_line ls)) = length (concat ls) + 7 * length ls" for ls
    by (induction ls) simp_all
  then show ?thesis using tokens_length [of "{CHR 0x0A}"]
    by (auto simp: sse_text_def newline_def sse_lines_def split: option.splits)
qed

section \<open>A reader of event streams\<close>

text \<open>
  What a browser does with the text, as the HTML standard has it: lines end at LF, CR or both, a
  field is what stands before the first colon and its value what follows, less one space; the
  blank line dispatches the event. Data lines are joined by line feeds.
\<close>

record stream_event =
  ev_id :: string
  ev_type :: string
  ev_retry :: "string option"
  ev_data :: "string list"

fun stream_lines :: "string \<Rightarrow> string \<Rightarrow> string list" where
  "stream_lines acc [] = []"
| "stream_lines acc (c # s) =
     (if c = CHR 0x0A then rev acc # stream_lines [] s
      else if c = CHR 0x0D then
        rev acc # (case s of c' # s' \<Rightarrow> if c' = CHR 0x0A then stream_lines [] s' else stream_lines [] s | [] \<Rightarrow> [])
      else stream_lines (c # acc) s)"

definition field_parts :: "string \<Rightarrow> string \<times> string" where
  "field_parts l =
     (let v = drop 1 (dropWhile (\<lambda>c. c \<noteq> CHR '':'') l) in
      (takeWhile (\<lambda>c. c \<noteq> CHR '':'') l, (case v of c # t \<Rightarrow> if c = CHR '' '' then t else v | [] \<Rightarrow> v)))"

definition stream_field :: "string \<Rightarrow> stream_event \<Rightarrow> stream_event" where
  "stream_field l e =
     (case field_parts l of (n, v) \<Rightarrow>
        if n = ''data'' then e\<lparr>ev_data := ev_data e @ [v]\<rparr>
        else if n = ''event'' then e\<lparr>ev_type := v\<rparr>
        else if n = ''id'' then e\<lparr>ev_id := v\<rparr>
        else if n = ''retry'' then (if list_all isdigit v then e\<lparr>ev_retry := Some v\<rparr> else e)
        else e)"

fun dispatch_event :: "string list \<Rightarrow> stream_event \<Rightarrow> (stream_event \<times> string list) option" where
  "dispatch_event [] e = None"
| "dispatch_event (l # ls) e = (if l = [] then Some (e, ls) else dispatch_event ls (stream_field l e))"

definition no_event :: stream_event where
  "no_event = \<lparr>ev_id = [], ev_type = [], ev_retry = None, ev_data = []\<rparr>"

definition read_event :: "string \<Rightarrow> (stream_event \<times> string list) option" where
  "read_event s = dispatch_event (stream_lines [] s) no_event"

definition one_line :: "string \<Rightarrow> bool" where
  "one_line s \<longleftrightarrow> CHR 0x0A \<notin> set s \<and> CHR 0x0D \<notin> set s"

lemma one_line_simps [simp]:
  "one_line []" "one_line (c # s) \<longleftrightarrow> c \<noteq> CHR 0x0A \<and> c \<noteq> CHR 0x0D \<and> one_line s"
  "one_line (s @ t) \<longleftrightarrow> one_line s \<and> one_line t"
  by (auto simp: one_line_def)

lemma stream_lines_line: "one_line l \<Longrightarrow> stream_lines acc (l @ CHR 0x0A # s) = (rev acc @ l) # stream_lines [] s"
  by (induction l arbitrary: acc) auto

lemma stream_lines_all: "list_all one_line ls \<Longrightarrow> stream_lines [] (concat (List.map (\<lambda>l. l @ newline) ls)) = ls"
  by (induction ls) (simp_all add: newline_def stream_lines_line)

lemma stream_fields:
  "stream_field (''data: '' @ v) e = e\<lparr>ev_data := ev_data e @ [v]\<rparr>"
  "stream_field (''event: '' @ v) e = e\<lparr>ev_type := v\<rparr>"
  "stream_field (''id: '' @ v) e = e\<lparr>ev_id := v\<rparr>"
  "list_all isdigit v \<Longrightarrow> stream_field (''retry: '' @ v) e = e\<lparr>ev_retry := Some v\<rparr>"
  by (simp_all add: stream_field_def field_parts_def)

lemma dispatch_line: "l \<noteq> [] \<Longrightarrow> dispatch_event (l # ls) e = dispatch_event ls (stream_field l e)"
  by simp

lemma field_line_ne: "''id: '' @ v \<noteq> []" "''event: '' @ v \<noteq> []" "''retry: '' @ v \<noteq> []"
  by simp_all

lemma dispatch_data:
  "dispatch_event (List.map (\<lambda>l. ''data: '' @ l) ls @ [[]]) e = Some (e\<lparr>ev_data := ev_data e @ ls\<rparr>, [])"
proof (induction ls arbitrary: e)
  case (Cons l ls)
  have "stream_field (CHR ''d'' # CHR ''a'' # CHR ''t'' # CHR ''a'' # CHR '':'' # CHR '' '' # l) e = e\<lparr>ev_data := ev_data e @ [l]\<rparr>"
    using stream_fields(1) [of l e] by simp
  then show ?case using Cons [of "e\<lparr>ev_data := ev_data e @ [l]\<rparr>"] by simp
qed simp

lemma one_line_print_int: "0 \<le> i \<Longrightarrow> one_line (print_int i)"
  using print_int_digits [of i] by (fastforce simp: one_line_def list_all_iff isdigit_def)

lemma one_line_tokens:
  assumes "CHR 0x0D \<notin> set d"
  shows "list_all one_line (strtok_all {CHR 0x0A} d)"
proof -
  have "set (concat (strtok_all ds s)) \<subseteq> set s" for ds s
  proof (induction ds s rule: strtok_all.induct)
    case (1 ds s)
    let ?s = "dropWhile (\<lambda>c. c \<in> ds) s"
    show ?case
    proof (cases "?s = []")
      case False
      have "strtok_all ds s = takeWhile (\<lambda>c. c \<notin> ds) ?s # strtok_all ds (dropWhile (\<lambda>c. c \<notin> ds) ?s)"
        by (subst strtok_all.simps) (simp only: Let_def False if_False)
      moreover have "set (takeWhile (\<lambda>c. c \<notin> ds) ?s) \<subseteq> set ?s" by (auto dest: set_takeWhileD)
      moreover have "set (dropWhile (\<lambda>c. c \<notin> ds) ?s) \<subseteq> set ?s" by (auto dest: set_dropWhileD)
      moreover have "set ?s \<subseteq> set s" by (auto dest: set_dropWhileD)
      ultimately show ?thesis using 1 [OF refl False] unfolding \<open>strtok_all ds s = _\<close> concat.simps set_append
        by (meson Un_least subset_trans)
    qed (simp add: strtok_all.simps [of ds s])
  qed
  then have "CHR 0x0D \<notin> set t" if "t \<in> set (strtok_all {CHR 0x0A} d)" for t
    using that assms by fastforce
  moreover have "CHR 0x0A \<notin> set t" if "t \<in> set (strtok_all {CHR 0x0A} d)" for t
    using strtok_all_ne [OF that] by simp
  ultimately show ?thesis by (simp add: list_all_iff one_line_def)
qed

lemma digits_30: "digit_char 3 = CHR ''3''" "digit_char 0 = CHR ''0''"
  by code_simp+

text \<open>C29. A browser reads a message back as it was created: whatever the event name and the id of one
line and the data without carriage returns, as long as what they need beyond the data (7 bytes
for each line) leaves room in the 1024 spare bytes, the text of the message is one event with
that id, that name, a retry of 3000 and the non-empty lines of the data in order. Empty lines of
the data are lost.\<close>

theorem push_event_roundtrip:
  assumes "one_line i" and "one_line e" and "CHR 0x0D \<notin> set d"
    and "length i + length e + 7 * length (strtok_all {CHR 0x0A} d) \<le> 986 + length d"
  shows "\<exists>s. push_message_serialize_sse (fst (push_message_create t cs (Some e) (Some d) (Some i))) = Inr s \<and>
    read_event s = Some (\<lparr>ev_id = i, ev_type = e, ev_retry = Some ''3000'', ev_data = strtok_all {CHR 0x0A} d\<rparr>, [])"
proof -
  let ?m = "fst (push_message_create t cs (Some e) (Some d) (Some i))" and ?ls = "strtok_all {CHR 0x0A} d"
  let ?all = "[''id: '' @ i, ''event: '' @ e, ''retry: '' @ ''3000''] @ List.map (\<lambda>l. ''data: '' @ l) ?ls @ [[]]"
  have three: "print_int 3000 = ''3000''" by (simp add: print_int_def print_nat_step digits_30)
  have m: "sse_lines ?m = ?ls" "sse_room ?m = 1024 + 2 * length d" "pm_data ?m = Some d"
    "concat (sse_fields ?m) = (''id: '' @ i @ newline) @ (''event: '' @ e @ newline) @ ''retry: '' @ ''3000'' @ newline"
    by (simp_all add: push_message_create_def sse_lines_def sse_room_def sse_fields_split three)
  have "length (sse_text ?m) + 12 \<le> sse_room ?m"
    using length_sse_text [of ?m] assms(4) unfolding m by (simp add: newline_def)
  then have s: "push_message_serialize_sse ?m = Inr (sse_text ?m)" by (rule serialize_fits)
  have "sse_text ?m = concat (List.map (\<lambda>l. l @ newline) ?all)"
    by (simp add: sse_text_def m data_line_def [abs_def] comp_def)
  moreover have "list_all one_line ?all"
    using assms one_line_tokens [OF assms(3)] by (auto simp: list_all_iff)
  moreover have digits: "list_all isdigit ''3000''" by (simp add: isdigit_def)
  ultimately have "stream_lines [] (sse_text ?m) = ?all" using stream_lines_all by metis
  moreover have "dispatch_event ?all no_event =
      Some (\<lparr>ev_id = i, ev_type = e, ev_retry = Some ''3000'', ev_data = ?ls\<rparr>, [])"
    unfolding append.simps(2) [of "''id: '' @ i"] append.simps(2) [of "''event: '' @ e"]
      append.simps(2) [of "''retry: '' @ ''3000''"] append.simps(1) [of "List.map (\<lambda>l. ''data: '' @ l) ?ls @ [[]]"]
    by (simp only: dispatch_line not_False_eq_True field_line_ne stream_fields digits dispatch_data) (simp add: no_event_def)
  ultimately have "read_event (sse_text ?m) =
      Some (\<lparr>ev_id = i, ev_type = e, ev_retry = Some ''3000'', ev_data = ?ls\<rparr>, [])" by (simp only: read_event_def)
  with s show ?thesis by blast
qed

theorem push_event_roundtrip_witness:
  "\<exists>s. push_message_serialize_sse
        (fst (push_message_create 0 \<lparr>client_counter = 0, msg_counter = 0, sub_counter = 0\<rparr> (Some ''news'') (Some (''one'' @ newline @ ''two'')) (Some ''7''))) = Inr s \<and>
    read_event s = Some (\<lparr>ev_id = ''7'', ev_type = ''news'', ev_retry = Some ''3000'', ev_data = [''one'', ''two'']\<rparr>, [])"
proof -
  have "strtok_all {CHR 0x0A} (''one'' @ newline @ ''two'') = [''one'', ''two'']"
    using strtok_all_cons [of "''one''" "{CHR 0x0A}" "CHR 0x0A" "''two''"] strtok_all_word [of "''two''" "{CHR 0x0A}"]
    by (simp add: newline_def)
  then show ?thesis
    using push_event_roundtrip [of "''7''" "''news''" "''one'' @ newline @ ''two''" 0 "\<lparr>client_counter = 0, msg_counter = 0, sub_counter = 0\<rparr>"]
    by (simp add: newline_def)
qed

text \<open>The buffer of a message is 1024 bytes and twice its data. Id and event name are not checked
against it: when their lines are longer, the closing line feed is written behind the buffer.
Otherwise data of short lines never leaves the buffer, but the loop stops 20 bytes before its end:
the message holds the first lines of the data, all of them only if the lines up to the last one
end before that mark; the rest is lost without an error.\<close>

theorem push_event_buffer:
  "(sse_room m < length (concat (sse_fields m)) \<longrightarrow> push_message_serialize_sse m = Inl OutOfRange) \<and>
   (length (concat (sse_fields m)) < sse_room m \<and> (\<forall>l\<in>set (sse_lines m). length l \<le> 12) \<longrightarrow>
     (\<exists>j \<le> length (sse_lines m).
       let body = concat (sse_fields m) @ concat (List.map data_line (take j (sse_lines m))) in
       push_message_serialize_sse m = Inr (take (sse_room m - 1) (body @ newline)) \<and> length body < sse_room m \<and>
       (j < length (sse_lines m) \<longrightarrow> sse_room m - 20 \<le> length body)))"
proof (intro conjI impI)
  assume big: "sse_room m < length (concat (sse_fields m))"
  then have ne: "sse_fields m \<noteq> []" by auto
  have n: "0 < sse_room m" by (simp add: sse_room_def)
  have stop: "sse_data_lines (sse_room m) ls (b, l) = Inr (b, l)" if "sse_room m < l" for ls b l
    using that by (cases ls) auto
  show "push_message_serialize_sse m = Inl OutOfRange"
    using big stop by (simp add: serialize_eq snprintf_all_start [OF ne n] snprintf_at_def)
next
  let ?f = "concat (sse_fields m)"
  assume "length ?f < sse_room m \<and> (\<forall>l\<in>set (sse_lines m). length l \<le> 12)"
  then have f: "length ?f < sse_room m" and l: "\<forall>l\<in>set (sse_lines m). length l \<le> 12" by simp_all
  from data_lines_short [OF f l] obtain j where
    j: "j \<le> length (sse_lines m)" "sse_data_lines (sse_room m) (sse_lines m) (?f, length ?f) =
       Inr (?f @ concat (List.map data_line (take j (sse_lines m))), length (?f @ concat (List.map data_line (take j (sse_lines m)))))"
     "length (?f @ concat (List.map data_line (take j (sse_lines m)))) < sse_room m"
     "j < length (sse_lines m) \<longrightarrow> sse_room m - 20 \<le> length (?f @ concat (List.map data_line (take j (sse_lines m))))"
    by blast
  then have "push_message_serialize_sse m =
      Inr (take (sse_room m - 1) ((?f @ concat (List.map data_line (take j (sse_lines m)))) @ newline))"
    by (simp add: serialize_eq fields_fit [OF f] snprintf_at_def snprintf_def)
  with j show "\<exists>j \<le> length (sse_lines m).
       let body = ?f @ concat (List.map data_line (take j (sse_lines m))) in
       push_message_serialize_sse m = Inr (take (sse_room m - 1) (body @ newline)) \<and> length body < sse_room m \<and>
       (j < length (sse_lines m) \<longrightarrow> sse_room m - 20 \<le> length body)"
    by (intro exI [of _ j]) (simp add: Let_def)
qed

definition sample_message :: "string \<Rightarrow> string \<Rightarrow> push_message" where
  "sample_message i d = fst (push_message_create 0 \<lparr>client_counter = 0, msg_counter = 0, sub_counter = 0\<rparr> (Some ''news'') (Some d) (Some i))"

lemma sample_message_texts:
  "pm_id (sample_message i d) = Some i" "sse_room (sample_message i d) = 1024 + 2 * length d"
  "sse_lines (sample_message i d) = strtok_all {CHR 0x0A} d"
  "length (concat (sse_fields (sample_message i d))) = length i + 29"
proof -
  have three: "length (print_int 3000) = 4" by (simp add: print_int_def print_nat_step)
  show "pm_id (sample_message i d) = Some i" "sse_room (sample_message i d) = 1024 + 2 * length d"
    "sse_lines (sample_message i d) = strtok_all {CHR 0x0A} d"
    by (simp_all add: sample_message_def push_message_create_def sse_room_def sse_lines_def)
  show "length (concat (sse_fields (sample_message i d))) = length i + 29"
    by (simp add: sample_message_def push_message_create_def sse_fields_split three newline_def)
qed

theorem push_event_buffer_witness:
  "push_message_serialize_sse (sample_message (replicate 1100 CHR ''x'') ''hi'') = Inl OutOfRange \<and>
   (\<exists>j \<le> 1. push_message_serialize_sse (sample_message ''7'' ''hi'') =
     Inr (take 1027 ((concat (sse_fields (sample_message ''7'' ''hi'')) @ concat (List.map data_line (take j [''hi'']))) @ newline)))"
proof
  let ?b = "sample_message (replicate 1100 CHR ''x'') ''hi''" and ?s = "sample_message ''7'' ''hi''"
  show "push_message_serialize_sse ?b = Inl OutOfRange"
    using push_event_buffer [of ?b] by (simp add: sample_message_texts)
  have l: "sse_lines ?s = [''hi'']" "sse_room ?s = 1028"
    using strtok_all_word [of "''hi''" "{CHR 0x0A}"] by (simp_all add: sample_message_texts)
  have "length (concat (sse_fields ?s)) < sse_room ?s \<and> (\<forall>l\<in>set (sse_lines ?s). length l \<le> 12)"
    unfolding l by (simp add: sample_message_texts)
  from push_event_buffer [of ?s, THEN conjunct2, rule_format, OF this] obtain j where
    "j \<le> length (sse_lines ?s)" and
    "push_message_serialize_sse ?s = Inr (take (sse_room ?s - 1)
      ((concat (sse_fields ?s) @ concat (List.map data_line (take j (sse_lines ?s)))) @ newline))"
    unfolding Let_def by blast
  then show "\<exists>j \<le> 1. push_message_serialize_sse ?s =
     Inr (take 1027 ((concat (sse_fields ?s) @ concat (List.map data_line (take j [''hi'']))) @ newline))"
    unfolding l by (intro exI [of _ j]) simp
qed

section \<open>Clients that come and go\<close>

text \<open>The text of the welcome message always fits.\<close>

lemma snprintf_length: "0 < n \<Longrightarrow> length (snprintf n s) < n"
  by (simp add: snprintf_def min_less_iff_disj)

lemma send_message_total: "push_message_serialize_sse m = Inr s \<Longrightarrow> \<exists>r c'. push_send_sse_message net now c m = Inr (r, c')"
  by (simp add: push_send_sse_message_def Let_def)

lemma welcome_ok:
  assumes "push_message_create t cs (Some ''connected'') (Some ''Welcome to ANX Push Service'') None = (w, cs')"
  shows "push_message_serialize_sse w = Inr (sse_text w)"
proof -
  let ?d = "''Welcome to ANX Push Service''"
  obtain i cs'' where i: "push_generate_message_id t cs = (i, cs'')" by fastforce
  then have "\<exists>x. i = snprintf 64 x" by (auto simp: push_generate_message_id_def Let_def)
  then obtain x where "i = snprintf 64 x" by blast
  then have il: "length i \<le> 63" using snprintf_length [of 64 x] by simp
  have "strtok_all {CHR 0x0A} ?d = [?d]" by (rule strtok_all_word) simp_all
  then have m: "sse_lines w = [?d]" "pm_data w = Some ?d" "sse_room w = 1024 + 2 * length ?d"
    "concat (sse_fields w) = (''id: '' @ i @ newline) @ (''event: '' @ ''connected'' @ newline) @ (''retry: '' @ print_int 3000 @ newline)"
    using assms i by (auto simp: push_message_create_def sse_lines_def sse_fields_split sse_room_def)
  have three: "length (print_int 3000) = 4" by (simp add: print_int_def print_nat_step)
  have "length (sse_text w) + 12 \<le> sse_room w"
    using length_sse_text [of w] il unfolding m by (simp add: newline_def three)
  then show ?thesis by (rule serialize_fits)
qed

lemma headers_keep:
  "cl_socket_fd (push_client_headers h c) = cl_socket_fd c" "cl_wire (push_client_headers h c) = cl_wire c"
  by (simp_all add: push_client_headers_def Let_def split: option.splits)

definition with_client :: "push_client \<Rightarrow> push_manager \<Rightarrow> push_manager" where
  "with_client c m = m\<lparr>pg_clients := c # pg_clients m, pg_client_count := to_int32 (pg_client_count m + 1),
     pg_total_connections := pg_total_connections m + 1\<rparr>"

lemma with_client_sel [simp]:
  "pg_config (with_client c m) = pg_config m" "pg_clients (with_client c m) = c # pg_clients m"
  "pg_client_count (with_client c m) = to_int32 (pg_client_count m + 1)"
  by (simp_all add: with_client_def)

lemma with_client_welcomed [simp]:
  "(with_client c m)\<lparr>pg_clients := c' # tl (pg_clients (with_client c m))\<rparr> = with_client c' m"
  "(with_client c m)\<lparr>pg_clients := c' # pg_clients m\<rparr> = with_client c' m"
  by (simp_all add: with_client_def)

text \<open>Linking a client: it never faults; either the manager stays as it is and an error is
returned, or one client is added.\<close>

lemma sse_join_cases:
  obtains r w cl cs' where "sse_join rq (m, cs) = Inr ((r, w, cl), m, cs')" "r = -1"
  | c cs' where "sse_join rq (m, cs) = Inr ((0, [], []), with_client c m, cs')"
proof (cases "push_client_create (rq_time rq) cs (rq_socket rq) (rq_ssl rq) (rq_client_ip rq)")
  case (Pair c cs1)
  show ?thesis
  proof (cases c)
    case None
    with Pair show ?thesis using that(1) by (simp add: sse_join_def)
  next
    case (Some c)
    obtain r c' where h: "push_send_sse_headers (rq_net rq) (push_client_headers (rq_text rq) c) = (r, c')" by fastforce
    obtain w cs2 where w: "push_message_create (fst (rq_time rq)) cs1 (Some ''connected'') (Some ''Welcome to ANX Push Service'') None = (w, cs2)"
      by fastforce
    show ?thesis
    proof (cases "r < 0")
      case True
      with Pair Some h show ?thesis using that(1) by (simp add: sse_join_def)
    next
      case False
      obtain r' c'' where "push_send_sse_message (rq_net rq) (fst (rq_time rq)) c' w = Inr (r', c'')"
        using send_message_total [OF welcome_ok [OF w]] by blast
      with False Pair Some h w have "sse_join rq (m, cs) = Inr ((0, [], []), with_client c'' m, cs2)"
        by (simp add: sse_join_def with_client_def [symmetric])
      then show ?thesis by (rule that(2))
    qed
  qed
qed

text \<open>A transport that takes whatever it is given, and a request that comes over one.\<close>

definition takes_all :: "transport \<Rightarrow> bool" where
  "takes_all net \<longleftrightarrow> (\<forall>w d. net w d = int (length d))"

definition good_request :: "sse_request \<Rightarrow> bool" where
  "good_request rq \<longleftrightarrow> takes_all (rq_net rq) \<and> rq_socket rq \<ge> 0 \<and> rq_client_ip rq \<noteq> None"

lemma sse_join_good:
  assumes "good_request rq"
  shows "\<exists>c cs'. sse_join rq (m, cs) = Inr ((0, [], []), with_client c m, cs')"
proof -
  from assms obtain ip where ip: "rq_client_ip rq = Some ip" "rq_socket rq \<ge> 0" and net: "takes_all (rq_net rq)"
    by (auto simp: good_request_def)
  then obtain c cs1 where c: "push_client_create (rq_time rq) cs (rq_socket rq) (rq_ssl rq) (rq_client_ip rq) = (Some c, cs1)"
      "cl_socket_fd c \<ge> 0"
    by (auto simp: push_client_create_def case_prod_unfold Let_def)
  obtain w cs2 where w: "push_message_create (fst (rq_time rq)) cs1 (Some ''connected'') (Some ''Welcome to ANX Push Service'') None = (w, cs2)"
    by fastforce
  obtain c' where h: "push_send_sse_headers (rq_net rq) (push_client_headers (rq_text rq) c) = (0, c')"
    using net c(2) by (auto simp: push_send_sse_headers_def headers_keep takes_all_def)
  obtain r c'' where "push_send_sse_message (rq_net rq) (fst (rq_time rq)) c' w = Inr (r, c'')"
    using send_message_total [OF welcome_ok [OF w]] by blast
  with c h w have "sse_join rq (m, cs) = Inr ((0, [], []), with_client c'' m, cs2)"
    by (simp add: sse_join_def with_client_def [symmetric])
  then show ?thesis by blast
qed

fun serve_push ::
  "sse_request list \<Rightarrow> push_manager \<times> push_counters \<Rightarrow>
   ((int \<times> string \<times> sock_call list) list \<times> push_manager \<times> push_counters) run" where
  "serve_push [] st = Inr ([], st)"
| "serve_push (rq # rqs) st =
     bindR (push_handle_sse_request rq st) (\<lambda>(r, st). bindR (serve_push rqs st) (\<lambda>(rs, st). Inr (r # rs, st)))"

lemma handle_good:
  assumes "good_request rq"
  shows "push_handle_sse_request rq (m, cs) =
    (if sse_full m then Inr ((-1, unavailable_response, []), m, cs) else sse_join rq (m, cs))"
  using assms by (auto simp: push_handle_sse_request_def good_request_def takes_all_def put_def)

text \<open>No operation takes a client out of the manager, so the limit is used up for good: of any
sequence of requests that could be served, handled one after the other by a new manager, the
first \<open>max_clients\<close> are served, and every later one gets the 503 (which announces 21 bytes and has
20), whatever has become of the connections in the meantime.\<close>

theorem push_never_releases:
  assumes "\<forall>rq\<in>set rqs. good_request rq" and "push_manager_create t (Some cfg) = Some m"
    and "0 \<le> pc_max_clients cfg" and "pc_max_clients cfg < 2 ^ 31"
  shows "\<exists>m' cs'. serve_push rqs (m, cs) =
      Inr (replicate (min (nat (pc_max_clients cfg)) (length rqs)) (0, [], []) @
           replicate (length rqs - nat (pc_max_clients cfg)) (-1, unavailable_response, []), m', cs') \<and>
    length (pg_clients m') = min (nat (pc_max_clients cfg)) (length rqs) \<and> pg_client_count m' = int (length (pg_clients m'))"
proof -
  have "\<exists>m' cs'. serve_push rqs (m, cs) =
      Inr (replicate (min (nat (pc_max_clients cfg) - n) (length rqs)) (0, [], []) @
           replicate (length rqs - (nat (pc_max_clients cfg) - n)) (-1, unavailable_response, []), m', cs') \<and>
      length (pg_clients m') = n + min (nat (pc_max_clients cfg) - n) (length rqs) \<and>
      pg_client_count m' = int (length (pg_clients m'))"
    if "\<forall>rq\<in>set rqs. good_request rq" "pg_config m = cfg" "length (pg_clients m) = n" "pg_client_count m = int n"
       "n \<le> nat (pc_max_clients cfg)" for n m cs rqs
    using that
  proof (induction rqs arbitrary: n m cs)
    case (Cons rq rqs)
    then have rq: "good_request rq" and rqs: "\<forall>rq\<in>set rqs. good_request rq" by simp_all
    show ?case
    proof (cases "n = nat (pc_max_clients cfg)")
      case True
      with Cons.prems assms(3) have "sse_full m" by (simp add: sse_full_def)
      with handle_good [OF rq] have "push_handle_sse_request rq (m, cs) = Inr ((-1, unavailable_response, []), m, cs)" by simp
      moreover have "nat (pc_max_clients cfg) - n = 0" using True by simp
      ultimately show ?thesis using Cons.IH [OF rqs Cons.prems(2-5), of cs] by auto
    next
      case False
      with Cons.prems assms(3) have nf: "\<not> sse_full m" and lt: "n < nat (pc_max_clients cfg)" by (auto simp: sse_full_def)
      from sse_join_good [OF rq] obtain c cs1 where j: "sse_join rq (m, cs) = Inr ((0, [], []),
          with_client c m, cs1)" by blast
      let ?m = "with_client c m"
      have "to_int32 (pg_client_count m + 1) = int (Suc n)" using Cons.prems(4) lt assms(4) by (simp add: to_int32_id)
      with Cons.prems have x: "pg_config ?m = cfg" "length (pg_clients ?m) = Suc n" "pg_client_count ?m = int (Suc n)" by simp_all
      from lt have "Suc n \<le> nat (pc_max_clients cfg)" by simp
      from Cons.IH [OF rqs x this, of cs1] obtain m' cs' where
        r: "serve_push rqs (?m, cs1) = Inr (replicate (min (nat (pc_max_clients cfg) - Suc n) (length rqs)) (0, [], []) @
           replicate (length rqs - (nat (pc_max_clients cfg) - Suc n)) (-1, unavailable_response, []), m', cs')"
        "length (pg_clients m') = Suc n + min (nat (pc_max_clients cfg) - Suc n) (length rqs)"
        "pg_client_count m' = int (length (pg_clients m'))" by blast
      have k: "nat (pc_max_clients cfg) - n = Suc (nat (pc_max_clients cfg) - Suc n)" using lt by simp
      show ?thesis using nf handle_good [OF rq] j r by (simp add: k)
    qed
  qed simp
  from this [OF assms(1), of m 0 cs] assms show ?thesis by (auto simp: push_manager_create_def)
qed

theorem push_never_releases_witness:
  "\<exists>m' cs'. serve_push (replicate 1002 \<lparr>rq_net = (\<lambda>w d. int (length d)), rq_time = (0, 0), rq_socket = 5, rq_ssl = False, rq_text = None, rq_client_ip = Some ''10.0.0.1''\<rparr>)
      (the (push_manager_create 0 (Some push_config_create)), \<lparr>client_counter = 0, msg_counter = 0, sub_counter = 0\<rparr>) =
      Inr (replicate 1000 (0, [], []) @ replicate 2 (-1, unavailable_response, []), m', cs') \<and>
    length (pg_clients m') = 1000"
  using push_never_releases [of "replicate 1002 \<lparr>rq_net = (\<lambda>w d. int (length d)), rq_time = (0, 0), rq_socket = 5, rq_ssl = False, rq_text = None, rq_client_ip = Some ''10.0.0.1''\<rparr>"
      0 push_config_create "the (push_manager_create 0 (Some push_config_create))" "\<lparr>client_counter = 0, msg_counter = 0, sub_counter = 0\<rparr>"]
  by (auto simp: good_request_def takes_all_def push_manager_create_def push_config_create_def)

section \<open>Handlers at the same time\<close>

text \<open>
  The handlers of several connections: one that has passed the check and has not linked its
  client yet is pending. At most \<open>k\<close> handlers run at the same time.
\<close>

type_synonym push_race = "(push_manager \<times> push_counters) \<times> sse_request list"

inductive push_step :: "nat \<Rightarrow> push_race \<Rightarrow> push_race \<Rightarrow> bool" for k where
  admit: "rq_socket rq \<ge> 0 \<Longrightarrow> rq_client_ip rq \<noteq> None \<Longrightarrow> \<not> sse_full m \<Longrightarrow> length ps < k \<Longrightarrow>
    push_step k ((m, cs), ps) ((m, cs), ps @ [rq])"
| link: "rq \<in> set ps \<Longrightarrow> sse_join rq (m, cs) = Inr (r, m', cs') \<Longrightarrow>
    push_step k ((m, cs), ps) ((m', cs'), remove1 rq ps)"

inductive_cases push_stepE: "push_step k s s'"

inductive push_reach :: "nat \<Rightarrow> push_race \<Rightarrow> push_race \<Rightarrow> bool" for k s where
  refl: "push_reach k s s"
| step: "push_reach k s s' \<Longrightarrow> push_step k s' s'' \<Longrightarrow> push_reach k s s''"

lemma push_reach_trans: "push_reach k s' s'' \<Longrightarrow> push_reach k s s' \<Longrightarrow> push_reach k s s''"
  by (induction rule: push_reach.induct) (auto intro: push_reach.step)

text \<open>The handler is the two steps one behind the other.\<close>

lemma handle_steps:
  assumes "push_handle_sse_request rq (m, cs) = Inr (r, m', cs')" "fst r = 0" "0 < k"
  shows "push_reach k ((m, cs), []) ((m', cs'), [])"
proof -
  from assms have g: "rq_socket rq \<ge> 0" "rq_client_ip rq \<noteq> None" "\<not> sse_full m" "sse_join rq (m, cs) = Inr (r, m', cs')"
    by (auto simp: push_handle_sse_request_def split: if_splits)
  have "push_step k ((m, cs), []) ((m, cs), [] @ [rq])" using g assms(3) by (intro push_step.admit) simp_all
  moreover have "push_step k ((m, cs), [rq]) ((m', cs'), remove1 rq [rq])" using g by (intro push_step.link) simp_all
  ultimately show ?thesis using push_reach.step [OF push_reach.step [OF push_reach.refl]] by simp
qed

definition race_inv :: "nat \<Rightarrow> push_config \<Rightarrow> push_race \<Rightarrow> bool" where
  "race_inv k cfg s \<longleftrightarrow>
     (case s of ((m, cs), ps) \<Rightarrow> pg_config m = cfg \<and> length ps \<le> k \<and>
        pg_client_count m = int (length (pg_clients m)) \<and>
        int (length (pg_clients m)) + int (length ps) \<le> pc_max_clients cfg + int k - 1)"

lemma race_inv_step:
  assumes "push_step k s s'" "race_inv k cfg s" "pc_max_clients cfg + int k < 2 ^ 31"
  shows "race_inv k cfg s'"
  using assms(1)
proof (cases rule: push_step.cases)
  case (admit rq m ps cs)
  with assms(2) show ?thesis by (auto simp: race_inv_def sse_full_def)
next
  case (link rq ps m cs r m' cs')
  from link(3) have l: "length (remove1 rq ps) = length ps - 1" "0 < length ps"
    by (auto simp: length_remove1 length_pos_if_in_set)
  from assms(2) link(1) have i: "pg_config m = cfg" "length ps \<le> k" "pg_client_count m = int (length (pg_clients m))"
    "int (length (pg_clients m)) + int (length ps) \<le> pc_max_clients cfg + int k - 1" by (simp_all add: race_inv_def)
  consider "m' = m" | c where "m' = with_client c m" by (rule sse_join_cases [of rq m cs]) (use link(4) in auto)
  then show ?thesis
  proof cases
    case 1
    have "length ps - 1 \<le> k" "int (length (pg_clients m)) + int (length ps - 1) \<le> pc_max_clients cfg + int k - 1"
      using i(2,4) l(2) by linarith+
    with 1 i l link(2) show ?thesis by (simp add: race_inv_def)
  next
    case 2
    have "to_int32 (int (length (pg_clients m)) + 1) = int (length (pg_clients m)) + 1"
      using i l assms(3) by (intro to_int32_id) simp_all
    moreover have "length (remove1 rq ps) \<le> k"
      "1 + int (length (pg_clients m)) + int (length (remove1 rq ps)) \<le> pc_max_clients cfg + int k - 1"
      using i(2,4) l by linarith+
    ultimately show ?thesis using 2 i(1,3) link(2) by (simp add: race_inv_def)
  qed
qed

lemma race_inv_reach: "push_reach k s s' \<Longrightarrow> race_inv k cfg s \<Longrightarrow> pc_max_clients cfg + int k < 2 ^ 31 \<Longrightarrow> race_inv k cfg s'"
  by (induction rule: push_reach.induct) (auto dest: race_inv_step)

text \<open>Handlers that are admitted together: each finds room.\<close>

lemma admit_many:
  assumes "good_request rq" "\<not> sse_full m" "n \<le> k"
  shows "push_reach k ((m, cs), []) ((m, cs), replicate n rq)"
  using assms(3)
proof (induction n)
  case (Suc n)
  have "push_step k ((m, cs), replicate n rq) ((m, cs), replicate n rq @ [rq])"
    using assms Suc.prems by (intro push_step.admit) (auto simp: good_request_def)
  with Suc show ?case by (auto intro: push_reach.step simp: replicate_append_same)
qed (auto intro: push_reach.refl)

lemma link_many:
  assumes "good_request rq" "pg_client_count m = int (length (pg_clients m))" "int (length (pg_clients m)) + int n < 2 ^ 31"
  shows "\<exists>m' cs'. push_reach k ((m, cs), replicate n rq) ((m', cs'), []) \<and> pg_config m' = pg_config m \<and>
    length (pg_clients m') = length (pg_clients m) + n \<and> pg_client_count m' = int (length (pg_clients m'))"
  using assms(2,3)
proof (induction n arbitrary: m cs)
  case 0
  then show ?case by (auto intro: push_reach.refl)
next
  case (Suc n)
  from sse_join_good [OF assms(1)] obtain c cs1 where j: "sse_join rq (m, cs) = Inr ((0, [], []), with_client c m, cs1)" by blast
  have "push_step k ((m, cs), replicate (Suc n) rq) ((with_client c m, cs1), remove1 rq (replicate (Suc n) rq))"
    using j by (intro push_step.link) simp_all
  then have s: "push_reach k ((m, cs), replicate (Suc n) rq) ((with_client c m, cs1), replicate n rq)"
    by (auto intro: push_reach.intros)
  have "to_int32 (int (length (pg_clients m)) + 1) = int (length (pg_clients m)) + 1"
    using Suc.prems by (intro to_int32_id) simp_all
  with Suc.prems have "pg_client_count (with_client c m) = int (length (pg_clients (with_client c m)))"
    "int (length (pg_clients (with_client c m))) + int n < 2 ^ 31" by simp_all
  from Suc.IH [OF this, of cs1] obtain m' cs' where
    r: "push_reach k ((with_client c m, cs1), replicate n rq) ((m', cs'), [])"
      "pg_config m' = pg_config m" "length (pg_clients m') = length (pg_clients m) + Suc n"
      "pg_client_count m' = int (length (pg_clients m'))" by auto
  then show ?case using push_reach_trans [OF r(1) s] by blast
qed

text \<open>One client after the other fills the manager.\<close>

lemma fill_clients:
  assumes g: "good_request rq" and m: "pg_config m = cfg" "pg_clients m = []" "pg_client_count m = 0"
    and kpos: "0 < k" and kmax: "pc_max_clients cfg + int k < 2 ^ 31"
  shows "int n < pc_max_clients cfg \<Longrightarrow> \<exists>m1 cs1. push_reach k ((m, cs), []) ((m1, cs1), []) \<and> pg_config m1 = cfg \<and>
    length (pg_clients m1) = n \<and> pg_client_count m1 = int n"
proof (induction n)
  case 0
  then show ?case using m by (auto intro: push_reach.refl)
next
  case (Suc n)
  then obtain m1 cs1 where a: "push_reach k ((m, cs), []) ((m1, cs1), [])" "pg_config m1 = cfg" "length (pg_clients m1) = n"
    "pg_client_count m1 = int n" by auto
  have r1: "push_reach k ((m1, cs1), []) ((m1, cs1), replicate 1 rq)"
    using Suc.prems a kpos g by (intro admit_many) (auto simp: sse_full_def)
  obtain m2 cs2 where r2: "push_reach k ((m1, cs1), replicate 1 rq) ((m2, cs2), [])" "pg_config m2 = pg_config m1"
    "length (pg_clients m2) = length (pg_clients m1) + 1" "pg_client_count m2 = int (length (pg_clients m2))"
    using link_many [OF g, of m1 1 k cs1] a Suc.prems kmax by auto
  have "push_reach k ((m, cs), []) ((m2, cs2), [])" by (rule push_reach_trans [OF r2(1) push_reach_trans [OF r1 a(1)]])
  moreover have "pg_config m2 = cfg" "length (pg_clients m2) = Suc n" "pg_client_count m2 = int (Suc n)" using r2 a by simp_all
  ultimately show ?case by blast
qed

text \<open>C30. The limit of clients under concurrency: the check and the linking of a client are two
critical sections, so with at most \<open>k\<close> handlers at a time a new manager never holds more than
\<open>max_clients + k - 1\<close> clients (with one handler: \<open>max_clients\<close>), its counter is the length of its
list, and for every \<open>k\<close> there is an interleaving that reaches that number.\<close>

theorem push_client_limit:
  assumes "push_manager_create t (Some cfg) = Some m" and "0 < k" and "0 < pc_max_clients cfg"
    and "pc_max_clients cfg + int k < 2 ^ 31"
  shows "(\<forall>m' cs' ps. push_reach k ((m, cs), []) ((m', cs'), ps) \<longrightarrow>
      pg_client_count m' = int (length (pg_clients m')) \<and> int (length (pg_clients m')) \<le> pc_max_clients cfg + int k - 1) \<and>
    (\<exists>m' cs'. push_reach k ((m, cs), []) ((m', cs'), []) \<and> int (length (pg_clients m')) = pc_max_clients cfg + int k - 1)"
proof (intro conjI allI impI)
  have m: "pg_config m = cfg" "pg_clients m = []" "pg_client_count m = 0" using assms(1) by (auto simp: push_manager_create_def)
  have start: "race_inv k cfg ((m, cs), [])" using m assms(2,3) by (simp add: race_inv_def)
  fix m' cs' ps
  assume "push_reach k ((m, cs), []) ((m', cs'), ps)"
  then have "race_inv k cfg ((m', cs'), ps)" using race_inv_reach start assms(4) by blast
  then show "pg_client_count m' = int (length (pg_clients m'))" "int (length (pg_clients m')) \<le> pc_max_clients cfg + int k - 1"
    by (simp_all add: race_inv_def)
next
  define rq where "rq = \<lparr>rq_net = (\<lambda>w d. int (length d)), rq_time = (0, 0), rq_socket = 5, rq_ssl = False, rq_text = None, rq_client_ip = Some []\<rparr>"
  have g: "good_request rq" by (simp add: rq_def good_request_def takes_all_def)
  have m: "pg_config m = cfg" "pg_clients m = []" "pg_client_count m = 0" using assms(1) by (auto simp: push_manager_create_def)
  have "int (nat (pc_max_clients cfg - 1)) < pc_max_clients cfg" using assms(3) by simp
  from fill_clients [OF g m assms(2,4) this, of cs] obtain m1 cs1 where a: "push_reach k ((m, cs), []) ((m1, cs1), [])" "pg_config m1 = cfg"
    "length (pg_clients m1) = nat (pc_max_clients cfg - 1)" "pg_client_count m1 = int (nat (pc_max_clients cfg - 1))" by blast
  have r1: "push_reach k ((m1, cs1), []) ((m1, cs1), replicate k rq)"
    using a assms(3) g by (intro admit_many) (auto simp: sse_full_def)
  obtain m2 cs2 where r2: "push_reach k ((m1, cs1), replicate k rq) ((m2, cs2), [])"
    "length (pg_clients m2) = length (pg_clients m1) + k"
    using link_many [OF g, of m1 k k cs1] a assms(3,4) by auto
  have "push_reach k ((m, cs), []) ((m2, cs2), [])"
    by (rule push_reach_trans [OF r2(1) push_reach_trans [OF r1 a(1)]])
  moreover have "int (length (pg_clients m2)) = pc_max_clients cfg + int k - 1" using r2(2) a(3) assms(3) by simp
  ultimately show "\<exists>m' cs'. push_reach k ((m, cs), []) ((m', cs'), []) \<and> int (length (pg_clients m')) = pc_max_clients cfg + int k - 1"
    by blast
qed

theorem push_client_limit_witness:
  "\<exists>m' cs'. push_reach 4 ((the (push_manager_create 0 (Some push_config_create)), \<lparr>client_counter = 0, msg_counter = 0, sub_counter = 0\<rparr>), [])
      ((m', cs'), []) \<and> length (pg_clients m') = 1003"
  using push_client_limit [of 0 push_config_create "the (push_manager_create 0 (Some push_config_create))" 4
      "\<lparr>client_counter = 0, msg_counter = 0, sub_counter = 0\<rparr>"]
  by (auto simp: push_manager_create_def push_config_create_def)

section \<open>The server socket\<close>

datatype push_op = StartPush sock_env | StopPush

fun push_server_run :: "push_op list \<Rightarrow> push_manager \<Rightarrow> sock_call list \<times> push_manager" where
  "push_server_run [] m = ([], m)"
| "push_server_run (p # ps) m =
     (let (_, cs, m) = (case p of StartPush env \<Rightarrow> push_manager_start env m | StopPush \<Rightarrow> push_manager_stop m);
          (ds, m) = push_server_run ps m
      in (cs @ ds, m))"

definition server_sockets :: "push_manager \<Rightarrow> int set" where
  "server_sockets m = (if pg_running m then {pg_server_socket m} else {})"

definition server_ok :: "push_manager \<Rightarrow> bool" where
  "server_ok m \<longleftrightarrow> (pg_running m \<longrightarrow> pg_server_socket m \<ge> 0)"

lemma start_balance:
  assumes "push_manager_start env m = (r, cs, m')" "server_ok m"
  shows "balance cs (server_sockets m) = Some (server_sockets m')" "server_ok m'" "pg_clients m' = pg_clients m"
    "r = 0 \<longleftrightarrow> \<not> pg_running m \<and> (pg_running m' \<or> \<not> pc_enabled (pg_config m))"
  using assms by (auto simp: push_manager_start_def server_sockets_def server_ok_def Let_def split: if_splits)

lemma stop_balance:
  assumes "push_manager_stop m = (r, cs, m')" "server_ok m"
  shows "balance cs (server_sockets m) = Some (server_sockets m')" "server_ok m'" "\<not> pg_running m'" "pg_clients m' = pg_clients m"
  using assms by (auto simp: push_manager_stop_def server_sockets_def server_ok_def split: if_splits)

lemma server_run_balance:
  assumes "server_ok m" "push_server_run ps m = (cs, m')"
  shows "balance cs (server_sockets m) = Some (server_sockets m') \<and> server_ok m' \<and> pg_clients m' = pg_clients m"
  using assms
proof (induction ps arbitrary: m cs)
  case (Cons p ps)
  obtain r c1 m1 where p: "(case p of StartPush env \<Rightarrow> push_manager_start env m | StopPush \<Rightarrow> push_manager_stop m) = (r, c1, m1)"
    by (metis prod_cases3)
  then have b: "balance c1 (server_sockets m) = Some (server_sockets m1)" "server_ok m1" "pg_clients m1 = pg_clients m"
    using start_balance [OF _ Cons.prems(1)] stop_balance [OF _ Cons.prems(1)] by (cases p; simp; blast)+
  obtain c2 where c2: "push_server_run ps m1 = (c2, m')" "cs = c1 @ c2"
    using Cons.prems(2) p by (auto simp: split: prod.splits)
  from Cons.IH [OF b(2) c2(1)] b c2(2) show ?case by simp
qed (simp add: server_sockets_def)

text \<open>Whatever the order of starts and stops of a new push service and whatever the kernel answers,
failed attempts included, a descriptor is closed only while it is open, the service holds the
server socket while it runs and nothing else, and releasing the manager closes it.\<close>

theorem push_server_socket:
  assumes "push_manager_create t (Some cfg) = Some m" and "push_server_run ps m = (cs, m')"
  shows "balance cs {} = Some (if pg_running m' then {pg_server_socket m'} else {}) \<and>
    balance (cs @ push_manager_free m') {} = Some {}"
proof -
  from assms(1) have "server_ok m" "server_sockets m = {}" "pg_clients m = []"
    by (auto simp: push_manager_create_def server_ok_def server_sockets_def)
  with server_run_balance [OF this(1) assms(2)] have
    b: "balance cs {} = Some (server_sockets m')" "server_ok m'" "pg_clients m' = []" by simp_all
  obtain r ds m2 where s: "push_manager_stop m' = (r, ds, m2)" by (metis prod_cases3)
  from stop_balance [OF s b(2)] b(3) have
    "balance (push_manager_free m') (server_sockets m') = Some {}"
    using s by (cases "pg_running m'") (auto simp: push_manager_free_def server_sockets_def)
  with b show ?thesis by (simp add: server_sockets_def)
qed

theorem push_server_socket_witness:
  "balance (fst (push_server_run [StartPush \<lparr>y_socket = 7, y_bind = (\<lambda>a p. p = 8080), y_listen = True, y_thread = True\<rparr>, StopPush]
      (the (push_manager_create 0 (Some (push_config_create\<lparr>pc_enabled := True\<rparr>)))))) {} = Some {}"
  using push_server_socket [of 0 "push_config_create\<lparr>pc_enabled := True\<rparr>"
      "the (push_manager_create 0 (Some (push_config_create\<lparr>pc_enabled := True\<rparr>)))"
      "[StartPush \<lparr>y_socket = 7, y_bind = (\<lambda>a p. p = 8080), y_listen = True, y_thread = True\<rparr>, StopPush]"]
  by (auto simp: push_manager_create_def push_config_create_def push_manager_start_def push_manager_stop_def Let_def)

section \<open>Ids and names\<close>

lemma print_int_inj: "0 \<le> a \<Longrightarrow> a < 2 ^ 31 \<Longrightarrow> 0 \<le> b \<Longrightarrow> b < 2 ^ 31 \<Longrightarrow> print_int a = print_int b \<Longrightarrow> a = b"
  by (metis atoi_print_int)

lemma last_part: "c \<notin> set x \<Longrightarrow> c \<notin> set y \<Longrightarrow> u @ c # x = v @ c # y \<Longrightarrow> x = y"
proof -
  assume n: "c \<notin> set x" "c \<notin> set y" and e: "u @ c # x = v @ c # y"
  have "takeWhile (\<lambda>a. a \<noteq> c) (rev (w @ c # z)) = rev z" if "c \<notin> set z" for w z
    using that by (simp add: takeWhile_append takeWhile_eq_all_conv [THEN iffD2])
  with n e have "rev x = rev y" by metis
  then show ?thesis by simp
qed

lemma print_int_clean: "0 \<le> i \<Longrightarrow> CHR ''_'' \<notin> set (print_int i)"
  using print_int_digits [of i] by (fastforce simp: list_all_iff isdigit_def)

text \<open>The time of a request: seconds of at most ten digits and microseconds.\<close>

definition time_ok :: "int \<times> int \<Rightarrow> bool" where
  "time_ok tv \<longleftrightarrow> 0 \<le> fst tv \<and> fst tv < 10 ^ 10 \<and> 0 \<le> snd tv \<and> snd tv < 10 ^ 6"

definition client_id_text :: "int \<times> int \<Rightarrow> string \<Rightarrow> int \<Rightarrow> string" where
  "client_id_text tv ip k = ''client_'' @ ip @ ''_'' @ print_int (fst tv) @ ''_'' @ print_int (snd tv) @ ''_'' @ print_int k"

lemma client_id_split:
  "client_id_text tv ip k = (''client_'' @ ip @ ''_'' @ print_int (fst tv) @ ''_'' @ print_int (snd tv)) @ CHR ''_'' # print_int k"
  by (simp add: client_id_text_def)

lemma client_id_eq:
  "fst (push_generate_client_id tv cs ip) = snprintf 64 (client_id_text tv ip (to_int32 (client_counter cs + 1)))"
  by (simp add: push_generate_client_id_def client_id_text_def case_prod_unfold Let_def)

text \<open>Ids of clients: with the counter of its id generator in range, two IPv4 clients with different
counter values have different ids, whatever their times. The text of an IPv6 address can be so
long that the 64 bytes of an id end behind the seconds: then all clients of that address within
a second have the same id.\<close>

theorem push_client_ids:
  "(length ip \<le> 15 \<and> length ip' \<le> 15 \<and> time_ok tv \<and> time_ok tv' \<and>
     0 \<le> client_counter cs \<and> client_counter cs < 2 ^ 31 - 1 \<and> 0 \<le> client_counter cs' \<and> client_counter cs' < 2 ^ 31 - 1 \<and>
     client_counter cs \<noteq> client_counter cs' \<longrightarrow>
     fst (push_generate_client_id tv cs ip) \<noteq> fst (push_generate_client_id tv' cs' ip')) \<and>
   (length ip + length (print_int (fst tv)) \<ge> 55 \<and> fst tv = fst tv' \<longrightarrow>
     fst (push_generate_client_id tv cs ip) = fst (push_generate_client_id tv' cs' ip))"
proof (intro conjI impI notI)
  assume a: "length ip \<le> 15 \<and> length ip' \<le> 15 \<and> time_ok tv \<and> time_ok tv' \<and>
     0 \<le> client_counter cs \<and> client_counter cs < 2 ^ 31 - 1 \<and> 0 \<le> client_counter cs' \<and> client_counter cs' < 2 ^ 31 - 1 \<and>
     client_counter cs \<noteq> client_counter cs'"
  assume same: "fst (push_generate_client_id tv cs ip) = fst (push_generate_client_id tv' cs' ip')"
  have k: "to_int32 (client_counter cs + 1) = client_counter cs + 1" "to_int32 (client_counter cs' + 1) = client_counter cs' + 1"
    using a by (simp_all add: to_int32_id)
  have d: "length (print_int i) \<le> Suc n" if "0 \<le> i" "i < 10 ^ Suc n" for i n
    using that print_nat_length [of "nat i" n] by (simp add: print_int_def nat_less_iff)
  have short: "snprintf 64 (client_id_text tv ip k) = client_id_text tv ip k"
    if "length ip \<le> 15" "time_ok tv" "0 \<le> k" "k < 2 ^ 31" for tv ip k
  proof -
    have "length (print_int (fst tv)) \<le> Suc 9" "length (print_int (snd tv)) \<le> Suc 5" "length (print_int k) \<le> Suc 9"
      using that by (intro d; simp add: time_ok_def)+
    with that(1) show ?thesis by (intro snprintf_fits) (simp add: client_id_text_def)
  qed
  have pos: "0 \<le> client_counter cs + 1" "0 \<le> client_counter cs' + 1" using a by linarith+
  have small: "client_counter cs + 1 < 2 ^ 31" "client_counter cs' + 1 < 2 ^ 31" using a by linarith+
  have "snprintf 64 (client_id_text tv ip (client_counter cs + 1)) = client_id_text tv ip (client_counter cs + 1)"
    "snprintf 64 (client_id_text tv' ip' (client_counter cs' + 1)) = client_id_text tv' ip' (client_counter cs' + 1)"
    using a by (blast intro: short pos small)+
  with same have e: "client_id_text tv ip (client_counter cs + 1) = client_id_text tv' ip' (client_counter cs' + 1)"
    unfolding client_id_eq k by (simp only:)
  have "print_int (client_counter cs + 1) = print_int (client_counter cs' + 1)"
    by (rule last_part [OF print_int_clean [OF pos(1)] print_int_clean [OF pos(2)] e [unfolded client_id_split]])
  then show False using print_int_inj [of "client_counter cs + 1" "client_counter cs' + 1"] a by simp
next
  assume a: "length ip + length (print_int (fst tv)) \<ge> 55 \<and> fst tv = fst tv'"
  have cut: "snprintf 64 (client_id_text tv ip k) = take 63 (''client_'' @ ip @ ''_'' @ print_int (fst tv))"
    if "length ip + length (print_int (fst tv)) \<ge> 55" for tv k
  proof -
    have "client_id_text tv ip k = (''client_'' @ ip @ ''_'' @ print_int (fst tv)) @ ''_'' @ print_int (snd tv) @ ''_'' @ print_int k"
      by (simp add: client_id_text_def)
    moreover have "length (''client_'' @ ip @ ''_'' @ print_int (fst tv)) \<ge> 63" using that by simp
    ultimately show ?thesis unfolding snprintf_def by (simp only: take_append) simp
  qed
  from a have "length ip + length (print_int (fst tv)) \<ge> 55" "length ip + length (print_int (fst tv')) \<ge> 55" "fst tv = fst tv'"
    by metis+
  then show "fst (push_generate_client_id tv cs ip) = fst (push_generate_client_id tv' cs' ip)"
    unfolding client_id_eq cut [OF \<open>length ip + length (print_int (fst tv)) \<ge> 55\<close>]
      cut [OF \<open>length ip + length (print_int (fst tv')) \<ge> 55\<close>] by (simp only:)
qed

theorem push_client_ids_witness:
  "fst (push_generate_client_id (1, 2) \<lparr>client_counter = 0, msg_counter = 0, sub_counter = 0\<rparr> ''10.0.0.1'') \<noteq>
   fst (push_generate_client_id (1, 2) \<lparr>client_counter = 1, msg_counter = 0, sub_counter = 0\<rparr> ''10.0.0.1'')"
  using push_client_ids [of "''10.0.0.1''" "''10.0.0.1''" "(1, 2)" "(1, 2)" "\<lparr>client_counter = 0, msg_counter = 0, sub_counter = 0\<rparr>"
      "\<lparr>client_counter = 1, msg_counter = 0, sub_counter = 0\<rparr>"]
  by (simp add: time_ok_def)

text \<open>The names of the connection types are read back, but for the one with a space in it.\<close>

lemma push_type_texts:
  "push_type_from_string (Some ''SSE'') = PUSH_TYPE_SSE" "push_type_from_string (Some ''WebSocket'') = PUSH_TYPE_WEBSOCKET"
  "push_type_from_string (Some ''Long Polling'') = PUSH_TYPE_SSE"
  by code_simp+

lemma push_type_names:
  "push_type_from_string (Some (push_type_to_string t)) = (if t = PUSH_TYPE_LONG_POLLING then PUSH_TYPE_SSE else t)"
  by (cases t) (simp_all only: push_type_to_string.simps push_type_texts push_type_t.distinct if_True if_False refl simp_thms)

end
