(* ===== verification/Mempool.thy ===== *)
theory Mempool
  imports Prelude
begin

text \<open>
  The memory pool of the optimised build (src/utils/asm/asm_mempool.c, asm_mempool.h). Memory is
  a map from addresses to bytes, \<open>None\<close> where nothing is mapped or accessible; the headers of
  the blocks lie in it (next pointer, size, magic number: 16 bytes in front of the data), and
  every read and write of the code is one of that memory, so that a block that is written beyond
  its end changes its neighbour. What mmap, malloc, the raw system call and the clock answer are
  parameters (\<open>pool_os\<close>). The mutex is locked and unlocked once per operation and not modelled.
  \<open>None\<close> as the outcome of an operation: it never returns.
\<close>

section \<open>Memory\<close>

type_synonym memory = "nat \<Rightarrow> u8 option"

fun le_val :: "u8 list \<Rightarrow> nat" where
  "le_val [] = 0"
| "le_val (b # bs) = unat b + 256 * le_val bs"

fun le_bytes :: "nat \<Rightarrow> nat \<Rightarrow> u8 list" where
  "le_bytes 0 v = []"
| "le_bytes (Suc n) v = of_nat v # le_bytes n (v div 256)"

definition mapped :: "memory \<Rightarrow> nat \<Rightarrow> nat \<Rightarrow> bool" where
  "mapped m a n = list_all (\<lambda>x. m x \<noteq> None) [a..<a + n]"

definition load :: "nat \<Rightarrow> memory \<Rightarrow> nat \<Rightarrow> nat run" where
  "load n m a = (if mapped m a n then Inr (le_val (List.map (\<lambda>x. the (m x)) [a..<a + n])) else Inl BadPointer)"

definition write_bytes :: "u8 list \<Rightarrow> memory \<Rightarrow> nat \<Rightarrow> memory run" where
  "write_bytes bs m a =
     (if mapped m a (length bs) then Inr (\<lambda>x. if a \<le> x \<and> x < a + length bs then Some (bs ! (x - a)) else m x)
      else Inl BadPointer)"

definition store :: "nat \<Rightarrow> memory \<Rightarrow> nat \<Rightarrow> nat \<Rightarrow> memory run" where
  "store n m a v = write_bytes (le_bytes n v) m a"

section \<open>Data\<close>

datatype mempool_type_t = MEMPOOL_TYPE_SMALL | MEMPOOL_TYPE_MEDIUM | MEMPOOL_TYPE_LARGE | MEMPOOL_TYPE_HUGE

definition mempool_types :: "mempool_type_t list" where
  "mempool_types = [MEMPOOL_TYPE_SMALL, MEMPOOL_TYPE_MEDIUM, MEMPOOL_TYPE_LARGE, MEMPOOL_TYPE_HUGE]"

definition MEMPOOL_BLOCK_MAGIC :: nat where
  "MEMPOOL_BLOCK_MAGIC = 0xDEADBEEF"

definition MEMPOOL_FREE_MAGIC :: nat where
  "MEMPOOL_FREE_MAGIC = 0xFEEDFACE"

record mempool_stats =
  total_allocated :: u64
  total_freed :: u64
  current_usage :: u64
  peak_usage :: u64
  allocation_count :: u64
  free_count :: u64
  cache_hits :: u64
  cache_misses :: u64

record mempool =
  free_blocks :: "mempool_type_t \<Rightarrow> nat"
  block_sizes :: "mempool_type_t \<Rightarrow> nat"
  pool_sizes :: "mempool_type_t \<Rightarrow> nat"
  mp_stats :: mempool_stats
  use_asm_opt :: bool
  alignment :: nat
  preallocated_pools :: "mempool_type_t \<Rightarrow> nat"
  preallocated_sizes :: "mempool_type_t \<Rightarrow> nat"
  mp_gc_threshold :: u64
  last_gc_time :: u64

record mempool_config =
  small_pool_size :: nat
  medium_pool_size :: nat
  large_pool_size :: nat
  huge_pool_size :: nat
  mc_alignment :: nat
  enable_gc :: bool
  enable_asm_opt :: bool
  mc_gc_threshold :: u64

text \<open>The memory with the areas that malloc has handed out.\<close>

record machine =
  ma_bytes :: memory
  ma_chunks :: "nat list"

text \<open>
  \<open>os_mmap\<close>: where the area of a class is mapped; \<open>os_malloc\<close>: what the allocator answers to a
  request for that many bytes; \<open>os_svc\<close>: the raw system call of address, length, protection,
  flags and descriptor.
\<close>

record pool_os =
  os_mmap :: "mempool_type_t \<Rightarrow> nat option"
  os_malloc :: "nat \<Rightarrow> nat option"
  os_svc :: "u64 \<Rightarrow> u64 \<Rightarrow> u64 \<Rightarrow> u64 \<Rightarrow> u64 \<Rightarrow> u64"
  os_now :: u64

definition no_stats :: mempool_stats where
  "no_stats = \<lparr>total_allocated = 0, total_freed = 0, current_usage = 0, peak_usage = 0, allocation_count = 0,
     free_count = 0, cache_hits = 0, cache_misses = 0\<rparr>"

definition mempool_get_default_config :: mempool_config where
  "mempool_get_default_config =
     \<lparr>small_pool_size = 1024 * 1024, medium_pool_size = 4 * 1024 * 1024, large_pool_size = 16 * 1024 * 1024,
      huge_pool_size = 64 * 1024 * 1024, mc_alignment = 16, enable_gc = True, enable_asm_opt = True,
      mc_gc_threshold = 1024 * 1024 * 1024\<rparr>"

definition get_block_type :: "nat \<Rightarrow> mempool_type_t" where
  "get_block_type sz =
     (if sz \<le> 128 then MEMPOOL_TYPE_SMALL
      else if sz \<le> 1024 then MEMPOOL_TYPE_MEDIUM
      else if sz \<le> 8192 then MEMPOOL_TYPE_LARGE
      else MEMPOOL_TYPE_HUGE)"

fun type_block_size :: "mempool_type_t \<Rightarrow> nat" where
  "type_block_size MEMPOOL_TYPE_SMALL = 128"
| "type_block_size MEMPOOL_TYPE_MEDIUM = 1024"
| "type_block_size MEMPOOL_TYPE_LARGE = 8192"
| "type_block_size MEMPOOL_TYPE_HUGE = 65536"

definition mempool_get_block_size :: "nat \<Rightarrow> nat" where
  "mempool_get_block_size requested = type_block_size (get_block_type requested)"

section \<open>Blocks\<close>

text \<open>The header: next at 0, size at 8, magic at 12; the data at 16.\<close>

definition block_next :: "memory \<Rightarrow> nat \<Rightarrow> nat run" where
  "block_next m b = load 8 m b"

definition block_size :: "memory \<Rightarrow> nat \<Rightarrow> nat run" where
  "block_size m b = load 4 m (b + 8)"

definition block_magic :: "memory \<Rightarrow> nat \<Rightarrow> nat run" where
  "block_magic m b = load 4 m (b + 12)"

definition set_header :: "memory \<Rightarrow> nat \<Rightarrow> nat \<Rightarrow> nat \<Rightarrow> nat \<Rightarrow> memory run" where
  "set_header m b nx sz magic =
     bindR (store 8 m b nx) (\<lambda>m. bindR (store 4 m (b + 8) sz) (\<lambda>m. store 4 m (b + 12) magic))"

text \<open>The loop that splits a mapped area.\<close>

fun carve :: "nat \<Rightarrow> nat \<Rightarrow> nat \<Rightarrow> nat \<Rightarrow> memory \<Rightarrow> (nat \<times> memory) run" where
  "carve 0 p bs h m = Inr (h, m)"
| "carve (Suc n) p bs h m = bindR (set_header m p h bs MEMPOOL_FREE_MAGIC) (\<lambda>m. carve n (p + bs) bs p m)"

definition map_area :: "nat \<Rightarrow> nat \<Rightarrow> memory \<Rightarrow> memory" where
  "map_area a n m = (\<lambda>x. if a \<le> x \<and> x < a + n then Some 0 else m x)"

definition mempool_prealloc ::
  "pool_os \<Rightarrow> mempool \<Rightarrow> machine \<Rightarrow> mempool_type_t \<Rightarrow> nat \<Rightarrow> (int \<times> mempool \<times> machine) run" where
  "mempool_prealloc os pool ma t count =
     (let bs = block_sizes pool t; total_size = (bs * count) mod 2 ^ 64 in
      case os_mmap os t of
        None \<Rightarrow> Inr (-1, pool, ma)
      | Some a \<Rightarrow>
          let m = map_area a total_size (ma_bytes ma);
              pool = pool\<lparr>preallocated_pools := (preallocated_pools pool)(t := a),
                          preallocated_sizes := (preallocated_sizes pool)(t := total_size)\<rparr>
          in bindR (carve count a bs (free_blocks pool t) m) (\<lambda>(h, m).
               Inr (0, pool\<lparr>free_blocks := (free_blocks pool)(t := h)\<rparr>, ma\<lparr>ma_bytes := m\<rparr>)))"

fun prealloc_all :: "pool_os \<Rightarrow> mempool_type_t list \<Rightarrow> mempool \<times> machine \<Rightarrow> (mempool \<times> machine) run" where
  "prealloc_all os [] st = Inr st"
| "prealloc_all os (t # ts) st =
     bindR (mempool_prealloc os (fst st) (snd st) t (pool_sizes (fst st) t div block_sizes (fst st) t))
       (\<lambda>(_, st). prealloc_all os ts st)"

definition mempool_create_with_config :: "pool_os \<Rightarrow> machine \<Rightarrow> mempool_config \<Rightarrow> (mempool \<times> machine) run" where
  "mempool_create_with_config os ma conf =
     (let pool = \<lparr>free_blocks = (\<lambda>t. 0), block_sizes = type_block_size,
                  pool_sizes = (\<lambda>t. case t of MEMPOOL_TYPE_SMALL \<Rightarrow> small_pool_size conf
                                            | MEMPOOL_TYPE_MEDIUM \<Rightarrow> medium_pool_size conf
                                            | MEMPOOL_TYPE_LARGE \<Rightarrow> large_pool_size conf
                                            | MEMPOOL_TYPE_HUGE \<Rightarrow> huge_pool_size conf),
                  mp_stats = no_stats, use_asm_opt = enable_asm_opt conf, alignment = mc_alignment conf,
                  preallocated_pools = (\<lambda>t. 0), preallocated_sizes = (\<lambda>t. 0),
                  mp_gc_threshold = mc_gc_threshold conf, last_gc_time = 0\<rparr>
      in bindR (prealloc_all os mempool_types (pool, ma)) (\<lambda>(pool, ma). Inr (pool\<lparr>last_gc_time := os_now os\<rparr>, ma)))"

definition mempool_create :: "pool_os \<Rightarrow> machine \<Rightarrow> (mempool \<times> machine) run" where
  "mempool_create os ma = mempool_create_with_config os ma mempool_get_default_config"

section \<open>Allocation\<close>

text \<open>
  The assembler around the system call: the size goes into the register of the address, the
  alignment into that of the length, 0 into the protection and -1 into the flags. Only the
  result -1 is taken for a failure.
\<close>

definition mempool_alloc_aligned_asm_impl :: "pool_os \<Rightarrow> u64 \<Rightarrow> u64 \<Rightarrow> u64" where
  "mempool_alloc_aligned_asm_impl os sz al =
     (let r = os_svc os (sz + al - 1) al 0 (-1) 0 in
      if r = -1 then 0 else (r + al - 1) AND NOT (al - 1))"

text \<open>The assembler loop that clears a block: eight bytes at a time while some are left.\<close>

function zero_words :: "nat \<Rightarrow> nat \<Rightarrow> memory \<Rightarrow> memory run" where
  "zero_words p k m = bindR (store 8 m p 0) (\<lambda>m. if k > 8 then zero_words (p + 8) (k - 8) m else Inr m)"
  by pat_completeness auto
termination by (relation "measure (\<lambda>(p, k, m). k)") auto

declare zero_words.simps [simp del]

definition count_usage :: "nat \<Rightarrow> mempool_stats \<Rightarrow> mempool_stats" where
  "count_usage sz s =
     (let s = s\<lparr>allocation_count := allocation_count s + 1, current_usage := current_usage s + of_nat sz\<rparr>
      in if current_usage s > peak_usage s then s\<lparr>peak_usage := current_usage s\<rparr> else s)"

definition mempool_alloc_asm ::
  "pool_os \<Rightarrow> mempool \<Rightarrow> machine \<Rightarrow> nat \<Rightarrow> (nat \<times> mempool \<times> machine) run" where
  "mempool_alloc_asm os pool ma sz =
     (if sz = 0 then Inr (0, pool, ma)
      else
        let t = get_block_type sz; b = free_blocks pool t in
        if b \<noteq> 0
        then bindR (block_next (ma_bytes ma) b) (\<lambda>nx.
             bindR (store 4 (ma_bytes ma) (b + 12) MEMPOOL_BLOCK_MAGIC) (\<lambda>m.
             bindR (block_size m b) (\<lambda>bs.
             let pool = pool\<lparr>free_blocks := (free_blocks pool)(t := nx),
                             mp_stats := count_usage bs ((mp_stats pool)\<lparr>cache_hits := cache_hits (mp_stats pool) + 1\<rparr>)\<rparr>
             in bindR (if use_asm_opt pool then zero_words (b + 16) bs m else Inr m) (\<lambda>m.
                Inr (b + 16, pool, ma\<lparr>ma_bytes := m\<rparr>)))))
        else
          let pool = pool\<lparr>mp_stats := (mp_stats pool)\<lparr>cache_misses := cache_misses (mp_stats pool) + 1\<rparr>\<rparr>;
              alloc_size = block_sizes pool t + 16;
              (b, ma) = (if use_asm_opt pool
                         then (unat (mempool_alloc_aligned_asm_impl os (of_nat alloc_size) (of_nat (alignment pool))), ma)
                         else (case os_malloc os alloc_size of
                                 None \<Rightarrow> (0, ma)
                               | Some a \<Rightarrow> (a, \<lparr>ma_bytes = map_area a alloc_size (ma_bytes ma), ma_chunks = a # ma_chunks ma\<rparr>)))
          in if b = 0 then Inr (0, pool, ma)
             else bindR (set_header (ma_bytes ma) b 0 (block_sizes pool t) MEMPOOL_BLOCK_MAGIC) (\<lambda>m.
                  let s = count_usage (block_sizes pool t) (mp_stats pool) in
                  Inr (b + 16, pool\<lparr>mp_stats := s\<lparr>total_allocated := total_allocated s + of_nat (block_sizes pool t)\<rparr>\<rparr>,
                       ma\<lparr>ma_bytes := m\<rparr>)))"

text \<open>malloc as the allocator answers it.\<close>

definition os_alloc :: "pool_os \<Rightarrow> machine \<Rightarrow> nat \<Rightarrow> nat \<times> machine" where
  "os_alloc os ma sz =
     (case os_malloc os sz of
        None \<Rightarrow> (0, ma)
      | Some a \<Rightarrow> (a, \<lparr>ma_bytes = map_area a sz (ma_bytes ma), ma_chunks = a # ma_chunks ma\<rparr>))"

text \<open>free: the pointer must be NULL or have come from malloc.\<close>

definition os_free :: "machine \<Rightarrow> nat \<Rightarrow> machine run" where
  "os_free ma a =
     (if a = 0 then Inr ma
      else if a \<in> set (ma_chunks ma) then Inr (ma\<lparr>ma_chunks := remove1 a (ma_chunks ma)\<rparr>)
      else Inl BadPointer)"

definition mempool_alloc ::
  "pool_os \<Rightarrow> mempool \<Rightarrow> machine \<Rightarrow> nat \<Rightarrow> (nat \<times> mempool \<times> machine) run" where
  "mempool_alloc os pool ma sz =
     (if use_asm_opt pool then mempool_alloc_asm os pool ma sz
      else let (a, ma) = os_alloc os ma sz in Inr (a, pool, ma))"

section \<open>Release\<close>

text \<open>The walk over a free list: its blocks, front first.\<close>

partial_function (option) free_list :: "memory \<Rightarrow> nat \<Rightarrow> nat list run option" where
  "free_list m b =
     (if b = 0 then Some (Inr [])
      else case block_next m b of
        Inl f \<Rightarrow> Some (Inl f)
      | Inr nx \<Rightarrow> Option.bind (free_list m nx) (\<lambda>r. Some (bindR r (\<lambda>bs. Inr (b # bs)))))"

text \<open>The release loop of the collection; a block whose magic is not that of a free one is skipped.\<close>

partial_function (option) release_blocks :: "nat \<Rightarrow> nat \<Rightarrow> machine \<Rightarrow> (nat \<times> machine) run option" where
  "release_blocks k b ma =
     (if k = 0 \<or> b = 0 then Some (Inr (b, ma))
      else case block_next (ma_bytes ma) b of
        Inl f \<Rightarrow> Some (Inl f)
      | Inr nx \<Rightarrow>
          (case block_magic (ma_bytes ma) b of
             Inl f \<Rightarrow> Some (Inl f)
           | Inr g \<Rightarrow>
               if g = MEMPOOL_FREE_MAGIC
               then (case os_free ma b of Inl f \<Rightarrow> Some (Inl f) | Inr ma' \<Rightarrow> release_blocks (k - 1) nx ma')
               else release_blocks k nx ma))"

fun gc_types :: "mempool_type_t list \<Rightarrow> mempool \<times> machine \<Rightarrow> (mempool \<times> machine) run option" where
  "gc_types [] st = Some (Inr st)"
| "gc_types (t # ts) (pool, ma) =
     (case free_list (ma_bytes ma) (free_blocks pool t) of
        None \<Rightarrow> None
      | Some (Inl f) \<Rightarrow> Some (Inl f)
      | Some (Inr bs) \<Rightarrow>
          (case release_blocks (length bs - length bs div 2) (free_blocks pool t) ma of
             None \<Rightarrow> None
           | Some (Inl f) \<Rightarrow> Some (Inl f)
           | Some (Inr (b, ma)) \<Rightarrow> gc_types ts (pool\<lparr>free_blocks := (free_blocks pool)(t := b)\<rparr>, ma)))"

definition mempool_gc :: "pool_os \<Rightarrow> mempool \<Rightarrow> machine \<Rightarrow> (mempool \<times> machine) run option" where
  "mempool_gc os pool ma =
     (if os_now os - last_gc_time pool < 1000000 then Some (Inr (pool, ma))
      else case gc_types mempool_types (pool, ma) of
        None \<Rightarrow> None
      | Some r \<Rightarrow> Some (bindR r (\<lambda>(pool, ma). Inr (pool\<lparr>last_gc_time := os_now os\<rparr>, ma))))"

definition mempool_free_asm :: "pool_os \<Rightarrow> mempool \<Rightarrow> machine \<Rightarrow> nat \<Rightarrow> (mempool \<times> machine) run option" where
  "mempool_free_asm os pool ma p =
     (if p = 0 then Some (Inr (pool, ma))
      else
        let b = p - 16 in
        case bindR (block_magic (ma_bytes ma) b) (\<lambda>g.
             if g \<noteq> MEMPOOL_BLOCK_MAGIC then Inr (False, pool, ma)
             else bindR (block_size (ma_bytes ma) b) (\<lambda>bs.
                  let t = get_block_type bs in
                  bindR (store 8 (ma_bytes ma) b (free_blocks pool t)) (\<lambda>m.
                  bindR (store 4 m (b + 12) MEMPOOL_FREE_MAGIC) (\<lambda>m.
                  let s = mp_stats pool in
                  Inr (True,
                       pool\<lparr>free_blocks := (free_blocks pool)(t := b),
                            mp_stats := s\<lparr>free_count := free_count s + 1, current_usage := current_usage s - of_nat bs,
                                          total_freed := total_freed s + of_nat bs\<rparr>\<rparr>,
                       ma\<lparr>ma_bytes := m\<rparr>)))))
        of Inl f \<Rightarrow> Some (Inl f)
         | Inr (done, pool, ma) \<Rightarrow>
             if done \<and> total_freed (mp_stats pool) > mp_gc_threshold pool then mempool_gc os pool ma
             else Some (Inr (pool, ma)))"

definition mempool_free :: "pool_os \<Rightarrow> mempool \<Rightarrow> machine \<Rightarrow> nat \<Rightarrow> (mempool \<times> machine) run option" where
  "mempool_free os pool ma p =
     (if use_asm_opt pool then mempool_free_asm os pool ma p
      else Some (bindR (os_free ma p) (\<lambda>ma. Inr (pool, ma))))"

text \<open>The areas are unmapped first, then the blocks that are left are freed one by one.\<close>

definition unmap_area :: "nat \<Rightarrow> nat \<Rightarrow> memory \<Rightarrow> memory" where
  "unmap_area a n m = (\<lambda>x. if a \<le> x \<and> x < a + n then None else m x)"

fun unmap_all :: "mempool_type_t list \<Rightarrow> mempool \<Rightarrow> memory \<Rightarrow> memory" where
  "unmap_all [] pool m = m"
| "unmap_all (t # ts) pool m =
     unmap_all ts pool (if preallocated_pools pool t \<noteq> 0
                        then unmap_area (preallocated_pools pool t) (preallocated_sizes pool t) m else m)"

partial_function (option) free_chain :: "nat \<Rightarrow> machine \<Rightarrow> machine run option" where
  "free_chain b ma =
     (if b = 0 then Some (Inr ma)
      else case block_next (ma_bytes ma) b of
        Inl f \<Rightarrow> Some (Inl f)
      | Inr nx \<Rightarrow> (case os_free ma b of Inl f \<Rightarrow> Some (Inl f) | Inr ma' \<Rightarrow> free_chain nx ma'))"

fun free_chains :: "mempool_type_t list \<Rightarrow> mempool \<Rightarrow> machine \<Rightarrow> machine run option" where
  "free_chains [] pool ma = Some (Inr ma)"
| "free_chains (t # ts) pool ma =
     (case free_chain (free_blocks pool t) ma of
        None \<Rightarrow> None | Some (Inl f) \<Rightarrow> Some (Inl f) | Some (Inr ma) \<Rightarrow> free_chains ts pool ma)"

definition mempool_destroy :: "mempool \<Rightarrow> machine \<Rightarrow> machine run option" where
  "mempool_destroy pool ma =
     free_chains mempool_types pool (ma\<lparr>ma_bytes := unmap_all mempool_types pool (ma_bytes ma)\<rparr>)"

section \<open>The other operations\<close>

definition mempool_check_block :: "memory \<Rightarrow> nat \<Rightarrow> bool run" where
  "mempool_check_block m p = (if p = 0 then Inr False else bindR (block_magic m (p - 16)) (\<lambda>g. Inr (g = MEMPOOL_BLOCK_MAGIC)))"

definition mempool_calloc ::
  "pool_os \<Rightarrow> mempool \<Rightarrow> machine \<Rightarrow> nat \<Rightarrow> nat \<Rightarrow> (nat \<times> mempool \<times> machine) run" where
  "mempool_calloc os pool ma nmemb sz =
     (let total_size = (nmemb * sz) mod 2 ^ 64 in
      bindR (mempool_alloc os pool ma total_size) (\<lambda>(p, pool, ma).
        if p \<noteq> 0
        then bindR (write_bytes (replicate total_size 0) (ma_bytes ma) p) (\<lambda>m. Inr (p, pool, ma\<lparr>ma_bytes := m\<rparr>))
        else Inr (p, pool, ma)))"

definition mempool_realloc ::
  "pool_os \<Rightarrow> mempool \<Rightarrow> machine \<Rightarrow> nat \<Rightarrow> nat \<Rightarrow> (nat \<times> mempool \<times> machine) run option" where
  "mempool_realloc os pool ma p new_size =
     (if p = 0 then Some (mempool_alloc os pool ma new_size)
      else if new_size = 0
        then map_option (\<lambda>r. bindR r (\<lambda>(pool, ma). Inr (0, pool, ma))) (mempool_free os pool ma p)
      else case mempool_alloc os pool ma new_size of
        Inl f \<Rightarrow> Some (Inl f)
      | Inr (q, pool, ma) \<Rightarrow>
          if q = 0 then Some (Inr (0, pool, ma))
          else if \<not> mapped (ma_bytes ma) p new_size then Some (Inl BadPointer)
          else case write_bytes (List.map (\<lambda>x. the (ma_bytes ma x)) [p..<p + new_size]) (ma_bytes ma) q of
            Inl f \<Rightarrow> Some (Inl f)
          | Inr m \<Rightarrow> map_option (\<lambda>r. bindR r (\<lambda>(pool, ma). Inr (q, pool, ma))) (mempool_free os pool (ma\<lparr>ma_bytes := m\<rparr>) p))"

definition mempool_reset :: "mempool \<Rightarrow> mempool" where
  "mempool_reset pool = pool\<lparr>free_blocks := (\<lambda>t. 0), mp_stats := no_stats\<rparr>"

definition mempool_reset_stats :: "mempool \<Rightarrow> mempool" where
  "mempool_reset_stats pool = pool\<lparr>mp_stats := no_stats\<rparr>"

definition mempool_set_gc_threshold :: "u64 \<Rightarrow> mempool \<Rightarrow> mempool" where
  "mempool_set_gc_threshold threshold pool = pool\<lparr>mp_gc_threshold := threshold\<rparr>"

definition mempool_enable_asm_opt :: "bool \<Rightarrow> mempool \<Rightarrow> mempool" where
  "mempool_enable_asm_opt enable pool = pool\<lparr>use_asm_opt := enable\<rparr>"

definition mempool_get_stats :: "mempool \<Rightarrow> mempool_stats" where
  "mempool_get_stats pool = mp_stats pool"

definition mempool_check_leaks :: "mempool \<Rightarrow> (u64 \<times> u64) option" where
  "mempool_check_leaks pool =
     (let s = mp_stats pool in
      if allocation_count s > free_count s then Some (allocation_count s - free_count s, current_usage s) else None)"

partial_function (option) validate_chain :: "memory \<Rightarrow> nat \<Rightarrow> bool run option" where
  "validate_chain m b =
     (if b = 0 then Some (Inr True)
      else case block_magic m b of
        Inl f \<Rightarrow> Some (Inl f)
      | Inr g \<Rightarrow>
          if g \<noteq> MEMPOOL_FREE_MAGIC then Some (Inr False)
          else (case block_next m b of Inl f \<Rightarrow> Some (Inl f) | Inr nx \<Rightarrow> validate_chain m nx))"

fun validate_types :: "mempool_type_t list \<Rightarrow> mempool \<Rightarrow> memory \<Rightarrow> bool run option" where
  "validate_types [] pool m = Some (Inr True)"
| "validate_types (t # ts) pool m =
     (case validate_chain m (free_blocks pool t) of
        None \<Rightarrow> None
      | Some (Inl f) \<Rightarrow> Some (Inl f)
      | Some (Inr v) \<Rightarrow> if v then validate_types ts pool m else Some (Inr False))"

definition mempool_validate :: "mempool \<Rightarrow> memory \<Rightarrow> bool run option" where
  "mempool_validate pool m = validate_types mempool_types pool m"

section \<open>The manager\<close>

text \<open>A pool for each class, every one of them with areas for all four.\<close>

type_synonym mempool_manager = "mempool_type_t \<Rightarrow> mempool"

fun create_pools :: "(mempool_type_t \<Rightarrow> pool_os) \<Rightarrow> mempool_type_t list \<Rightarrow> mempool_manager \<times> machine \<Rightarrow> (mempool_manager \<times> machine) run" where
  "create_pools os [] st = Inr st"
| "create_pools os (t # ts) (mgr, ma) =
     bindR (mempool_create (os t) ma) (\<lambda>(pool, ma). create_pools os ts (mgr(t := pool), ma))"

definition mempool_manager_alloc ::
  "pool_os \<Rightarrow> mempool_manager \<Rightarrow> machine \<Rightarrow> nat \<Rightarrow> (nat \<times> mempool_manager \<times> machine) run" where
  "mempool_manager_alloc os mgr ma sz =
     (let t = get_block_type sz in
      bindR (mempool_alloc os (mgr t) ma sz) (\<lambda>(p, pool, ma). Inr (p, mgr(t := pool), ma)))"

fun manager_free_in :: "pool_os \<Rightarrow> mempool_type_t list \<Rightarrow> mempool_manager \<Rightarrow> machine \<Rightarrow> nat \<Rightarrow> (mempool_manager \<times> machine) run option" where
  "manager_free_in os [] mgr ma p = Some (bindR (os_free ma p) (\<lambda>ma. Inr (mgr, ma)))"
| "manager_free_in os (t # ts) mgr ma p =
     (case mempool_check_block (ma_bytes ma) p of
        Inl f \<Rightarrow> Some (Inl f)
      | Inr True \<Rightarrow> map_option (\<lambda>r. bindR r (\<lambda>(pool, ma). Inr (mgr(t := pool), ma))) (mempool_free os (mgr t) ma p)
      | Inr False \<Rightarrow> manager_free_in os ts mgr ma p)"

definition mempool_manager_free :: "pool_os \<Rightarrow> mempool_manager \<Rightarrow> machine \<Rightarrow> nat \<Rightarrow> (mempool_manager \<times> machine) run option" where
  "mempool_manager_free os mgr ma p = manager_free_in os mempool_types mgr ma p"

section \<open>Reading back\<close>

lemma length_le_bytes [simp]: "length (le_bytes n v) = n"
  by (induction n v rule: le_bytes.induct) auto

lemma le_val_le_bytes: "le_val (le_bytes n v) = v mod 256 ^ n"
proof (induction n v rule: le_bytes.induct)
  case (2 n v)
  have "v mod 256 ^ Suc n = v mod 256 + 256 * (v div 256 mod 256 ^ n)"
    using mod_mult2_eq [of v 256 "256 ^ n"] by simp
  with 2 show ?case by (simp add: unat_of_nat)
qed simp

lemma mapped_iff: "mapped m a n \<longleftrightarrow> (\<forall>x. a \<le> x \<and> x < a + n \<longrightarrow> m x \<noteq> None)"
  by (auto simp: mapped_def list_all_iff)

lemma mapped_part: "mapped m a n \<Longrightarrow> a \<le> b \<Longrightarrow> b + k \<le> a + n \<Longrightarrow> mapped m b k"
  by (auto simp: mapped_iff)

text \<open>A write of \<open>n\<close> bytes at \<open>a\<close> that succeeds: what it leaves.\<close>

definition written_at :: "memory \<Rightarrow> nat \<Rightarrow> nat \<Rightarrow> memory \<Rightarrow> bool" where
  "written_at m a n m' \<longleftrightarrow>
     (\<forall>b k. mapped m' b k = mapped m b k) \<and> (\<forall>b k. b + k \<le> a \<or> a + n \<le> b \<longrightarrow> load k m' b = load k m b)"

lemma write_bytes_spec:
  assumes "mapped m a (length bs)"
  shows "\<exists>m'. write_bytes bs m a = Inr m' \<and> written_at m a (length bs) m' \<and> load (length bs) m' a = Inr (le_val bs)"
proof -
  let ?m = "\<lambda>x. if a \<le> x \<and> x < a + length bs then Some (bs ! (x - a)) else m x"
  have "mapped ?m b k = mapped m b k" for b k using assms by (auto simp: mapped_iff)
  moreover have "load k ?m b = load k m b" if "b + k \<le> a \<or> a + length bs \<le> b" for b k
  proof -
    have "List.map (\<lambda>x. the (?m x)) [b..<b + k] = List.map (\<lambda>x. the (m x)) [b..<b + k]" using that by auto
    with calculation show ?thesis unfolding load_def by (simp only:)
  qed
  moreover have "load (length bs) ?m a = Inr (le_val bs)"
  proof -
    have "List.map (\<lambda>x. the (?m x)) [a..<a + length bs] = bs" by (auto intro!: nth_equalityI)
    with calculation(1) assms show ?thesis unfolding load_def by simp
  qed
  ultimately show ?thesis using assms by (simp add: write_bytes_def written_at_def)
qed

lemma store_spec:
  assumes "mapped m a n"
  shows "\<exists>m'. store n m a v = Inr m' \<and> written_at m a n m' \<and> load n m' a = Inr (v mod 256 ^ n)"
  using write_bytes_spec [of m a "le_bytes n v"] assms by (simp add: store_def le_val_le_bytes)

lemma store_fault: "\<not> mapped m a n \<Longrightarrow> store n m a v = Inl BadPointer"
  by (simp add: store_def write_bytes_def)

lemma written_trans:
  "written_at m a n m1 \<Longrightarrow> written_at m1 b k m2 \<Longrightarrow> c \<le> a \<Longrightarrow> a + n \<le> c + l \<Longrightarrow> c \<le> b \<Longrightarrow> b + k \<le> c + l \<Longrightarrow> written_at m c l m2"
  by (auto simp: written_at_def)

text \<open>The header of a block as one fact.\<close>

definition header :: "memory \<Rightarrow> nat \<Rightarrow> nat \<Rightarrow> nat \<Rightarrow> nat \<Rightarrow> bool" where
  "header m b nx sz g \<longleftrightarrow> block_next m b = Inr nx \<and> block_size m b = Inr sz \<and> block_magic m b = Inr g"

lemma header_frame: "written_at m a n m' \<Longrightarrow> b + 16 \<le> a \<or> a + n \<le> b \<Longrightarrow> header m' b = header m b"
  by (intro ext) (auto simp: header_def block_next_def block_size_def block_magic_def written_at_def)

lemma load_mapped: "load n m a = Inr v \<Longrightarrow> mapped m a n"
  by (auto simp: load_def split: if_splits)

lemma header_mapped: "header m b nx sz g \<Longrightarrow> mapped m b 16"
proof -
  assume "header m b nx sz g"
  then have parts: "mapped m b 8" "mapped m (b + 8) 4" "mapped m (b + 12) 4"
    by (auto simp: header_def block_next_def block_size_def block_magic_def dest: load_mapped)
  show "mapped m b 16"
    unfolding mapped_iff
  proof (intro allI impI)
    fix x
    assume "b \<le> x \<and> x < b + 16"
    then consider "b \<le> x \<and> x < b + 8" | "b + 8 \<le> x \<and> x < b + 8 + 4" | "b + 12 \<le> x \<and> x < b + 12 + 4" by linarith
    then show "m x \<noteq> None" using parts unfolding mapped_iff by cases blast+
  qed
qed

lemma set_header_spec:
  assumes "mapped m b 16" "nx < 2 ^ 64" "sz < 2 ^ 32" "g < 2 ^ 32"
  shows "\<exists>m'. set_header m b nx sz g = Inr m' \<and> written_at m b 16 m' \<and> header m' b nx sz g"
proof -
  have p: "mapped m b 8" "mapped m (b + 8) 4" "mapped m (b + 12) 4" using assms(1) by (auto intro: mapped_part)
  obtain m1 where 1: "store 8 m b nx = Inr m1" "written_at m b 8 m1" "load 8 m1 b = Inr nx"
    using store_spec [OF p(1), of nx] assms(2) by auto
  obtain m2 where 2: "store 4 m1 (b + 8) sz = Inr m2" "written_at m1 (b + 8) 4 m2" "load 4 m2 (b + 8) = Inr sz"
    using store_spec [of m1 "b + 8" 4 sz] p(2) 1(2) assms(3) by (auto simp: written_at_def)
  obtain m3 where 3: "store 4 m2 (b + 12) g = Inr m3" "written_at m2 (b + 12) 4 m3" "load 4 m3 (b + 12) = Inr g"
    using store_spec [of m2 "b + 12" 4 g] p(3) 1(2) 2(2) assms(4) by (auto simp: written_at_def)
  have "written_at m b 16 m2" using written_trans [OF 1(2) 2(2), of b 16] by simp
  then have "written_at m b 16 m3" using written_trans [OF _ 3(2), of m b 16 b 16] by simp
  moreover have "header m3 b nx sz g"
    using 1 2 3 by (simp add: header_def block_next_def block_size_def block_magic_def written_at_def)
  ultimately show ?thesis using 1 2 3 by (auto simp: set_header_def)
qed

lemma zero_words_spec:
  assumes "mapped m p n" "k \<le> n" "8 dvd n" "n < k + 8" "0 < k"
  shows "\<exists>m'. zero_words p k m = Inr m' \<and> written_at m p n m' \<and> (\<forall>b. p \<le> b \<and> b < p + n \<longrightarrow> m' b = Some 0)"
  using assms
proof (induction p k m arbitrary: n rule: zero_words.induct)
  case (1 p k m)
  from "1.prems" have n8: "8 \<le> n" by (auto dest: dvd_imp_le)
  then have mp: "mapped m p 8" using "1.prems"(1) by (auto intro: mapped_part)
  let ?m = "\<lambda>x. if p \<le> x \<and> x < p + 8 then Some 0 else m x"
  have bs: "le_bytes 8 0 = replicate 8 0"
  proof -
    have "le_bytes k 0 = replicate k 0" for k by (induction k) simp_all
    then show ?thesis .
  qed
  have z: "replicate 8 (0 :: u8) ! i = 0" if "i < 8" for i using that by (rule nth_replicate)
  have "store 8 m p 0 = Inr (\<lambda>x. if p \<le> x \<and> x < p + 8 then Some (le_bytes 8 0 ! (x - p)) else m x)"
    using mp by (simp add: store_def write_bytes_def del: le_bytes.simps)
  also have "(\<lambda>x. if p \<le> x \<and> x < p + 8 then Some (le_bytes 8 0 ! (x - p)) else m x) = ?m"
    unfolding bs by (rule ext) (use z in auto)
  finally have s: "store 8 m p 0 = Inr ?m" .
  have w: "written_at m p 8 ?m" using store_spec [OF mp, of 0] s by auto
  show ?case
  proof (cases "k > 8")
    case True
    have "mapped ?m (p + 8) (n - 8)" using w "1.prems"(1) n8 by (auto simp: written_at_def intro: mapped_part)
    moreover have "8 dvd n - 8" using "1.prems"(3) by (simp add: dvd_diff_nat)
    moreover have "k - 8 \<le> n - 8" "n - 8 < k - 8 + 8" "0 < k - 8" using "1.prems" True by linarith+
    ultimately obtain m' where m': "zero_words (p + 8) (k - 8) ?m = Inr m'" "written_at ?m (p + 8) (n - 8) m'"
      "\<forall>b. p + 8 \<le> b \<and> b < p + 8 + (n - 8) \<longrightarrow> m' b = Some 0"
      using "1.IH" [OF s True, of "n - 8"] by blast
    have "m' x = Some 0" if "p \<le> x" "x < p + 8" for x
    proof -
      have "mapped m x 1" using mp that by (auto intro: mapped_part)
      then have "mapped m' x 1" using m'(2) w by (simp add: written_at_def)
      then obtain y where y: "m' x = Some y" by (auto simp: mapped_iff)
      moreover have "load 1 m' x = load 1 ?m x" using m'(2) that by (simp add: written_at_def)
      ultimately have "unat y = 0" using that by (auto simp: load_def mapped_iff split: if_splits)
      then show ?thesis using y by (simp add: unat_eq_zero)
    qed
    then have "\<forall>b. p \<le> b \<and> b < p + n \<longrightarrow> m' b = Some 0" using m'(3) n8 by (metis add.assoc le_add_diff_inverse not_le)
    moreover have "written_at m p n m'" using written_trans [OF w m'(2), of p n] n8 by simp
    ultimately show ?thesis using m'(1) s True by (simp add: zero_words.simps [of p k m])
  next
    case False
    with "1.prems" have "n = 8" by (auto elim!: dvdE)
    with False s w show ?thesis by (auto simp: zero_words.simps [of p k m])
  qed
qed

section \<open>Free lists\<close>

fun front :: "nat list \<Rightarrow> nat" where
  "front [] = 0"
| "front (x # xs) = x"

fun chain :: "memory \<Rightarrow> nat \<Rightarrow> nat \<Rightarrow> nat list \<Rightarrow> bool" where
  "chain m sz b [] \<longleftrightarrow> b = 0"
| "chain m sz b (x # xs) \<longleftrightarrow> b = x \<and> x \<noteq> 0 \<and> header m x (front xs) sz MEMPOOL_FREE_MAGIC \<and> chain m sz (front xs) xs"

lemma chain_front: "chain m sz b xs \<Longrightarrow> b = front xs"
  by (cases xs) auto

lemma chain_member: "chain m sz b xs \<Longrightarrow> x \<in> set xs \<Longrightarrow> x \<noteq> 0 \<and> (\<exists>nx. header m x nx sz MEMPOOL_FREE_MAGIC)"
  by (induction xs arbitrary: b) auto

lemma chain_frame:
  assumes "written_at m a n m'" "\<forall>x\<in>set xs. x + 16 \<le> a \<or> a + n \<le> x"
  shows "chain m' sz b xs = chain m sz b xs"
  using assms(2) by (induction xs arbitrary: b) (auto simp: header_frame [OF assms(1)])

lemma free_list_chain: "chain m sz b xs \<Longrightarrow> free_list m b = Some (Inr xs)"
  by (induction xs arbitrary: b) (auto simp: free_list.simps header_def)

lemma validate_chain_ok: "chain m sz b xs \<Longrightarrow> validate_chain m b = Some (Inr True)"
  by (induction xs arbitrary: b) (auto simp: validate_chain.simps header_def)

definition blocks_of :: "nat \<Rightarrow> nat \<Rightarrow> nat \<Rightarrow> nat list" where
  "blocks_of a bs n = List.map (\<lambda>i. a + i * bs) [0..<n]"

lemma blocks_of_Suc: "blocks_of a bs (Suc n) = a # blocks_of (a + bs) bs n"
proof -
  have "[0..<Suc n] = 0 # List.map Suc [0..<n]" using map_Suc_upt [of 0 n] by (simp add: upt_conv_Cons del: upt_Suc)
  then show ?thesis by (simp add: blocks_of_def comp_def add.assoc del: upt_Suc)
qed

lemma free_magic_small: "MEMPOOL_FREE_MAGIC < 2 ^ 32" "MEMPOOL_BLOCK_MAGIC < 2 ^ 32" "MEMPOOL_FREE_MAGIC \<noteq> MEMPOOL_BLOCK_MAGIC"
  by (simp_all add: MEMPOOL_FREE_MAGIC_def MEMPOOL_BLOCK_MAGIC_def)

lemma carve_spec:
  assumes "mapped m p (n * bs)" "16 \<le> bs" "bs < 2 ^ 32" "p + n * bs \<le> 2 ^ 64" "0 < p" "h < 2 ^ 64"
    "chain m bs h hs" "\<forall>x\<in>set hs. x + 16 \<le> p"
  shows "\<exists>h' m'. carve n p bs h m = Inr (h', m') \<and> chain m' bs h' (rev (blocks_of p bs n) @ hs) \<and> written_at m p (n * bs) m'"
  using assms
proof (induction n arbitrary: p h m hs)
  case 0
  then show ?case by (simp add: blocks_of_def written_at_def)
next
  case (Suc n)
  have mp: "mapped m p 16" using Suc.prems(1,2) by (rule_tac mapped_part) auto
  obtain m1 where 1: "set_header m p h bs MEMPOOL_FREE_MAGIC = Inr m1" "written_at m p 16 m1" "header m1 p h bs MEMPOOL_FREE_MAGIC"
    using set_header_spec [OF mp, of h bs MEMPOOL_FREE_MAGIC] Suc.prems free_magic_small by auto
  have "chain m1 bs h hs" using chain_frame [OF 1(2), of hs bs h] Suc.prems(7,8) by auto
  with 1(3) Suc.prems(5) chain_front [OF this] have c: "chain m1 bs p (p # hs)" by simp
  have "mapped m1 (p + bs) (n * bs)" using 1(2) Suc.prems(1) by (auto simp: written_at_def intro: mapped_part)
  moreover have "\<forall>x\<in>set (p # hs). x + 16 \<le> p + bs" using Suc.prems(2,8) by fastforce
  ultimately obtain h' m' where r: "carve n (p + bs) bs p m1 = Inr (h', m')"
    "chain m' bs h' (rev (blocks_of (p + bs) bs n) @ p # hs)" "written_at m1 (p + bs) (n * bs) m'"
    using Suc.IH [of m1 "p + bs" p "p # hs"] Suc.prems c by auto
  have "written_at m p (Suc n * bs) m'"
    using written_trans [OF 1(2) r(3), of p "Suc n * bs"] Suc.prems(2) by (simp add: add.assoc)
  with 1 r show ?case by (simp add: blocks_of_Suc)
qed

lemma map_area_mapped [simp]: "mapped (map_area a n m) a n"
  by (simp add: mapped_iff map_area_def)

text \<open>What an area brings to an empty class.\<close>

lemma prealloc_run:
  fixes ma :: machine
  assumes "os_mmap os t = Some a" "0 < a" "a + block_sizes pool t * count \<le> 2 ^ 64" "free_blocks pool t = 0"
    and "16 \<le> block_sizes pool t" "block_sizes pool t < 2 ^ 32"
  shows "\<exists>h m. mempool_prealloc os pool ma t count =
      Inr (0, pool\<lparr>free_blocks := (free_blocks pool)(t := h), preallocated_pools := (preallocated_pools pool)(t := a),
                   preallocated_sizes := (preallocated_sizes pool)(t := block_sizes pool t * count)\<rparr>, ma\<lparr>ma_bytes := m\<rparr>) \<and>
    chain m (block_sizes pool t) h (rev (blocks_of a (block_sizes pool t) count)) \<and>
    written_at (map_area a (block_sizes pool t * count) (ma_bytes ma)) a (block_sizes pool t * count) m"
proof -
  let ?bs = "block_sizes pool t" and ?area = "map_area a (block_sizes pool t * count) (ma_bytes ma)"
  have t: "(?bs * count) mod 2 ^ 64 = ?bs * count" using assms(2,3) by simp
  have "mapped ?area a (count * ?bs)" using map_area_mapped [of a "?bs * count"] by (simp add: mult.commute)
  then obtain h m where r: "carve count a ?bs 0 ?area = Inr (h, m)" "chain m ?bs h (rev (blocks_of a ?bs count) @ [])"
      "written_at ?area a (count * ?bs) m"
    using carve_spec [of ?area a count ?bs 0 "[]"] assms by (auto simp: mult.commute)
  have "mempool_prealloc os pool ma t count =
      Inr (0, pool\<lparr>free_blocks := (free_blocks pool)(t := h), preallocated_pools := (preallocated_pools pool)(t := a),
                   preallocated_sizes := (preallocated_sizes pool)(t := ?bs * count)\<rparr>, ma\<lparr>ma_bytes := m\<rparr>)"
    unfolding mempool_prealloc_def t assms(1) assms(4) Let_def option.case r(1) by (simp add: assms(4) r(1))
  with r(2,3) show ?thesis by (auto simp: mult.commute)
qed

text \<open>Preallocation: the area that was mapped for a class without free blocks becomes its free list,
the blocks at their distance of one block size, the last first, each with its size and the mark of
a free block; the list is valid, its walk ends, and no byte outside of the area has changed.\<close>

theorem mempool_prealloc_list:
  assumes "os_mmap os t = Some a" and "0 < a" and "a + block_sizes pool t * count \<le> 2 ^ 64"
    and "free_blocks pool t = 0" and "16 \<le> block_sizes pool t" and "block_sizes pool t < 2 ^ 32"
  shows "\<exists>pool' ma'. mempool_prealloc os pool ma t count = Inr (0, pool', ma') \<and>
    free_list (ma_bytes ma') (free_blocks pool' t) = Some (Inr (rev (blocks_of a (block_sizes pool t) count))) \<and>
    validate_chain (ma_bytes ma') (free_blocks pool' t) = Some (Inr True) \<and>
    (\<forall>b k. b + k \<le> a \<or> a + block_sizes pool t * count \<le> b \<longrightarrow> load k (ma_bytes ma') b = load k (ma_bytes ma) b)"
proof -
  let ?n = "block_sizes pool t * count"
  from prealloc_run [OF assms, of ma] obtain h m where r: "mempool_prealloc os pool ma t count =
      Inr (0, pool\<lparr>free_blocks := (free_blocks pool)(t := h), preallocated_pools := (preallocated_pools pool)(t := a),
                   preallocated_sizes := (preallocated_sizes pool)(t := ?n)\<rparr>, ma\<lparr>ma_bytes := m\<rparr>)"
    and c: "chain m (block_sizes pool t) h (rev (blocks_of a (block_sizes pool t) count))"
    and w: "written_at (map_area a ?n (ma_bytes ma)) a ?n m" by blast
  have "load k (map_area a ?n (ma_bytes ma)) b = load k (ma_bytes ma) b" if "b + k \<le> a \<or> a + ?n \<le> b" for b k
  proof -
    have same: "map_area a ?n (ma_bytes ma) x = ma_bytes ma x" if "b \<le> x" "x < b + k" for x
      using that \<open>b + k \<le> a \<or> a + ?n \<le> b\<close> by (auto simp: map_area_def)
    then have "mapped (map_area a ?n (ma_bytes ma)) b k = mapped (ma_bytes ma) b k" by (auto simp: mapped_iff)
    moreover have "List.map (\<lambda>x. the (map_area a ?n (ma_bytes ma) x)) [b..<b + k] = List.map (\<lambda>x. the (ma_bytes ma x)) [b..<b + k]"
      using same by (auto simp: list_eq_iff_nth_eq)
    ultimately show ?thesis unfolding load_def by (simp only:)
  qed
  with w have "\<forall>b k. b + k \<le> a \<or> a + ?n \<le> b \<longrightarrow> load k m b = load k (ma_bytes ma) b" by (simp add: written_at_def)
  with r free_list_chain [OF c] validate_chain_ok [OF c] show ?thesis by simp
qed

definition sample_os :: pool_os where
  "sample_os = \<lparr>os_mmap = (\<lambda>t. Some 4096), os_malloc = (\<lambda>n. None), os_svc = (\<lambda>a l p f d. - 22), os_now = 2000000\<rparr>"

definition sample_pool :: mempool where
  "sample_pool = \<lparr>free_blocks = (\<lambda>t. 0), block_sizes = type_block_size, pool_sizes = (\<lambda>t. 4096), mp_stats = no_stats,
     use_asm_opt = True, alignment = 16, preallocated_pools = (\<lambda>t. 0), preallocated_sizes = (\<lambda>t. 0),
     mp_gc_threshold = 1000000, last_gc_time = 0\<rparr>"

definition no_memory :: machine where
  "no_memory = \<lparr>ma_bytes = (\<lambda>x. None), ma_chunks = []\<rparr>"

theorem mempool_prealloc_list_witness:
  "\<exists>pool' ma'. mempool_prealloc sample_os sample_pool no_memory MEMPOOL_TYPE_SMALL 3 = Inr (0, pool', ma') \<and>
    free_list (ma_bytes ma') (free_blocks pool' MEMPOOL_TYPE_SMALL) = Some (Inr [4352, 4224, 4096])"
proof -
  have b: "rev (blocks_of 4096 128 3) = [4352, 4224, 4096]" by (simp add: blocks_of_def upt_rec)
  have "os_mmap sample_os MEMPOOL_TYPE_SMALL = Some 4096" by (simp add: sample_os_def)
  from mempool_prealloc_list [OF this, of sample_pool 3 no_memory] show ?thesis
    unfolding b [symmetric] by (auto simp: sample_pool_def)
qed

section \<open>The free lists as stacks\<close>

lemma mark_block:
  assumes "header m b nx sz g" "g' < 2 ^ 32"
  shows "\<exists>m'. store 4 m (b + 12) g' = Inr m' \<and> written_at m (b + 12) 4 m' \<and> header m' b nx sz g'"
proof -
  have "mapped m (b + 12) 4" using header_mapped [OF assms(1)] by (auto intro: mapped_part)
  from store_spec [OF this, of g'] obtain m' where "store 4 m (b + 12) g' = Inr m'" "written_at m (b + 12) 4 m'"
    "load 4 m' (b + 12) = Inr g'" using assms(2) by auto
  with assms(1) show ?thesis by (auto simp: header_def block_next_def block_size_def block_magic_def written_at_def)
qed

lemma link_block:
  assumes "header m b nx sz g" "nx' < 2 ^ 64" "g' < 2 ^ 32"
  shows "\<exists>m1 m'. store 8 m b nx' = Inr m1 \<and> store 4 m1 (b + 12) g' = Inr m' \<and> written_at m b 16 m' \<and> header m' b nx' sz g'"
proof -
  have "mapped m b 8" using header_mapped [OF assms(1)] by (auto intro: mapped_part)
  from store_spec [OF this, of nx'] obtain m1 where m1: "store 8 m b nx' = Inr m1" "written_at m b 8 m1" "load 8 m1 b = Inr nx'"
    using assms(2) by auto
  with assms(1) have "header m1 b nx' sz g" by (auto simp: header_def block_next_def block_size_def block_magic_def written_at_def)
  from mark_block [OF this assms(3)] obtain m' where m': "store 4 m1 (b + 12) g' = Inr m'" "written_at m1 (b + 12) 4 m'"
    "header m' b nx' sz g'" by blast
  moreover have "written_at m b 16 m'" using written_trans [OF m1(2) m'(2), of b 16] by simp
  ultimately show ?thesis using m1(1) by blast
qed

lemma alloc_hit:
  assumes "0 < sz" "free_blocks pool (get_block_type sz) = b" "b \<noteq> 0" "header (ma_bytes ma) b nx bs g"
  shows "\<exists>m1 pool'. written_at (ma_bytes ma) (b + 12) 4 m1 \<and> header m1 b nx bs MEMPOOL_BLOCK_MAGIC \<and>
    mempool_alloc_asm os pool ma sz =
      bindR (if use_asm_opt pool then zero_words (b + 16) bs m1 else Inr m1) (\<lambda>m2. Inr (b + 16, pool', ma\<lparr>ma_bytes := m2\<rparr>)) \<and>
    free_blocks pool' = (free_blocks pool)(get_block_type sz := nx) \<and>
    current_usage (mp_stats pool') = current_usage (mp_stats pool) + of_nat bs \<and>
    total_freed (mp_stats pool') = total_freed (mp_stats pool) \<and>
    mp_gc_threshold pool' = mp_gc_threshold pool \<and> use_asm_opt pool' = use_asm_opt pool"
proof -
  from mark_block [OF assms(4) free_magic_small(2)] obtain m1 where
    m1: "store 4 (ma_bytes ma) (b + 12) MEMPOOL_BLOCK_MAGIC = Inr m1" "written_at (ma_bytes ma) (b + 12) 4 m1"
    "header m1 b nx bs MEMPOOL_BLOCK_MAGIC" by blast
  let ?pool = "pool\<lparr>free_blocks := (free_blocks pool)(get_block_type sz := nx),
    mp_stats := count_usage bs ((mp_stats pool)\<lparr>cache_hits := cache_hits (mp_stats pool) + 1\<rparr>)\<rparr>"
  have "block_next (ma_bytes ma) b = Inr nx" "block_size m1 b = Inr bs" using assms(4) m1(3) by (simp_all add: header_def)
  with m1(1) assms(1-3) have "mempool_alloc_asm os pool ma sz =
      bindR (if use_asm_opt pool then zero_words (b + 16) bs m1 else Inr m1) (\<lambda>m2. Inr (b + 16, ?pool, ma\<lparr>ma_bytes := m2\<rparr>))"
    by (simp add: mempool_alloc_asm_def Let_def)
  with m1 show ?thesis by (intro exI [of _ m1] exI [of _ ?pool]) (simp add: count_usage_def Let_def)
qed

lemma free_hit:
  assumes "header (ma_bytes ma) b nx bs MEMPOOL_BLOCK_MAGIC" "free_blocks pool (get_block_type bs) < 2 ^ 64"
    "\<not> total_freed (mp_stats pool) + of_nat bs > mp_gc_threshold pool"
  shows "\<exists>m' pool'. written_at (ma_bytes ma) b 16 m' \<and>
    header m' b (free_blocks pool (get_block_type bs)) bs MEMPOOL_FREE_MAGIC \<and>
    mempool_free_asm os pool ma (b + 16) = Some (Inr (pool', ma\<lparr>ma_bytes := m'\<rparr>)) \<and>
    free_blocks pool' = (free_blocks pool)(get_block_type bs := b) \<and>
    current_usage (mp_stats pool') = current_usage (mp_stats pool) - of_nat bs \<and> use_asm_opt pool' = use_asm_opt pool"
proof -
  from link_block [OF assms(1,2) free_magic_small(1)] obtain m1 m' where
    m': "store 8 (ma_bytes ma) b (free_blocks pool (get_block_type bs)) = Inr m1" "store 4 m1 (b + 12) MEMPOOL_FREE_MAGIC = Inr m'"
    "written_at (ma_bytes ma) b 16 m'" "header m' b (free_blocks pool (get_block_type bs)) bs MEMPOOL_FREE_MAGIC" by blast
  let ?s = "mp_stats pool"
  let ?pool = "pool\<lparr>free_blocks := (free_blocks pool)(get_block_type bs := b),
     mp_stats := ?s\<lparr>free_count := free_count ?s + 1, current_usage := current_usage ?s - of_nat bs, total_freed := total_freed ?s + of_nat bs\<rparr>\<rparr>"
  have "mempool_free_asm os pool ma (b + 16) = Some (Inr (?pool, ma\<lparr>ma_bytes := m'\<rparr>))"
    using assms m' by (simp add: mempool_free_asm_def Let_def header_def)
  with m' show ?thesis by (intro exI [of _ m'] exI [of _ ?pool]) simp
qed

lemma free_refused:
  assumes "block_magic (ma_bytes ma) b = Inr g" "g \<noteq> MEMPOOL_BLOCK_MAGIC"
  shows "mempool_free_asm os pool ma (b + 16) = Some (Inr (pool, ma))"
  using assms by (simp add: mempool_free_asm_def)

definition apart :: "nat \<Rightarrow> nat \<Rightarrow> bool" where
  "apart x y \<longleftrightarrow> x + 16 \<le> y \<or> y + 16 \<le> x"

text \<open>
  The contract of the pool: for each class a stack \<open>F\<close> of free blocks, and the blocks in use
  with their class (\<open>U\<close>). The headers do not overlap, and the usage is the size of what is in use.
\<close>

definition pool_rel :: "mempool \<Rightarrow> memory \<Rightarrow> (mempool_type_t \<Rightarrow> nat list) \<Rightarrow> (nat \<rightharpoonup> mempool_type_t) \<Rightarrow> bool" where
  "pool_rel pool m F U \<longleftrightarrow>
     (\<forall>t. chain m (type_block_size t) (free_blocks pool t) (F t) \<and> distinct (F t)) \<and>
     (\<forall>b t. U b = Some t \<longrightarrow> b \<noteq> 0 \<and> (\<exists>nx. header m b nx (type_block_size t) MEMPOOL_BLOCK_MAGIC)) \<and>
     (let all = (\<Union>t. set (F t)) \<union> dom U in
        (\<forall>x\<in>all. x < 2 ^ 64 \<and> (\<forall>y\<in>all. x \<noteq> y \<longrightarrow> apart x y))) \<and>
     finite (dom U) \<and> current_usage (mp_stats pool) = of_nat (\<Sum>b\<in>dom U. type_block_size (the (U b)))"

lemma type_block_size_type [simp]: "get_block_type (type_block_size t) = t"
  by (cases t) (simp_all add: get_block_type_def)

lemma header_unique: "header m b nx sz g \<Longrightarrow> header m b nx' sz' g' \<Longrightarrow> nx' = nx \<and> sz' = sz \<and> g' = g"
  by (simp add: header_def)

lemma type_block_size_inj: "type_block_size t = type_block_size t' \<Longrightarrow> t = t'"
  by (cases t; cases t') simp_all

lemma pool_relD:
  assumes "pool_rel pool m F U"
  shows "chain m (type_block_size t) (free_blocks pool t) (F t)" "distinct (F t)"
    "U b = Some t \<Longrightarrow> b \<noteq> 0 \<and> (\<exists>nx. header m b nx (type_block_size t) MEMPOOL_BLOCK_MAGIC)"
    "x \<in> (\<Union>t. set (F t)) \<union> dom U \<Longrightarrow> y \<in> (\<Union>t. set (F t)) \<union> dom U \<Longrightarrow> x \<noteq> y \<Longrightarrow> apart x y"
    "x \<in> (\<Union>t. set (F t)) \<union> dom U \<Longrightarrow> x < 2 ^ 64"
    "finite (dom U)" "current_usage (mp_stats pool) = of_nat (\<Sum>b\<in>dom U. type_block_size (the (U b)))"
    "x \<in> set (F t) \<Longrightarrow> x \<in> set (F t') \<Longrightarrow> t' = t" "x \<in> set (F t) \<Longrightarrow> U x = None"
proof -
  show free: "chain m (type_block_size t) (free_blocks pool t) (F t)" "distinct (F t)" for t
    using assms by (simp_all add: pool_rel_def)
  show used: "U b = Some t \<Longrightarrow> b \<noteq> 0 \<and> (\<exists>nx. header m b nx (type_block_size t) MEMPOOL_BLOCK_MAGIC)" for b t
    using assms by (simp add: pool_rel_def)
  show "x \<in> (\<Union>t. set (F t)) \<union> dom U \<Longrightarrow> y \<in> (\<Union>t. set (F t)) \<union> dom U \<Longrightarrow> x \<noteq> y \<Longrightarrow> apart x y"
    "x \<in> (\<Union>t. set (F t)) \<union> dom U \<Longrightarrow> x < 2 ^ 64"
    using assms unfolding pool_rel_def Let_def by blast+
  show "finite (dom U)" "current_usage (mp_stats pool) = of_nat (\<Sum>b\<in>dom U. type_block_size (the (U b)))"
    using assms by (simp_all add: pool_rel_def)
  show "t' = t" if "x \<in> set (F t)" "x \<in> set (F t')"
    using chain_member [OF free(1) that(1)] chain_member [OF free(1) that(2)] header_unique type_block_size_inj by metis
  show "U x = None" if "x \<in> set (F t)"
    using chain_member [OF free(1) that] used [of x] header_unique free_magic_small(3) by (metis not_None_eq)
qed

lemma pool_relI:
  assumes "\<And>t. chain m (type_block_size t) (free_blocks pool t) (F t)" "\<And>t. distinct (F t)"
    and "\<And>b t. U b = Some t \<Longrightarrow> \<exists>nx. header m b nx (type_block_size t) MEMPOOL_BLOCK_MAGIC" "\<And>b t. U b = Some t \<Longrightarrow> b \<noteq> 0"
    and "(\<Union>t. set (F t)) \<union> dom U \<subseteq> A" "\<And>x y. x \<in> A \<Longrightarrow> y \<in> A \<Longrightarrow> x \<noteq> y \<Longrightarrow> apart x y" "\<And>x. x \<in> A \<Longrightarrow> x < 2 ^ 64"
    and "finite (dom U)" "current_usage (mp_stats pool) = of_nat (\<Sum>b\<in>dom U. type_block_size (the (U b)))"
  shows "pool_rel pool m F U"
proof -
  have "\<forall>x\<in>(\<Union>t. set (F t)) \<union> dom U. x < 2 ^ 64 \<and> (\<forall>y\<in>(\<Union>t. set (F t)) \<union> dom U. x \<noteq> y \<longrightarrow> apart x y)"
    using assms(5-7) by (meson subsetD)
  then show ?thesis
    unfolding pool_rel_def Let_def
    by (intro conjI allI impI assms(1,2,8,9)) (rule assms(4), assumption | rule assms(3), assumption | assumption)+
qed

lemma pool_alloc_step:
  assumes rel: "pool_rel pool (ma_bytes ma) F U" and off: "\<not> use_asm_opt pool"
    and a: "0 < sz \<and> get_block_type sz = t \<and> F t = b # bs"
  shows "\<exists>pool' ma'. mempool_alloc_asm os pool ma sz = Inr (b + 16, pool', ma') \<and>
    pool_rel pool' (ma_bytes ma') (F(t := bs)) (U(b \<mapsto> t))"
proof -
  let ?all = "(\<Union>t. set (F t)) \<union> dom U"
  note free = pool_relD(1,2) [OF rel] and used = pool_relD(3) [OF rel] and sep = pool_relD(4) [OF rel]
    and lim = pool_relD(5) [OF rel] and use = pool_relD(6,7) [OF rel] and only = pool_relD(8) [OF rel] and out = pool_relD(9) [OF rel]
  from a have c: "free_blocks pool t = b" "b \<noteq> 0" "header (ma_bytes ma) b (front bs) (type_block_size t) MEMPOOL_FREE_MAGIC"
    "chain (ma_bytes ma) (type_block_size t) (front bs) bs" using free(1) [of t] by simp_all
  obtain m1 pool' where r: "written_at (ma_bytes ma) (b + 12) 4 m1" "header m1 b (front bs) (type_block_size t) MEMPOOL_BLOCK_MAGIC"
    "mempool_alloc_asm os pool ma sz = Inr (b + 16, pool', ma\<lparr>ma_bytes := m1\<rparr>)"
    "free_blocks pool' = (free_blocks pool)(t := front bs)"
    "current_usage (mp_stats pool') = current_usage (mp_stats pool) + of_nat (type_block_size t)"
    using alloc_hit [of sz pool b ma "front bs" "type_block_size t" MEMPOOL_FREE_MAGIC os] a c off by auto
  have bF: "b \<in> set (F t)" using a by simp
  then have b: "b \<in> ?all" by blast
  have away: "x + 16 \<le> b + 12 \<or> b + 12 + 4 \<le> x" if "x \<in> ?all" "x \<noteq> b" for x
    using sep [OF that(1) b that(2)] by (auto simp: apart_def)
  have k1: "chain m1 (type_block_size t') (free_blocks pool' t') ((F(t := bs)) t')" for t'
  proof (cases "t' = t")
    case True
    have "x + 16 \<le> b + 12 \<or> b + 12 + 4 \<le> x" if "x \<in> set bs" for x
    proof (rule away)
      from that a have "x \<in> set (F t)" by simp
      then show "x \<in> ?all" by blast
      show "x \<noteq> b" using free(2) [of t] a that by auto
    qed
    with True r(4) c(4) chain_frame [OF r(1)] show ?thesis by simp
  next
    case False
    have "x + 16 \<le> b + 12 \<or> b + 12 + 4 \<le> x" if "x \<in> set (F t')" for x
    proof (rule away)
      from that show "x \<in> ?all" by blast
      show "x \<noteq> b"
      proof
        assume "x = b"
        with that have "b \<in> set (F t')" by simp
        from only [OF bF this] False show False by simp
      qed
    qed
    with False r(4) free(1) chain_frame [OF r(1)] show ?thesis by simp
  qed
  have k2: "\<exists>nx. header m1 x nx (type_block_size t') MEMPOOL_BLOCK_MAGIC" "x \<noteq> 0" if "(U(b \<mapsto> t)) x = Some t'" for x t'
  proof -
    show "\<exists>nx. header m1 x nx (type_block_size t') MEMPOOL_BLOCK_MAGIC"
    proof (cases "x = b")
      case False
      with that have "x \<in> ?all" "U x = Some t'" by auto
      with header_frame [OF r(1) away [OF _ False]] used show ?thesis by auto
    qed (use that r(2) in auto)
    show "x \<noteq> 0" using that used c(2) by (auto split: if_splits)
  qed
  have k4: "(\<Union>t'. set ((F(t := bs)) t')) \<union> dom (U(b \<mapsto> t)) \<subseteq> ?all"
  proof (rule Un_least)
    have "set ((F(t := bs)) t') \<subseteq> set (F t')" for t' using a by auto
    then have "(\<Union>t'. set ((F(t := bs)) t')) \<subseteq> (\<Union>t'. set (F t'))" by (rule UN_mono [OF subset_refl])
    then show "(\<Union>t'. set ((F(t := bs)) t')) \<subseteq> ?all" by (rule le_supI1)
    show "dom (U(b \<mapsto> t)) \<subseteq> ?all" using b by simp
  qed
  have k5: "distinct ((F(t := bs)) t')" for t' using free(2) [of t'] a by auto
  have k6: "(\<Sum>x\<in>dom (U(b \<mapsto> t)). type_block_size (the ((U(b \<mapsto> t)) x))) =
      type_block_size t + (\<Sum>x\<in>dom U. type_block_size (the (U x)))"
  proof -
    have "b \<notin> dom U" using out [OF bF] by auto
    moreover from this have "(\<Sum>x\<in>dom U. type_block_size (the ((U(b \<mapsto> t)) x))) = (\<Sum>x\<in>dom U. type_block_size (the (U x)))"
      by (intro sum.cong) auto
    ultimately show ?thesis using use(1) by simp
  qed
  have "current_usage (mp_stats pool') = of_nat (\<Sum>x\<in>dom (U(b \<mapsto> t)). type_block_size (the ((U(b \<mapsto> t)) x)))"
    unfolding k6 using r(5) use(2) by simp
  with use(1) have "pool_rel pool' m1 (F(t := bs)) (U(b \<mapsto> t))"
    by (intro pool_relI [OF k1 k5 k2 k4 sep lim]) simp_all
  with r(3) show "\<exists>pool' ma'. mempool_alloc_asm os pool ma sz = Inr (b + 16, pool', ma') \<and>
       pool_rel pool' (ma_bytes ma') (F(t := bs)) (U(b \<mapsto> t))" by auto
qed

lemma pool_free_step:
  assumes rel: "pool_rel pool (ma_bytes ma) F U"
    and a: "U u = Some t \<and> \<not> total_freed (mp_stats pool) + of_nat (type_block_size t) > mp_gc_threshold pool"
  shows "\<exists>pool' ma'. mempool_free_asm os pool ma (u + 16) = Some (Inr (pool', ma')) \<and>
    pool_rel pool' (ma_bytes ma') (F(t := u # F t)) (U(u := None))"
proof -
  let ?all = "(\<Union>t. set (F t)) \<union> dom U"
  note free = pool_relD(1,2) [OF rel] and used = pool_relD(3) [OF rel] and sep = pool_relD(4) [OF rel]
    and lim = pool_relD(5) [OF rel] and use = pool_relD(6,7) [OF rel] and only = pool_relD(8) [OF rel] and out = pool_relD(9) [OF rel]
  from a obtain nx where h: "header (ma_bytes ma) u nx (type_block_size t) MEMPOOL_BLOCK_MAGIC" "u \<noteq> 0" using used by blast
  have l: "free_blocks pool t = front (F t)" using chain_front [OF free(1)] .
  have "front (F t) < 2 ^ 64"
  proof (cases "F t")
    case (Cons x xs)
    then have "x \<in> ?all" by (metis UN_I UNIV_I UnI1 list.set_intros(1))
    with lim Cons show ?thesis by simp
  qed simp
  with h a l obtain m1 pool' where r: "written_at (ma_bytes ma) u 16 m1" "header m1 u (front (F t)) (type_block_size t) MEMPOOL_FREE_MAGIC"
    "mempool_free_asm os pool ma (u + 16) = Some (Inr (pool', ma\<lparr>ma_bytes := m1\<rparr>))" "free_blocks pool' = (free_blocks pool)(t := u)"
    "current_usage (mp_stats pool') = current_usage (mp_stats pool) - of_nat (type_block_size t)"
    using free_hit [of ma u nx "type_block_size t" pool os] by auto
  have u: "u \<in> ?all" using a by auto
  have away: "x + 16 \<le> u \<or> u + 16 \<le> x" if "x \<in> ?all" "x \<noteq> u" for x
    using sep [OF that(1) u that(2)] by (auto simp: apart_def)
  have nu: "u \<notin> set (F t')" for t' using out a by fastforce
  have fr: "chain m1 (type_block_size t') (free_blocks pool t') (F t')" for t'
    using chain_frame [OF r(1), of "F t'"] away nu free(1) by blast
  then have k1: "chain m1 (type_block_size t') (free_blocks pool' t') ((F(t := u # F t)) t')" for t'
    using r(2,4) h(2) l fr [of t] by simp
  have k2: "\<exists>nx. header m1 x nx (type_block_size t') MEMPOOL_BLOCK_MAGIC" "x \<noteq> 0" if "(U(u := None)) x = Some t'" for x t'
  proof -
    from that have x: "x \<in> ?all" "x \<noteq> u" "U x = Some t'" by (auto split: if_splits)
    then show "x \<noteq> 0" using used by blast
    from header_frame [OF r(1) away [OF x(1,2)]] used [OF x(3)] show "\<exists>nx. header m1 x nx (type_block_size t') MEMPOOL_BLOCK_MAGIC"
      by auto
  qed
  have k4: "(\<Union>t'. set ((F(t := u # F t)) t')) \<union> dom (U(u := None)) \<subseteq> ?all" using u by (auto split: if_splits)
  have k5: "distinct ((F(t := u # F t)) t')" for t' using free(2) nu by auto
  have k6: "of_nat (\<Sum>x\<in>dom (U(u := None)). type_block_size (the ((U(u := None)) x))) =
      (of_nat (\<Sum>x\<in>dom U. type_block_size (the (U x))) :: u64) - of_nat (type_block_size t)"
  proof -
    have "(\<Sum>x\<in>dom U - {u}. type_block_size (the ((U(u := None)) x))) = (\<Sum>x\<in>dom U - {u}. type_block_size (the (U x)))"
      by (intro sum.cong) auto
    moreover have "(\<Sum>x\<in>dom U. type_block_size (the (U x))) = type_block_size t + (\<Sum>x\<in>dom U - {u}. type_block_size (the (U x)))"
      using sum.remove [OF use(1), of u "\<lambda>x. type_block_size (the (U x))"] a by auto
    ultimately show ?thesis by simp
  qed
  have "current_usage (mp_stats pool') = of_nat (\<Sum>x\<in>dom (U(u := None)). type_block_size (the ((U(u := None)) x)))"
    unfolding k6 using r(5) use(2) by simp
  with use(1) have "pool_rel pool' m1 (F(t := u # F t)) (U(u := None))"
    by (intro pool_relI [OF k1 k5 k2 k4 sep lim]) simp_all
  with r(3) show "\<exists>pool' ma'. mempool_free_asm os pool ma (u + 16) = Some (Inr (pool', ma')) \<and>
       pool_rel pool' (ma_bytes ma') (F(t := u # F t)) (U(u := None))" by auto
qed

lemma pool_write_step:
  assumes rel: "pool_rel pool (ma_bytes ma) F U"
    and a: "written_at (ma_bytes ma) a n m' \<and> (\<forall>x \<in> (\<Union>t. set (F t)) \<union> dom U. x + 16 \<le> a \<or> a + n \<le> x)"
  shows "pool_rel pool m' F U"
proof -
  let ?all = "(\<Union>t. set (F t)) \<union> dom U"
  note free = pool_relD(1,2) [OF rel] and used = pool_relD(3) [OF rel] and sep = pool_relD(4) [OF rel]
    and lim = pool_relD(5) [OF rel] and use = pool_relD(6,7) [OF rel] and only = pool_relD(8) [OF rel] and out = pool_relD(9) [OF rel]
  from a have w: "written_at (ma_bytes ma) a n m'" and o': "\<forall>x\<in>?all. x + 16 \<le> a \<or> a + n \<le> x" by simp_all
  have "chain m' (type_block_size t) (free_blocks pool t) (F t)" for t
  proof -
    from o' have "\<forall>x\<in>set (F t). x + 16 \<le> a \<or> a + n \<le> x" by blast
    from chain_frame [OF w this] free(1) show ?thesis by simp
  qed
  moreover have "\<exists>nx. header m' x nx (type_block_size t') MEMPOOL_BLOCK_MAGIC" if "U x = Some t'" for x t'
  proof -
    from that o' have "x + 16 \<le> a \<or> a + n \<le> x" by auto
    from header_frame [OF w this] used [OF that] show ?thesis by auto
  qed
  ultimately show "pool_rel pool m' F U" using rel by (simp add: pool_rel_def)
qed


lemma blocks_apart:
  assumes "16 \<le> bs" "x \<in> set (blocks_of a bs n)" "y \<in> set (blocks_of a bs n)" "x \<noteq> y"
  shows "apart x y"
proof -
  from assms obtain i j where x: "x = a + i * bs" and y: "y = a + j * bs" by (auto simp: blocks_of_def)
  have "a + i * bs + 16 \<le> a + j * bs" if "i < j" for i j
  proof -
    from that have "Suc i * bs \<le> j * bs" by (intro mult_right_mono) auto
    with assms(1) show ?thesis by simp
  qed
  moreover have "i < j \<or> j < i" using assms(4) x y by (cases i j rule: linorder_cases) auto
  ultimately show ?thesis unfolding x y apart_def by blast
qed

lemma type_block_size_bounds: "16 \<le> type_block_size t" "type_block_size t < 2 ^ 32" "8 dvd type_block_size t"
  by (cases t; simp)+

text \<open>The contract holds behind the preallocation of a class.\<close>

lemma prealloc_rel:
  assumes "os_mmap os t = Some a" "0 < a" "a + type_block_size t * count \<le> 2 ^ 64"
    and "free_blocks pool = (\<lambda>t. 0)" "block_sizes pool = type_block_size" "mp_stats pool = no_stats"
  shows "\<exists>pool' ma'. mempool_prealloc os pool ma t count = Inr (0, pool', ma') \<and>
    pool_rel pool' (ma_bytes ma') ((\<lambda>t. [])(t := rev (blocks_of a (type_block_size t) count))) Map.empty \<and>
    use_asm_opt pool' = use_asm_opt pool \<and> mapped (ma_bytes ma') a (type_block_size t * count)"
proof -
  have "free_blocks pool t = 0" "block_sizes pool t = type_block_size t" using assms(4,5) by simp_all
  with prealloc_run [of os t a pool count ma] assms(1-3) type_block_size_bounds obtain h m where
    r: "mempool_prealloc os pool ma t count =
      Inr (0, pool\<lparr>free_blocks := (free_blocks pool)(t := h), preallocated_pools := (preallocated_pools pool)(t := a),
                   preallocated_sizes := (preallocated_sizes pool)(t := type_block_size t * count)\<rparr>, ma\<lparr>ma_bytes := m\<rparr>)"
      (is "_ = Inr (0, ?pool, _)")
    and c: "chain m (type_block_size t) h (rev (blocks_of a (type_block_size t) count))"
    and w: "written_at (map_area a (type_block_size t * count) (ma_bytes ma)) a (type_block_size t * count) m" by auto
  let ?F = "(\<lambda>t. [])(t := rev (blocks_of a (type_block_size t) count))"
  let ?A = "set (blocks_of a (type_block_size t) count)"
  have "pool_rel ?pool m ?F Map.empty"
  proof (rule pool_relI [where A = ?A])
    show "chain m (type_block_size t') (free_blocks ?pool t') (?F t')" for t' using c assms(4) by simp
    have "inj_on (\<lambda>i. a + i * type_block_size t) {0..<count}" using type_block_size_bounds(1) [of t] by (auto simp: inj_on_def)
    then show "distinct (?F t')" for t' by (simp add: blocks_of_def distinct_map)
    show "\<And>x y. x \<in> ?A \<Longrightarrow> y \<in> ?A \<Longrightarrow> x \<noteq> y \<Longrightarrow> apart x y" using blocks_apart type_block_size_bounds(1) by blast
    show "x < 2 ^ 64" if "x \<in> ?A" for x
    proof -
      from that obtain i where i: "x = a + i * type_block_size t" "i < count" unfolding blocks_of_def by fastforce
      then have "Suc i * type_block_size t \<le> count * type_block_size t" by (intro mult_right_mono) auto
      with i(1) assms(3) type_block_size_bounds(1) [of t] show ?thesis by (simp add: mult.commute)
    qed
    show "current_usage (mp_stats ?pool) = of_nat (\<Sum>b\<in>dom Map.empty. type_block_size (the (Map.empty b)))"
      using assms(6) by (simp add: no_stats_def)
  qed (auto split: if_splits)
  moreover have "mapped m a (type_block_size t * count)" using w by (simp add: written_at_def)
  ultimately show ?thesis using r by auto
qed


section \<open>The clearing of a block\<close>

lemma zero_words_fault:
  assumes "\<not> mapped m p n" "k \<le> n" "8 dvd n" "n < k + 8" "0 < k"
  shows "zero_words p k m = Inl BadPointer"
  using assms
proof (induction p k m arbitrary: n rule: zero_words.induct)
  case (1 p k m)
  show ?case
  proof (cases "mapped m p 8")
    case True
    from store_spec [OF this, of 0] obtain m1 where m1: "store 8 m p 0 = Inr m1" "written_at m p 8 m1" by blast
    have n8: "8 \<le> n" using "1.prems" by (auto dest: dvd_imp_le)
    have nm: "\<not> mapped m (p + 8) (n - 8)"
    proof
      assume r: "mapped m (p + 8) (n - 8)"
      have "m x \<noteq> None" if "p \<le> x \<and> x < p + n" for x
        using True r that n8 by (cases "x < p + 8") (auto simp: mapped_iff)
      with "1.prems"(1) show False by (auto simp: mapped_iff)
    qed
    have "n \<noteq> 8" using "1.prems"(1) True by blast
    then have k: "k > 8" using "1.prems"(3,4) n8 by (auto elim!: dvdE)
    have "8 dvd n - 8" using "1.prems"(3) by (simp add: dvd_diff_nat)
    moreover have "k - 8 \<le> n - 8" "n - 8 < k - 8 + 8" "0 < k - 8" using "1.prems" k by linarith+
    moreover have "\<not> mapped m1 (p + 8) (n - 8)" using nm m1(2) by (simp add: written_at_def)
    ultimately have "zero_words (p + 8) (k - 8) m1 = Inl BadPointer" using "1.IH" [OF m1(1) k, of "n - 8"] by blast
    then show ?thesis using m1(1) k by (simp add: zero_words.simps [of p k m])
  next
    case False
    then show ?thesis by (simp add: zero_words.simps [of p k m] store_fault)
  qed
qed

text \<open>An allocation with clearing: it writes the 16 bytes behind its block as well.\<close>

lemma alloc_clears:
  assumes "use_asm_opt pool" "0 < sz" "get_block_type sz = t" "free_blocks pool t = b" "b \<noteq> 0"
    "header (ma_bytes ma) b nx (type_block_size t) MEMPOOL_FREE_MAGIC"
  shows "\<not> mapped (ma_bytes ma) (b + 16) (type_block_size t) \<Longrightarrow> mempool_alloc_asm os pool ma sz = Inl BadPointer"
    and "mapped (ma_bytes ma) (b + 16) (type_block_size t) \<Longrightarrow>
      \<exists>pool' m2. mempool_alloc_asm os pool ma sz = Inr (b + 16, pool', ma\<lparr>ma_bytes := m2\<rparr>) \<and>
        free_blocks pool' = (free_blocks pool)(t := nx) \<and> use_asm_opt pool' \<and>
        total_freed (mp_stats pool') = total_freed (mp_stats pool) \<and> mp_gc_threshold pool' = mp_gc_threshold pool \<and>
        written_at (ma_bytes ma) (b + 12) (type_block_size t + 4) m2 \<and> header m2 b nx (type_block_size t) MEMPOOL_BLOCK_MAGIC \<and>
        block_magic m2 (b + type_block_size t) = Inr 0"
proof -
  let ?n = "type_block_size t"
  note n = type_block_size_bounds [of t]
  obtain m1 pool' where r: "written_at (ma_bytes ma) (b + 12) 4 m1" "header m1 b nx ?n MEMPOOL_BLOCK_MAGIC"
    "mempool_alloc_asm os pool ma sz = bindR (zero_words (b + 16) ?n m1) (\<lambda>m2. Inr (b + 16, pool', ma\<lparr>ma_bytes := m2\<rparr>))"
    "free_blocks pool' = (free_blocks pool)(t := nx)" "use_asm_opt pool'"
    "total_freed (mp_stats pool') = total_freed (mp_stats pool)" "mp_gc_threshold pool' = mp_gc_threshold pool"
    using alloc_hit [of sz pool b ma nx ?n MEMPOOL_FREE_MAGIC os] assms by auto
  {
    assume "\<not> mapped (ma_bytes ma) (b + 16) ?n"
    with r(1) have "\<not> mapped m1 (b + 16) ?n" by (simp add: written_at_def)
    from zero_words_fault [OF this, of ?n] n r(3) show "mempool_alloc_asm os pool ma sz = Inl BadPointer" by simp
  }
  assume "mapped (ma_bytes ma) (b + 16) ?n"
  with r(1) have mp: "mapped m1 (b + 16) ?n" by (simp add: written_at_def)
  from zero_words_spec [OF this, of ?n] n obtain m2 where
    m2: "zero_words (b + 16) ?n m1 = Inr m2" "written_at m1 (b + 16) ?n m2" "\<forall>x. b + 16 \<le> x \<and> x < b + 16 + ?n \<longrightarrow> m2 x = Some 0" by auto
  have w: "written_at (ma_bytes ma) (b + 12) (?n + 4) m2" using written_trans [OF r(1) m2(2), of "b + 12" "?n + 4"] by simp
  have h: "header m2 b nx ?n MEMPOOL_BLOCK_MAGIC" using header_frame [OF m2(2), of b] r(2) by simp
  have z: "m2 x = Some 0" if "b + ?n + 12 \<le> x" "x < b + ?n + 12 + 4" for x using m2(3) that n(1) by simp
  then have "mapped m2 (b + ?n + 12) 4" by (simp add: mapped_iff)
  moreover have "List.map (\<lambda>x. the (m2 x)) [b + ?n + 12..<b + ?n + 12 + 4] = replicate 4 0"
    using z by (intro nth_equalityI) auto
  moreover have "le_val (replicate 4 0) = 0" by (simp add: eval_nat_numeral)
  ultimately have "block_magic m2 (b + ?n) = Inr 0" unfolding block_magic_def load_def by (simp only: if_True)
  with w h m2(1) r show "\<exists>pool' m2. mempool_alloc_asm os pool ma sz = Inr (b + 16, pool', ma\<lparr>ma_bytes := m2\<rparr>) \<and>
        free_blocks pool' = (free_blocks pool)(t := nx) \<and> use_asm_opt pool' \<and>
        total_freed (mp_stats pool') = total_freed (mp_stats pool) \<and> mp_gc_threshold pool' = mp_gc_threshold pool \<and>
        written_at (ma_bytes ma) (b + 12) (?n + 4) m2 \<and> header m2 b nx ?n MEMPOOL_BLOCK_MAGIC \<and>
        block_magic m2 (b + ?n) = Inr 0" by auto
qed

lemma rev_blocks: "rev (blocks_of a bs (Suc n)) = (a + n * bs) # rev (blocks_of a bs n)"
  by (simp add: blocks_of_def)

text \<open>C32. What the clearing does to a pool as it is built: a block is as far from the next one as its
size, but its data begins 16 bytes later, and the loop clears as many bytes as the block has. The
first allocation of a class writes behind the mapped area (it faults when nothing is mapped there);
the second one wipes out the header of the first block, and releasing that block has no effect from
then on.\<close>

theorem mempool_clearing_wipes_header:
  assumes "os_mmap os t = Some a" and "0 < a" and "a + type_block_size t * (n + 2) + 16 \<le> 2 ^ 64"
    and "free_blocks pool = (\<lambda>t. 0)" and "block_sizes pool = type_block_size" and "mp_stats pool = no_stats"
    and "use_asm_opt pool" and "0 < sz" and "get_block_type sz = t"
    and "mempool_prealloc os pool ma t (n + 2) = Inr (0, p0, ma0)"
  shows "(\<not> mapped (ma_bytes ma0) (a + type_block_size t * (n + 2)) 16 \<longrightarrow> mempool_alloc os p0 ma0 sz = Inl BadPointer) \<and>
    (mapped (ma_bytes ma0) (a + type_block_size t * (n + 2)) 16 \<longrightarrow>
      (\<exists>p1 ma1 p2 ma2. mempool_alloc os p0 ma0 sz = Inr (a + type_block_size t * (n + 1) + 16, p1, ma1) \<and>
         mempool_alloc os p1 ma1 sz = Inr (a + type_block_size t * n + 16, p2, ma2) \<and>
         mempool_free os p2 ma2 (a + type_block_size t * (n + 1) + 16) = Some (Inr (p2, ma2))))"
proof -
  let ?s = "type_block_size t" and ?b1 = "a + type_block_size t * (n + 1)" and ?b2 = "a + type_block_size t * n"
  note sb = type_block_size_bounds [of t]
  have "a + ?s * (n + 2) \<le> 2 ^ 64" using assms(3) by linarith
  with prealloc_rel [OF assms(1,2) _ assms(4-6), of "n + 2" ma] assms(7,10) have
    rel: "pool_rel p0 (ma_bytes ma0) ((\<lambda>t. [])(t := rev (blocks_of a ?s (n + 2)))) Map.empty" "use_asm_opt p0"
    and area: "mapped (ma_bytes ma0) a (?s * (n + 2))" by auto
  have bl: "rev (blocks_of a ?s (n + 2)) = ?b1 # ?b2 # rev (blocks_of a ?s n)"
    using rev_blocks [of a ?s "n + 1"] rev_blocks [of a ?s n] by (simp add: mult.commute)
  have c: "free_blocks p0 t = ?b1" "?b1 \<noteq> 0" "header (ma_bytes ma0) ?b1 ?b2 ?s MEMPOOL_FREE_MAGIC"
    "?b2 \<noteq> 0" "\<exists>nx. header (ma_bytes ma0) ?b2 nx ?s MEMPOOL_FREE_MAGIC"
    using pool_relD(1) [OF rel(1), of t] unfolding bl by auto
  then obtain nx where nx: "header (ma_bytes ma0) ?b2 nx ?s MEMPOOL_FREE_MAGIC" by blast
  have b1: "mapped (ma_bytes ma0) ?b1 16" using header_mapped [OF c(3)] .
  have e: "a + ?s * (n + 2) = ?b1 + ?s" "?b1 = ?b2 + ?s" by simp_all
  show ?thesis
  proof (intro conjI impI)
    assume "\<not> mapped (ma_bytes ma0) (a + ?s * (n + 2)) 16"
    then have "\<not> mapped (ma_bytes ma0) (?b1 + 16) ?s"
      unfolding e(1) using sb(1) mapped_part [of "ma_bytes ma0" "?b1 + 16" ?s "?b1 + ?s" 16] by auto
    then show "mempool_alloc os p0 ma0 sz = Inl BadPointer"
      using alloc_clears(1) [OF rel(2) assms(8,9) c(1-3)] rel(2) by (simp add: mempool_alloc_def)
  next
    assume m: "mapped (ma_bytes ma0) (a + ?s * (n + 2)) 16"
    have all: "ma_bytes ma0 x \<noteq> None" if "a \<le> x" "x < ?b1 + ?s + 16" for x
      using area m that unfolding mapped_iff e(1) by (cases "x < ?b1 + ?s") auto
    then have m1: "mapped (ma_bytes ma0) (?b1 + 16) ?s" and m2: "mapped (ma_bytes ma0) (?b2 + 16) ?s"
      using sb(1) by (auto simp: mapped_iff)
    from alloc_clears(2) [OF rel(2) assms(8,9) c(1-3) m1, of os] obtain p1 x1 where
      1: "mempool_alloc_asm os p0 ma0 sz = Inr (?b1 + 16, p1, ma0\<lparr>ma_bytes := x1\<rparr>)" "free_blocks p1 t = ?b2" "use_asm_opt p1"
      "written_at (ma_bytes ma0) (?b1 + 12) (?s + 4) x1" by auto
    have "header x1 ?b2 nx ?s MEMPOOL_FREE_MAGIC" using header_frame [OF 1(4), of ?b2] nx sb(1) by simp
    moreover have "mapped x1 (?b2 + 16) ?s" using m2 1(4) by (simp add: written_at_def)
    ultimately obtain p2 x2 where
      2: "mempool_alloc_asm os p1 (ma0\<lparr>ma_bytes := x1\<rparr>) sz = Inr (?b2 + 16, p2, ma0\<lparr>ma_bytes := x2\<rparr>)" "use_asm_opt p2"
      "block_magic x2 (?b2 + ?s) = Inr 0"
      using alloc_clears(2) [OF 1(3) assms(8,9) 1(2) c(4), of "ma0\<lparr>ma_bytes := x1\<rparr>" nx os] by auto
    have "(0::nat) \<noteq> MEMPOOL_BLOCK_MAGIC" by (simp add: MEMPOOL_BLOCK_MAGIC_def)
    then have "mempool_free_asm os p2 (ma0\<lparr>ma_bytes := x2\<rparr>) (?b1 + 16) = Some (Inr (p2, ma0\<lparr>ma_bytes := x2\<rparr>))"
      using free_refused [of "ma0\<lparr>ma_bytes := x2\<rparr>" ?b1 0 os p2] 2(3) unfolding e(2) by simp
    with 1 2 rel(2) show "\<exists>p1 ma1 p2 ma2. mempool_alloc os p0 ma0 sz = Inr (?b1 + 16, p1, ma1) \<and>
         mempool_alloc os p1 ma1 sz = Inr (?b2 + 16, p2, ma2) \<and> mempool_free os p2 ma2 (?b1 + 16) = Some (Inr (p2, ma2))"
      by (auto simp: mempool_alloc_def mempool_free_def)
  qed
qed

theorem mempool_clearing_wipes_header_witness:
  "\<exists>p0 ma0. mempool_prealloc sample_os sample_pool no_memory MEMPOOL_TYPE_SMALL 4 = Inr (0, p0, ma0) \<and>
    (\<not> mapped (ma_bytes ma0) 4608 16 \<longrightarrow> mempool_alloc sample_os p0 ma0 100 = Inl BadPointer)"
proof -
  have os: "os_mmap sample_os MEMPOOL_TYPE_SMALL = Some 4096" by (simp add: sample_os_def)
  from prealloc_rel [OF this, of 4 sample_pool no_memory] obtain p0 ma0 where
    p: "mempool_prealloc sample_os sample_pool no_memory MEMPOOL_TYPE_SMALL (2 + 2) = Inr (0, p0, ma0)"
    by (auto simp: sample_pool_def)
  from mempool_clearing_wipes_header [OF os _ _ _ _ _ _ _ _ p, of 100] p show ?thesis
    by (auto simp: sample_pool_def get_block_type_def)
qed

section \<open>The manager and the other ends of a pool\<close>

text \<open>A block that the manager hands out is put back into the wrong pool: its magic number is all
that is asked, so the first pool takes every block. For all classes but the smallest, one allocation
and its release take a block from the pool of the class for good, and the next allocation gets
another one.\<close>

theorem mempool_manager_misfiles:
  assumes "use_asm_opt (mgr t)" and "use_asm_opt (mgr MEMPOOL_TYPE_SMALL)" and "t \<noteq> MEMPOOL_TYPE_SMALL"
    and "0 < sz" and "get_block_type sz = t" and "chain (ma_bytes ma) (type_block_size t) (free_blocks (mgr t) t) (b # bs)"
    and "mapped (ma_bytes ma) (b + 16) (type_block_size t)"
    and "free_blocks (mgr MEMPOOL_TYPE_SMALL) t < 2 ^ 64"
    and "\<not> total_freed (mp_stats (mgr MEMPOOL_TYPE_SMALL)) + of_nat (type_block_size t) > mp_gc_threshold (mgr MEMPOOL_TYPE_SMALL)"
  shows "\<exists>mgr1 ma1 mgr2 ma2. mempool_manager_alloc os mgr ma sz = Inr (b + 16, mgr1, ma1) \<and>
    mempool_manager_free os mgr1 ma1 (b + 16) = Some (Inr (mgr2, ma2)) \<and>
    free_blocks (mgr2 t) t = front bs \<and> free_blocks (mgr2 MEMPOOL_TYPE_SMALL) t = b"
proof -
  let ?S = MEMPOOL_TYPE_SMALL
  from assms(6) have c: "free_blocks (mgr t) t = b" "b \<noteq> 0" "header (ma_bytes ma) b (front bs) (type_block_size t) MEMPOOL_FREE_MAGIC"
    by simp_all
  from alloc_clears(2) [OF assms(1,4,5) c assms(7), of os] obtain p1 m1 where
    a: "mempool_alloc_asm os (mgr t) ma sz = Inr (b + 16, p1, ma\<lparr>ma_bytes := m1\<rparr>)" "free_blocks p1 t = front bs"
    "header m1 b (front bs) (type_block_size t) MEMPOOL_BLOCK_MAGIC" by auto
  let ?ma = "ma\<lparr>ma_bytes := m1\<rparr>"
  from free_hit [of ?ma b "front bs" "type_block_size t" "mgr ?S" os] a(3) assms(8,9) obtain p2 m2 where
    f: "mempool_free_asm os (mgr ?S) ?ma (b + 16) = Some (Inr (p2, ?ma\<lparr>ma_bytes := m2\<rparr>))" "free_blocks p2 t = b" by auto
  have "mempool_manager_alloc os mgr ma sz = Inr (b + 16, mgr(t := p1), ?ma)"
    using assms(1,5) a(1) by (simp add: mempool_manager_alloc_def mempool_alloc_def Let_def)
  moreover have "mempool_check_block (ma_bytes ?ma) (b + 16) = Inr True"
    using a(3) by (simp add: mempool_check_block_def header_def)
  then have "mempool_manager_free os (mgr(t := p1)) ?ma (b + 16) = Some (Inr ((mgr(t := p1))(?S := p2), ?ma\<lparr>ma_bytes := m2\<rparr>))"
    using assms(2,3) f(1) by (simp add: mempool_manager_free_def mempool_types_def mempool_free_def)
  ultimately show ?thesis using a(2) f(2) assms(3) by auto
qed

text \<open>A pool whose class has run empty: the assembler passes the size as the address, the alignment
as the length and -1 as the flags of the mapping. With a kernel that answers EINVAL (-22) to such
flags and never maps the last page of the address space, the error is taken for an address, and
writing the header there faults.\<close>

theorem mempool_miss_faults:
  assumes "use_asm_opt pool" and "alignment pool = 16" and "0 < sz" and "free_blocks pool (get_block_type sz) = 0"
    and "\<forall>x l d. os_svc os x l 0 (-1) d = -22" and "\<forall>x \<ge> 2 ^ 64 - 4096. ma_bytes ma x = None"
  shows "mempool_alloc os pool ma sz = Inl BadPointer"
proof -
  have "mempool_alloc_aligned_asm_impl os x 16 = (-22 + 15) AND NOT 15" for x
    using assms(5) by (simp add: mempool_alloc_aligned_asm_impl_def Let_def)
  also have "((-22 + 15) AND NOT 15 :: u64) = 0xFFFFFFFFFFFFFFF0" by simp
  finally have p: "mempool_alloc_aligned_asm_impl os x 16 = 0xFFFFFFFFFFFFFFF0" for x .
  have "\<not> mapped (ma_bytes ma) 0xFFFFFFFFFFFFFFF0 8"
    using assms(6) by (auto simp: mapped_iff intro!: exI [of _ "0xFFFFFFFFFFFFFFF0 :: nat"])
  then have "set_header (ma_bytes ma) 0xFFFFFFFFFFFFFFF0 0 n g = Inl BadPointer" for n g
    by (simp add: set_header_def store_fault)
  with assms(1-4) p show ?thesis by (simp add: mempool_alloc_def mempool_alloc_asm_def Let_def)
qed

theorem mempool_miss_faults_witness: "mempool_alloc sample_os sample_pool no_memory 100 = Inl BadPointer"
  using mempool_miss_faults [of sample_pool 100 sample_os no_memory]
  by (simp add: sample_pool_def sample_os_def no_memory_def)

text \<open>The blocks of a pool were mapped, but they are given back with free: a collection one second
after the last one passes the first free block to free, which never handed it out; and the release
of the pool unmaps the areas first and then follows the free lists in them.\<close>

theorem mempool_release_faults:
  assumes "chain (ma_bytes ma) (type_block_size MEMPOOL_TYPE_SMALL) (free_blocks pool MEMPOOL_TYPE_SMALL) (b # bs)"
    and "b \<notin> set (ma_chunks ma)"
  shows "(\<not> os_now os - last_gc_time pool < 1000000 \<longrightarrow> mempool_gc os pool ma = Some (Inl BadPointer)) \<and>
    (preallocated_pools pool MEMPOOL_TYPE_SMALL = a \<and> 0 < a \<and> a \<le> b \<and> b < a + preallocated_sizes pool MEMPOOL_TYPE_SMALL \<longrightarrow>
      mempool_destroy pool ma = Some (Inl BadPointer))"
proof -
  let ?S = MEMPOOL_TYPE_SMALL
  from assms(1) have c: "free_blocks pool ?S = b" "b \<noteq> 0" "header (ma_bytes ma) b (front bs) (type_block_size ?S) MEMPOOL_FREE_MAGIC"
    by simp_all
  have "release_blocks k b ma = Some (Inl BadPointer)" if "0 < k" for k
    using that c assms(2) by (simp add: release_blocks.simps [of k b ma] header_def os_free_def)
  moreover have "0 < length (b # bs) - length (b # bs) div 2" by simp
  ultimately have "gc_types mempool_types (pool, ma) = Some (Inl BadPointer)"
    using free_list_chain [OF assms(1)] c(1) by (simp add: mempool_types_def)
  then have gc: "\<not> os_now os - last_gc_time pool < 1000000 \<longrightarrow> mempool_gc os pool ma = Some (Inl BadPointer)"
    by (simp add: mempool_gc_def)
  have gone: "unmap_all ts pool m b = None" if "m b = None" for ts m
    using that by (induction ts arbitrary: m) (auto simp: unmap_area_def)
  have "preallocated_pools pool ?S = a \<and> 0 < a \<and> a \<le> b \<and> b < a + preallocated_sizes pool ?S \<longrightarrow>
      mempool_destroy pool ma = Some (Inl BadPointer)"
  proof
    assume a: "preallocated_pools pool ?S = a \<and> 0 < a \<and> a \<le> b \<and> b < a + preallocated_sizes pool ?S"
    then have "unmap_all mempool_types pool (ma_bytes ma) b = None"
      unfolding mempool_types_def unmap_all.simps(2) [of ?S] by (intro gone) (auto simp: unmap_area_def)
    then have "block_next (unmap_all mempool_types pool (ma_bytes ma)) b = Inl BadPointer"
      by (auto simp: block_next_def load_def mapped_iff)
    then have "free_chain b (ma\<lparr>ma_bytes := unmap_all mempool_types pool (ma_bytes ma)\<rparr>) = Some (Inl BadPointer)"
      using c(2) by (simp add: free_chain.simps [of b])
    then show "mempool_destroy pool ma = Some (Inl BadPointer)"
      using c(1) by (simp add: mempool_destroy_def mempool_types_def)
  qed
  with gc show ?thesis by blast
qed

theorem mempool_release_faults_witness:
  "\<exists>p0 ma0. mempool_prealloc sample_os sample_pool no_memory MEMPOOL_TYPE_SMALL 2 = Inr (0, p0, ma0) \<and>
    mempool_gc sample_os (p0\<lparr>last_gc_time := 0\<rparr>) (ma0\<lparr>ma_chunks := []\<rparr>) = Some (Inl BadPointer)"
proof -
  have b: "rev (blocks_of 4096 128 2) = [4224, 4096]" by (simp add: blocks_of_def upt_rec)
  have "os_mmap sample_os MEMPOOL_TYPE_SMALL = Some 4096" by (simp add: sample_os_def)
  from prealloc_rel [OF this, of 2 sample_pool no_memory] obtain p0 ma0 where
    p: "mempool_prealloc sample_os sample_pool no_memory MEMPOOL_TYPE_SMALL 2 = Inr (0, p0, ma0)"
    "pool_rel p0 (ma_bytes ma0) ((\<lambda>t. [])(MEMPOOL_TYPE_SMALL := [4224, 4096])) Map.empty"
    by (auto simp: sample_pool_def b)
  let ?p = "p0\<lparr>last_gc_time := 0\<rparr>" and ?m = "ma0\<lparr>ma_chunks := []\<rparr>"
  have "chain (ma_bytes ?m) (type_block_size MEMPOOL_TYPE_SMALL) (free_blocks ?p MEMPOOL_TYPE_SMALL) [4224, 4096]"
    using pool_relD(1) [OF p(2), of MEMPOOL_TYPE_SMALL] by simp
  from mempool_release_faults [OF this, of sample_os] p(1) show ?thesis by (simp add: sample_os_def)
qed

theorem mempool_manager_misfiles_witness:
  "\<exists>m mgr1 ma1 mgr2 ma2.
    mempool_manager_alloc sample_os (\<lambda>t. sample_pool\<lparr>free_blocks := (\<lambda>t. 4096)\<rparr>) \<lparr>ma_bytes = m, ma_chunks = []\<rparr> 1000 = Inr (4112, mgr1, ma1) \<and>
    mempool_manager_free sample_os mgr1 ma1 4112 = Some (Inr (mgr2, ma2)) \<and>
    free_blocks (mgr2 MEMPOOL_TYPE_MEDIUM) MEMPOOL_TYPE_MEDIUM = 0 \<and> free_blocks (mgr2 MEMPOOL_TYPE_SMALL) MEMPOOL_TYPE_MEDIUM = 4096"
proof -
  let ?all = "\<lambda>x :: nat. Some (0 :: u8)" and ?mgr = "\<lambda>t. sample_pool\<lparr>free_blocks := (\<lambda>t. 4096)\<rparr>"
  have any: "mapped ?all b k" for b k by (simp add: mapped_iff)
  from set_header_spec [OF any, of 0 1024 MEMPOOL_FREE_MAGIC 4096] free_magic_small obtain m where
    m: "written_at ?all 4096 16 m" "header m 4096 0 1024 MEMPOOL_FREE_MAGIC" by auto
  have "mapped m (4096 + 16) 1024" using m(1) any by (simp add: written_at_def)
  moreover have "use_asm_opt (?mgr t)" "mp_gc_threshold (?mgr t) = 1000000" "total_freed (mp_stats (?mgr t)) = 0"
    "free_blocks (?mgr t) t' = 4096" for t t' by (simp_all add: sample_pool_def no_stats_def)
  moreover have "get_block_type 1000 = MEMPOOL_TYPE_MEDIUM" by (simp add: get_block_type_def)
  ultimately show ?thesis
    using mempool_manager_misfiles [of ?mgr MEMPOOL_TYPE_MEDIUM 1000 "\<lparr>ma_bytes = m, ma_chunks = []\<rparr>" 4096 "[]" sample_os] m(2)
    by (intro exI [of _ m]) simp
qed

end
