(* ===== verification/Stream.thy ===== *)
theory Stream
  imports Proxy Sockets "HOL-Library.Sublist"
begin

text \<open>
  The TCP and UDP proxy (src/stream/stream.c, stream.h): configuration, listeners with their
  sockets and threads, the manager that starts and stops them, and the thread of a connection
  that picks a backend, connects and relays bytes. What the kernel answers is a parameter: the
  calls of a start (\<open>sock_env\<close>), of a connection attempt (\<open>stream_net\<close>), and the sequence of
  results of select and recv during the relay (\<open>relay_event\<close>); both directions have a transport
  for what send takes. Every routine reports the descriptors it opened and closed.
\<close>

section \<open>Data\<close>

datatype stream_protocol_t = STREAM_PROTOCOL_TCP | STREAM_PROTOCOL_UDP

datatype stream_proxy_state_t =
  STREAM_PROXY_STATE_IDLE | STREAM_PROXY_STATE_CONNECTING | STREAM_PROXY_STATE_CONNECTED |
  STREAM_PROXY_STATE_FORWARDING | STREAM_PROXY_STATE_ERROR | STREAM_PROXY_STATE_CLOSED

record stream_connection =
  sc_client_fd :: int
  sc_backend_fd :: int
  sc_client_ip :: string
  sc_protocol :: stream_protocol_t
  sc_state :: stream_proxy_state_t
  sc_start_time :: int
  sc_bytes_sent :: u64
  sc_bytes_received :: u64
  sc_active :: bool
  sc_upstream_name :: string
  sc_backend_server :: "nat option"

record stream_listener =
  sl_bind_address :: string
  sl_port :: int
  sl_protocol :: stream_protocol_t
  sl_upstream_name :: string
  sl_socket_fd :: int
  sl_active :: bool
  sl_backlog :: int
  sl_connect_timeout :: int
  sl_proxy_timeout :: int
  sl_proxy_buffer_size :: u64
  sl_tcp_nodelay :: bool
  sl_so_keepalive :: bool
  sl_so_reuseport :: int

record stream_config =
  sf_listeners :: "stream_listener list"
  sf_listeners_count :: int
  sf_worker_connections :: int
  sf_resolver_timeout :: int
  sf_default_buffer_size :: u64
  sf_access_log :: string
  sf_error_log :: string
  sf_enable_stats :: bool

record stream_stats =
  ss_total_connections :: u64
  ss_active_connections :: u64
  ss_failed_connections :: u64
  ss_bytes_transferred :: u64
  ss_start_time :: int
  ss_last_updated :: int

record stream_manager =
  sm_config :: stream_config
  sm_lb_config :: lb_config
  sm_connections :: "stream_connection list"
  sm_stats :: stream_stats
  sm_running :: bool

section \<open>Names\<close>

fun stream_protocol_to_string :: "stream_protocol_t \<Rightarrow> string" where
  "stream_protocol_to_string STREAM_PROTOCOL_TCP = ''TCP''"
| "stream_protocol_to_string STREAM_PROTOCOL_UDP = ''UDP''"

definition stream_protocol_from_string :: "string option \<Rightarrow> stream_protocol_t" where
  "stream_protocol_from_string protocol_str =
     (case protocol_str of
        None \<Rightarrow> STREAM_PROTOCOL_TCP
      | Some s \<Rightarrow>
          if strcasecmp_eq s ''tcp'' then STREAM_PROTOCOL_TCP
          else if strcasecmp_eq s ''udp'' then STREAM_PROTOCOL_UDP
          else STREAM_PROTOCOL_TCP)"

fun stream_state_to_string :: "stream_proxy_state_t \<Rightarrow> string" where
  "stream_state_to_string STREAM_PROXY_STATE_IDLE = ''Idle''"
| "stream_state_to_string STREAM_PROXY_STATE_CONNECTING = ''Connecting''"
| "stream_state_to_string STREAM_PROXY_STATE_CONNECTED = ''Connected''"
| "stream_state_to_string STREAM_PROXY_STATE_FORWARDING = ''Forwarding''"
| "stream_state_to_string STREAM_PROXY_STATE_ERROR = ''Error''"
| "stream_state_to_string STREAM_PROXY_STATE_CLOSED = ''Closed''"

section \<open>Configuration and listeners\<close>

definition stream_config_create :: stream_config where
  "stream_config_create =
     \<lparr>sf_listeners = [], sf_listeners_count = 0, sf_worker_connections = 1024, sf_resolver_timeout = 30,
      sf_default_buffer_size = 8192, sf_access_log = ''stream_access.log'', sf_error_log = ''stream_error.log'',
      sf_enable_stats = True\<rparr>"

definition stream_listener_create ::
  "string option \<Rightarrow> int \<Rightarrow> stream_protocol_t \<Rightarrow> string option \<Rightarrow> stream_listener option" where
  "stream_listener_create address listen_port protocol upstream =
     (case (address, upstream) of
        (Some a, Some u) \<Rightarrow>
          if listen_port \<le> 0 then None
          else Some \<lparr>sl_bind_address = a, sl_port = listen_port, sl_protocol = protocol, sl_upstream_name = u,
                     sl_socket_fd = -1, sl_active = False, sl_backlog = 128, sl_connect_timeout = 5,
                     sl_proxy_timeout = 300, sl_proxy_buffer_size = 8192, sl_tcp_nodelay = True,
                     sl_so_keepalive = True, sl_so_reuseport = 1\<rparr>
      | _ \<Rightarrow> None)"

definition stream_config_add_listener :: "stream_listener \<Rightarrow> stream_config \<Rightarrow> stream_config" where
  "stream_config_add_listener l conf =
     conf\<lparr>sf_listeners := l # sf_listeners conf, sf_listeners_count := to_int32 (sf_listeners_count conf + 1)\<rparr>"

text \<open>The options of the socket are set without effect on the result; every failure closes it.\<close>

definition stream_listener_start :: "sock_env \<Rightarrow> stream_listener \<Rightarrow> int \<times> sock_call list \<times> stream_listener" where
  "stream_listener_start env l =
     (if sl_active l then (-1, [], l)
      else
        let fd = y_socket env; l = l\<lparr>sl_socket_fd := fd\<rparr> in
        if fd < 0 then (-1, [], l)
        else if sl_bind_address l \<noteq> ''*'' \<and> sl_bind_address l \<noteq> ''0.0.0.0'' \<and> \<not> inet_pton (sl_bind_address l)
          then (-1, [Opened fd, Closed fd], l)
        else if \<not> y_bind env (sl_bind_address l) (word_of_int (sl_port l)) then (-1, [Opened fd, Closed fd], l)
        else if sl_protocol l = STREAM_PROTOCOL_TCP \<and> \<not> y_listen env then (-1, [Opened fd, Closed fd], l)
        else if \<not> y_thread env then (-1, [Opened fd, Closed fd], l\<lparr>sl_active := False\<rparr>)
        else (0, [Opened fd], l\<lparr>sl_active := True\<rparr>))"

definition stream_listener_stop :: "stream_listener \<Rightarrow> int \<times> sock_call list \<times> stream_listener" where
  "stream_listener_stop l =
     (if \<not> sl_active l then (-1, [], l)
      else
        let l = l\<lparr>sl_active := False\<rparr> in
        if sl_socket_fd l \<ge> 0 then (0, [Closed (sl_socket_fd l)], l\<lparr>sl_socket_fd := -1\<rparr>) else (0, [], l))"

definition stream_listener_free :: "stream_listener \<Rightarrow> sock_call list" where
  "stream_listener_free l = (if sl_active l then fst (snd (stream_listener_stop l)) else [])"

definition stream_config_free :: "stream_config \<Rightarrow> sock_call list" where
  "stream_config_free conf = concat (List.map stream_listener_free (sf_listeners conf))"

section \<open>The manager\<close>

definition stream_manager_create :: "int \<Rightarrow> stream_config option \<Rightarrow> lb_config option \<Rightarrow> stream_manager option" where
  "stream_manager_create now config lb =
     (case (config, lb) of
        (Some c, Some l) \<Rightarrow>
          Some \<lparr>sm_config = c, sm_lb_config = l, sm_connections = [],
                sm_stats = \<lparr>ss_total_connections = 0, ss_active_connections = 0, ss_failed_connections = 0,
                            ss_bytes_transferred = 0, ss_start_time = now, ss_last_updated = now\<rparr>,
                sm_running = False\<rparr>
      | _ \<Rightarrow> None)"

text \<open>The listeners are started in order; the first failure ends the loop. An environment for each.\<close>

fun start_listeners ::
  "(nat \<Rightarrow> sock_env) \<Rightarrow> stream_listener list \<Rightarrow> bool \<times> sock_call list \<times> stream_listener list" where
  "start_listeners env [] = (True, [], [])"
| "start_listeners env (l # ls) =
     (case stream_listener_start (env 0) l of
        (r, cs, l') \<Rightarrow>
          if r < 0 then (False, cs, l' # ls)
          else (case start_listeners (\<lambda>k. env (Suc k)) ls of (ok, ds, ls') \<Rightarrow> (ok, cs @ ds, l' # ls')))"

definition stream_manager_start :: "(nat \<Rightarrow> sock_env) \<Rightarrow> stream_manager \<Rightarrow> int \<times> sock_call list \<times> stream_manager" where
  "stream_manager_start env m =
     (if sm_running m then (-1, [], m)
      else case start_listeners env (sf_listeners (sm_config m)) of
        (ok, cs, ls) \<Rightarrow>
          let m = m\<lparr>sm_config := (sm_config m)\<lparr>sf_listeners := ls\<rparr>\<rparr> in
          if ok then (0, cs, m\<lparr>sm_running := True\<rparr>) else (-1, cs, m))"

fun stop_listeners :: "stream_listener list \<Rightarrow> sock_call list \<times> stream_listener list" where
  "stop_listeners [] = ([], [])"
| "stop_listeners (l # ls) =
     (case stream_listener_stop l of (_, cs, l') \<Rightarrow> (case stop_listeners ls of (ds, ls') \<Rightarrow> (cs @ ds, l' # ls')))"

definition stream_manager_stop :: "stream_manager \<Rightarrow> int \<times> sock_call list \<times> stream_manager" where
  "stream_manager_stop m =
     (if \<not> sm_running m then (-1, [], m)
      else case stop_listeners (sf_listeners (sm_config m)) of
        (cs, ls) \<Rightarrow> (0, cs, m\<lparr>sm_running := False, sm_config := (sm_config m)\<lparr>sf_listeners := ls\<rparr>\<rparr>))"

section \<open>Connections\<close>

definition stream_connection_create ::
  "int \<Rightarrow> int \<Rightarrow> stream_protocol_t \<Rightarrow> string \<Rightarrow> string \<Rightarrow> stream_connection option" where
  "stream_connection_create now client_fd protocol upstream ip =
     (if client_fd < 0 \<and> protocol = STREAM_PROTOCOL_TCP then None
      else Some \<lparr>sc_client_fd = client_fd, sc_backend_fd = -1, sc_client_ip = ip, sc_protocol = protocol,
                 sc_state = STREAM_PROXY_STATE_IDLE, sc_start_time = now, sc_bytes_sent = 0, sc_bytes_received = 0,
                 sc_active = True, sc_upstream_name = upstream, sc_backend_server = None\<rparr>)"

definition stream_connection_cleanup :: "stream_connection \<Rightarrow> sock_call list \<times> stream_connection" where
  "stream_connection_cleanup c =
     ((if sc_client_fd c \<ge> 0 then [Closed (sc_client_fd c)] else []) @
      (if sc_backend_fd c \<ge> 0 then [Closed (sc_backend_fd c)] else []),
      c\<lparr>sc_client_fd := (if sc_client_fd c \<ge> 0 then -1 else sc_client_fd c),
        sc_backend_fd := (if sc_backend_fd c \<ge> 0 then -1 else sc_backend_fd c),
        sc_active := False, sc_state := STREAM_PROXY_STATE_CLOSED\<rparr>)"

definition stream_manager_free :: "stream_manager \<Rightarrow> sock_call list" where
  "stream_manager_free m =
     (let (_, cs, m) = (if sm_running m then stream_manager_stop m else (0, [], m)) in
      cs @ concat (List.map (\<lambda>c. fst (stream_connection_cleanup c)) (sm_connections m)))"

text \<open>The server of a group as the balancer picks it; the server is changed by the selection.\<close>

definition stream_select_backend ::
  "(nat \<Rightarrow> int) \<Rightarrow> nat \<Rightarrow> lb_config \<Rightarrow> session_state \<Rightarrow> string \<Rightarrow> string \<Rightarrow>
   ((nat \<times> upstream_server) option \<times> lb_config \<times> session_state) run" where
  "stream_select_backend now r lb st upstream ip =
     (case lb_config_get_group lb upstream of
        None \<Rightarrow> Inr (None, lb, st)
      | Some g \<Rightarrow>
          bindR (lb_select_server now r (Some ip) None g st) (\<lambda>(sel, g, st).
            let lb = lb\<lparr>groups := update_group upstream g (groups lb)\<rparr> in
            case sel of
              None \<Rightarrow> Inr (None, lb, st)
            | Some s \<Rightarrow> Inr (Some (sel_server s, servers g ! sel_server s), lb, st)))"

datatype connect_result = Connected_now | In_progress | Refused

record stream_net =
  sn_socket :: int
  sn_connect :: "string \<Rightarrow> u16 \<Rightarrow> connect_result"
  sn_errno_in_progress :: bool
  sn_writable :: bool
  sn_getsockopt_ok :: bool
  sn_so_error :: int

text \<open>
  errno is looked at although connect may have succeeded, so what an earlier call left there
  counts (\<open>sn_errno_in_progress\<close>). A descriptor of 1024 or more is outside of an fd_set.
\<close>

definition stream_tcp_connect_backend ::
  "stream_net \<Rightarrow> upstream_server \<Rightarrow> stream_connection \<Rightarrow> (int \<times> sock_call list \<times> stream_connection) run" where
  "stream_tcp_connect_backend net server c =
     (let fd = sn_socket net; failed = c\<lparr>sc_backend_fd := -1\<rparr> in
      if fd < 0 then Inr (-1, [], c\<lparr>sc_backend_fd := fd\<rparr>)
      else if \<not> inet_pton (host server) then Inr (-1, [Opened fd, Closed fd], failed)
      else
        let result = sn_connect net (host server) (word_of_int (port server)) in
        if result = Refused then Inr (-1, [Opened fd, Closed fd], failed)
        else if result = In_progress \<or> sn_errno_in_progress net
        then (if fd \<ge> 1024 then Inl OutOfRange
              else if \<not> sn_writable net then Inr (-1, [Opened fd, Closed fd], failed)
              else if \<not> sn_getsockopt_ok net \<or> sn_so_error net \<noteq> 0 then Inr (-1, [Opened fd, Closed fd], failed)
              else Inr (0, [Opened fd], c\<lparr>sc_backend_fd := fd\<rparr>))
        else Inr (0, [Opened fd], c\<lparr>sc_backend_fd := fd\<rparr>))"

section \<open>The relay\<close>

datatype io = Received string | Reset

datatype relay_event = Select_failed bool | Timed_out | Ready "io option" "io option"

text \<open>
  \<open>Select_failed\<close> tells whether it was an interrupted call; \<open>Ready\<close> has what recv returns on the
  descriptors that are set, an empty text being the end of the stream.
\<close>

definition stream_tcp_forward_data :: "transport \<Rightarrow> io \<Rightarrow> string \<Rightarrow> int \<times> string" where
  "stream_tcp_forward_data net source dest =
     (case source of
        Reset \<Rightarrow> (-1, dest)
      | Received d \<Rightarrow>
          if d = [] then (0, dest)
          else let sent = net dest d; dest = dest @ take (nat sent) d in
            if sent \<noteq> int (length d) then (-1, dest) else (sent, dest))"

text \<open>
  The loop, over the events that have happened: whether it has ended, and what has been sent to
  the backend and to the client.
\<close>

fun relay :: "transport \<Rightarrow> transport \<Rightarrow> relay_event list \<Rightarrow> string \<Rightarrow> string \<Rightarrow> bool \<times> string \<times> string" where
  "relay to_backend to_client [] b c = (False, b, c)"
| "relay to_backend to_client (Select_failed interrupted # es) b c =
     (if interrupted then relay to_backend to_client es b c else (True, b, c))"
| "relay to_backend to_client (Timed_out # es) b c = relay to_backend to_client es b c"
| "relay to_backend to_client (Ready from_client from_backend # es) b c =
     (case (case from_client of None \<Rightarrow> (1, b) | Some d \<Rightarrow> stream_tcp_forward_data to_backend d b) of
        (r, b) \<Rightarrow>
          if r \<le> 0 then (True, b, c)
          else (case (case from_backend of None \<Rightarrow> (1, c) | Some d \<Rightarrow> stream_tcp_forward_data to_client d c) of
                  (r, c) \<Rightarrow> if r \<le> 0 then (True, b, c) else relay to_backend to_client es b c))"

record stream_world =
  sw_now :: "nat \<Rightarrow> int"
  sw_random :: nat
  sw_net :: stream_net
  sw_to_backend :: transport
  sw_to_client :: transport
  sw_events :: "relay_event list"

record relayed =
  rl_ended :: bool
  rl_backend :: string
  rl_client :: string

definition stream_tcp_proxy_start ::
  "stream_world \<Rightarrow> lb_config \<Rightarrow> session_state \<Rightarrow> stream_connection \<Rightarrow>
   ((int \<times> sock_call list \<times> relayed) \<times> stream_connection \<times> lb_config \<times> session_state) run" where
  "stream_tcp_proxy_start w lb st c =
     (let c = c\<lparr>sc_state := STREAM_PROXY_STATE_CONNECTING\<rparr>;
          nothing = \<lparr>rl_ended = True, rl_backend = [], rl_client = []\<rparr> in
      bindR (stream_select_backend (sw_now w) (sw_random w) lb st (sc_upstream_name c) (sc_client_ip c)) (\<lambda>(sel, lb, st).
      case sel of
        None \<Rightarrow> Inr ((-1, [], nothing), c\<lparr>sc_state := STREAM_PROXY_STATE_ERROR\<rparr>, lb, st)
      | Some (i, server) \<Rightarrow>
          let c = c\<lparr>sc_backend_server := Some i\<rparr> in
          bindR (stream_tcp_connect_backend (sw_net w) server c) (\<lambda>(r, cs, c).
            if r < 0 then Inr ((-1, cs, nothing), c\<lparr>sc_state := STREAM_PROXY_STATE_ERROR\<rparr>, lb, st)
            else if sc_client_fd c \<ge> 1024 \<or> sc_backend_fd c \<ge> 1024 then Inl OutOfRange
            else case relay (sw_to_backend w) (sw_to_client w) (sw_events w) [] [] of
              (ended, to_b, to_c) \<Rightarrow>
                Inr ((0, cs, \<lparr>rl_ended = ended, rl_backend = to_b, rl_client = to_c\<rparr>),
                     c\<lparr>sc_state := (if ended then STREAM_PROXY_STATE_CLOSED else STREAM_PROXY_STATE_FORWARDING)\<rparr>, lb, st))))"

definition stream_udp_proxy_start :: "stream_connection \<Rightarrow> lb_config \<Rightarrow> int" where
  "stream_udp_proxy_start c lb = 0"

definition stream_udp_forward_packet :: "stream_connection \<Rightarrow> lb_config \<Rightarrow> int" where
  "stream_udp_forward_packet c lb = 0"

text \<open>The thread of a connection, with what it cleans up behind the proxy once the relay has ended.\<close>

definition stream_proxy_thread ::
  "stream_world \<Rightarrow> lb_config \<Rightarrow> session_state \<Rightarrow> stream_connection \<Rightarrow>
   (sock_call list \<times> relayed \<times> stream_connection \<times> lb_config \<times> session_state) run" where
  "stream_proxy_thread w lb st c =
     (if sc_protocol c = STREAM_PROTOCOL_TCP
      then bindR (stream_tcp_proxy_start w lb st c) (\<lambda>((_, cs, out), c, lb, st).
             if rl_ended out
             then let (ds, c) = stream_connection_cleanup c in Inr (cs @ ds, out, c, lb, st)
             else Inr (cs, out, c, lb, st))
      else let (ds, c) = stream_connection_cleanup c in
           Inr (ds, \<lparr>rl_ended = True, rl_backend = [], rl_client = []\<rparr>, c, lb, st))"

text \<open>
  One turn of the thread of a listener: for TCP the descriptor that accept returned and whether
  the thread could be created, for UDP whether a datagram came. The connection that a new
  thread runs, if there is one.
\<close>

definition stream_listener_turn ::
  "int \<Rightarrow> int \<Rightarrow> string \<Rightarrow> bool \<Rightarrow> bool \<Rightarrow> stream_listener \<Rightarrow> sock_call list \<times> stream_connection option" where
  "stream_listener_turn now client_fd ip thread_ok datagram l =
     (if sl_protocol l = STREAM_PROTOCOL_TCP
      then (if client_fd < 0 then ([], None)
            else case stream_connection_create now client_fd STREAM_PROTOCOL_TCP (sl_upstream_name l) ip of
              Some c \<Rightarrow> if thread_ok then ([Opened client_fd], Some c) else ([Opened client_fd], None)
            | None \<Rightarrow> ([Opened client_fd, Closed client_fd], None))
      else ([], None))"

section \<open>What the relay delivers\<close>

definition io_text :: "io option \<Rightarrow> string" where
  "io_text d = (case d of Some (Received s) \<Rightarrow> s | _ \<Rightarrow> [])"

definition from_client :: "relay_event \<Rightarrow> string" where
  "from_client e = (case e of Ready x _ \<Rightarrow> io_text x | _ \<Rightarrow> [])"

definition from_backend :: "relay_event \<Rightarrow> string" where
  "from_backend e = (case e of Ready _ y \<Rightarrow> io_text y | _ \<Rightarrow> [])"

definition carries_on :: "io option \<Rightarrow> bool" where
  "carries_on d = (case d of None \<Rightarrow> True | Some Reset \<Rightarrow> False | Some (Received s) \<Rightarrow> s \<noteq> [])"

definition going :: "relay_event \<Rightarrow> bool" where
  "going e = (case e of Select_failed interrupted \<Rightarrow> interrupted | Timed_out \<Rightarrow> True | Ready x y \<Rightarrow> carries_on x \<and> carries_on y)"

definition takes_everything :: "transport \<Rightarrow> bool" where
  "takes_everything net \<longleftrightarrow> (\<forall>w d. net w d = int (length d))"

lemma from_ready [simp]: "from_client (Ready x y) = io_text x" "from_backend (Ready x y) = io_text y"
  "from_client (Select_failed i) = []" "from_backend (Select_failed i) = []" "from_client Timed_out = []" "from_backend Timed_out = []"
  by (simp_all add: from_client_def from_backend_def)

lemma side_all:
  assumes "takes_everything net"
  shows "\<exists>r. (case d of None \<Rightarrow> (1, w) | Some d \<Rightarrow> stream_tcp_forward_data net d w) = (r, w @ io_text d) \<and> (0 < r \<longleftrightarrow> carries_on d)"
  using assms by (auto simp: stream_tcp_forward_data_def takes_everything_def io_text_def carries_on_def split: option.splits io.splits)

lemma relay_all:
  assumes "takes_everything nb" "takes_everything nc"
  shows "relay nb nc es b c =
    (dropWhile going es \<noteq> [],
     b @ concat (List.map from_client (takeWhile going es)) @ (case dropWhile going es of [] \<Rightarrow> [] | e # _ \<Rightarrow> from_client e),
     c @ concat (List.map from_backend (takeWhile going es)) @
       (case dropWhile going es of Ready x y # _ \<Rightarrow> if carries_on x then io_text y else [] | _ \<Rightarrow> []))"
  using assms
proof (induction nb nc es b c rule: relay.induct)
  case (4 nb nc x y es b c)
  from side_all [OF "4.prems"(1), where d = x and w = b] obtain r where
    r: "(case x of None \<Rightarrow> (1, b) | Some d \<Rightarrow> stream_tcp_forward_data nb d b) = (r, b @ io_text x)" "0 < r \<longleftrightarrow> carries_on x" by blast
  from side_all [OF "4.prems"(2), where d = y and w = c] obtain r2 where
    r2: "(case y of None \<Rightarrow> (1, c) | Some d \<Rightarrow> stream_tcp_forward_data nc d c) = (r2, c @ io_text y)" "0 < r2 \<longleftrightarrow> carries_on y" by blast
  have step: "relay nb nc (Ready x y # es) b c =
      (if r \<le> 0 then (True, b @ io_text x, c)
       else if r2 \<le> 0 then (True, b @ io_text x, c @ io_text y) else relay nb nc es (b @ io_text x) (c @ io_text y))"
    by (simp only: relay.simps r(1) r2(1) prod.case)
  consider "\<not> carries_on x" | "carries_on x" "\<not> carries_on y" | "carries_on x" "carries_on y" by blast
  then show ?case
  proof cases
    case 3
    with r(2) r2(2) have pos: "\<not> r \<le> 0" "\<not> r2 \<le> 0" by simp_all
    from "4.IH" [OF r(1) [symmetric] pos(1) r2(1) [symmetric] pos(2) "4.prems"] show ?thesis
      unfolding step using 3 pos by (simp add: going_def)
  qed (use r(2) r2(2) in \<open>simp_all add: step going_def del: relay.simps\<close>)
qed (auto simp: going_def from_client_def from_backend_def)

lemma side_some:
  assumes "(case d of None \<Rightarrow> (1, w) | Some d \<Rightarrow> stream_tcp_forward_data net d w) = (r, w')"
  shows "\<exists>p. w' = w @ p \<and> prefix p (io_text d) \<and> (r > 0 \<longrightarrow> p = io_text d)"
  using assms by (auto simp: stream_tcp_forward_data_def Let_def take_is_prefix io_text_def split: io.splits if_splits option.splits)

lemma relay_some:
  "relay nb nc es b c = (fin, b', c') \<Longrightarrow>
   (\<exists>p. b' = b @ p \<and> prefix p (concat (List.map from_client es))) \<and> (\<exists>q. c' = c @ q \<and> prefix q (concat (List.map from_backend es)))"
proof (induction nb nc es b c arbitrary: b' c' fin rule: relay.induct)
  case (4 nb nc x y es b c)
  obtain r b1 where r: "(case x of None \<Rightarrow> (1, b) | Some d \<Rightarrow> stream_tcp_forward_data nb d b) = (r, b1)" by fastforce
  from side_some [OF this] obtain p where p: "b1 = b @ p" "prefix p (io_text x)" "r > 0 \<longrightarrow> p = io_text x" by blast
  obtain r2 c1 where r2: "(case y of None \<Rightarrow> (1, c) | Some d \<Rightarrow> stream_tcp_forward_data nc d c) = (r2, c1)" by fastforce
  from side_some [OF this] obtain q where q: "c1 = c @ q" "prefix q (io_text y)" "r2 > 0 \<longrightarrow> q = io_text y" by blast
  have step: "relay nb nc (Ready x y # es) b c =
      (if r \<le> 0 then (True, b1, c) else if r2 \<le> 0 then (True, b1, c1) else relay nb nc es b1 c1)"
    by (simp only: relay.simps r r2 prod.case)
  consider "r \<le> 0" | "\<not> r \<le> 0" "r2 \<le> 0" | "\<not> r \<le> 0" "\<not> r2 \<le> 0" by blast
  then show ?case
  proof cases
    case 3
    with step "4.prems" have "relay nb nc es b1 c1 = (fin, b', c')" by simp
    from "4.IH" [OF r [symmetric] 3(1) r2 [symmetric] 3(2) this] 3 p q show ?thesis by auto
  qed (use step "4.prems" p q in \<open>auto intro: prefix_prefix\<close>)
qed (auto split: if_splits)

text \<open>C33. The relay of a TCP connection. Whatever the kernel takes, what reaches the backend is a prefix of
what the client has sent, in order, and the other way round. When everything is taken, the data of
all turns is delivered until one side ends, with the client's part of that last turn, and the backend's
if the client had not closed its side: otherwise what the backend still has to say is lost.\<close>

theorem stream_relay_delivers:
  "(relay nb nc es [] [] = (fin, b, c) \<longrightarrow>
      prefix b (concat (List.map from_client es)) \<and> prefix c (concat (List.map from_backend es))) \<and>
   (takes_everything nb \<and> takes_everything nc \<longrightarrow>
      relay nb nc es [] [] =
        (dropWhile going es \<noteq> [],
         concat (List.map from_client (takeWhile going es)) @ (case dropWhile going es of [] \<Rightarrow> [] | e # _ \<Rightarrow> from_client e),
         concat (List.map from_backend (takeWhile going es)) @
           (case dropWhile going es of Ready x y # _ \<Rightarrow> if carries_on x then io_text y else [] | _ \<Rightarrow> [])))"
  using relay_some [of nb nc es "[]" "[]" fin b c] relay_all [of nb nc es "[]" "[]"] by auto

theorem stream_relay_delivers_witness:
  "relay (\<lambda>w d. int (length d)) (\<lambda>w d. int (length d))
     [Ready (Some (Received ''ask'')) None, Timed_out, Ready (Some (Received [])) (Some (Received ''answer''))] [] [] = (True, ''ask'', [])"
  using stream_relay_delivers [of "\<lambda>w d. int (length d)" "\<lambda>w d. int (length d)"
      "[Ready (Some (Received ''ask'')) None, Timed_out, Ready (Some (Received [])) (Some (Received ''answer''))]"]
  by (simp add: takes_everything_def going_def carries_on_def from_client_def from_backend_def io_text_def)

section \<open>Descriptors of a connection\<close>

lemma connect_calls:
  assumes "stream_tcp_connect_backend net server c = Inr (r, cs, c')" "sn_socket net \<notin> fds" "sc_backend_fd c = -1"
  shows "sc_client_fd c' = sc_client_fd c" "sc_protocol c' = sc_protocol c" "r = 0 \<or> r = -1"
    "balance cs fds = Some (if r = 0 then insert (sc_backend_fd c') fds else fds)"
    "r = 0 \<longrightarrow> sc_backend_fd c' = sn_socket net \<and> sc_backend_fd c' \<ge> 0" "r = -1 \<longrightarrow> sc_backend_fd c' < 0"
  using assms by (auto simp: stream_tcp_connect_backend_def Let_def split: if_splits)

lemma proxy_calls:
  assumes "stream_tcp_proxy_start w lb st c = Inr ((r, cs, out), c', lb', st')"
    and "sn_socket (sw_net w) \<noteq> sc_client_fd c" "sc_backend_fd c = -1"
  shows "sc_client_fd c' = sc_client_fd c \<and>
    balance cs {sc_client_fd c} = Some (if sc_backend_fd c' \<ge> 0 then {sc_backend_fd c', sc_client_fd c} else {sc_client_fd c}) \<and>
    (sc_backend_fd c' \<ge> 0 \<longrightarrow> sc_backend_fd c' = sn_socket (sw_net w)) \<and> (\<not> rl_ended out \<longrightarrow> sc_backend_fd c' \<ge> 0)"
proof -
  let ?c = "c\<lparr>sc_state := STREAM_PROXY_STATE_CONNECTING\<rparr>"
  obtain sel lb1 st1 where sel: "stream_select_backend (sw_now w) (sw_random w) lb st (sc_upstream_name ?c) (sc_client_ip ?c) = Inr (sel, lb1, st1)"
    using assms(1) by (cases "stream_select_backend (sw_now w) (sw_random w) lb st (sc_upstream_name ?c) (sc_client_ip ?c)")
      (auto simp: stream_tcp_proxy_start_def Let_def)
  show ?thesis
  proof (cases sel)
    case None
    with sel assms show ?thesis by (auto simp: stream_tcp_proxy_start_def Let_def)
  next
    case (Some s)
    obtain i server where s: "s = (i, server)" by fastforce
    obtain r1 cs1 c1 where con: "stream_tcp_connect_backend (sw_net w) server (?c\<lparr>sc_backend_server := Some i\<rparr>) = Inr (r1, cs1, c1)"
      using assms(1) sel Some s
      by (cases "stream_tcp_connect_backend (sw_net w) server (?c\<lparr>sc_backend_server := Some i\<rparr>)")
        (auto simp: stream_tcp_proxy_start_def Let_def)
    obtain fin tb tc where rel: "relay (sw_to_backend w) (sw_to_client w) (sw_events w) [] [] = (fin, tb, tc)" by (metis prod_cases3)
    have k: "sn_socket (sw_net w) \<notin> {sc_client_fd c}" "sc_backend_fd (?c\<lparr>sc_backend_server := Some i\<rparr>) = -1"
      using assms(2,3) by simp_all
    from connect_calls [OF con k(1) k(2)] assms(1) sel Some s con rel show ?thesis
      by (auto simp: stream_tcp_proxy_start_def Let_def split: if_splits)
  qed
qed

text \<open>The descriptors of a proxied TCP connection: the thread opens at most one, never closes one that
is not open, and when the relay has ended, or no backend could be reached, the client's and the
backend's are closed, each once.\<close>

theorem stream_thread_closes:
  assumes "stream_proxy_thread w lb st c = Inr (cs, out, c', lb', st')"
    and "sc_client_fd c \<ge> 0" and "sc_backend_fd c = -1" and "sc_protocol c = STREAM_PROTOCOL_TCP"
    and "sn_socket (sw_net w) \<noteq> sc_client_fd c"
  shows "balance cs {sc_client_fd c} = Some (if rl_ended out then {} else {sc_client_fd c, sn_socket (sw_net w)}) \<and>
    (rl_ended out \<longrightarrow> sc_state c' = STREAM_PROXY_STATE_CLOSED \<and> \<not> sc_active c')"
proof -
  obtain r ds c1 where p: "stream_tcp_proxy_start w lb st c = Inr ((r, ds, out), c1, lb', st')"
    and t: "cs = (if rl_ended out then ds @ fst (stream_connection_cleanup c1) else ds)"
      "c' = (if rl_ended out then snd (stream_connection_cleanup c1) else c1)"
    using assms(1,4) by (cases "stream_tcp_proxy_start w lb st c")
      (auto simp: stream_proxy_thread_def Let_def case_prod_unfold split: if_splits)
  from proxy_calls [OF p assms(5,3)] assms(2,5) show ?thesis unfolding t by (auto simp: stream_connection_cleanup_def)
qed

section \<open>Sockets of the listeners\<close>

definition listener_fds :: "stream_listener list \<Rightarrow> int set" where
  "listener_fds ls = sl_socket_fd ` {l \<in> set ls. sl_active l}"

lemma listener_fds_simps [simp]:
  "listener_fds [] = {}"
  "listener_fds (l # ls) = (if sl_active l then insert (sl_socket_fd l) (listener_fds ls) else listener_fds ls)"
  by (auto simp: listener_fds_def)

lemma listener_start_cases:
  assumes "stream_listener_start env l = (r, cs, l')" "\<not> sl_active l"
  obtains "r = 0" "cs = [Opened (y_socket env)]" "y_socket env \<ge> 0" "sl_active l'" "sl_socket_fd l' = y_socket env"
  | "r = -1" "cs = [] \<or> cs = [Opened (y_socket env), Closed (y_socket env)]" "\<not> sl_active l'"
  using assms by (auto simp: stream_listener_start_def Let_def split: if_splits)

text \<open>What is active has a socket of its own.\<close>

fun sockets_ok :: "stream_listener list \<Rightarrow> bool" where
  "sockets_ok [] \<longleftrightarrow> True"
| "sockets_ok (l # ls) \<longleftrightarrow> (sl_active l \<longrightarrow> sl_socket_fd l \<ge> 0 \<and> sl_socket_fd l \<notin> listener_fds ls) \<and> sockets_ok ls"

definition answers_distinct :: "(nat \<Rightarrow> sock_env) \<Rightarrow> nat \<Rightarrow> bool" where
  "answers_distinct env n \<longleftrightarrow> distinct (List.map (\<lambda>k. y_socket (env k)) [0..<n])"

lemma answers_distinct_Suc:
  "answers_distinct env (Suc n) \<longleftrightarrow>
    answers_distinct (\<lambda>k. env (Suc k)) n \<and> y_socket (env 0) \<notin> (\<lambda>k. y_socket (env (Suc k))) ` {..<n}"
proof -
  have "[0..<Suc n] = 0 # List.map Suc [0..<n]" using map_Suc_upt [of 0 n] by (simp add: upt_conv_Cons del: upt_Suc)
  then show ?thesis by (auto simp: answers_distinct_def comp_def atLeast0LessThan simp del: upt_Suc)
qed

lemma start_listeners_spec:
  assumes "start_listeners env ls = (ok, cs, ls')" "\<forall>l\<in>set ls. \<not> sl_active l" "answers_distinct env (length ls)"
    "\<forall>k<length ls. y_socket (env k) \<notin> fds"
  shows "balance cs fds = Some (fds \<union> listener_fds ls') \<and> sockets_ok ls' \<and>
    listener_fds ls' \<subseteq> (\<lambda>k. y_socket (env k)) ` {..<length ls} \<and> (ok \<longrightarrow> (\<forall>l\<in>set ls'. sl_active l)) \<and>
    (listener_fds ls' \<noteq> {} \<longrightarrow> (case ls' of [] \<Rightarrow> False | l # _ \<Rightarrow> sl_active l))"
  using assms
proof (induction ls arbitrary: env ok cs ls' fds)
  case (Cons l ls)
  obtain r c1 l1 where start: "stream_listener_start (env 0) l = (r, c1, l1)" by (metis prod_cases3)
  have idle: "listener_fds ls = {}" "sockets_ok ls"
    using Cons.prems(2) by (simp add: listener_fds_def, induction ls) auto
  have off: "\<not> sl_active l" using Cons.prems(2) by simp
  show ?case
  proof (rule listener_start_cases [OF start off], goal_cases)
    case 1
    let ?fd = "y_socket (env 0)"
    obtain ok2 ds ls2 where 2: "start_listeners (\<lambda>k. env (Suc k)) ls = (ok2, ds, ls2)" by (metis prod_cases3)
    have r: "ok = ok2" "cs = c1 @ ds" "ls' = l1 # ls2"
      using Cons.prems(1) start 1(1) 2 by auto
    have d: "answers_distinct (\<lambda>k. env (Suc k)) (length ls)" "?fd \<notin> (\<lambda>k. y_socket (env (Suc k))) ` {..<length ls}"
      using Cons.prems(3) by (simp_all add: answers_distinct_Suc)
    have nf: "\<forall>k<length ls. y_socket (env (Suc k)) \<notin> insert ?fd fds"
    proof (intro allI impI)
      fix k
      assume "k < length ls"
      with Cons.prems(4) have "y_socket (env (Suc k)) \<notin> fds" by simp
      moreover have "y_socket (env (Suc k)) \<noteq> ?fd" using d(2) \<open>k < length ls\<close> by (metis imageI lessThan_iff)
      ultimately show "y_socket (env (Suc k)) \<notin> insert ?fd fds" by simp
    qed
    from Cons.IH [OF 2 _ d(1) nf] Cons.prems(2) have
      i: "balance ds (insert ?fd fds) = Some (insert ?fd fds \<union> listener_fds ls2)" "sockets_ok ls2"
        "listener_fds ls2 \<subseteq> (\<lambda>k. y_socket (env (Suc k))) ` {..<length ls}" "ok2 \<longrightarrow> (\<forall>l\<in>set ls2. sl_active l)" by auto
    have "(\<lambda>k. y_socket (env (Suc k))) ` {..<length ls} \<subseteq> (\<lambda>k. y_socket (env k)) ` {..<length (l # ls)}" by auto
    moreover have "?fd \<in> (\<lambda>k. y_socket (env k)) ` {..<length (l # ls)}" by auto
    moreover have "?fd \<notin> fds" using Cons.prems(4) by auto
    ultimately show ?case using 1 r i d(2) by auto
  next
    case 2
    then have "ok = False \<and> cs = c1 \<and> ls' = l1 # ls" using Cons.prems(1) start by simp
    moreover have "y_socket (env 0) \<notin> fds" using Cons.prems(4) by auto
    ultimately show ?case using 2 idle by auto
  qed
qed simp

lemma stop_listeners_spec:
  assumes "stop_listeners ls = (cs, ls')" "sockets_ok ls" "listener_fds ls \<inter> fds = {}"
  shows "balance cs (fds \<union> listener_fds ls) = Some fds \<and> (\<forall>l\<in>set ls'. \<not> sl_active l)"
  using assms
proof (induction ls arbitrary: cs ls')
  case (Cons l ls)
  obtain r c1 l1 where 1: "stream_listener_stop l = (r, c1, l1)" by (metis prod_cases3)
  obtain ds ls2 where 2: "stop_listeners ls = (ds, ls2)" by fastforce
  from Cons.prems(1) 1 2 have r: "cs = c1 @ ds" "ls' = l1 # ls2" by auto
  from Cons.IH [OF 2] Cons.prems have "balance ds (fds \<union> listener_fds ls) = Some fds" "\<forall>l\<in>set ls2. \<not> sl_active l"
    by (auto split: if_splits)
  moreover have "insert (sl_socket_fd l) (fds \<union> listener_fds ls) - {sl_socket_fd l} = fds \<union> listener_fds ls" if "sl_active l"
    using that Cons.prems(2,3) by auto
  ultimately show ?case using 1 r Cons.prems(2) by (auto simp: stream_listener_stop_def Let_def split: if_splits)
qed simp

text \<open>The stream service as a whole, for a kernel that hands out different descriptors: when all
listeners start, a stop closes every socket that was opened. When one of them fails, those before it
go on running and keep their sockets, but the manager does not count as running: it refuses to stop,
its release closes none of them, and it can never be started again, because its first listener is
active already.\<close>

theorem stream_manager_sockets:
  assumes "stream_manager_start env m = (r, cs, m')" and "\<not> sm_running m"
    and "\<forall>l\<in>set (sf_listeners (sm_config m)). \<not> sl_active l"
    and "answers_distinct env (length (sf_listeners (sm_config m)))"
  shows "(r = 0 \<longrightarrow> sm_running m' \<and>
      (\<exists>ds m''. stream_manager_stop m' = (0, ds, m'') \<and> balance (cs @ ds) {} = Some {} \<and> \<not> sm_running m'')) \<and>
    (r \<noteq> 0 \<longrightarrow> balance cs {} = Some (listener_fds (sf_listeners (sm_config m'))) \<and>
      stream_manager_stop m' = (-1, [], m') \<and>
      (sm_connections m' = [] \<longrightarrow> stream_manager_free m' = []) \<and>
      (listener_fds (sf_listeners (sm_config m')) \<noteq> {} \<longrightarrow> (\<forall>env'. stream_manager_start env' m' = (-1, [], m'))))"
proof -
  obtain ok c ls where s: "start_listeners env (sf_listeners (sm_config m)) = (ok, c, ls)" by (metis prod_cases3)
  note spec = start_listeners_spec [OF s assms(3,4), of "{}"]
  have m': "cs = c" "sf_listeners (sm_config m') = ls" "sm_running m' = ok" "r = (if ok then 0 else -1)"
    using assms(1,2) s by (auto split: if_splits simp: stream_manager_start_def Let_def)
  show ?thesis
  proof (cases ok)
    case True
    obtain ds ls2 where st: "stop_listeners ls = (ds, ls2)" by fastforce
    from stop_listeners_spec [OF this, of "{}"] spec m' True show ?thesis
      by (auto simp: stream_manager_stop_def st)
  next
    case False
    have "stream_manager_start env' m' = (-1, [], m')" if n: "listener_fds ls \<noteq> {}" for env'
    proof -
      from spec n obtain l0 ls0 where l: "ls = l0 # ls0" "sl_active l0" by (cases ls) auto
      then have "stream_listener_start (env' 0) l0 = (-1, [], l0)" by (simp add: stream_listener_start_def)
      then have "start_listeners env' ls = (False, [], ls)" using l by simp
      with m' False show ?thesis by (simp add: stream_manager_start_def)
    qed
    with spec m' False show ?thesis by (auto simp: stream_manager_stop_def stream_manager_free_def)
  qed
qed

definition two_listeners :: stream_manager where
  "two_listeners = the (stream_manager_create 0 (Some (stream_config_create\<lparr>sf_listeners :=
     [the (stream_listener_create (Some ''*'') 9000 STREAM_PROTOCOL_TCP (Some ''a'')),
      the (stream_listener_create (Some ''localhost'') 9001 STREAM_PROTOCOL_TCP (Some ''b''))]\<rparr>))
     (Some \<lparr>groups = [], group_count = 0, default_max_fails = 0, default_fail_timeout = 0, default_check_interval = 0,
           default_check_timeout = 0\<rparr>))"

theorem stream_manager_sockets_witness:
  "\<exists>cs m'. stream_manager_start (\<lambda>k. \<lparr>y_socket = int k + 3, y_bind = (\<lambda>a p. True), y_listen = True, y_thread = True\<rparr>) two_listeners = (-1, cs, m') \<and>
    balance cs {} = Some {3} \<and> stream_manager_stop m' = (-1, [], m')"
proof -
  let ?env = "\<lambda>k. \<lparr>y_socket = int k + 3, y_bind = (\<lambda>a p. True), y_listen = True, y_thread = True\<rparr>"
  obtain r cs m' where r: "stream_manager_start ?env two_listeners = (r, cs, m')" by (metis prod_cases3)
  then have v: "r = -1" "listener_fds (sf_listeners (sm_config m')) = {3}"
    by (auto simp: two_listeners_def stream_manager_create_def stream_listener_create_def stream_config_create_def
        stream_manager_start_def stream_listener_start_def Let_def)
  have "\<not> sm_running two_listeners" "\<forall>l\<in>set (sf_listeners (sm_config two_listeners)). \<not> sl_active l"
    "length (sf_listeners (sm_config two_listeners)) = 2"
    by (simp_all add: two_listeners_def stream_manager_create_def stream_listener_create_def stream_config_create_def)
  moreover have "answers_distinct ?env 2" by (simp add: answers_distinct_def upt_rec)
  ultimately show ?thesis using stream_manager_sockets [OF r] r v by simp
qed

definition no_upstreams :: lb_config where
  "no_upstreams = \<lparr>groups = [], group_count = 0, default_max_fails = 0, default_fail_timeout = 0, default_check_interval = 0,
     default_check_timeout = 0\<rparr>"

definition idle_world :: stream_world where
  "idle_world = \<lparr>sw_now = (\<lambda>k. 0), sw_random = 0,
     sw_net = \<lparr>sn_socket = 6, sn_connect = (\<lambda>a p. Connected_now), sn_errno_in_progress = False, sn_writable = True,
               sn_getsockopt_ok = True, sn_so_error = 0\<rparr>,
     sw_to_backend = (\<lambda>w d. int (length d)), sw_to_client = (\<lambda>w d. int (length d)), sw_events = []\<rparr>"

theorem stream_thread_closes_witness:
  "\<exists>cs out c' lb' st'. stream_proxy_thread idle_world no_upstreams \<lparr>session_table = [], session_locked = False\<rparr>
      (the (stream_connection_create 0 5 STREAM_PROTOCOL_TCP ''a'' ''10.0.0.1'')) = Inr (cs, out, c', lb', st') \<and>
    rl_ended out \<and> balance cs {5} = Some {}"
proof -
  let ?c = "the (stream_connection_create 0 5 STREAM_PROTOCOL_TCP ''a'' ''10.0.0.1'')"
  let ?st = "\<lparr>session_table = [], session_locked = False\<rparr>"
  have c: "sc_client_fd ?c = 5" "sc_backend_fd ?c = -1" "sc_protocol ?c = STREAM_PROTOCOL_TCP" "sc_upstream_name ?c = ''a''"
    by (simp_all add: stream_connection_create_def)
  obtain cs out c' lb' st' where r: "stream_proxy_thread idle_world no_upstreams ?st ?c = Inr (cs, out, c', lb', st')" "rl_ended out"
    using c by (auto simp: stream_proxy_thread_def stream_tcp_proxy_start_def stream_select_backend_def lb_config_get_group_def
        no_upstreams_def case_prod_unfold Let_def)
  from stream_thread_closes [OF r(1)] c r show ?thesis by (auto simp: idle_world_def)
qed

lemma stream_protocol_texts:
  "stream_protocol_from_string (Some ''TCP'') = STREAM_PROTOCOL_TCP" "stream_protocol_from_string (Some ''UDP'') = STREAM_PROTOCOL_UDP"
  by code_simp+

lemma stream_protocol_names: "stream_protocol_from_string (Some (stream_protocol_to_string p)) = p"
  by (cases p) (simp_all only: stream_protocol_to_string.simps stream_protocol_texts)

end
