(* ===== verification/HealthApi.thy ===== *)
theory HealthApi
  imports HealthCheck
begin

text \<open>
  The health interface of the load balancer (src/proxy/health_api.c, health_api.h): routes with
  a wildcard, query parameters, handlers, the summary of all servers and the texts of the
  answers. Allocation succeeds, and the pointers that the functions check for NULL are there
  except in \<open>health_api_handle_request\<close>. \<open>now k\<close> is what the k-th reading of time(NULL) in a call
  gives. As in the check thread, the lists of groups and servers are linked lists that the code
  indexes like arrays: \<open>node_at\<close>. A text that snprintf would write behind its buffer is the fault
  OutOfRange. Doubles are rationals.
\<close>

section \<open>Data\<close>

datatype health_api_format_t = HEALTH_API_FORMAT_JSON | HEALTH_API_FORMAT_TEXT | HEALTH_API_FORMAT_XML

record health_api_request =
  rq_path :: string
  rq_method :: string
  rq_query_string :: "string option"
  rq_format :: health_api_format_t
  rq_detailed :: bool

record health_api_response =
  rs_status_code :: int
  rs_content_type :: "string option"
  rs_body :: "string option"
  rs_body_size :: nat
  rs_timestamp :: int

record health_status_summary =
  su_total_servers :: int
  su_healthy_servers :: int
  su_unhealthy_servers :: int
  su_checking_servers :: int
  su_unknown_servers :: int
  su_overall_uptime :: rat
  su_last_updated :: int

text \<open>What \<open>list[i]\<close> reads when \<open>list\<close> points at the first node of a linked list: the first
element, or memory that does not belong to it.\<close>

fun node_at :: "'a list \<Rightarrow> nat \<Rightarrow> 'a run" where
  "node_at [] 0 = Inl BadPointer"
| "node_at (x # xs) 0 = Inr x"
| "node_at xs (Suc i) = Inl OutOfRange"

section \<open>Responses\<close>

definition health_api_response_create :: "int \<Rightarrow> health_api_response" where
  "health_api_response_create now =
     \<lparr>rs_status_code = 200, rs_content_type = None, rs_body = None, rs_body_size = 0, rs_timestamp = now\<rparr>"

definition health_api_response_set_body :: "health_api_response \<Rightarrow> string option \<Rightarrow> int \<times> health_api_response" where
  "health_api_response_set_body response body =
     (case body of None \<Rightarrow> (-1, response)
      | Some b \<Rightarrow> (0, response\<lparr>rs_body := Some b, rs_body_size := length b\<rparr>))"

text \<open>The steps by which every handler fills a response with a text.\<close>

definition response_with :: "int \<Rightarrow> int \<Rightarrow> string \<Rightarrow> string \<Rightarrow> health_api_response" where
  "response_with now code ctype body =
     snd (health_api_response_set_body
       ((health_api_response_create now)\<lparr>rs_status_code := code, rs_content_type := Some ctype\<rparr>) (Some body))"

definition json_type :: string where
  "json_type = ''application/json''"

section \<open>Paths and parameters\<close>

function path_matches :: "string \<Rightarrow> string \<Rightarrow> bool" where
  "path_matches [] t = (t = [])"
| "path_matches (p # ps) [] = False"
| "path_matches (p # ps) (t # ts) =
     (if p = CHR ''*'' then path_matches ps (dropWhile (\<lambda>c. c \<noteq> CHR ''/'') (t # ts))
      else if p = t then path_matches ps ts
      else False)"
  by pat_completeness auto
termination by (relation "measure (\<lambda>(p, t). length p)") auto

definition health_api_path_matches :: "string option \<Rightarrow> string option \<Rightarrow> bool" where
  "health_api_path_matches pattern path =
     (case (pattern, path) of (Some p, Some t) \<Rightarrow> path_matches p t | _ \<Rightarrow> False)"

definition health_api_extract_path_param :: "string \<Rightarrow> string \<Rightarrow> string option run" where
  "health_api_extract_path_param pattern path =
     (case strstr pattern ''*'' of
        None \<Rightarrow> Inr None
      | Some star \<Rightarrow>
          let prefix_len = length pattern - length star in
          if length path < prefix_len then Inl OutOfRange
          else
            let param_start = drop prefix_len path;
                param_end = (case strchr param_start (CHR ''/'') of Some e \<Rightarrow> e | None \<Rightarrow> [])
            in Inr (Some (take (length param_start - length param_end) param_start)))"

definition health_api_get_query_param :: "string option \<Rightarrow> string option \<Rightarrow> string option" where
  "health_api_get_query_param query_string param_name =
     (case (query_string, param_name) of
        (Some q, Some n) \<Rightarrow>
          (case strstr q n of
             None \<Rightarrow> None
           | Some p \<Rightarrow>
               (case drop (length n) p of
                  [] \<Rightarrow> None
                | c # param_start \<Rightarrow>
                    if c \<noteq> CHR ''='' then None
                    else
                      let param_end = (case strchr param_start (CHR ''&'') of Some e \<Rightarrow> e | None \<Rightarrow> [])
                      in Some (take (length param_start - length param_end) param_start)))
      | _ \<Rightarrow> None)"

definition health_api_parse_request :: "string option \<Rightarrow> string option \<Rightarrow> string option \<Rightarrow> health_api_request option" where
  "health_api_parse_request path meth query_string =
     (case (path, meth) of
        (Some p, Some m) \<Rightarrow>
          Some \<lparr>rq_path = p, rq_method = m, rq_query_string = query_string,
            rq_format =
              (case health_api_get_query_param query_string (Some ''format'') of
                 None \<Rightarrow> HEALTH_API_FORMAT_JSON
               | Some f \<Rightarrow> if f = ''json'' then HEALTH_API_FORMAT_JSON
                           else if f = ''text'' then HEALTH_API_FORMAT_TEXT
                           else if f = ''xml'' then HEALTH_API_FORMAT_XML
                           else HEALTH_API_FORMAT_JSON),
            rq_detailed =
              (case health_api_get_query_param query_string (Some ''detailed'') of
                 None \<Rightarrow> False | Some d \<Rightarrow> d = ''true'' \<or> d = ''1'')\<rparr>
      | _ \<Rightarrow> None)"

section \<open>The summary of all servers\<close>

definition count_status :: "server_status_t \<Rightarrow> health_status_summary \<Rightarrow> health_status_summary" where
  "count_status st su =
     (let su = su\<lparr>su_total_servers := su_total_servers su + 1\<rparr> in
      case st of
        SERVER_STATUS_UP \<Rightarrow> su\<lparr>su_healthy_servers := su_healthy_servers su + 1\<rparr>
      | SERVER_STATUS_DOWN \<Rightarrow> su\<lparr>su_unhealthy_servers := su_unhealthy_servers su + 1\<rparr>
      | SERVER_STATUS_CHECKING \<Rightarrow> su\<lparr>su_checking_servers := su_checking_servers su + 1\<rparr>
      | _ \<Rightarrow> su\<lparr>su_unknown_servers := su_unknown_servers su + 1\<rparr>)"

fun summary_servers :: "upstream_group \<Rightarrow> nat list \<Rightarrow> health_status_summary \<Rightarrow> health_status_summary run" where
  "summary_servers g [] su = Inr su"
| "summary_servers g (j # js) su =
     bindR (node_at (servers g) j) (\<lambda>s. summary_servers g js (count_status (status s) su))"

fun summary_groups :: "lb_config \<Rightarrow> nat list \<Rightarrow> health_status_summary \<Rightarrow> health_status_summary run" where
  "summary_groups c [] su = Inr su"
| "summary_groups c (i # is) su =
     bindR (node_at (groups c) i) (\<lambda>g.
     bindR (summary_servers g [0..<server_count g] su) (summary_groups c is))"

definition health_api_get_status_summary :: "int \<Rightarrow> lb_config \<Rightarrow> health_status_summary run" where
  "health_api_get_status_summary now c =
     bindR (summary_groups c [0..<group_count c]
         \<lparr>su_total_servers = 0, su_healthy_servers = 0, su_unhealthy_servers = 0, su_checking_servers = 0,
          su_unknown_servers = 0, su_overall_uptime = 0, su_last_updated = now\<rparr>)
       (\<lambda>su. Inr (if su_total_servers su > 0
          then su\<lparr>su_overall_uptime := of_int (su_healthy_servers su) / of_int (su_total_servers su) * 100\<rparr>
          else su))"

section \<open>Texts\<close>

text \<open>\<open>%.2f\<close> of a value that is not negative: hundredths, ties to even.\<close>

definition print_fixed2 :: "rat \<Rightarrow> string" where
  "print_fixed2 x =
     (let y = x * 100; k = \<lfloor>y\<rfloor>; f = y - of_int k;
          n = nat (if f < 1 / 2 \<or> f = 1 / 2 \<and> even k then k else k + 1)
      in print_nat (n div 100) @ ''.'' @ [digit_char (n mod 100 div 10), digit_char (n mod 10)])"

definition quoted_line :: "string \<Rightarrow> string \<Rightarrow> string" where
  "quoted_line k v = [CHR 0x22] @ k @ [CHR 0x22] @ '': '' @ v"

definition dq :: "string \<Rightarrow> string" where
  "dq s = [CHR 0x22] @ s @ [CHR 0x22]"

definition nl :: string where
  "nl = [CHR 0x0A]"

definition up_down :: "upstream_server \<Rightarrow> string" where
  "up_down s = (if status s = SERVER_STATUS_UP then ''UP'' else ''DOWN'')"

definition lb_algorithm_to_string :: "lb_strategy_t \<Rightarrow> string" where
  "lb_algorithm_to_string algorithm = lb_strategy_to_string algorithm"

text \<open>\<open>offset += snprintf (...)\<close> for every server of a group.\<close>

fun format_servers ::
  "nat \<Rightarrow> (nat \<Rightarrow> upstream_server \<Rightarrow> string) \<Rightarrow> upstream_group \<Rightarrow> nat list \<Rightarrow> string \<times> nat \<Rightarrow> (string \<times> nat) run" where
  "format_servers n fmt g [] b = Inr b"
| "format_servers n fmt g (i # is) b =
     bindR (node_at (servers g) i) (\<lambda>s. bindR (snprintf_at n (fmt i s) b) (format_servers n fmt g is))"

definition json_status_server :: "upstream_group \<Rightarrow> nat \<Rightarrow> upstream_server \<Rightarrow> string" where
  "json_status_server g i s =
     ''    {'' @ nl @
     ''      '' @ quoted_line ''host'' (dq (host s)) @ '','' @ nl @
     ''      '' @ quoted_line ''port'' (print_int (port s)) @ '','' @ nl @
     ''      '' @ quoted_line ''weight'' (print_int (weight s)) @ '','' @ nl @
     ''      '' @ quoted_line ''status'' (dq (up_down s)) @ '','' @ nl @
     ''      '' @ quoted_line ''current_connections'' (print_int (current_connections s)) @ '','' @ nl @
     ''      '' @ quoted_line ''total_requests'' (print_int (srv_total_requests s)) @ nl @
     ''    }'' @ (if i + 1 < server_count g then '','' else []) @ nl"

definition health_api_format_json_status :: "int \<Rightarrow> upstream_group \<Rightarrow> string run" where
  "health_api_format_json_status now g =
     bindR (snprintf_at 4096
        (''{'' @ nl @
         ''  '' @ quoted_line ''group'' (dq (g_name g)) @ '','' @ nl @
         ''  '' @ quoted_line ''algorithm'' (dq (lb_algorithm_to_string (g_strategy g))) @ '','' @ nl @
         ''  '' @ quoted_line ''servers'' ''['' @ nl) ([], 0)) (\<lambda>b.
     bindR (format_servers 4096 (json_status_server g) g [0..<server_count g] b) (\<lambda>b.
     bindR (snprintf_at 4096
        (''  ],'' @ nl @ ''  '' @ quoted_line ''timestamp'' (print_int now) @ nl @ ''}'' @ nl) b) (\<lambda>(s, offset). Inr s)))"

definition json_server_text :: "int \<Rightarrow> upstream_server \<Rightarrow> string" where
  "json_server_text now s =
     ''{'' @ nl @
     ''  '' @ quoted_line ''host'' (dq (host s)) @ '','' @ nl @
     ''  '' @ quoted_line ''port'' (print_int (port s)) @ '','' @ nl @
     ''  '' @ quoted_line ''weight'' (print_int (weight s)) @ '','' @ nl @
     ''  '' @ quoted_line ''status'' (dq (up_down s)) @ '','' @ nl @
     ''  '' @ quoted_line ''current_connections'' (print_int (current_connections s)) @ '','' @ nl @
     ''  '' @ quoted_line ''total_requests'' (print_int (srv_total_requests s)) @ '','' @ nl @
     ''  '' @ quoted_line ''timestamp'' (print_int now) @ nl @ ''}'' @ nl"

definition health_api_format_json_server :: "int \<Rightarrow> upstream_server \<Rightarrow> string" where
  "health_api_format_json_server now s = snprintf 1024 (json_server_text now s)"

definition health_api_format_json_summary :: "health_status_summary \<Rightarrow> string" where
  "health_api_format_json_summary su =
     snprintf 1024
       (''{'' @ nl @
        ''  '' @ quoted_line ''total_servers'' (print_int (su_total_servers su)) @ '','' @ nl @
        ''  '' @ quoted_line ''healthy_servers'' (print_int (su_healthy_servers su)) @ '','' @ nl @
        ''  '' @ quoted_line ''unhealthy_servers'' (print_int (su_unhealthy_servers su)) @ '','' @ nl @
        ''  '' @ quoted_line ''checking_servers'' (print_int (su_checking_servers su)) @ '','' @ nl @
        ''  '' @ quoted_line ''unknown_servers'' (print_int (su_unknown_servers su)) @ '','' @ nl @
        ''  '' @ quoted_line ''overall_uptime'' (print_fixed2 (su_overall_uptime su)) @ '','' @ nl @
        ''  '' @ quoted_line ''last_updated'' (print_int (su_last_updated su)) @ nl @ ''}'' @ nl)"

definition health_api_format_text_status :: "upstream_group \<Rightarrow> string run" where
  "health_api_format_text_status g =
     bindR (snprintf_at 2048
        (''Upstream Group: '' @ g_name g @ nl @
         ''Algorithm: '' @ lb_algorithm_to_string (g_strategy g) @ nl @ ''Servers:'' @ nl) ([], 0)) (\<lambda>b.
     bindR (format_servers 2048
        (\<lambda>i s. ''  - '' @ host s @ '':'' @ print_int (port s) @ '' (weight='' @ print_int (weight s) @
           '', status='' @ up_down s @ '', connections='' @ print_int (current_connections s) @ '')'' @ nl)
        g [0..<server_count g] b) (\<lambda>(s, offset). Inr s))"

definition health_api_format_text_server :: "upstream_server \<Rightarrow> string" where
  "health_api_format_text_server s =
     snprintf 512
       (''Server: '' @ host s @ '':'' @ print_int (port s) @ nl @
        ''Weight: '' @ print_int (weight s) @ nl @
        ''Status: '' @ up_down s @ nl @
        ''Current Connections: '' @ print_int (current_connections s) @ nl @
        ''Total Requests: '' @ print_int (srv_total_requests s) @ nl)"

definition health_api_format_text_summary :: "health_status_summary \<Rightarrow> string" where
  "health_api_format_text_summary su =
     snprintf 512
       (''Health Summary:'' @ nl @
        ''Total Servers: '' @ print_int (su_total_servers su) @ nl @
        ''Healthy Servers: '' @ print_int (su_healthy_servers su) @ nl @
        ''Unhealthy Servers: '' @ print_int (su_unhealthy_servers su) @ nl @
        ''Unknown Servers: '' @ print_int (su_unknown_servers su) @ nl @
        ''Overall Uptime: '' @ print_fixed2 (su_overall_uptime su) @ ''%'' @ nl)"

section \<open>Status of the balancer, a group and a server\<close>

definition xml_stub :: "string \<Rightarrow> string" where
  "xml_stub tag =
     ''<?xml version='' @ dq ''1.0'' @ ''?><'' @ tag @ ''>XML format not implemented</'' @ tag @ ''>''"

definition health_api_get_overall_status ::
  "(nat \<Rightarrow> int) \<Rightarrow> lb_config \<Rightarrow> health_api_format_t \<Rightarrow> health_api_response option run" where
  "health_api_get_overall_status now c fmt =
     bindR (health_api_get_status_summary (now 1) c) (\<lambda>su. Inr (Some (
       case fmt of
         HEALTH_API_FORMAT_JSON \<Rightarrow> response_with (now 0) 200 json_type (health_api_format_json_summary su)
       | HEALTH_API_FORMAT_TEXT \<Rightarrow> response_with (now 0) 200 ''text/plain'' (health_api_format_text_summary su)
       | HEALTH_API_FORMAT_XML \<Rightarrow> response_with (now 0) 200 ''application/xml'' (xml_stub ''summary''))))"

definition health_api_get_upstream_status ::
  "(nat \<Rightarrow> int) \<Rightarrow> upstream_group \<Rightarrow> health_api_format_t \<Rightarrow> health_api_response option run" where
  "health_api_get_upstream_status now g fmt =
     (case fmt of
        HEALTH_API_FORMAT_JSON \<Rightarrow>
          bindR (health_api_format_json_status (now 1) g) (\<lambda>b. Inr (Some (response_with (now 0) 200 json_type b)))
      | HEALTH_API_FORMAT_TEXT \<Rightarrow>
          bindR (health_api_format_text_status g) (\<lambda>b. Inr (Some (response_with (now 0) 200 ''text/plain'' b)))
      | HEALTH_API_FORMAT_XML \<Rightarrow> Inr (Some (response_with (now 0) 200 ''application/xml'' (xml_stub ''group''))))"

definition health_api_get_server_status ::
  "(nat \<Rightarrow> int) \<Rightarrow> upstream_server \<Rightarrow> health_api_format_t \<Rightarrow> health_api_response option" where
  "health_api_get_server_status now s fmt = Some (
     case fmt of
       HEALTH_API_FORMAT_JSON \<Rightarrow> response_with (now 0) 200 json_type (health_api_format_json_server (now 1) s)
     | HEALTH_API_FORMAT_TEXT \<Rightarrow> response_with (now 0) 200 ''text/plain'' (health_api_format_text_server s)
     | HEALTH_API_FORMAT_XML \<Rightarrow> response_with (now 0) 200 ''application/xml'' (xml_stub ''server''))"

definition health_api_get_server_history ::
  "(nat \<Rightarrow> int) \<Rightarrow> upstream_server \<Rightarrow> health_api_format_t \<Rightarrow> health_api_response option" where
  "health_api_get_server_history now s fmt = health_api_get_server_status now s fmt"

section \<open>Handlers\<close>

type_synonym api_handler = "(nat \<Rightarrow> int) \<Rightarrow> health_api_request \<Rightarrow> lb_config \<Rightarrow> health_api_response option run"

definition json_error :: "string \<Rightarrow> string \<Rightarrow> string" where
  "json_error e m = ''{ '' @ quoted_line ''error'' (dq e) @ '', '' @ quoted_line ''message'' (dq m) @ '' }''"

definition json_message :: "string \<Rightarrow> string" where
  "json_message m = ''{ '' @ quoted_line ''message'' (dq m) @ '' }''"

definition health_api_get_overall_status_handler :: api_handler where
  "health_api_get_overall_status_handler now request c = health_api_get_overall_status now c (rq_format request)"

fun find_group_at :: "lb_config \<Rightarrow> string \<Rightarrow> nat list \<Rightarrow> upstream_group option run" where
  "find_group_at c name [] = Inr None"
| "find_group_at c name (i # is) =
     bindR (node_at (groups c) i) (\<lambda>g. if g_name g = name then Inr (Some g) else find_group_at c name is)"

definition health_api_get_upstream_status_handler :: api_handler where
  "health_api_get_upstream_status_handler now request c =
     bindR (health_api_extract_path_param ''/health/upstream/*'' (rq_path request)) (\<lambda>name.
       case name of
         None \<Rightarrow> Inr (Some (response_with (now 0) 400 json_type (json_error ''Bad Request'' ''Upstream name required'')))
       | Some n \<Rightarrow>
           bindR (find_group_at c n [0..<group_count c]) (\<lambda>g.
             case g of
               None \<Rightarrow> Inr (Some (response_with (now 0) 404 json_type (json_error ''Not Found'' ''Upstream not found'')))
             | Some g \<Rightarrow> health_api_get_upstream_status now g (rq_format request)))"

fun find_server_in :: "upstream_group \<Rightarrow> string \<Rightarrow> int \<Rightarrow> nat list \<Rightarrow> upstream_server option run" where
  "find_server_in g h p [] = Inr None"
| "find_server_in g h p (j # js) =
     bindR (node_at (servers g) j) (\<lambda>s. if host s = h \<and> port s = p then Inr (Some s) else find_server_in g h p js)"

fun find_server_at :: "lb_config \<Rightarrow> string \<Rightarrow> int \<Rightarrow> nat list \<Rightarrow> upstream_server option run" where
  "find_server_at c h p [] = Inr None"
| "find_server_at c h p (i # is) =
     bindR (node_at (groups c) i) (\<lambda>g.
     bindR (find_server_in g h p [0..<server_count g]) (\<lambda>s.
       case s of Some s \<Rightarrow> Inr (Some s) | None \<Rightarrow> find_server_at c h p is))"

definition health_api_get_server_status_handler :: api_handler where
  "health_api_get_server_status_handler now request c =
     bindR (health_api_extract_path_param ''/health/server/*'' (rq_path request)) (\<lambda>info.
       case info of
         None \<Rightarrow> Inr (Some (response_with (now 0) 400 json_type (json_error ''Bad Request'' ''Server info required'')))
       | Some server_info \<Rightarrow>
           (case strchr server_info (CHR '':'') of
              None \<Rightarrow> Inr (Some (response_with (now 0) 400 json_type
                        (json_error ''Bad Request'' ''Invalid server format (host:port)'')))
            | Some colon \<Rightarrow>
                bindR (find_server_at c (before server_info colon) (atoi (tl colon)) [0..<group_count c]) (\<lambda>s.
                  case s of
                    None \<Rightarrow> Inr (Some (response_with (now 0) 404 json_type (json_error ''Not Found'' ''Server not found'')))
                  | Some s \<Rightarrow> Inr (health_api_get_server_status now s (rq_format request)))))"

definition health_api_get_server_history_handler :: api_handler where
  "health_api_get_server_history_handler now request c =
     bindR (health_api_get_server_status_handler now request c) (\<lambda>r.
       case r of
         None \<Rightarrow> Inl BadPointer
       | Some r \<Rightarrow>
           Inr (Some (if rs_status_code r \<noteq> 200 then r
             else response_with (now (if rq_format request = HEALTH_API_FORMAT_JSON then 2 else 1)) 200 json_type
               (json_message ''History endpoint not fully implemented''))))"

definition health_api_force_check_handler :: api_handler where
  "health_api_force_check_handler now request c =
     Inr (Some (response_with (now 0) 200 json_type (json_message ''Force check triggered'')))"

definition health_api_enable_check_handler :: api_handler where
  "health_api_enable_check_handler now request c =
     Inr (Some (response_with (now 0) 200 json_type (json_message ''Health check enabled'')))"

definition health_api_disable_check_handler :: api_handler where
  "health_api_disable_check_handler now request c =
     Inr (Some (response_with (now 0) 200 json_type (json_message ''Health check disabled'')))"

section \<open>Routes\<close>

record health_api_route =
  rt_path_pattern :: string
  rt_method :: string
  rt_handler :: api_handler

definition api_routes :: "health_api_route list" where
  "api_routes =
    [\<lparr>rt_path_pattern = ''/health'', rt_method = ''GET'', rt_handler = health_api_get_overall_status_handler\<rparr>,
     \<lparr>rt_path_pattern = ''/health/upstream/*'', rt_method = ''GET'', rt_handler = health_api_get_upstream_status_handler\<rparr>,
     \<lparr>rt_path_pattern = ''/health/server/*'', rt_method = ''GET'', rt_handler = health_api_get_server_status_handler\<rparr>,
     \<lparr>rt_path_pattern = ''/health/server/*/history'', rt_method = ''GET'', rt_handler = health_api_get_server_history_handler\<rparr>,
     \<lparr>rt_path_pattern = ''/health/server/*/check'', rt_method = ''POST'', rt_handler = health_api_force_check_handler\<rparr>,
     \<lparr>rt_path_pattern = ''/health/server/*/enable'', rt_method = ''POST'', rt_handler = health_api_enable_check_handler\<rparr>,
     \<lparr>rt_path_pattern = ''/health/server/*/disable'', rt_method = ''POST'', rt_handler = health_api_disable_check_handler\<rparr>]"

definition health_api_get_route_count :: nat where
  "health_api_get_route_count = length api_routes"

definition health_api_match_route :: "string \<Rightarrow> string \<Rightarrow> health_api_route option" where
  "health_api_match_route path meth =
     List.find (\<lambda>r. rt_method r = meth \<and> health_api_path_matches (Some (rt_path_pattern r)) (Some path)) api_routes"

definition health_api_handle_request ::
  "(nat \<Rightarrow> int) \<Rightarrow> health_api_request option \<Rightarrow> lb_config option \<Rightarrow> health_api_response option run" where
  "health_api_handle_request now request lb_config =
     (case (request, lb_config) of
        (Some rq, Some c) \<Rightarrow>
          (case health_api_match_route (rq_path rq) (rq_method rq) of
             None \<Rightarrow> Inr (Some (response_with (now 0) 404 json_type (json_error ''Not Found'' ''API endpoint not found'')))
           | Some route \<Rightarrow>
               bindR (rt_handler route (\<lambda>k. now (k + 1)) rq c) (\<lambda>result.
                 case result of
                   Some r \<Rightarrow> Inr (Some r)
                 | None \<Rightarrow> Inr (Some (response_with (now 0) 500 json_type
                     (json_error ''Internal Server Error'' ''Handler failed'')))))
      | _ \<Rightarrow> Inr None)"

section \<open>Patterns\<close>

lemma path_matches_prefix:
  "CHR ''*'' \<notin> set pre \<Longrightarrow> path_matches (pre @ q) t \<longleftrightarrow> (\<exists>u. t = pre @ u \<and> path_matches q u)"
proof (induction pre arbitrary: t)
  case (Cons c pre)
  then show ?case by (cases t) auto
qed simp

lemma path_matches_plain: "CHR ''*'' \<notin> set q \<Longrightarrow> path_matches q t \<longleftrightarrow> t = q"
  using path_matches_prefix [of q "[]" t] by auto

text \<open>A pattern with one wildcard: what stands for it has no slash, and it may only be empty when
something follows.\<close>

lemma path_matches_star:
  assumes "CHR ''*'' \<notin> set pre" and "CHR ''*'' \<notin> set post" and "post = [] \<or> hd post = CHR ''/''"
  shows "path_matches (pre @ CHR ''*'' # post) t \<longleftrightarrow>
    (\<exists>w. t = pre @ w @ post \<and> CHR ''/'' \<notin> set w \<and> (w = [] \<longrightarrow> post \<noteq> []))"
proof -
  have "path_matches (CHR ''*'' # post) u \<longleftrightarrow> (\<exists>w. u = w @ post \<and> CHR ''/'' \<notin> set w \<and> (w = [] \<longrightarrow> post \<noteq> []))" for u
  proof (cases u)
    case (Cons c cs)
    let ?d = "dropWhile (\<lambda>c. c \<noteq> CHR ''/'') u" and ?t = "takeWhile (\<lambda>c. c \<noteq> CHR ''/'') u"
    have "path_matches (CHR ''*'' # post) u \<longleftrightarrow> ?d = post"
      using Cons assms(2) by (simp add: path_matches_plain)
    also have "\<dots> \<longleftrightarrow> (\<exists>w. u = w @ post \<and> CHR ''/'' \<notin> set w \<and> (w = [] \<longrightarrow> post \<noteq> []))"
    proof
      assume d: "?d = post"
      have "u = ?t @ post" using d takeWhile_dropWhile_id [of "\<lambda>c. c \<noteq> CHR ''/''" u] by simp
      moreover have "CHR ''/'' \<notin> set ?t" by (auto dest: set_takeWhileD)
      ultimately show "\<exists>w. u = w @ post \<and> CHR ''/'' \<notin> set w \<and> (w = [] \<longrightarrow> post \<noteq> [])"
        using Cons by (intro exI [of _ ?t]) auto
    next
      assume "\<exists>w. u = w @ post \<and> CHR ''/'' \<notin> set w \<and> (w = [] \<longrightarrow> post \<noteq> [])"
      then obtain w where w: "u = w @ post" "CHR ''/'' \<notin> set w" by auto
      then have "?d = dropWhile (\<lambda>c. c \<noteq> CHR ''/'') post" by (induction w arbitrary: u) auto
      also have "\<dots> = post" using assms(3) by (cases post) auto
      finally show "?d = post" .
    qed
    finally show ?thesis .
  qed auto
  then show ?thesis by (subst path_matches_prefix [OF assms(1)]) auto
qed

lemma dropWhile_segment: "CHR ''/'' \<notin> set w \<Longrightarrow> dropWhile (\<lambda>c. c \<noteq> CHR ''/'') w = []"
  by auto

text \<open>The routes: the method selects them first, then the first pattern that the path matches.\<close>

definition segment :: "string \<Rightarrow> string \<Rightarrow> string \<Rightarrow> bool" where
  "segment pre post path \<longleftrightarrow> (\<exists>w. path = pre @ w @ post \<and> CHR ''/'' \<notin> set w \<and> (w = [] \<longrightarrow> post \<noteq> []))"

lemma route_patterns:
  "path_matches ''/health'' t \<longleftrightarrow> t = ''/health''"
  "path_matches ''/health/upstream/*'' t \<longleftrightarrow> segment ''/health/upstream/'' [] t"
  "path_matches ''/health/server/*'' t \<longleftrightarrow> segment ''/health/server/'' [] t"
  "path_matches ''/health/server/*/history'' t \<longleftrightarrow> segment ''/health/server/'' ''/history'' t"
  "path_matches ''/health/server/*/check'' t \<longleftrightarrow> segment ''/health/server/'' ''/check'' t"
  "path_matches ''/health/server/*/enable'' t \<longleftrightarrow> segment ''/health/server/'' ''/enable'' t"
  "path_matches ''/health/server/*/disable'' t \<longleftrightarrow> segment ''/health/server/'' ''/disable'' t"
  using path_matches_plain [of "''/health''" t] path_matches_star [of "''/health/upstream/''" "[]" t]
    path_matches_star [of "''/health/server/''" "[]" t] path_matches_star [of "''/health/server/''" "''/history''" t]
    path_matches_star [of "''/health/server/''" "''/check''" t] path_matches_star [of "''/health/server/''" "''/enable''" t]
    path_matches_star [of "''/health/server/''" "''/disable''" t]
  unfolding segment_def by simp_all

lemma route_eq:
  "health_api_match_route t m =
    (if m = ''GET'' then
       (if t = ''/health'' then Some (api_routes ! 0)
        else if segment ''/health/upstream/'' [] t then Some (api_routes ! 1)
        else if segment ''/health/server/'' [] t then Some (api_routes ! 2)
        else if segment ''/health/server/'' ''/history'' t then Some (api_routes ! 3)
        else None)
     else if m = ''POST'' then
       (if segment ''/health/server/'' ''/check'' t then Some (api_routes ! 4)
        else if segment ''/health/server/'' ''/enable'' t then Some (api_routes ! 5)
        else if segment ''/health/server/'' ''/disable'' t then Some (api_routes ! 6)
        else None)
     else None)"
  unfolding health_api_match_route_def api_routes_def
  by (simp add: health_api_path_matches_def route_patterns)

section \<open>The list that is read as an array\<close>

definition counts_right :: "lb_config \<Rightarrow> bool" where
  "counts_right c \<longleftrightarrow> group_count c = length (groups c) \<and> (\<forall>g\<in>set (groups c). server_count g = length (servers g))"

lemma indices_eq: "[0..<length (x # y # xs)] = 0 # Suc 0 # [2..<length (x # y # xs)]"
  by (simp add: upt_conv_Cons numeral_2_eq_2 del: upt_Suc)

lemma index_one: "[0..<length [x]] = [0]"
  by simp

lemma node_at_behind [simp]: "node_at xs (Suc 0) = Inl OutOfRange"
  by (cases xs) simp_all

lemma find_server_first:
  assumes "server_count g = length (servers g)"
  shows "find_server_in g h p [0..<server_count g] =
    (case servers g of [] \<Rightarrow> Inr None
     | s # ss \<Rightarrow> if host s = h \<and> port s = p then Inr (Some s) else if ss = [] then Inr None else Inl OutOfRange)"
  unfolding assms by (cases "servers g" rule: remdups_adj.cases) (simp_all add: indices_eq index_one del: upt_Suc list.size)

lemma find_group_first:
  assumes "group_count c = length (groups c)"
  shows "find_group_at c n [0..<group_count c] =
    (case groups c of [] \<Rightarrow> Inr None
     | g # gs \<Rightarrow> if g_name g = n then Inr (Some g) else if gs = [] then Inr None else Inl OutOfRange)"
  unfolding assms by (cases "groups c" rule: remdups_adj.cases) (simp_all add: indices_eq index_one del: upt_Suc list.size)

lemma find_server_at_first:
  assumes "group_count c = length (groups c)"
  shows "find_server_at c h p [0..<group_count c] =
    (case groups c of [] \<Rightarrow> Inr None
     | g # gs \<Rightarrow> bindR (find_server_in g h p [0..<server_count g]) (\<lambda>s.
         case s of Some s \<Rightarrow> Inr (Some s) | None \<Rightarrow> if gs = [] then Inr None else Inl OutOfRange))"
  unfolding assms by (cases "groups c" rule: remdups_adj.cases) (simp_all add: indices_eq index_one del: upt_Suc list.size)

lemma summary_servers_all:
  assumes "server_count g = length (servers g)"
  shows "summary_servers g [0..<server_count g] su =
    (case servers g of [] \<Rightarrow> Inr su | s # ss \<Rightarrow> if ss = [] then Inr (count_status (status s) su) else Inl OutOfRange)"
  unfolding assms by (cases "servers g" rule: remdups_adj.cases) (simp_all add: indices_eq index_one del: upt_Suc list.size)

lemma bindR_Inr_id: "bindR r Inr = r"
  by (cases r) simp_all

lemma summary_groups_all:
  assumes "group_count c = length (groups c)"
  shows "summary_groups c [0..<group_count c] su =
    (case groups c of [] \<Rightarrow> Inr su
     | g # gs \<Rightarrow> bindR (summary_servers g [0..<server_count g] su) (\<lambda>su. if gs = [] then Inr su else Inl OutOfRange))"
  unfolding assms by (cases "groups c" rule: remdups_adj.cases) (simp_all add: indices_eq index_one bindR_Inr_id del: upt_Suc list.size cong: bindR_cong)

section \<open>Answers\<close>

lemma star_prefix: "CHR ''*'' \<notin> set pre \<Longrightarrow> strstr (pre @ ''*'') ''*'' = Some ''*''"
  by (induction pre) (auto simp: starts_with_def)

lemma extract_param:
  assumes "CHR ''*'' \<notin> set pre"
  shows "health_api_extract_path_param (pre @ ''*'') (pre @ w) = Inr (Some (takeWhile (\<lambda>c. c \<noteq> CHR ''/'') w))"
proof (cases "strchr w (CHR ''/'')")
  case None
  then have n: "CHR ''/'' \<notin> set w" by (rule strchr_None [THEN iffD1])
  have t: "takeWhile (\<lambda>c. c \<noteq> CHR ''/'') w = w" using n by (auto simp: takeWhile_eq_all_conv)
  show ?thesis unfolding t using None by (simp add: health_api_extract_path_param_def star_prefix [OF assms])
next
  case (Some e)
  then show ?thesis
    using strchr_before [OF Some] by (simp add: health_api_extract_path_param_def star_prefix [OF assms] before_def)
qed

lemma extract_server:
  "health_api_extract_path_param ''/health/server/*'' (''/health/server/'' @ w) = Inr (Some (takeWhile (\<lambda>c. c \<noteq> CHR ''/'') w))"
  "health_api_extract_path_param ''/health/upstream/*'' (''/health/upstream/'' @ w) = Inr (Some (takeWhile (\<lambda>c. c \<noteq> CHR ''/'') w))"
  using extract_param [of "''/health/server/''" w] extract_param [of "''/health/upstream/''" w] by simp_all

lemma print_int_no_slash: "0 \<le> p \<Longrightarrow> CHR ''/'' \<notin> set (print_int p)"
  using print_int_digits [of p] by (fastforce simp: list_all_iff isdigit_def)

lemma server_text:
  assumes "CHR ''/'' \<notin> set h" "CHR '':'' \<notin> set h" "0 \<le> p" "p < 2 ^ 31"
  defines "w \<equiv> h @ '':'' @ print_int p"
  shows "CHR ''/'' \<notin> set w" "takeWhile (\<lambda>c. c \<noteq> CHR ''/'') w = w"
    "strchr w (CHR '':'') = Some (CHR '':'' # print_int p)" "before w (CHR '':'' # print_int p) = h"
    "atoi (print_int p) = p"
proof -
  show n: "CHR ''/'' \<notin> set w" using assms(1) print_int_no_slash [OF assms(3)] by (simp add: w_def)
  then show "takeWhile (\<lambda>c. c \<noteq> CHR ''/'') w = w" by (auto simp: takeWhile_eq_all_conv)
  show "strchr w (CHR '':'') = Some (CHR '':'' # print_int p)" using assms(2) by (simp add: w_def)
  show "before w (CHR '':'' # print_int p) = h" by (simp add: w_def before_def)
  show "atoi (print_int p) = p" using assms(3,4) by (rule atoi_print_int)
qed

lemma segment_whole: "w \<noteq> [] \<Longrightarrow> CHR ''/'' \<notin> set w \<Longrightarrow> segment pre [] (pre @ w)"
  by (simp add: segment_def)

definition get_request :: "string \<Rightarrow> health_api_format_t \<Rightarrow> health_api_request" where
  "get_request p fmt = \<lparr>rq_path = p, rq_method = ''GET'', rq_query_string = None, rq_format = fmt, rq_detailed = False\<rparr>"

lemma handle_routed:
  "health_api_match_route (rq_path rq) (rq_method rq) = Some r \<Longrightarrow>
   rt_handler r (\<lambda>k. now (k + 1)) rq c = x \<Longrightarrow> (\<forall>y. x \<noteq> Inr None) \<Longrightarrow>
   health_api_handle_request now (Some rq) (Some c) = x"
  by (cases x) (auto simp: health_api_handle_request_def split: option.splits)

text \<open>C34. The request for the state of one server, over the balancer's configuration with the right
counts: the first server of the first group is found by its host and port and answered with its
JSON text, of which 1023 bytes are kept. Any other server is looked for behind the memory of the
first one or of the first group; only when the balancer has no other server than that one is the
answer a 404.\<close>

theorem health_server_request:
  assumes "counts_right c" and "groups c = g # gs" and "servers g = s # ss"
    and "CHR ''/'' \<notin> set h" and "CHR '':'' \<notin> set h" and "0 \<le> p" and "p < 2 ^ 31"
  shows "health_api_handle_request now
      (Some (get_request (''/health/server/'' @ h @ '':'' @ print_int p) HEALTH_API_FORMAT_JSON)) (Some c) =
    (if host s = h \<and> port s = p
     then Inr (Some (response_with (now 1) 200 ''application/json'' (take 1023 (json_server_text (now 2) s))))
     else if ss \<noteq> [] \<or> gs \<noteq> [] then Inl OutOfRange
     else Inr (Some (response_with (now 1) 404 ''application/json'' (json_error ''Not Found'' ''Server not found''))))"
proof -
  let ?w = "h @ '':'' @ print_int p"
  let ?rq = "get_request (''/health/server/'' @ ?w) HEALTH_API_FORMAT_JSON"
  note w = server_text [OF assms(4-7)]
  have c: "group_count c = length (groups c)" "server_count g = length (servers g)"
    using assms(1,2) by (auto simp: counts_right_def)
  have "segment ''/health/server/'' [] (''/health/server/'' @ ?w)" using w(1) by (intro segment_whole) simp_all
  moreover have "\<not> segment ''/health/upstream/'' [] (''/health/server/'' @ ?w)" by (simp add: segment_def)
  ultimately have r: "health_api_match_route (rq_path ?rq) (rq_method ?rq) = Some (api_routes ! 2)"
    unfolding route_eq by (simp add: get_request_def)
  have f: "find_server_at c h p [0..<group_count c] =
      (if host s = h \<and> port s = p then Inr (Some s) else if ss \<noteq> [] \<or> gs \<noteq> [] then Inl OutOfRange else Inr None)"
    by (simp add: find_server_at_first [OF c(1)] find_server_first [OF c(2)] assms(2,3))
  have e: "health_api_extract_path_param ''/health/server/*'' (''/health/server/'' @ ?w) = Inr (Some ?w)"
    using extract_server(1) [of ?w] unfolding w(2) .
  have h: "rt_handler (api_routes ! 2) (\<lambda>k. now (k + 1)) ?rq c =
      (if host s = h \<and> port s = p
       then Inr (Some (response_with (now 1) 200 json_type (take 1023 (json_server_text (now 2) s))))
       else if ss \<noteq> [] \<or> gs \<noteq> [] then Inl OutOfRange
       else Inr (Some (response_with (now 1) 404 json_type (json_error ''Not Found'' ''Server not found''))))"
    using e w(3-5) f
    by (simp add: api_routes_def health_api_get_server_status_handler_def get_request_def
        health_api_get_server_status_def health_api_format_json_server_def snprintf_def numeral_2_eq_2)
  show ?thesis unfolding json_type_def [symmetric] by (rule handle_routed [OF r h]) simp
qed

definition sample_api_config :: lb_config where
  "sample_api_config = lb_config_create\<lparr>groups := [sample_group], group_count := 1\<rparr>"

lemma sample_api_config_sel:
  "groups sample_api_config = [sample_group]" "counts_right sample_api_config"
  by (simp_all add: sample_api_config_def counts_right_def sample_group_sel)

theorem health_server_request_witness:
  "health_api_handle_request (\<lambda>k. 1000)
      (Some (get_request (''/health/server/'' @ ''a'' @ '':'' @ print_int 80) HEALTH_API_FORMAT_JSON)) (Some sample_api_config) =
     Inr (Some (response_with 1000 200 ''application/json'' (take 1023 (json_server_text 1000 (sample_server ''a'' 2))))) \<and>
   health_api_handle_request (\<lambda>k. 1000)
      (Some (get_request (''/health/server/'' @ ''b'' @ '':'' @ print_int 80) HEALTH_API_FORMAT_JSON)) (Some sample_api_config) =
     Inl OutOfRange"
  using health_server_request [of sample_api_config sample_group "[]" "sample_server ''a'' 2" "[sample_server ''b'' 1]" "''a''" 80 "\<lambda>k. 1000"]
    health_server_request [of sample_api_config sample_group "[]" "sample_server ''a'' 2" "[sample_server ''b'' 1]" "''b''" 80 "\<lambda>k. 1000"]
  by (simp add: sample_api_config_sel sample_group_sel sample_server_ready)

section \<open>The summary\<close>

definition all_servers :: "lb_config \<Rightarrow> upstream_server list" where
  "all_servers c = concat (List.map servers (groups c))"

definition servers_in :: "server_status_t \<Rightarrow> lb_config \<Rightarrow> int" where
  "servers_in st c = int (length (filter (\<lambda>s. status s = st) (all_servers c)))"

lemma states_add_up:
  "int (length ss) = int (length (filter (\<lambda>s. status s = SERVER_STATUS_UP) ss)) +
     int (length (filter (\<lambda>s. status s = SERVER_STATUS_DOWN) ss)) +
     int (length (filter (\<lambda>s. status s = SERVER_STATUS_CHECKING) ss)) +
     int (length (filter (\<lambda>s. status s = SERVER_STATUS_UNKNOWN) ss))"
proof (induction ss)
  case (Cons s ss)
  then show ?case by (cases "status s") simp_all
qed simp

lemma summary_at_most_one:
  assumes "counts_right c"
  shows "health_api_get_status_summary t c =
    (if length (groups c) \<le> 1 \<and> length (all_servers c) \<le> 1
     then let n = int (length (all_servers c)); up = servers_in SERVER_STATUS_UP c in Inr
         \<lparr>su_total_servers = n, su_healthy_servers = up, su_unhealthy_servers = servers_in SERVER_STATUS_DOWN c,
          su_checking_servers = servers_in SERVER_STATUS_CHECKING c, su_unknown_servers = servers_in SERVER_STATUS_UNKNOWN c,
          su_overall_uptime = (if 0 < n then of_int up / of_int n * 100 else 0), su_last_updated = t\<rparr>
     else Inl OutOfRange)"
proof -
  have c: "group_count c = length (groups c)" "\<And>g. g \<in> set (groups c) \<Longrightarrow> server_count g = length (servers g)"
    using assms by (auto simp: counts_right_def)
  show ?thesis
  proof (cases "groups c")
    case Nil
    then show ?thesis
      by (simp add: health_api_get_status_summary_def summary_groups_all [OF c(1)] all_servers_def servers_in_def)
  next
    case (Cons g gs)
    then have g: "server_count g = length (servers g)" by (intro c(2)) simp
    note sum = health_api_get_status_summary_def summary_groups_all [OF c(1)] summary_servers_all [OF g] Cons
    show ?thesis
    proof (cases "servers g")
      case Nil
      with \<open>groups c = g # gs\<close> show ?thesis by (cases gs) (simp_all add: sum all_servers_def servers_in_def)
    next
      case (Cons s ss)
      with \<open>groups c = g # gs\<close> show ?thesis
        by (cases ss; cases gs; cases "status s")
          (simp_all add: sum all_servers_def servers_in_def count_status_def)
    qed
  qed
qed

text \<open>The overall status, over a configuration with the right counts, is answered exactly when the
balancer has at most one group with at most one server; with a second group or a second server
the lists are left, although the request names none of them. The answer then is the JSON text of a
summary that counts the servers by their state, whose total is the sum of the four counts, and
whose uptime is the share of servers that are up, in percent.\<close>

theorem health_overall_status:
  assumes "counts_right c"
  shows "health_api_handle_request now (Some (get_request ''/health'' HEALTH_API_FORMAT_JSON)) (Some c) =
    (if length (groups c) \<le> 1 \<and> length (all_servers c) \<le> 1
     then let n = int (length (all_servers c)); up = servers_in SERVER_STATUS_UP c in
       Inr (Some (response_with (now 1) 200 ''application/json'' (health_api_format_json_summary
         \<lparr>su_total_servers = n, su_healthy_servers = up, su_unhealthy_servers = servers_in SERVER_STATUS_DOWN c,
          su_checking_servers = servers_in SERVER_STATUS_CHECKING c, su_unknown_servers = servers_in SERVER_STATUS_UNKNOWN c,
          su_overall_uptime = (if 0 < n then of_int up / of_int n * 100 else 0), su_last_updated = now 2\<rparr>)))
     else Inl OutOfRange) \<and>
    int (length (all_servers c)) = servers_in SERVER_STATUS_UP c + servers_in SERVER_STATUS_DOWN c +
      servers_in SERVER_STATUS_CHECKING c + servers_in SERVER_STATUS_UNKNOWN c"
proof (intro conjI handle_routed)
  let ?rq = "get_request ''/health'' HEALTH_API_FORMAT_JSON"
  show "health_api_match_route (rq_path ?rq) (rq_method ?rq) = Some (api_routes ! 0)"
    unfolding route_eq by (simp add: get_request_def)
  show "rt_handler (api_routes ! 0) (\<lambda>k. now (k + 1)) ?rq c =
    (if length (groups c) \<le> 1 \<and> length (all_servers c) \<le> 1
     then let n = int (length (all_servers c)); up = servers_in SERVER_STATUS_UP c in
       Inr (Some (response_with (now 1) 200 ''application/json'' (health_api_format_json_summary
         \<lparr>su_total_servers = n, su_healthy_servers = up, su_unhealthy_servers = servers_in SERVER_STATUS_DOWN c,
          su_checking_servers = servers_in SERVER_STATUS_CHECKING c, su_unknown_servers = servers_in SERVER_STATUS_UNKNOWN c,
          su_overall_uptime = (if 0 < n then of_int up / of_int n * 100 else 0), su_last_updated = now 2\<rparr>)))
     else Inl OutOfRange)"
    by (simp add: api_routes_def health_api_get_overall_status_handler_def get_request_def
        health_api_get_overall_status_def summary_at_most_one [OF assms] json_type_def numeral_2_eq_2 Let_def)
  show "int (length (all_servers c)) = servers_in SERVER_STATUS_UP c + servers_in SERVER_STATUS_DOWN c +
      servers_in SERVER_STATUS_CHECKING c + servers_in SERVER_STATUS_UNKNOWN c"
    unfolding servers_in_def by (rule states_add_up)
qed (simp add: Let_def)

theorem health_overall_status_witness:
  "health_api_handle_request (\<lambda>k. 1000) (Some (get_request ''/health'' HEALTH_API_FORMAT_JSON)) (Some sample_api_config) =
     Inl OutOfRange"
  using health_overall_status [of sample_api_config "\<lambda>k. 1000"]
  by (simp add: sample_api_config_sel all_servers_def sample_group_sel)

text \<open>What a POST changes: nothing; it is answered as done whatever it names.\<close>

lemma health_controls:
  assumes "w \<noteq> []" "CHR ''/'' \<notin> set w"
  shows "health_api_match_route (''/health/server/'' @ w @ ''/check'') ''POST'' = Some (api_routes ! 4)"
    and "health_api_match_route (''/health/server/'' @ w @ ''/history'') ''GET'' = Some (api_routes ! 3)"
    and "health_api_match_route (''/health/server/'' @ w) ''POST'' = None"
proof -
  have "segment ''/health/server/'' ''/check'' (''/health/server/'' @ w @ ''/check'')"
    "segment ''/health/server/'' ''/history'' (''/health/server/'' @ w @ ''/history'')"
    using assms by (auto simp: segment_def)
  moreover have "\<not> segment ''/health/server/'' [] (''/health/server/'' @ w @ ''/history'')"
    "\<not> segment ''/health/upstream/'' [] (''/health/server/'' @ w @ ''/history'')"
    "\<not> segment ''/health/server/'' (CHR ''/'' # p) (''/health/server/'' @ w)" for p
    using assms by (auto simp: segment_def)
  ultimately show "health_api_match_route (''/health/server/'' @ w @ ''/check'') ''POST'' = Some (api_routes ! 4)"
    "health_api_match_route (''/health/server/'' @ w @ ''/history'') ''GET'' = Some (api_routes ! 3)"
    "health_api_match_route (''/health/server/'' @ w) ''POST'' = None"
    unfolding route_eq by simp_all
qed

text \<open>A parameter is read by the first place where its name stands in the query, be it inside of
another name; what stands there decides alone.\<close>

lemma take_to_ampersand:
  "CHR ''&'' \<notin> set v \<Longrightarrow> rest = [] \<or> hd rest = CHR ''&'' \<Longrightarrow>
   take (length (v @ rest) - length (case strchr (v @ rest) (CHR ''&'') of Some e \<Rightarrow> e | None \<Rightarrow> [])) (v @ rest) = v"
  by (cases rest) (auto simp: strchr_None [THEN iffD2])

lemma health_query_param:
  assumes "strstr q n = Some (n @ ''='' @ v @ rest)" and "CHR ''&'' \<notin> set v" and "rest = [] \<or> hd rest = CHR ''&''"
  shows "health_api_get_query_param (Some q) (Some n) = Some v"
  using assms(1) take_to_ampersand [OF assms(2,3)] by (simp add: health_api_get_query_param_def Let_def)

lemma health_query_param_shadowed:
  "health_api_get_query_param (Some ''reformat=text&format=json'') (Some ''format'') = Some ''text''"
  "health_api_get_query_param (Some ''formats=1&format=text'') (Some ''format'') = None"
  by (simp_all add: health_api_get_query_param_def starts_with_def)

end
