(* ===== verification/Net.thy ===== *)
theory Net
  imports Https Sockets
begin

text \<open>
  The event loop of a worker process (src/core/net.c, net.h): the pool of connections, the
  acceptance of clients in batches, the reading of a request and its hand-over to the handlers of
  Http and Https, and the cleanup of idle connections. The kernel is the environment: an event of
  epoll_wait carries what the calls made for it answer. What a client has sent and the worker has
  not yet read is a list of chunks: one for a plain connection, the records for TLS. Since the
  client sockets do not block, a read that finds nothing fails. \<open>Freed\<close> is an SSL object that has
  been released while the connection still points to it. A slot of the pool is an index.
\<close>

section \<open>Data\<close>

datatype ssl_object = Live | Freed

record connection =
  n_fd :: int
  n_client_ip :: string
  n_last_activity :: int
  n_buffer :: string
  n_is_https :: bool
  n_ssl :: "ssl_object option"

record worker =
  w_pool :: "connection list"
  w_pool_size :: int
  w_last_cleanup :: int
  w_calls :: "sock_call list"
  w_sent :: "(int \<times> string) list"
  w_https :: https_state

text \<open>\<open>n_buffer\<close> are the first buffer_size bytes of the buffer; what stands behind them is never
looked at. \<open>w_calls\<close> are the client descriptors opened and closed so far, \<open>w_sent\<close> what the handlers
wrote to them.\<close>

datatype ssl_answer = NoSSLObject | HandshakeDone | HandshakePending | HandshakeFailed

text \<open>\<open>Accepted fd ip flags set ssl add\<close>: the results of accept, of the two fcntl calls, of
SSL_new and SSL_accept, and of epoll_ctl.\<close>

datatype accept_answer = NoMore | AcceptFails | Accepted int string "int option" bool ssl_answer bool

definition MAX_EVENTS :: nat where "MAX_EVENTS = 256"

definition MAX_ACCEPT_PER_ROUND :: nat where "MAX_ACCEPT_PER_ROUND = 32"

section \<open>The pool\<close>

definition init_connection_pool :: "nat \<Rightarrow> connection list" where
  "init_connection_pool n =
     replicate n \<lparr>n_fd = -1, n_client_ip = [], n_last_activity = 0, n_buffer = [], n_is_https = False, n_ssl = None\<rparr>"

fun find_free :: "connection list \<Rightarrow> nat \<Rightarrow> nat option" where
  "find_free [] i = None"
| "find_free (c # cs) i = (if n_fd c = -1 then Some i else find_free cs (Suc i))"

definition get_free_connection :: "worker \<Rightarrow> nat option" where
  "get_free_connection w = find_free (w_pool w) 0"

definition free_connection :: "nat \<Rightarrow> worker \<Rightarrow> worker run" where
  "free_connection i w =
     (let c = w_pool w ! i in
      if n_ssl c = Some Freed then Inl BadPointer
      else Inr (w\<lparr>w_pool := (w_pool w)[i := c\<lparr>n_ssl := None, n_fd := -1, n_is_https := False\<rparr>],
                  w_pool_size := w_pool_size w - 1\<rparr>))"

section \<open>Sockets\<close>

definition make_socket_non_blocking :: "int option \<Rightarrow> bool \<Rightarrow> int" where
  "make_socket_non_blocking flags set_ok = (case flags of None \<Rightarrow> -1 | Some f \<Rightarrow> if set_ok then 0 else -1)"

text \<open>The listening socket, or \<open>None\<close> when the process exits (error_and_exit).\<close>

definition create_server_socket :: "sock_env \<Rightarrow> (int \<Rightarrow> bool) \<Rightarrow> int option \<Rightarrow> bool \<Rightarrow> int \<Rightarrow> int option" where
  "create_server_socket env reuse flags set_ok p =
     (let server_fd = y_socket env in
      if server_fd = 0 then None
      else if \<not> reuse server_fd then None
      else if \<not> y_bind env ''0.0.0.0'' (word_of_int p) then None
      else if \<not> y_listen env then None
      else if make_socket_non_blocking flags set_ok = -1 then None
      else Some server_fd)"

section \<open>New clients\<close>

definition take_slot :: "nat \<Rightarrow> int \<Rightarrow> string \<Rightarrow> bool \<Rightarrow> int \<Rightarrow> worker \<Rightarrow> worker" where
  "take_slot i fd ip is_https now w =
     w\<lparr>w_pool := (w_pool w)[i := (w_pool w ! i)\<lparr>n_fd := fd, n_is_https := is_https, n_last_activity := now,
                              n_buffer := [], n_client_ip := ip\<rparr>]\<rparr>"

definition did :: "sock_call \<Rightarrow> worker \<Rightarrow> worker" where
  "did c w = w\<lparr>w_calls := w_calls w @ [c]\<rparr>"

text \<open>One accepted client: whether it counts, and the worker.\<close>

definition accept_client ::
  "bool \<Rightarrow> bool \<Rightarrow> int \<Rightarrow> int \<Rightarrow> string \<Rightarrow> int option \<Rightarrow> bool \<Rightarrow> ssl_answer \<Rightarrow> bool \<Rightarrow> worker \<Rightarrow> (bool \<times> worker) run" where
  "accept_client is_https ssl_ctx now fd ip flags set_ok ssl add_ok w =
     (let w = did (Opened fd) w in
      case get_free_connection w of
        None \<Rightarrow> Inr (False, did (Closed fd) w)
      | Some i \<Rightarrow>
          let w = take_slot i fd ip is_https now w;
              reject = (\<lambda>w. bindR (free_connection i w) (\<lambda>w. Inr (False, did (Closed fd) w)));
              with_ssl = w\<lparr>w_pool := (w_pool w)[i := (w_pool w ! i)\<lparr>n_ssl := Some Live\<rparr>]\<rparr>;
              register = (\<lambda>w. if add_ok then Inr (True, w\<lparr>w_pool_size := w_pool_size w + 1\<rparr>) else reject w)
          in if make_socket_non_blocking flags set_ok = -1 then reject w
             else if is_https \<and> ssl_ctx
             then (case ssl of
                     NoSSLObject \<Rightarrow> reject w
                   | HandshakeFailed \<Rightarrow> reject with_ssl
                   | _ \<Rightarrow> register with_ssl)
             else register w)"

text \<open>The loop over at most \<open>rounds\<close> calls of accept.\<close>

fun accept_loop ::
  "nat \<Rightarrow> nat \<Rightarrow> bool \<Rightarrow> bool \<Rightarrow> int \<Rightarrow> accept_answer list \<Rightarrow> nat \<Rightarrow> worker \<Rightarrow> (nat \<times> worker) run" where
  "accept_loop 0 limit is_https ssl_ctx now as accepted w = Inr (accepted, w)"
| "accept_loop (Suc rounds) limit is_https ssl_ctx now as accepted w =
     (if accepted \<ge> limit then Inr (accepted, w)
      else case as of
        [] \<Rightarrow> Inr (accepted, w)
      | NoMore # as \<Rightarrow> Inr (accepted, w)
      | AcceptFails # as \<Rightarrow> accept_loop rounds limit is_https ssl_ctx now as accepted w
      | Accepted fd ip flags set_ok ssl add_ok # as \<Rightarrow>
          bindR (accept_client is_https ssl_ctx now fd ip flags set_ok ssl add_ok w) (\<lambda>(ok, w).
            accept_loop rounds limit is_https ssl_ctx now as (if ok then accepted + 1 else accepted) w))"

definition accept_connections_batch ::
  "bool \<Rightarrow> nat \<Rightarrow> bool \<Rightarrow> int \<Rightarrow> accept_answer list \<Rightarrow> worker \<Rightarrow> (nat \<times> worker) run" where
  "accept_connections_batch is_https event_count ssl_ctx now as w =
     accept_loop MAX_ACCEPT_PER_ROUND (MAX_EVENTS - event_count) is_https ssl_ctx now as 0 w"

section \<open>Requests\<close>

text \<open>A read of at most \<open>n\<close> bytes that does not block.\<close>

fun receive :: "nat \<Rightarrow> string list \<Rightarrow> string option \<times> string list" where
  "receive n [] = (None, [])"
| "receive n (c # cs) =
     (if n = 0 \<or> c = [] then (None, c # cs)
      else (Some (take n c), if length c \<le> n then cs else drop n c # cs))"

text \<open>Whether the line of the first Connection: asks to close.\<close>

definition asks_close :: "https_env \<Rightarrow> string \<Rightarrow> bool run" where
  "asks_close env buffer =
     (case strcasestr buffer ''Connection:'' of
        None \<Rightarrow> Inr False
      | Some connection_hdr \<Rightarrow>
          bindR (asm_opt_strstr (h_cpu env) (in_memory (slack env) connection_hdr) (in_memory (slack env) crlf)) (\<lambda>line_end.
            case line_end of
              None \<Rightarrow> Inr False
            | Some e \<Rightarrow> Inr (strcasestr (take e connection_hdr) ''close'' \<noteq> None)))"

definition set_conn :: "nat \<Rightarrow> connection \<Rightarrow> worker \<Rightarrow> worker" where
  "set_conn i c w = w\<lparr>w_pool := (w_pool w)[i := c]\<rparr>"

text \<open>The handler that a complete request is handed to reads from the connection again.\<close>

definition call_handler ::
  "https_env \<Rightarrow> config \<Rightarrow> nat \<Rightarrow> connection \<Rightarrow> string list \<Rightarrow> worker \<Rightarrow> worker run" where
  "call_handler env cfg i c q w =
     (if n_is_https c \<and> n_ssl c \<noteq> None
      then bindR (handle_https_request env cfg (w_https w) (n_client_ip c) (fst (receive 4095 q))) (\<lambda>(out, st).
        Inr (set_conn i (c\<lparr>n_ssl := Some (if closes out = 0 then Live else Freed)\<rparr>)
          (w\<lparr>w_https := st, w_sent := w_sent w @ [(n_fd c, written out)]\<rparr>)))
      else bindR (handle_http_request (http_env.truncate env) (cf_http cfg) (n_client_ip c) (fst (receive 8191 q))) (\<lambda>out.
        Inr (set_conn i c
          (w\<lparr>w_calls := w_calls w @ replicate (closes out) (Closed (n_fd c)), w_sent := w_sent w @ [(n_fd c, written out)]\<rparr>))))"

definition handle_http_request_optimized ::
  "https_env \<Rightarrow> config \<Rightarrow> int \<Rightarrow> nat \<Rightarrow> string list \<Rightarrow> worker \<Rightarrow> (int \<times> worker) run" where
  "handle_http_request_optimized env cfg now i q w =
     (let c = w_pool w ! i in
      if n_fd c = -1 then Inr (-1, w)
      else if n_is_https c \<and> n_ssl c = Some Freed then Inl BadPointer
      else
        let (got, q) = receive (8192 - length (n_buffer c) - 1) q in
        case got of
          None \<Rightarrow> bindR (free_connection i w) (\<lambda>w. Inr (-1, w))
        | Some s \<Rightarrow>
            let c = c\<lparr>n_buffer := n_buffer c @ s, n_last_activity := now\<rparr>; w = set_conn i c w;
                request = takeWhile (\<lambda>ch. ch \<noteq> CHR 0x00) (n_buffer c)
            in bindR (asm_opt_strstr (h_cpu env) (in_memory (slack env) (n_buffer c)) (in_memory (slack env) (crlf @ crlf))) (\<lambda>header_end.
                 case header_end of
                   None \<Rightarrow> Inr (0, w)
                 | Some _ \<Rightarrow>
                     bindR (call_handler env cfg i c q w) (\<lambda>w.
                     bindR (asks_close env request) (\<lambda>close.
                       if close then bindR (free_connection i w) (\<lambda>w. Inr (-1, w))
                       else Inr (0, set_conn i ((w_pool w ! i)\<lparr>n_buffer := []\<rparr>) w)))))"

section \<open>The loop of a worker\<close>

text \<open>\<open>ListenerError\<close>: an error on a listening socket. Its event holds a descriptor where the code
looks for a pointer to a connection.\<close>

datatype worker_event =
  ListenerError | ConnectionError nat | NewClients bool "accept_answer list" | Readable nat "string list" https_env

definition worker_event_step :: "bool \<Rightarrow> config \<Rightarrow> int \<Rightarrow> nat \<Rightarrow> worker_event \<Rightarrow> worker \<Rightarrow> worker run" where
  "worker_event_step ssl_ctx cfg now k ev w =
     (case ev of
        ListenerError \<Rightarrow> Inl BadPointer
      | ConnectionError i \<Rightarrow> free_connection i w
      | NewClients is_https as \<Rightarrow>
          bindR (accept_connections_batch is_https k ssl_ctx now as w) (\<lambda>(n, w). Inr w)
      | Readable i q env \<Rightarrow>
          bindR (handle_http_request_optimized env cfg now i q w) (\<lambda>(result, w).
            if result = -1 then free_connection i w else Inr w))"

fun worker_events :: "bool \<Rightarrow> config \<Rightarrow> int \<Rightarrow> nat \<Rightarrow> worker_event list \<Rightarrow> worker \<Rightarrow> worker run" where
  "worker_events ssl_ctx cfg now k [] w = Inr w"
| "worker_events ssl_ctx cfg now k (ev # evs) w =
     bindR (worker_event_step ssl_ctx cfg now k ev w) (worker_events ssl_ctx cfg now (Suc k) evs)"

fun free_idle :: "int \<Rightarrow> nat list \<Rightarrow> worker \<Rightarrow> worker run" where
  "free_idle now [] w = Inr w"
| "free_idle now (i # is) w =
     (if n_fd (w_pool w ! i) \<noteq> -1 \<and> now - n_last_activity (w_pool w ! i) > 300
      then bindR (free_connection i w) (free_idle now is)
      else free_idle now is w)"

definition worker_cleanup :: "int \<Rightarrow> worker \<Rightarrow> worker run" where
  "worker_cleanup now w =
     (if now - w_last_cleanup w > 30
      then bindR (free_idle now [0..<length (w_pool w)] w) (\<lambda>w. Inr (w\<lparr>w_last_cleanup := now\<rparr>))
      else Inr w)"

text \<open>One turn of the endless loop, in which the time is read once.\<close>

definition worker_turn :: "bool \<Rightarrow> config \<Rightarrow> int \<Rightarrow> worker_event list \<Rightarrow> worker \<Rightarrow> worker run" where
  "worker_turn ssl_ctx cfg now evs w =
     bindR (worker_events ssl_ctx cfg now 0 evs w) (worker_cleanup now)"

definition worker_start :: "https_state \<Rightarrow> worker" where
  "worker_start st = \<lparr>w_pool = init_connection_pool 1000, w_pool_size = 0, w_last_cleanup = 0, w_calls = [], w_sent = [], w_https = st\<rparr>"

section \<open>A complete request\<close>

definition wants_close :: "string \<Rightarrow> bool" where
  "wants_close s \<longleftrightarrow>
     (case strcasestr s ''Connection:'' of
        None \<Rightarrow> False
      | Some h \<Rightarrow> (case strstr h crlf of None \<Rightarrow> False | Some e \<Rightarrow> strcasestr (before h e) ''close'' \<noteq> None))"

definition complete_request :: "string \<Rightarrow> bool" where
  "complete_request s \<longleftrightarrow> clean s \<and> length s \<le> 8191 \<and> strstr s (crlf @ crlf) \<noteq> None"

lemma strcasestr_suffix: "strcasestr s n = Some t \<Longrightarrow> \<exists>u. s = u @ t"
  by (induction s) (auto split: if_splits intro: exI [of _ "_ # _"])

lemma asks_close_eq:
  assumes "clean s" "7 \<le> length (slack env)"
  shows "asks_close env s = Inr (wants_close s)"
proof (cases "strcasestr s ''Connection:''")
  case (Some h)
  from strcasestr_suffix [OF Some] assms(1) have "clean h" by auto
  then have "asm_opt_strstr (h_cpu env) (in_memory (slack env) h) (in_memory (slack env) crlf) =
      Inr (map_option (\<lambda>t. length h - length t) (strstr h crlf))"
    using assms(2) by (intro strstr_memory) (simp_all add: crlf_def)
  with Some show ?thesis
    by (cases "strstr h crlf") (simp_all add: asks_close_def wants_close_def before_def)
qed (simp add: asks_close_def wants_close_def)

lemma header_end_found:
  assumes "clean s" "strstr s (crlf @ crlf) \<noteq> None" "7 \<le> length sl"
  shows "\<exists>e. asm_opt_strstr cpu (in_memory sl s) (in_memory sl (crlf @ crlf)) = Inr (Some e)"
proof -
  from assms(2) obtain t where t: "strstr s (crlf @ crlf) = Some t" by blast
  from strstr_Some [OF t] obtain u v where s: "s = u @ (crlf @ crlf) @ v" by auto
  have m: "matches_at (bytes s) (bytes (crlf @ crlf)) (length u)"
    by (simp add: s matches_at_def bytes_take del: bytes_simps(3) append_assoc)
  have n: "c_str (in_memory sl (crlf @ crlf)) = bytes (crlf @ crlf)" by (rule c_str_memory) simp
  have r: "room (in_memory sl s)" "room (in_memory sl (crlf @ crlf))" using assms by (simp_all add: room_memory)
  from asm_strstr_spec [OF r, of cpu] obtain r where
    "asm_opt_strstr cpu (in_memory sl s) (in_memory sl (crlf @ crlf)) = Inr r"
    "r = None \<longleftrightarrow> (\<forall>i. \<not> matches_at (bytes s) (bytes (crlf @ crlf)) i)"
    unfolding n c_str_memory [OF assms(1)] by (auto simp: crlf_def)
  with m show ?thesis by (cases r) auto
qed

lemma clean_take_all: "clean s \<Longrightarrow> takeWhile (\<lambda>c. c \<noteq> CHR 0x00) s = s"
  by (auto simp: clean_def takeWhile_eq_all_conv)

text \<open>What is left to read for the handler is nothing.\<close>

lemma handle_complete:
  assumes c: "w_pool w ! i = c" "n_fd c \<noteq> -1" "n_buffer c = []" "n_ssl c \<noteq> Some Freed"
    and s: "complete_request s" "7 \<le> length (slack env)"
  shows "handle_http_request_optimized env cfg now i [s] w =
    bindR (call_handler env cfg i (c\<lparr>n_buffer := s, n_last_activity := now\<rparr>) []
        (set_conn i (c\<lparr>n_buffer := s, n_last_activity := now\<rparr>) w)) (\<lambda>w.
      if wants_close s then bindR (free_connection i w) (\<lambda>w. Inr (-1, w))
      else Inr (0, set_conn i ((w_pool w ! i)\<lparr>n_buffer := []\<rparr>) w))"
proof -
  have s': "clean s" "length s \<le> 8191" "strstr s (crlf @ crlf) \<noteq> None" using s(1) by (simp_all add: complete_request_def)
  then have "s \<noteq> []" by (auto simp: crlf_def)
  then have g: "receive (8192 - length (n_buffer c) - 1) [s] = (Some s, [])" using s'(2) by (simp add: c(3))
  from header_end_found [OF s'(1,3) s(2)] obtain e where
    e: "asm_opt_strstr (h_cpu env) (in_memory (slack env) s) (in_memory (slack env) (crlf @ crlf)) = Inr (Some e)" by blast
  show ?thesis
    using c g e s' s(2) by (simp add: handle_http_request_optimized_def Let_def clean_take_all asks_close_eq)
qed

lemma set_conn_simps [simp]:
  "w_pool (set_conn i c w) = (w_pool w)[i := c]" "w_pool_size (set_conn i c w) = w_pool_size w"
  "w_last_cleanup (set_conn i c w) = w_last_cleanup w" "w_calls (set_conn i c w) = w_calls w"
  "w_sent (set_conn i c w) = w_sent w" "w_https (set_conn i c w) = w_https w"
  by (simp_all add: set_conn_def)

text \<open>How a handler that reads nothing leaves the worker.\<close>

lemma call_plain:
  "\<not> n_is_https c \<or> n_ssl c = None \<Longrightarrow> call_handler env cfg i c [] w =
    Inr (set_conn i c (w\<lparr>w_calls := w_calls w @ [Closed (n_fd c)], w_sent := w_sent w @ [(n_fd c, [])]\<rparr>))"
  by (auto simp: call_handler_def handle_http_request_def)

lemma call_tls:
  "n_is_https c \<Longrightarrow> n_ssl c = Some x \<Longrightarrow> call_handler env cfg i c [] w =
    Inr (set_conn i (c\<lparr>n_ssl := Some Freed\<rparr>) (w\<lparr>w_https := w_https w, w_sent := w_sent w @ [(n_fd c, [])]\<rparr>))"
  by (simp add: call_handler_def handle_https_request_def)

text \<open>C35. A client of a plain connection that sends a whole request, of at most 8191 bytes, gets no byte of
an answer, whatever the configuration and the files are: the worker has read the request when it
calls the handler, the handler reads again, finds nothing and closes the descriptor. If the
request does not ask to close, its slot stays taken by the closed descriptor; if it does, the slot
is released twice, and the number of connections falls by two for the one it counted.\<close>

theorem net_request_unanswered:
  assumes "i < length (w_pool w)" and "w_pool w ! i = c" and "n_fd c \<noteq> -1" and "n_buffer c = []" and "n_ssl c = None"
    and "complete_request s" and "7 \<le> length (slack env)"
  shows "worker_event_step ssl_ctx cfg now k (Readable i [s] env) w =
    Inr (w\<lparr>w_calls := w_calls w @ [Closed (n_fd c)], w_sent := w_sent w @ [(n_fd c, [])],
           w_pool := (w_pool w)[i := if wants_close s then
             c\<lparr>n_buffer := s, n_last_activity := now, n_ssl := None, n_fd := -1, n_is_https := False\<rparr>
             else c\<lparr>n_last_activity := now, n_buffer := []\<rparr>],
           w_pool_size := w_pool_size w - (if wants_close s then 2 else 0)\<rparr>)"
proof -
  have "n_ssl c \<noteq> Some Freed" using assms(5) by simp
  note h = handle_complete [OF assms(2,3,4) this assms(6,7), of cfg now]
  show ?thesis
    using assms(1-5) by (simp add: worker_event_step_def h call_plain free_connection_def set_conn_def)
qed

definition sample_connection :: "bool \<Rightarrow> connection" where
  "sample_connection tls = \<lparr>n_fd = 7, n_client_ip = ''10.0.0.1'', n_last_activity = 0, n_buffer = [], n_is_https = tls,
     n_ssl = (if tls then Some Live else None)\<rparr>"

definition sample_worker :: "bool \<Rightarrow> worker" where
  "sample_worker tls = \<lparr>w_pool = [sample_connection tls], w_pool_size = 1, w_last_cleanup = 0, w_calls = [Opened 7], w_sent = [],
     w_https = sample_https_state\<rparr>"

definition sample_client_request :: string where
  "sample_client_request = ''GET / HTTP/1.1'' @ crlf @ crlf"

definition sample_net_env :: https_env where
  "sample_net_env = (sample_https (\<lambda>_. None))\<lparr>slack := replicate 8 0\<rparr>"

lemma sample_net_env_slack: "length (slack sample_net_env) = 8"
  by (simp add: sample_net_env_def)

lemma sample_client_request_ok:
  "complete_request sample_client_request" "\<not> wants_close sample_client_request"
  by (simp_all add: complete_request_def wants_close_def sample_client_request_def crlf_def starts_with_def tolower_def)

theorem net_request_unanswered_witness:
  "\<exists>w. worker_event_step False sample_https_config 5 0 (Readable 0 [sample_client_request] sample_net_env) (sample_worker False) = Inr w \<and>
     w_sent w = [(7, [])] \<and> balance (w_calls w) {} = Some {} \<and> n_fd (w_pool w ! 0) = 7"
  using net_request_unanswered [of 0 "sample_worker False" "sample_connection False" sample_client_request "sample_net_env" False sample_https_config 5 0]
  by (simp add: sample_worker_def sample_connection_def sample_client_request_ok sample_net_env_slack)

section \<open>TLS\<close>

lemma free_connection_freed: "n_ssl (w_pool w ! i) = Some Freed \<Longrightarrow> free_connection i w = Inl BadPointer"
  by (simp add: free_connection_def)

lemma free_connection_result:
  "free_connection i w = Inl BadPointer \<or> (\<exists>w'. free_connection i w = Inr w' \<and> length (w_pool w') = length (w_pool w) \<and>
     (\<forall>j. j \<noteq> i \<longrightarrow> w_pool w' ! j = w_pool w ! j))"
  by (simp add: free_connection_def Let_def)

lemma free_idle_freed:
  "i \<in> set is \<Longrightarrow> n_fd (w_pool w ! i) \<noteq> -1 \<Longrightarrow> 300 < now - n_last_activity (w_pool w ! i) \<Longrightarrow>
   n_ssl (w_pool w ! i) = Some Freed \<Longrightarrow> free_idle now is w = Inl BadPointer"
proof (induction "is" arbitrary: w)
  case (Cons j "is")
  show ?case
  proof (cases "i = j")
    case True
    with Cons.prems show ?thesis by (simp add: free_connection_freed)
  next
    case False
    then have "i \<in> set is" using Cons.prems(1) by simp
    consider "free_connection j w = Inl BadPointer" | w' where "free_connection j w = Inr w'" "w_pool w' ! i = w_pool w ! i"
      using free_connection_result [of j w] False by metis
    then show ?thesis
    proof cases
      case 1
      with Cons.IH [OF \<open>i \<in> set is\<close>] Cons.prems show ?thesis by simp
    next
      case 2
      with Cons.IH [OF \<open>i \<in> set is\<close>] Cons.prems show ?thesis by simp
    qed
  qed
qed simp

text \<open>Over TLS the handler that finds nothing to read releases the SSL object, and the connection
keeps its pointer to it. So a whole request whose Connection line asks to close makes the worker
release the object a second time. After any other whole request the connection waits for the same:
its next event, whatever it is, uses or releases the object again, and so does the first cleanup
that finds the connection idle for more than 300 seconds. No request is answered.\<close>

theorem net_tls_released_twice:
  assumes "i < length (w_pool w)" and "w_pool w ! i = c" and "n_fd c \<noteq> -1" and "n_buffer c = []"
    and "n_is_https c" and "n_ssl c = Some Live" and "complete_request s" and "7 \<le> length (slack env)"
  shows "(wants_close s \<longrightarrow> worker_event_step ssl_ctx cfg now k (Readable i [s] env) w = Inl BadPointer) \<and>
    (\<not> wants_close s \<longrightarrow> (\<exists>w'. worker_event_step ssl_ctx cfg now k (Readable i [s] env) w = Inr w' \<and>
       w_sent w' = w_sent w @ [(n_fd c, [])] \<and> w_calls w' = w_calls w \<and>
       (\<forall>q env' t. worker_event_step ssl_ctx cfg t k (Readable i q env') w' = Inl BadPointer) \<and>
       (\<forall>t. worker_event_step ssl_ctx cfg t k (ConnectionError i) w' = Inl BadPointer) \<and>
       (\<forall>t. 300 < t - now \<and> 30 < t - w_last_cleanup w \<longrightarrow> worker_cleanup t w' = Inl BadPointer)))"
proof -
  have n: "n_ssl c \<noteq> Some Freed" using assms(6) by simp
  let ?c = "c\<lparr>n_buffer := s, n_last_activity := now, n_ssl := Some Freed\<rparr>"
  let ?w = "set_conn i (?c\<lparr>n_buffer := []\<rparr>) (w\<lparr>w_sent := w_sent w @ [(n_fd c, [])]\<rparr>)"
  note h = handle_complete [OF assms(2,3,4) n assms(7,8), of cfg now]
  note t = call_tls [of "c\<lparr>n_buffer := s, n_last_activity := now\<rparr>" Live env cfg i]
  show ?thesis
  proof (intro conjI impI)
    assume "wants_close s"
    then show "worker_event_step ssl_ctx cfg now k (Readable i [s] env) w = Inl BadPointer"
      using assms(1,5,6) by (simp add: worker_event_step_def h t free_connection_freed)
  next
    assume "\<not> wants_close s"
    then have e: "worker_event_step ssl_ctx cfg now k (Readable i [s] env) w = Inr ?w"
      using assms(1,5,6) by (simp add: worker_event_step_def h t)
    have p: "w_pool ?w ! i = ?c\<lparr>n_buffer := []\<rparr>" "length (w_pool ?w) = length (w_pool w)" using assms(1) by simp_all
    have "worker_event_step ssl_ctx cfg u k (Readable i q env') ?w = Inl BadPointer" for q env' u
      using p assms(3,5) by (simp add: worker_event_step_def handle_http_request_optimized_def Let_def)
    moreover have "worker_event_step ssl_ctx cfg u k (ConnectionError i) ?w = Inl BadPointer" for u
      using p by (simp add: worker_event_step_def free_connection_freed)
    moreover have "worker_cleanup u ?w = Inl BadPointer" if "300 < u - now" "30 < u - w_last_cleanup w" for u
    proof -
      have "free_idle u [0..<length (w_pool ?w)] ?w = Inl BadPointer"
        by (rule free_idle_freed [of i]) (use p assms(1,3) that in simp_all)
      with that show ?thesis by (simp add: worker_cleanup_def)
    qed
    ultimately show "\<exists>w'. worker_event_step ssl_ctx cfg now k (Readable i [s] env) w = Inr w' \<and>
       w_sent w' = w_sent w @ [(n_fd c, [])] \<and> w_calls w' = w_calls w \<and>
       (\<forall>q env' t. worker_event_step ssl_ctx cfg t k (Readable i q env') w' = Inl BadPointer) \<and>
       (\<forall>t. worker_event_step ssl_ctx cfg t k (ConnectionError i) w' = Inl BadPointer) \<and>
       (\<forall>t. 300 < t - now \<and> 30 < t - w_last_cleanup w \<longrightarrow> worker_cleanup t w' = Inl BadPointer)"
      using e by (intro exI [of _ ?w]) simp
  qed
qed

theorem net_tls_released_twice_witness:
  "\<exists>w. worker_event_step True sample_https_config 5 0 (Readable 0 [sample_client_request] sample_net_env) (sample_worker True) = Inr w \<and>
     worker_cleanup 400 w = Inl BadPointer"
proof -
  from net_tls_released_twice [of 0 "sample_worker True" "sample_connection True" sample_client_request "sample_net_env" True sample_https_config 5 0]
  obtain w where "worker_event_step True sample_https_config 5 0 (Readable 0 [sample_client_request] sample_net_env) (sample_worker True) = Inr w"
    "\<forall>t. 300 < t - 5 \<and> 30 < t - w_last_cleanup (sample_worker True) \<longrightarrow> worker_cleanup t w = Inl BadPointer"
    by (auto simp: sample_worker_def sample_connection_def sample_client_request_ok sample_net_env_slack)
  then show ?thesis by (intro exI [of _ w]) (simp add: sample_worker_def)
qed

section \<open>Slots and descriptors\<close>

text \<open>The first \<open>k\<close> slots are taken, the others free.\<close>

definition taken :: "nat \<Rightarrow> worker \<Rightarrow> bool" where
  "taken k w \<longleftrightarrow> k \<le> length (w_pool w) \<and> (\<forall>j<k. n_fd (w_pool w ! j) \<noteq> -1) \<and>
     (\<forall>j. k \<le> j \<and> j < length (w_pool w) \<longrightarrow> n_fd (w_pool w ! j) = -1 \<and> n_ssl (w_pool w ! j) = None)"

lemma find_free_skip: "\<forall>c\<in>set xs. n_fd c \<noteq> -1 \<Longrightarrow> find_free (xs @ ys) i = find_free ys (i + length xs)"
  by (induction xs arbitrary: i) auto

lemma taken_free:
  assumes "taken k w"
  shows "get_free_connection w = (if k < length (w_pool w) then Some k else None)"
proof -
  let ?p = "w_pool w"
  have busy: "\<forall>c\<in>set (take k ?p). n_fd c \<noteq> -1"
    using assms by (auto simp: taken_def in_set_conv_nth)
  have "find_free ?p 0 = find_free (drop k ?p) (0 + length (take k ?p))"
    using find_free_skip [OF busy, of "drop k ?p" 0] by simp
  also have "\<dots> = find_free (drop k ?p) k" using assms by (simp add: taken_def min_def)
  finally have f: "find_free ?p 0 = find_free (drop k ?p) k" .
  show ?thesis
  proof (cases "k < length ?p")
    case True
    then have "drop k ?p = ?p ! k # drop (Suc k) ?p" by (simp add: Cons_nth_drop_Suc)
    with f True assms show ?thesis by (simp add: get_free_connection_def taken_def)
  qed (simp add: get_free_connection_def f)
qed

text \<open>A client that comes without TLS: accepted, and its request, if there is a slot for it, read.\<close>

record client =
  k_fd :: int
  k_ip :: string
  k_request :: string
  k_env :: https_env

definition arrive :: "config \<Rightarrow> int \<Rightarrow> client \<Rightarrow> worker \<Rightarrow> worker run" where
  "arrive cfg now x w =
     worker_events False cfg now 0
       (NewClients False [Accepted (k_fd x) (k_ip x) (Some 2) True NoSSLObject True] #
        (case get_free_connection w of None \<Rightarrow> [] | Some i \<Rightarrow> [Readable i [k_request x] (k_env x)])) w"

fun arrive_all :: "config \<Rightarrow> int \<Rightarrow> client list \<Rightarrow> worker \<Rightarrow> worker run" where
  "arrive_all cfg now [] w = Inr w"
| "arrive_all cfg now (x # xs) w = bindR (arrive cfg now x w) (arrive_all cfg now xs)"

definition keeps_alive :: "client \<Rightarrow> bool" where
  "keeps_alive x \<longleftrightarrow> k_fd x \<noteq> -1 \<and> complete_request (k_request x) \<and> \<not> wants_close (k_request x) \<and> 7 \<le> length (slack (k_env x))"

lemma get_free_did [simp]: "get_free_connection (did c w) = get_free_connection w"
  by (simp add: get_free_connection_def did_def)

lemma did_simps [simp]:
  "w_pool (did c w) = w_pool w" "w_sent (did c w) = w_sent w" "w_calls (did c w) = w_calls w @ [c]"
  "w_pool_size (did c w) = w_pool_size w"
  by (simp_all add: did_def)

lemma batch_one:
  "accept_connections_batch tls 0 ctx now [Accepted fd ip flags set_ok ssl add_ok] w =
    bindR (accept_client tls ctx now fd ip flags set_ok ssl add_ok w) (\<lambda>(ok, w). Inr (if ok then 1 else 0, w))"
proof -
  have "accept_loop (Suc (Suc n)) 256 tls ctx now [Accepted fd ip flags set_ok ssl add_ok] 0 w =
      bindR (accept_client tls ctx now fd ip flags set_ok ssl add_ok w) (\<lambda>(ok, w). Inr (if ok then 1 else 0, w))" for n
    by (cases "accept_client tls ctx now fd ip flags set_ok ssl add_ok w") auto
  from this [of 30] show ?thesis by (simp add: accept_connections_batch_def MAX_ACCEPT_PER_ROUND_def MAX_EVENTS_def)
qed

lemma arrive_full:
  assumes "taken k w" "k = length (w_pool w)"
  shows "arrive cfg now x w = Inr (did (Closed (k_fd x)) (did (Opened (k_fd x)) w))"
  using taken_free [OF assms(1)] assms(2)
  by (simp add: arrive_def worker_event_step_def batch_one accept_client_def)

lemma arrive_free:
  assumes "taken k w" "k < length (w_pool w)" "keeps_alive x"
  obtains w' where "arrive cfg now x w = Inr w'" "taken (Suc k) w'" "length (w_pool w') = length (w_pool w)"
    "w_calls w' = w_calls w @ [Opened (k_fd x), Closed (k_fd x)]" "w_sent w' = w_sent w @ [(k_fd x, [])]"
proof -
  let ?w = "take_slot k (k_fd x) (k_ip x) False now (did (Opened (k_fd x)) w)"
  let ?w1 = "?w\<lparr>w_pool_size := w_pool_size ?w + 1\<rparr>"
  let ?c = "w_pool ?w1 ! k"
  have a: "accept_client False False now (k_fd x) (k_ip x) (Some 2) True NoSSLObject True w = Inr (True, ?w1)"
    using taken_free [OF assms(1)] assms(2) by (simp add: accept_client_def make_socket_non_blocking_def Let_def)
  have c: "n_fd ?c = k_fd x" "n_buffer ?c = []" "n_ssl ?c = None" "k < length (w_pool ?w1)"
    using assms(1,2) by (simp_all add: take_slot_def taken_def)
  have x: "n_fd ?c \<noteq> -1" "complete_request (k_request x)" "7 \<le> length (slack (k_env x))" "\<not> wants_close (k_request x)"
    using assms(3) c(1) by (simp_all add: keeps_alive_def)
  have n: "n_ssl ?c \<noteq> Some Freed" using c(3) by simp
  note h = handle_complete [OF refl x(1) c(2) n x(2,3), of cfg now]
  let ?w2 = "set_conn k (?c\<lparr>n_last_activity := now, n_buffer := []\<rparr>)
    (?w1\<lparr>w_calls := w_calls ?w1 @ [Closed (k_fd x)], w_sent := w_sent ?w1 @ [(k_fd x, [])]\<rparr>)"
  have s: "worker_event_step False cfg now (Suc 0) (Readable k [k_request x] (k_env x)) ?w1 = Inr ?w2"
    using c x by (simp add: worker_event_step_def h call_plain)
  have "arrive cfg now x w = Inr ?w2"
    using taken_free [OF assms(1)] assms(2) s
    by (simp add: arrive_def worker_event_step_def [of _ _ _ _ "NewClients _ _"] batch_one a)
  moreover have "taken (Suc k) ?w2"
    using assms c(1) x(1) by (auto simp: taken_def take_slot_def nth_list_update less_Suc_eq)
  ultimately show ?thesis using that by (simp add: take_slot_def)
qed

lemma taken_did [simp]: "taken k (did c w) = taken k w"
  by (simp add: taken_def)

text \<open>C36. Clients of plain connections that each send one whole request without asking to close fill the
pool: every one of them is accepted, answered with nothing and closed, and takes one more slot,
until all slots hold closed descriptors; from then on clients are closed without their request
being read. Nothing but the cleanup after 300 idle seconds gives a slot back.\<close>

theorem net_pool_exhausted:
  assumes "taken k w" and "\<forall>x\<in>set xs. keeps_alive x"
  shows "\<exists>w'. arrive_all cfg now xs w = Inr w' \<and>
    length (w_pool w') = length (w_pool w) \<and> taken (min (k + length xs) (length (w_pool w))) w' \<and>
    w_sent w' = w_sent w @ List.map (\<lambda>x. (k_fd x, [])) (take (length (w_pool w) - k) xs) \<and>
    w_calls w' = w_calls w @ concat (List.map (\<lambda>x. [Opened (k_fd x), Closed (k_fd x)]) xs)"
  using assms
proof (induction xs arbitrary: k w)
  case Nil
  then have "k \<le> length (w_pool w)" by (simp add: taken_def)
  with Nil show ?case by (simp add: min_def)
next
  case (Cons x xs)
  show ?case
  proof (cases "k < length (w_pool w)")
    case True
    from Cons.prems(2) have "keeps_alive x" by simp
    from arrive_free [OF Cons.prems(1) True this, of cfg now] obtain w1 where
      w1: "arrive cfg now x w = Inr w1" "taken (Suc k) w1" "length (w_pool w1) = length (w_pool w)"
        "w_calls w1 = w_calls w @ [Opened (k_fd x), Closed (k_fd x)]" "w_sent w1 = w_sent w @ [(k_fd x, [])]" .
    from Cons.IH [OF w1(2)] Cons.prems(2) obtain w2 where
      w2: "arrive_all cfg now xs w1 = Inr w2" "length (w_pool w2) = length (w_pool w1)"
        "taken (min (Suc k + length xs) (length (w_pool w1))) w2"
        "w_sent w2 = w_sent w1 @ List.map (\<lambda>x. (k_fd x, [])) (take (length (w_pool w1) - Suc k) xs)"
        "w_calls w2 = w_calls w1 @ concat (List.map (\<lambda>x. [Opened (k_fd x), Closed (k_fd x)]) xs)" by auto
    have "length (w_pool w) - k = Suc (length (w_pool w) - Suc k)" using True by simp
    with w1 w2 show ?thesis by (intro exI [of _ w2]) simp
  next
    case False
    with Cons.prems(1) have k: "k = length (w_pool w)" by (simp add: taken_def)
    let ?w1 = "did (Closed (k_fd x)) (did (Opened (k_fd x)) w)"
    have "taken k ?w1" using Cons.prems(1) by simp
    from Cons.IH [OF this] Cons.prems(2) obtain w2 where
      w2: "arrive_all cfg now xs ?w1 = Inr w2" "length (w_pool w2) = length (w_pool ?w1)"
        "taken (min (k + length xs) (length (w_pool ?w1))) w2"
        "w_sent w2 = w_sent ?w1 @ List.map (\<lambda>x. (k_fd x, [])) (take (length (w_pool ?w1) - k) xs)"
        "w_calls w2 = w_calls ?w1 @ concat (List.map (\<lambda>x. [Opened (k_fd x), Closed (k_fd x)]) xs)" by auto
    with k arrive_full [OF Cons.prems(1) k, of cfg now x] show ?thesis by (intro exI [of _ w2]) simp
  qed
qed

definition sample_client :: client where
  "sample_client = \<lparr>k_fd = 9, k_ip = ''10.0.0.2'', k_request = sample_client_request, k_env = sample_net_env\<rparr>"

theorem net_pool_exhausted_witness:
  "\<exists>w. arrive_all sample_https_config 5 (replicate 1001 sample_client) (worker_start sample_https_state) = Inr w \<and>
     taken 1000 w \<and> w_sent w = replicate 1000 (9, [])"
proof -
  have k: "keeps_alive sample_client"
    by (simp add: keeps_alive_def sample_client_def sample_client_request_ok sample_net_env_slack)
  have l: "length (w_pool (worker_start sample_https_state)) = 1000"
    by (simp add: worker_start_def init_connection_pool_def)
  have "taken 0 (worker_start sample_https_state)"
    by (simp add: taken_def worker_start_def init_connection_pool_def)
  from net_pool_exhausted [OF this, of "replicate 1001 sample_client" sample_https_config 5] k obtain w where
    w: "arrive_all sample_https_config 5 (replicate 1001 sample_client) (worker_start sample_https_state) = Inr w"
    "taken (min (0 + length (replicate 1001 sample_client)) (length (w_pool (worker_start sample_https_state)))) w"
    "w_sent w = w_sent (worker_start sample_https_state) @ List.map (\<lambda>x. (k_fd x, []))
       (take (length (w_pool (worker_start sample_https_state)) - 0) (replicate 1001 sample_client))"
    by (auto)
  have "taken 1000 w" using w(2) unfolding l by simp
  moreover have "w_sent w = replicate 1000 (9, [])"
    using w(3) unfolding l by (simp add: worker_start_def sample_client_def map_replicate)
  ultimately show ?thesis using w(1) by blast
qed

text \<open>A connection whose peer closes it, or whose request does not fit, before it is whole: its slot is
released twice and its descriptor never closed.\<close>

lemma net_lost_descriptor:
  assumes "i < length (w_pool w)" and "n_fd (w_pool w ! i) \<noteq> -1" and "n_ssl (w_pool w ! i) = None"
    and "q = [] \<or> length (n_buffer (w_pool w ! i)) = 8191"
  shows "\<exists>w'. worker_event_step ssl_ctx cfg now k (Readable i q env) w = Inr w' \<and> n_fd (w_pool w' ! i) = -1 \<and>
    w_calls w' = w_calls w \<and> w_pool_size w' = w_pool_size w - 2"
proof -
  have "fst (receive (8192 - length (n_buffer (w_pool w ! i)) - 1) q) = None"
    using assms(4) by (cases q) auto
  then obtain q' where "receive (8191 - length (n_buffer (w_pool w ! i))) q = (None, q')"
    by (cases "receive (8191 - length (n_buffer (w_pool w ! i))) q") simp
  with assms(1-3) show ?thesis
    by (simp add: worker_event_step_def handle_http_request_optimized_def free_connection_def Let_def)
qed

text \<open>Of the clients that wait, at most 32 are accepted for one event; the listener is edge triggered, so
the others wait until another one comes.\<close>

lemma accept_loop_bound: "accept_loop r l tls ctx now as a w = Inr (n, w') \<Longrightarrow> n \<le> a + r"
proof (induction r l tls ctx now as a w rule: accept_loop.induct)
  case (2 r l t c n' as a w)
  then show ?case
    by (auto simp: bindR_Inr_iff split: if_splits list.splits accept_answer.splits) fastforce+
qed simp

lemma net_batch_bound: "accept_connections_batch tls c ctx now as w = Inr (n, w') \<Longrightarrow> n \<le> 32"
  using accept_loop_bound [of 32 _ tls ctx now as 0 w n w']
  by (simp add: accept_connections_batch_def MAX_ACCEPT_PER_ROUND_def)

end
