(* ===== verification/Master.thy ===== *)
theory Master
  imports Net
begin

text \<open>
  The master process (src/core/main.c): the arguments, the configuration it builds from the
  command line, the listening sockets, the start of the workers, and its end. What the
  command-line parser (a Rust library) answers is the record \<open>cli_args\<close>; the results of the
  system calls are parameters. \<open>Live\<close> objects are tracked by name: releasing what is not live,
  as a released or a static object, is the fault BadPointer. Texts printed for the user and log
  lines are not represented.
\<close>

section \<open>Arguments\<close>

datatype scan = ShowHelp | ShowVersion | Go bool

fun scan_args :: "string list \<Rightarrow> bool \<Rightarrow> scan" where
  "scan_args [] dry_run = Go dry_run"
| "scan_args (a # as) dry_run =
     (if a = ''--help'' then ShowHelp
      else if a = ''--version'' then ShowVersion
      else scan_args as (if a = ''--dry-run'' then True else dry_run))"

definition has_cli :: "string list \<Rightarrow> bool" where
  "has_cli args \<longleftrightarrow> list_ex (\<lambda>a. strncmp_eq a ''--'' 2) args"

text \<open>\<open>args\<close> is argv behind the name of the program.\<close>

section \<open>The configuration from the command line\<close>

record cli_args =
  a_port :: u16
  a_static_dir :: "string option"
  a_host :: "string option"
  a_daemon :: bool
  a_log_level :: "string option"
  a_threads :: nat
  a_proxies :: "(string option \<times> string) list"
  a_tls :: bool

definition cli_log_level :: "cli_args \<Rightarrow> log_level_t" where
  "cli_log_level a =
     (case a_log_level a of
        None \<Rightarrow> LOG_LEVEL_INFO
      | Some l \<Rightarrow> if l = ''debug'' then LOG_LEVEL_DEBUG
                  else if l = ''warning'' then LOG_LEVEL_WARNING
                  else if l = ''error'' then LOG_LEVEL_ERROR
                  else LOG_LEVEL_INFO)"

definition cli_location :: "string option \<times> string \<Rightarrow> location_block" where
  "cli_location p =
     \<lparr>l_path = (case fst p of None \<Rightarrow> ''/'' | Some pre \<Rightarrow> if length pre > 0 then pre else ''/''),
      l_directives = [\<lparr>d_key = Some ''proxy_pass'', d_value = Some (snd p)\<rparr>]\<rparr>"

text \<open>The blocks stand side by side in one array, and none of them is linked to the next: the list
that starts at the first one ends there.\<close>

definition linked_locations :: "location_block list \<Rightarrow> location_block list" where
  "linked_locations arr = take 1 arr"

definition cli_server :: "cli_args \<Rightarrow> server_block" where
  "cli_server a =
     \<lparr>s_directives = \<lparr>d_key = Some ''listen'', d_value = Some (snprintf 64 (print_nat (unat (a_port a))))\<rparr> #
        (case a_static_dir a of None \<Rightarrow> [] | Some d \<Rightarrow> [\<lparr>d_key = Some ''root'', d_value = Some d\<rparr>]),
      s_locations = linked_locations (List.map cli_location (a_proxies a))\<rparr>"

definition cli_http :: "cli_args \<Rightarrow> http_block" where
  "cli_http a = \<lparr>h_directives = [], h_servers = [cli_server a], h_upstreams = []\<rparr>"

section \<open>Objects and processes\<close>

datatype object = RawConfig | CoreConfig | CliConfig | CliParser | SslContext | WorkerPids

type_synonym objects = "object list"

definition release :: "object \<Rightarrow> objects \<Rightarrow> objects run" where
  "release x live = (if x \<in> set live then Inr (filter (\<lambda>y. y \<noteq> x) live) else Inl BadPointer)"

fun release_all :: "object list \<Rightarrow> objects \<Rightarrow> objects run" where
  "release_all [] live = Inr live"
| "release_all (x # xs) live = bindR (release x live) (release_all xs)"

text \<open>free_core_config releases the configuration it was made from too.\<close>

definition free_core_config :: "objects \<Rightarrow> objects run" where
  "free_core_config live = release_all [RawConfig, CoreConfig] live"

datatype fork_answer = ForkFails | InChild | Parent int

datatype signal = Kill int int | Reap int

datatype end_of = Exit int | Worker int int

text \<open>What a process becomes: it exits with a status, or is a worker with these two listeners.\<close>

datatype forked = AllForked "int list" | ForkFailed "int list" | ThisIsChild

text \<open>The loop from \<open>i\<close> on, \<open>left\<close> workers being left to start; worker_pids has room for 128.\<close>

fun fork_workers :: "(nat \<Rightarrow> fork_answer) \<Rightarrow> nat \<Rightarrow> nat \<Rightarrow> int list \<Rightarrow> forked run" where
  "fork_workers forks i 0 pids = Inr (AllForked pids)"
| "fork_workers forks i (Suc left) pids =
     (case forks i of
        ForkFails \<Rightarrow> Inr (ForkFailed pids)
      | InChild \<Rightarrow> Inr ThisIsChild
      | Parent pid \<Rightarrow>
          if i \<ge> 128 then Inl OutOfRange else fork_workers forks (Suc i) left (pids @ [pid]))"

definition signal_handler :: "int list \<Rightarrow> signal list" where
  "signal_handler pids = List.map (\<lambda>p. Kill p 9) pids"

definition terminate_workers :: "int list \<Rightarrow> signal list" where
  "terminate_workers pids = concat (List.map (\<lambda>p. if p > 0 then [Kill p 15, Reap p] else []) pids)"

text \<open>The descriptors it closes, the signals it sends, and the objects behind it. The array it
is given is the static one.\<close>

definition cleanup_resources ::
  "core_config option \<Rightarrow> int list option \<Rightarrow> objects \<Rightarrow> (int list \<times> signal list \<times> objects) run" where
  "cleanup_resources core_conf worker_pids live =
     (let fds = (case core_conf of None \<Rightarrow> []
                 | Some c \<Rightarrow> filter (\<lambda>fd. fd \<noteq> -1) (List.map ls_fd (listening_sockets c))) in
      bindR (case worker_pids of None \<Rightarrow> Inr ([], live)
             | Some pids \<Rightarrow> bindR (release WorkerPids live) (\<lambda>live. Inr (terminate_workers pids, live))) (\<lambda>(sig, live).
      bindR (if SslContext \<in> set live then release SslContext live else Inr live) (\<lambda>live.
      bindR (if core_conf = None then Inr live else free_core_config live) (\<lambda>live.
      Inr (fds, sig, live)))))"

datatype bind_answer = BindOk | AddrInUse | BindError

definition is_port_in_use :: "int \<Rightarrow> bind_answer \<Rightarrow> bool" where
  "is_port_in_use sock res = (if sock < 0 then True else res = AddrInUse)"

section \<open>Start from the command line\<close>

record cli_env =
  x_args :: "cli_args option"
  x_core :: "core_config option"
  x_probe :: int
  x_bind :: bind_answer
  x_daemon :: bool
  x_tls :: bool
  x_listen :: "int option"
  x_fork :: "nat \<Rightarrow> fork_answer"

text \<open>The answers of the parser, of create_core_config, of the probe of the port, of daemon, whether
the certificate and key could be loaded, create_server_socket (\<open>None\<close>: the process has exited), and fork.
The parser itself can be created.\<close>

definition leave_cli :: "int \<Rightarrow> objects \<Rightarrow> end_of run" where
  "leave_cli code live =
     bindR (free_core_config live) (\<lambda>live. bindR (release_all [RawConfig, CliConfig, CliParser] live) (\<lambda>live. Inr (Exit code)))"

definition cli_workers :: "cli_env \<Rightarrow> core_config \<Rightarrow> int \<Rightarrow> objects \<Rightarrow> end_of run" where
  "cli_workers env core_conf server_fd live =
     bindR (fork_workers (x_fork env) 0 (nat (cc_worker_processes core_conf)) []) (\<lambda>r.
       case r of
         ForkFailed pids \<Rightarrow> Inr (Exit 1)
       | ThisIsChild \<Rightarrow> Inr (Worker server_fd (-1))
       | AllForked pids \<Rightarrow>
           bindR (if SslContext \<in> set live then release SslContext live else Inr live) (leave_cli 0))"

definition run_cli :: "bool \<Rightarrow> cli_env \<Rightarrow> end_of run" where
  "run_cli dry_run env =
     (case x_args env of
        None \<Rightarrow> bindR (release CliParser [CliParser]) (\<lambda>live. Inr (Exit 1))
      | Some a \<Rightarrow>
          (case x_core env of
             None \<Rightarrow> bindR (release_all [RawConfig, CliConfig, CliParser] [RawConfig, CliConfig, CliParser]) (\<lambda>live. Inr (Exit 1))
           | Some core_conf \<Rightarrow>
               let live = [RawConfig, CoreConfig, CliConfig, CliParser] in
               if is_port_in_use (x_probe env) (x_bind env) then leave_cli 1 live
               else if dry_run then leave_cli 0 live
               else if a_daemon a \<and> \<not> x_daemon env then leave_cli 1 live
               else
                 let live = (if a_tls a \<and> x_tls env then SslContext # live else live) in
                 case x_listen env of
                   None \<Rightarrow> Inr (Exit 1)
                 | Some server_fd \<Rightarrow>
                     if server_fd < 0
                     then bindR (if SslContext \<in> set live then release SslContext live else Inr live) (leave_cli 1)
                     else cli_workers env core_conf server_fd live))"

section \<open>Start from a configuration file\<close>

text \<open>The first TLS listener with a certificate and a key.\<close>

fun tls_files :: "listening_socket list \<Rightarrow> (string \<times> string) option" where
  "tls_files [] = None"
| "tls_files (l # ls) =
     (if listening_socket.is_ssl l
      then (case (ssl_certificate l, ssl_certificate_key l) of (Some c, Some k) \<Rightarrow> Some (c, k) | _ \<Rightarrow> tls_files ls)
      else tls_files ls)"

text \<open>\<open>listen p\<close>: what create_server_socket answers for a port; \<open>None\<close>: the process has exited.\<close>

fun open_listeners :: "(int \<Rightarrow> int option) \<Rightarrow> listening_socket list \<Rightarrow> listening_socket list option" where
  "open_listeners listen [] = Some []"
| "open_listeners listen (l # ls) =
     (case listen (ls_port l) of
        None \<Rightarrow> None
      | Some fd \<Rightarrow> (case open_listeners listen ls of None \<Rightarrow> None
                    | Some rest \<Rightarrow> Some (l\<lparr>ls_fd := if fd < 0 then -1 else fd\<rparr> # rest)))"

text \<open>The descriptors a worker gets.\<close>

fun worker_fds :: "listening_socket list \<Rightarrow> int \<times> int \<Rightarrow> int \<times> int" where
  "worker_fds [] fds = fds"
| "worker_fds (l # ls) (http_fd, https_fd) =
     worker_fds ls
       (if ls_fd l \<noteq> -1
        then if listening_socket.is_ssl l then (http_fd, if https_fd = -1 then ls_fd l else https_fd)
             else (if http_fd = -1 then ls_fd l else http_fd, https_fd)
        else (http_fd, https_fd))"

record config_env =
  y_tls :: "string \<Rightarrow> string \<Rightarrow> bool"
  y_create :: "int \<Rightarrow> int option"
  y_fork :: "nat \<Rightarrow> fork_answer"

definition leave_config :: "int \<Rightarrow> core_config \<Rightarrow> int list option \<Rightarrow> objects \<Rightarrow> end_of run" where
  "leave_config code cc pids live = bindR (cleanup_resources (Some cc) pids live) (\<lambda>(fds, sig, live). Inr (Exit code))"

definition config_workers :: "config_env \<Rightarrow> core_config \<Rightarrow> objects \<Rightarrow> end_of run" where
  "config_workers env cc live =
     bindR (fork_workers (y_fork env) 0 (nat (cc_worker_processes cc)) []) (\<lambda>r.
       case r of
         ForkFailed pids \<Rightarrow> leave_config 1 cc (Some pids) live
       | ThisIsChild \<Rightarrow>
           (let (http_fd, https_fd) = worker_fds (listening_sockets cc) (-1, -1) in Inr (Worker http_fd https_fd))
       | AllForked pids \<Rightarrow> leave_config 0 cc (Some pids) live)"

definition start_listening :: "config_env \<Rightarrow> core_config \<Rightarrow> objects \<Rightarrow> end_of run" where
  "start_listening env cc live =
     (case open_listeners (y_create env) (listening_sockets cc) of
        None \<Rightarrow> Inr (Exit 1)
      | Some ls \<Rightarrow> config_workers env (cc\<lparr>listening_sockets := ls\<rparr>) live)"

definition run_config :: "config_env \<Rightarrow> core_config option \<Rightarrow> end_of run" where
  "run_config env core_conf =
     (case core_conf of
        None \<Rightarrow> bindR (release RawConfig [RawConfig]) (\<lambda>live. Inr (Exit 1))
      | Some cc \<Rightarrow>
          (case tls_files (listening_sockets cc) of
             Some (cert, pem) \<Rightarrow>
               if \<not> y_tls env cert pem then Inr (Exit 1)
               else start_listening env cc [SslContext, RawConfig, CoreConfig]
           | None \<Rightarrow> start_listening env cc [RawConfig, CoreConfig]))"

text \<open>What a worker that returned from its loop would do: nothing faults there.\<close>

lemma worker_cleanup_fine:
  "cleanup_resources (Some cc) None [SslContext, RawConfig, CoreConfig] =
     Inr (filter (\<lambda>fd. fd \<noteq> -1) (List.map ls_fd (listening_sockets cc)), [], [])"
  by (simp add: cleanup_resources_def release_def free_core_config_def)

section \<open>The proxies of the command line\<close>

lemma location_used:
  "find_location path (linked_locations (List.map cli_location ps)) None 0 =
    (case ps of [] \<Rightarrow> None
     | p # _ \<Rightarrow> if strncmp_eq path (l_path (cli_location p)) (length (l_path (cli_location p))) then Some (cli_location p) else None)"
  by (cases ps) (auto simp: linked_locations_def cli_location_def split: option.splits)

text \<open>Started from the command line, the server routes every request, whatever its host and port, to its
one server block, and knows one proxy: the first one given. A path that begins with its prefix
(the root if it has none) is handed to it, any other is looked for in the static files, also
where another proxy was given for it.\<close>

theorem cli_route:
  "find_route (Some (cli_http a)) h (Some path) p =
    Inr \<lparr>r_server = Some (cli_server a),
         r_location = (case a_proxies a of [] \<Rightarrow> None
           | (pre, url) # _ \<Rightarrow>
               let prefix = (case pre of Some s \<Rightarrow> if s = [] then ''/'' else s | None \<Rightarrow> ''/'') in
               if strncmp_eq path prefix (length prefix)
               then Some \<lparr>l_path = prefix, l_directives = [\<lparr>d_key = Some ''proxy_pass'', d_value = Some url\<rparr>]\<rparr> else None)\<rparr>"
proof -
  have s: "\<exists>b. listens_on p (s_directives (cli_server a)) = Inr b"
    by (auto simp: cli_server_def split: option.splits)
  then obtain b where b: "listens_on p (s_directives (cli_server a)) = Inr b" ..
  have n: "get_directive_value ''server_name'' (s_directives (cli_server a)) = None"
    by (simp add: get_directive_value_def cli_server_def split: option.splits)
  have "find_server h p [cli_server a] None = Inr (None, if b then Some (cli_server a) else None)"
    by (cases h) (simp_all add: b n Let_def)
  moreover have "find_location path (s_locations (cli_server a)) None 0 =
      (case a_proxies a of [] \<Rightarrow> None
       | (pre, url) # _ \<Rightarrow>
           let prefix = (case pre of Some s \<Rightarrow> if s = [] then ''/'' else s | None \<Rightarrow> ''/'') in
           if strncmp_eq path prefix (length prefix)
           then Some \<lparr>l_path = prefix, l_directives = [\<lparr>d_key = Some ''proxy_pass'', d_value = Some url\<rparr>]\<rparr> else None)"
    by (simp add: cli_server_def location_used) (auto simp: cli_location_def split: list.splits option.splits)
  ultimately show ?thesis
    by (simp add: find_route_def cli_http_def)
qed

section \<open>The workers\<close>

lemma fork_all:
  assumes "\<forall>j. \<exists>p. forks j = Parent p"
  shows "i + left \<le> 128 \<Longrightarrow> \<exists>ps. fork_workers forks i left pids = Inr (AllForked (pids @ ps)) \<and> length ps = left"
proof (induction left arbitrary: i pids)
  case (Suc left)
  from assms obtain p where p: "forks i = Parent p" by blast
  have "i < 128" "Suc i + left \<le> 128" using Suc.prems by simp_all
  from Suc.IH [OF this(2), of "pids @ [p]"] obtain ps where
    "fork_workers forks (Suc i) left (pids @ [p]) = Inr (AllForked (pids @ p # ps))" "length ps = left" by auto
  with p \<open>i < 128\<close> show ?case by (intro exI [of _ "p # ps"]) simp
qed simp

lemma fork_too_many:
  assumes "\<forall>j. \<exists>p. forks j = Parent p"
  shows "i \<le> 128 \<Longrightarrow> 128 < i + left \<Longrightarrow> fork_workers forks i left pids = Inl OutOfRange"
proof (induction left arbitrary: i pids)
  case (Suc left)
  from assms obtain p where p: "forks i = Parent p" by blast
  show ?case
  proof (cases "i = 128")
    case False
    with Suc.prems have "Suc i \<le> 128" "128 < Suc i + left" by simp_all
    from Suc.IH [OF this] p False Suc.prems show ?thesis by simp
  next
    case True
    have "fork_workers forks 128 (Suc left) pids = Inl OutOfRange" using p True by simp
    with True show ?thesis by simp
  qed
qed simp

lemma leave_cli_fault: "leave_cli code [RawConfig, CoreConfig, CliConfig, CliParser] = Inl BadPointer"
  by (simp add: leave_cli_def free_core_config_def release_def)

lemma leave_config_fault:
  "WorkerPids \<notin> set live \<Longrightarrow> leave_config code cc (Some pids) live = Inl BadPointer"
  by (simp add: leave_config_def cleanup_resources_def release_def Let_def)

text \<open>C37. The master never ends in order. Started from a configuration file whose listeners could be
opened, it ends, once its workers have, by releasing the static array of their process ids; with
more than 128 workers it has left that array before. Started from the command line, every end
behind the creation of the core configuration (a port in use, a dry run, a failed daemon or
listener, the end of the workers) releases the parsed configuration twice.\<close>

theorem master_end_faults:
  assumes "\<forall>j. \<exists>p. y_fork cenv j = Parent p" and "open_listeners (y_create cenv) (listening_sockets cc) = Some ls"
    and "\<forall>c k. tls_files (listening_sockets cc) = Some (c, k) \<longrightarrow> y_tls cenv c k"
    and "\<forall>j. \<exists>p. x_fork env j = Parent p" and "x_args env = Some a" and "x_core env = Some cc" and "x_listen env \<noteq> None"
  shows "run_config cenv (Some cc) = Inl (if cc_worker_processes cc > 128 then OutOfRange else BadPointer) \<and>
    run_cli dry_run env =
      Inl (if \<not> is_port_in_use (x_probe env) (x_bind env) \<and> \<not> dry_run \<and> (a_daemon a \<longrightarrow> x_daemon env) \<and>
             0 \<le> the (x_listen env) \<and> cc_worker_processes cc > 128
           then OutOfRange else BadPointer)"
proof
  let ?n = "nat (cc_worker_processes cc)"
  have fork: "fork_workers forks 0 ?n [] = Inl OutOfRange" if "\<forall>j. \<exists>p. forks j = Parent p" "cc_worker_processes cc > 128" for forks
    using fork_too_many [OF that(1), of 0 ?n "[]"] that(2) by simp
  have fork': "\<exists>ps. fork_workers forks 0 ?n [] = Inr (AllForked ps)"
    if "\<forall>j. \<exists>p. forks j = Parent p" "\<not> cc_worker_processes cc > 128" for forks
  proof -
    have "0 + ?n \<le> 128" using that(2) by linarith
    from fork_all [OF that(1) this, of "[]"] show ?thesis by auto
  qed
  have w: "config_workers cenv (cc\<lparr>listening_sockets := ls\<rparr>) live =
      Inl (if cc_worker_processes cc > 128 then OutOfRange else BadPointer)" if "WorkerPids \<notin> set live" for live
    using fork [OF assms(1)] fork' [OF assms(1)] leave_config_fault [OF that]
    by (cases "cc_worker_processes cc > 128") (auto simp: config_workers_def)
  then show "run_config cenv (Some cc) = Inl (if cc_worker_processes cc > 128 then OutOfRange else BadPointer)"
    using assms(2,3) by (auto simp: run_config_def start_listening_def split: option.splits)
  obtain fd where fd: "x_listen env = Some fd" using assms(7) by blast
  have c: "cli_workers env cc fd live = Inl (if cc_worker_processes cc > 128 then OutOfRange else BadPointer)"
    if "live = [RawConfig, CoreConfig, CliConfig, CliParser] \<or> live = [SslContext, RawConfig, CoreConfig, CliConfig, CliParser]" for live
    using fork [OF assms(4)] fork' [OF assms(4)] that
    by (cases "cc_worker_processes cc > 128") (auto simp: cli_workers_def release_def leave_cli_fault)
  show "run_cli dry_run env =
      Inl (if \<not> is_port_in_use (x_probe env) (x_bind env) \<and> \<not> dry_run \<and> (a_daemon a \<longrightarrow> x_daemon env) \<and>
             0 \<le> the (x_listen env) \<and> cc_worker_processes cc > 128
           then OutOfRange else BadPointer)"
    using assms(5,6) fd by (auto simp: run_cli_def Let_def leave_cli_fault c release_def)
qed

definition sample_args :: cli_args where
  "sample_args = \<lparr>a_port = 8080, a_static_dir = Some ''www'', a_host = None, a_daemon = False, a_log_level = None, a_threads = 4,
     a_proxies = [(Some ''/api'', ''http://localhost:3000''), (Some ''/x'', ''http://localhost:4000'')], a_tls = False\<rparr>"

definition sample_core :: core_config where
  "sample_core = \<lparr>cc_worker_processes = 2, listening_sockets = [listening_socket_of [] [] ''80''], cc_cache_manager = None,
     cc_lb_config = lb_config_create, health_managers = []\<rparr>"

lemma sample_core_sel: "cc_worker_processes sample_core = 2" "tls_files (listening_sockets sample_core) = None"
    "\<exists>ls. open_listeners (\<lambda>p. Some 3) (listening_sockets sample_core) = Some ls"
proof -
  have "strtok_all {CHR '' ''} ''80'' = [''80'']" by (rule strtok_all_word) simp_all
  then have l: "\<exists>l. listening_sockets sample_core = [l] \<and> \<not> listening_socket.is_ssl l"
    by (simp add: sample_core_def listening_socket_of_def)
  show "cc_worker_processes sample_core = 2" by (simp add: sample_core_def)
  show "tls_files (listening_sockets sample_core) = None" "\<exists>ls. open_listeners (\<lambda>p. Some 3) (listening_sockets sample_core) = Some ls"
    using l by auto
qed

definition sample_cli :: cli_env where
  "sample_cli = \<lparr>x_args = Some sample_args, x_core = Some sample_core, x_probe = 3, x_bind = BindOk, x_daemon = True, x_tls = False,
     x_listen = Some 3, x_fork = (\<lambda>i. Parent (int i + 100))\<rparr>"

theorem master_end_faults_witness:
  "run_config \<lparr>y_tls = (\<lambda>c k. True), y_create = (\<lambda>p. Some 3), y_fork = (\<lambda>i. Parent 7)\<rparr> (Some sample_core) = Inl BadPointer \<and>
   run_cli True sample_cli = Inl BadPointer"
proof -
  obtain ls where ls: "open_listeners (\<lambda>p. Some 3) (listening_sockets sample_core) = Some ls" using sample_core_sel(3) by blast
  show ?thesis
    using master_end_faults [of "\<lparr>y_tls = (\<lambda>c k. True), y_create = (\<lambda>p. Some 3), y_fork = (\<lambda>i. Parent 7)\<rparr>" sample_core ls sample_cli sample_args True]
    by (simp add: sample_core_sel ls sample_cli_def)
qed

text \<open>A worker serves the first plain and the first TLS listener that could be opened; others are open,
and nobody accepts their clients.\<close>

lemma worker_fds_first:
  "worker_fds ls (a, b) =
    (if a \<noteq> -1 then a else case List.find (\<lambda>l. ls_fd l \<noteq> -1 \<and> \<not> listening_socket.is_ssl l) ls of None \<Rightarrow> -1 | Some l \<Rightarrow> ls_fd l,
     if b \<noteq> -1 then b else case List.find (\<lambda>l. ls_fd l \<noteq> -1 \<and> listening_socket.is_ssl l) ls of None \<Rightarrow> -1 | Some l \<Rightarrow> ls_fd l)"
  by (induction ls arbitrary: a b) auto

text \<open>On a signal every worker that was started is killed; at the end they are signalled once more, when
they have been waited for and their ids may belong to other processes.\<close>

lemma signals_sent: "Kill p 9 \<in> set (signal_handler pids) \<longleftrightarrow> p \<in> set pids"
    "Kill p 15 \<in> set (terminate_workers pids) \<longleftrightarrow> p \<in> set pids \<and> 0 < p"
  by (auto simp: signal_handler_def terminate_workers_def)

lemma scan_first: "scan_args args d = ShowHelp \<longleftrightarrow>
    (\<exists>us vs. args = us @ ''--help'' # vs \<and> ''--version'' \<notin> set us \<and> ''--help'' \<notin> set us)"
proof (induction args arbitrary: d)
  case (Cons a args)
  consider "a = ''--help''" | "a = ''--version''" | "a \<noteq> ''--help''" "a \<noteq> ''--version''" by blast
  then show ?case
  proof cases
    case 1
    then show ?thesis by (auto intro: exI [of _ "[]"])
  next
    case 2
    then show ?thesis by (auto simp: Cons_eq_append_conv)
  next
    case 3
    then have "scan_args (a # args) d = ShowHelp \<longleftrightarrow> (\<exists>us vs. args = us @ ''--help'' # vs \<and> ''--version'' \<notin> set us \<and> ''--help'' \<notin> set us)"
      using Cons by simp
    also have "\<dots> \<longleftrightarrow> (\<exists>us vs. a # args = us @ ''--help'' # vs \<and> ''--version'' \<notin> set us \<and> ''--help'' \<notin> set us)"
    proof
      assume "\<exists>us vs. args = us @ ''--help'' # vs \<and> ''--version'' \<notin> set us \<and> ''--help'' \<notin> set us"
      then obtain us vs where "args = us @ ''--help'' # vs" "''--version'' \<notin> set us" "''--help'' \<notin> set us" by blast
      with 3 show "\<exists>us vs. a # args = us @ ''--help'' # vs \<and> ''--version'' \<notin> set us \<and> ''--help'' \<notin> set us"
        by (intro exI [of _ "a # us"] exI [of _ vs]) simp
    qed (use 3 in \<open>auto simp: Cons_eq_append_conv\<close>)
    finally show ?thesis .
  qed
qed simp

end
