(* ===== verification/AsmSystem.thy ===== *)
theory AsmSystem
  imports AsmMem
begin

text \<open>
  The routines of src/utils/asm/asm_opt.c that read registers of the machine or run single
  instructions of it: features, timers and counters, the two tests, sockets, AES and SHA rounds,
  cache sizes. What the machine answers (a register, an instruction on vectors, the kernel) is an
  argument. Registers that a user process may not read are taken to be readable, as after a
  change of the kernel's settings.
\<close>

section \<open>Features\<close>

record build_features =
  bf_neon :: bool
  bf_crc32 :: bool
  bf_aes :: bool
  bf_sha1 :: bool
  bf_sha2 :: bool
  bf_sve :: bool

definition CPU_FEATURE_AES :: u32 where
  "CPU_FEATURE_AES = 4"

definition CPU_FEATURE_SHA2 :: u32 where
  "CPU_FEATURE_SHA2 = 16"

definition add_feature :: "bool \<Rightarrow> nat \<Rightarrow> u32 \<Rightarrow> u32" where
  "add_feature b i cpu = (if b then cpu OR push_bit i 1 else cpu)"

definition detect_cpu_features :: "build_features \<Rightarrow> u32 \<times> bool \<Rightarrow> u32 \<times> bool" where
  "detect_cpu_features b st =
     (case st of (cpu, detected) \<Rightarrow>
        if detected then st
        else (add_feature (bf_sve b) 5 (add_feature (bf_sha2 b) 4 (add_feature (bf_sha1 b) 3
               (add_feature (bf_aes b) 2 (add_feature (bf_crc32 b) 1 (add_feature (bf_neon b) 0 cpu))))), True))"

definition asm_opt_is_supported :: int where
  "asm_opt_is_supported = 1"

definition asm_opt_get_cpu_features :: "build_features \<Rightarrow> u32 \<times> bool \<Rightarrow> u32 \<times> (u32 \<times> bool)" where
  "asm_opt_get_cpu_features b st = (let st = detect_cpu_features b st in (fst st, st))"

definition asm_opt_init :: "build_features \<Rightarrow> u32 \<times> bool \<Rightarrow> u32 \<times> bool" where
  "asm_opt_init b st = detect_cpu_features b st"

section \<open>Time and counters\<close>

text \<open>The counter is returned as it is, whatever its frequency.\<close>

definition asm_opt_get_timestamp_us :: "u64 \<Rightarrow> u64" where
  "asm_opt_get_timestamp_us cntvct = cntvct"

definition asm_opt_get_timestamp_ns :: "u64 \<Rightarrow> u64" where
  "asm_opt_get_timestamp_ns cntvct = cntvct"

definition asm_opt_get_cpu_frequency :: "u64 \<Rightarrow> u64" where
  "asm_opt_get_cpu_frequency cntfrq = cntfrq"

record perf_counter =
  pf_cycles :: u64
  pf_instructions :: u64
  pf_cache_misses :: u32
  pf_branch_misses :: u32

definition asm_opt_perf_counter_start :: "u64 \<Rightarrow> perf_counter \<Rightarrow> perf_counter" where
  "asm_opt_perf_counter_start pmccntr c = c\<lparr>pf_cycles := pmccntr\<rparr>"

definition asm_opt_perf_counter_stop :: "u64 \<Rightarrow> perf_counter \<Rightarrow> perf_counter" where
  "asm_opt_perf_counter_stop pmccntr c = c\<lparr>pf_cycles := pmccntr - pf_cycles c\<rparr>"

definition asm_opt_get_cpu_performance_counters :: "u64 \<Rightarrow> u64 \<Rightarrow> u64 \<Rightarrow> u64 \<Rightarrow> perf_counter" where
  "asm_opt_get_cpu_performance_counters cycles ev0 ev1 ev2 =
     \<lparr>pf_cycles = cycles, pf_instructions = ev0, pf_cache_misses = ucast ev1, pf_branch_misses = ucast ev2\<rparr>"

text \<open>Blocks of 64 bytes are loaded and stored where they came from.\<close>

function stream_blocks :: "mem \<Rightarrow> addr \<Rightarrow> nat \<Rightarrow> mem" where
  "stream_blocks m p n = (if 64 \<le> n then stream_blocks (mem_copy m p p 64) (p + 64) (n - 64) else m)"
  by pat_completeness auto
termination by (relation "measure (\<lambda>(m, p, n). n)") auto

declare stream_blocks.simps [simp del]

fun stream_rounds :: "nat \<Rightarrow> mem \<Rightarrow> addr \<Rightarrow> nat \<Rightarrow> mem" where
  "stream_rounds 0 m p n = m"
| "stream_rounds (Suc k) m p n = stream_rounds k (stream_blocks m p n) p n"

definition asm_opt_memory_bandwidth_test ::
  "u32 \<Rightarrow> u64 \<Rightarrow> u64 \<Rightarrow> mem \<Rightarrow> addr \<Rightarrow> nat \<Rightarrow> int \<Rightarrow> u64 \<times> mem" where
  "asm_opt_memory_bandwidth_test cpu start_time end_time m buffer n iterations =
     (if 1024 \<le> n \<and> has_neon cpu
      then (end_time - start_time, stream_rounds (nat iterations) m buffer n) else (0, m))"

text \<open>\<open>x\<close> is the 64-bit word to which the pointer points.\<close>

fun latency_loop :: "nat \<Rightarrow> u64 \<Rightarrow> u64" where
  "latency_loop 0 x = x"
| "latency_loop (Suc k) x = latency_loop k (x + 1)"

definition asm_opt_latency_test :: "u64 \<Rightarrow> u64 \<Rightarrow> u64 \<Rightarrow> int \<Rightarrow> u64 \<times> u64" where
  "asm_opt_latency_test start_time end_time x iterations = (end_time - start_time, latency_loop (nat iterations) x)"

section \<open>Sockets\<close>

text \<open>The system calls write and read: the answer of the kernel, an error being its negative number.
The flags are not passed on, and errno is not set.\<close>

definition asm_opt_socket_send :: "(int \<Rightarrow> u8 list \<Rightarrow> int) \<Rightarrow> int \<Rightarrow> u8 list \<Rightarrow> int \<Rightarrow> int" where
  "asm_opt_socket_send sys_write sockfd buffer flags = sys_write sockfd buffer"

definition asm_opt_socket_recv ::
  "(int \<Rightarrow> nat \<Rightarrow> int \<times> u8 list) \<Rightarrow> int \<Rightarrow> nat \<Rightarrow> int \<Rightarrow> int \<times> u8 list" where
  "asm_opt_socket_recv sys_read sockfd len flags = sys_read sockfd len"

section \<open>AES and SHA rounds\<close>

type_synonym vec = "u8 list"

definition asm_opt_aes_encrypt_block ::
  "(vec \<Rightarrow> vec \<Rightarrow> vec) \<Rightarrow> (vec \<Rightarrow> vec) \<Rightarrow> bool \<Rightarrow> u32 \<Rightarrow> vec \<Rightarrow> vec \<Rightarrow> int \<Rightarrow> vec" where
  "asm_opt_aes_encrypt_block aese aesmc built cpu plaintext round_keys rounds =
     (if built \<and> cpu AND CPU_FEATURE_AES \<noteq> 0
      then aesmc (aese (take 16 plaintext) (take 16 round_keys)) else take 16 plaintext)"

text \<open>The registers v0 and v1 are loaded from the data, v2 from its first 16 bytes.\<close>

definition asm_opt_sha256_hash ::
  "(vec \<Rightarrow> vec \<Rightarrow> vec \<Rightarrow> vec) \<Rightarrow> (vec \<Rightarrow> vec \<Rightarrow> vec \<Rightarrow> vec) \<Rightarrow> bool \<Rightarrow> u32 \<Rightarrow> vec \<Rightarrow> vec" where
  "asm_opt_sha256_hash sha256h sha256h2 built cpu data =
     (if built \<and> 64 \<le> length data \<and> cpu AND CPU_FEATURE_SHA2 \<noteq> 0
      then let v0 = take 16 data; v1 = take 16 (drop 16 data); v2 = take 16 data;
               v0 = sha256h v0 v1 v2; v1 = sha256h2 v1 v0 v2
           in v0 @ v1
      else replicate 32 0)"

section \<open>Cache sizes\<close>

text \<open>The first factor is an int, the others and the product are 64 bits wide; the result is stored in 32.\<close>

definition asm_opt_get_cache_info :: "u64 \<Rightarrow> u32 \<times> u32 \<times> u32" where
  "asm_opt_get_cache_info ccsidr =
     (ucast ((push_bit (unat (drop_bit 13 ccsidr AND 0xF)) 1 :: u64) * ((ccsidr AND 0x1FFF) + 1) *
             ((drop_bit 3 ccsidr AND 0x3FF) + 1)), 0, 0)"

section \<open>Lemmas\<close>

lemma features_detected: "snd (detect_cpu_features b st)"
  by (cases st) (simp add: detect_cpu_features_def)

text \<open>The features are determined by the first detection.\<close>

lemma features_stable: "detect_cpu_features b' (detect_cpu_features b st) = detect_cpu_features b st"
  by (cases st) (simp add: detect_cpu_features_def)

lemma bit_add_feature: "bit (add_feature b i cpu) n \<longleftrightarrow> bit cpu n \<or> b \<and> n = i \<and> i < 32"
  by (auto simp: add_feature_def bit_or_iff bit_exp_iff possible_bit_word)

text \<open>What is detected is what the compiler was told.\<close>

lemma features_built:
  "bit (fst (detect_cpu_features b (0, False))) n \<longleftrightarrow>
     n = 0 \<and> bf_neon b \<or> n = 1 \<and> bf_crc32 b \<or> n = 2 \<and> bf_aes b \<or> n = 3 \<and> bf_sha1 b \<or> n = 4 \<and> bf_sha2 b \<or> n = 5 \<and> bf_sve b"
  unfolding detect_cpu_features_def prod.case if_False fst_conv bit_add_feature by (simp add: disj_commute disj_left_commute conj_commute)

lemma perf_counter_difference:
  "pf_cycles (asm_opt_perf_counter_stop y (asm_opt_perf_counter_start x c)) = y - x"
  by (simp add: asm_opt_perf_counter_stop_def asm_opt_perf_counter_start_def)

lemma mem_copy_self: "mem_copy m p p n = m"
  by (auto simp: mem_copy_def fun_eq_iff)

lemma stream_blocks_self: "stream_blocks m p n = m"
proof (induction n arbitrary: p rule: less_induct)
  case (less n)
  then show ?case by (simp add: stream_blocks.simps [of m p n] mem_copy_self)
qed

text \<open>The bandwidth test leaves the buffer as it was, for any number of iterations.\<close>

lemma bandwidth_test_keeps: "snd (asm_opt_memory_bandwidth_test cpu s e m buf n k) = m"
proof -
  have "stream_rounds i m buf n = m" for i by (induction i) (simp_all add: stream_blocks_self)
  then show ?thesis by (simp add: asm_opt_memory_bandwidth_test_def)
qed

text \<open>The latency test does not: the word it was given is counted up.\<close>

lemma latency_test_adds:
  "asm_opt_latency_test s e x k = (e - s, x + of_nat (nat k))"
proof -
  have "latency_loop i x = x + of_nat i" for i
    by (induction i arbitrary: x) (simp_all add: algebra_simps)
  then show ?thesis by (simp add: asm_opt_latency_test_def)
qed

text \<open>Two texts that agree in their first 32 bytes have one hash; without the instructions all texts have.\<close>

lemma sha256_collides:
  assumes "take 32 d = take 32 d'" "64 \<le> length d \<longleftrightarrow> 64 \<le> length d'"
  shows "asm_opt_sha256_hash h h2 built cpu d = asm_opt_sha256_hash h h2 built cpu d'"
proof -
  have "take 16 d = take 16 d'" by (rule trans [OF _ trans [OF arg_cong [of _ _ "take 16", OF assms(1)]]]) simp_all
  moreover have "take 16 (drop 16 d) = take 16 (drop 16 d')"
    using arg_cong [of _ _ "drop 16", OF assms(1)] by (simp add: drop_take)
  ultimately show ?thesis using assms(2) by (simp add: asm_opt_sha256_hash_def)
qed

text \<open>The size of a cache by the layout of the register: sets, ways and bytes of a line.\<close>

definition ccsidr_size :: "u64 \<Rightarrow> nat" where
  "ccsidr_size x = (unat (drop_bit 13 x AND 0x7FFF) + 1) * (unat (drop_bit 3 x AND 0x3FF) + 1) * 2 ^ (unat (x AND 7) + 4)"

lemma cache_info_wrong: "ccsidr_size 0x1FE00A = 32768 \<and> asm_opt_get_cache_info 0x1FE00A = (720896, 0, 0)"
  by (simp add: ccsidr_size_def asm_opt_get_cache_info_def)

end
