(* ===== verification/AsmIntegration.thy ===== *)
theory AsmIntegration
  imports Mempool Http
begin

text \<open>
  The integration of the optimised routines (src/utils/asm/asm_integration.c, asm_integration.h):
  the pool that is shared by its users, the parsing of a request line into blocks of that pool,
  sending in chunks, and the small helpers for cache keys, checksums and headers. The cycle
  counters, the benchmark and the printed report have no effect on these and are not
  represented. \<open>transport\<close> and \<open>pool_os\<close> are those of Proxy and Mempool.
\<close>

section \<open>State\<close>

record integration =
  ai_initialized :: bool
  ai_pool :: "mempool option"
  ai_machine :: machine

record request_info =
  ri_method :: nat
  ri_path :: nat
  ri_version :: nat

record response_header =
  rh_status_code :: u16
  rh_content_length :: u32
  rh_timestamp :: u64

record asm_status =
  as_supported :: bool
  as_initialized :: bool
  as_cpu_features :: u32
  as_pool_available :: bool
  as_pool_stats :: mempool_stats

definition asm_integration_init :: "pool_os \<Rightarrow> bool \<Rightarrow> integration \<Rightarrow> (int \<times> integration) run" where
  "asm_integration_init os supported st =
     (if ai_initialized st then Inr (1, st)
      else if \<not> supported then Inr (0, st)
      else bindR (mempool_create os (ai_machine st)) (\<lambda>(pool, ma).
        Inr (1, \<lparr>ai_initialized = True, ai_pool = Some pool, ai_machine = ma\<rparr>)))"

definition asm_integration_cleanup :: "integration \<Rightarrow> integration run option" where
  "asm_integration_cleanup st =
     (if \<not> ai_initialized st then Some (Inr st)
      else case ai_pool st of
        None \<Rightarrow> Some (Inr (st\<lparr>ai_initialized := False\<rparr>))
      | Some pool \<Rightarrow>
          map_option (\<lambda>r. bindR r (\<lambda>ma. Inr \<lparr>ai_initialized = False, ai_pool = None, ai_machine = ma\<rparr>))
            (mempool_destroy pool (ai_machine st)))"

text \<open>The static status keeps the statistics of the last call that found a pool.\<close>

definition asm_get_optimization_status :: "bool \<Rightarrow> u32 \<Rightarrow> integration \<Rightarrow> asm_status \<Rightarrow> asm_status" where
  "asm_get_optimization_status supported features st old =
     \<lparr>as_supported = supported, as_initialized = ai_initialized st, as_cpu_features = features,
      as_pool_available = (ai_pool st \<noteq> None),
      as_pool_stats = (case ai_pool st of None \<Rightarrow> as_pool_stats old | Some pool \<Rightarrow> mempool_get_stats pool)\<rparr>"

section \<open>The request line\<close>

definition info_alloc :: "pool_os \<Rightarrow> integration \<Rightarrow> nat \<Rightarrow> (nat \<times> integration) run" where
  "info_alloc os st n =
     (case ai_pool st of
        Some pool \<Rightarrow>
          bindR (mempool_alloc os pool (ai_machine st) n) (\<lambda>(p, pool, ma). Inr (p, st\<lparr>ai_pool := Some pool, ai_machine := ma\<rparr>))
      | None \<Rightarrow> (let (p, ma) = os_alloc os (ai_machine st) n in Inr (p, st\<lparr>ai_machine := ma\<rparr>)))"

definition info_free :: "pool_os \<Rightarrow> integration \<Rightarrow> nat \<Rightarrow> integration run option" where
  "info_free os st p =
     (case ai_pool st of
        Some pool \<Rightarrow>
          if p = 0 then Some (Inr st)
          else map_option (\<lambda>r. bindR r (\<lambda>(pool, ma). Inr (st\<lparr>ai_pool := Some pool, ai_machine := ma\<rparr>)))
                 (mempool_free os pool (ai_machine st) p)
      | None \<Rightarrow> Some (bindR (os_free (ai_machine st) p) (\<lambda>ma. Inr (st\<lparr>ai_machine := ma\<rparr>))))"

text \<open>The copy of a text with its terminator.\<close>

definition put_text :: "string \<Rightarrow> nat \<Rightarrow> integration \<Rightarrow> integration run" where
  "put_text s p st = bindR (write_bytes (bytes s @ [0]) (ma_bytes (ai_machine st)) p) (\<lambda>m.
     Inr (st\<lparr>ai_machine := (ai_machine st)\<lparr>ma_bytes := m\<rparr>\<rparr>))"

fun bind_option :: "'a run option \<Rightarrow> ('a \<Rightarrow> 'b run option) \<Rightarrow> 'b run option" where
  "bind_option None k = None"
| "bind_option (Some (Inl f)) k = Some (Inl f)"
| "bind_option (Some (Inr x)) k = k x"

definition asm_free_http_request_info ::
  "pool_os \<Rightarrow> request_info \<Rightarrow> integration \<Rightarrow> (request_info \<times> integration) run option" where
  "asm_free_http_request_info os info st =
     bind_option (info_free os st (ri_method info)) (\<lambda>st.
     bind_option (info_free os st (ri_path info)) (\<lambda>st.
     bind_option (info_free os st (ri_version info)) (\<lambda>st.
     Some (Inr (\<lparr>ri_method = 0, ri_path = 0, ri_version = 0\<rparr>, st)))))"

text \<open>The search for the spaces and the line end is the one of parse_http_request_optimized. When a
block is missing, the others stay allocated.\<close>

definition asm_parse_http_request_line ::
  "pool_os \<Rightarrow> u32 \<Rightarrow> u8 list \<Rightarrow> u8 list \<Rightarrow> nat \<Rightarrow> request_info \<Rightarrow> integration \<Rightarrow>
   (int \<times> request_info \<times> integration) run option" where
  "asm_parse_http_request_line os cpu sl buffer len info st =
     (case parse_http_request_optimized cpu sl buffer len of
        Inl f \<Rightarrow> Some (Inl f)
      | Inr None \<Rightarrow> Some (Inr (-1, info, st))
      | Inr (Some (m, p, v)) \<Rightarrow>
          bind_option (Some (info_alloc os st (length m + 1))) (\<lambda>(a, st).
          bind_option (Some (info_alloc os st (length p + 1))) (\<lambda>(b, st).
          bind_option (Some (info_alloc os st (length v + 1))) (\<lambda>(c, st).
          let info = \<lparr>ri_method = a, ri_path = b, ri_version = c\<rparr> in
          if a = 0 \<or> b = 0 \<or> c = 0 then Some (Inr (-1, info, st))
          else
            bind_option (Some (put_text m a st)) (\<lambda>st.
            bind_option (Some (put_text p b st)) (\<lambda>st.
            bind_option (Some (put_text v c st)) (\<lambda>st.
            if asm_opt_validate_http_method (bytes m) then Some (Inr (0, info, st))
            else bind_option (asm_free_http_request_info os info st) (\<lambda>(info, st). Some (Inr (-1, info, st))))))))))"

section \<open>Sending\<close>

function send_chunks :: "transport \<Rightarrow> string \<Rightarrow> string \<Rightarrow> int \<Rightarrow> int \<times> string" where
  "send_chunks net w dat acc =
     (if dat = [] then (acc, w)
      else
        let chunk = take 65536 dat; sent = net w chunk in
        if sent \<le> 0 then (if acc > 0 then (acc, w) else (sent, w))
        else if sent < int (length chunk) then (acc + sent, w @ take (nat sent) dat)
        else send_chunks net (w @ take (nat sent) dat) (drop (nat sent) dat) (acc + sent))"
  by pat_completeness auto
termination by (relation "measure (\<lambda>(net, w, dat, acc). length dat)") auto

declare send_chunks.simps [simp del]

definition asm_optimized_send :: "transport \<Rightarrow> bool \<Rightarrow> string \<Rightarrow> string \<Rightarrow> int \<times> string" where
  "asm_optimized_send net supported w dat =
     (if dat = [] then (0, w)
      else if length dat \<ge> 4096 \<and> supported then send_chunks net w dat 0
      else let r = net w dat in (r, w @ take (nat r) dat))"

section \<open>Helpers\<close>

definition asm_compute_cache_key_hash :: "u8 list option \<Rightarrow> u8 list option \<Rightarrow> u32" where
  "asm_compute_cache_key_hash url headers =
     (case url of
        None \<Rightarrow> 0
      | Some u \<Rightarrow>
          let url_hash = asm_opt_hash_string u;
              headers_hash = (case headers of None \<Rightarrow> 0 | Some h \<Rightarrow> asm_opt_hash_string h)
          in url_hash XOR push_bit 16 headers_hash XOR drop_bit 16 headers_hash)"

text \<open>The checksum, where there is a place for it.\<close>

definition asm_prepare_compression_data :: "u8 list option \<Rightarrow> bool \<Rightarrow> int \<times> u32 option" where
  "asm_prepare_compression_data data place =
     (case data of
        None \<Rightarrow> (-1, None)
      | Some d \<Rightarrow> if d = [] \<or> \<not> place then (-1, None) else (0, Some (asm_opt_crc32 d)))"

definition asm_convert_network_headers :: "u64 \<Rightarrow> response_header \<Rightarrow> response_header" where
  "asm_convert_network_headers now h =
     h\<lparr>rh_status_code := asm_opt_htons (rh_status_code h), rh_content_length := asm_opt_htonl (rh_content_length h),
       rh_timestamp := now\<rparr>"

section \<open>Lemmas\<close>

text \<open>What was delivered is a prefix of the data, and the result says how long it is, unless nothing was
delivered; then it is what the first send answered.\<close>

lemma send_chunks_spec:
  assumes "\<And>w d. net w d \<le> int (length d)"
  shows "0 \<le> acc \<Longrightarrow> send_chunks net w dat acc = (r, w') \<Longrightarrow>
    \<exists>k \<le> length dat. w' = w @ take k dat \<and> (r = acc + int k \<or> k = 0 \<and> acc = 0 \<and> r \<le> 0)"
proof (induction "length dat" arbitrary: w dat acc rule: less_induct)
  case less
  let ?c = "take 65536 dat" and ?s = "net w (take 65536 dat)"
  show ?case
  proof (cases "dat = [] \<or> ?s \<le> 0")
    case True
    with less.prems have "w' = w" "r = acc \<or> acc = 0 \<and> r \<le> 0"
      by (auto simp: send_chunks.simps [of net w dat] Let_def split: if_splits)
    then show ?thesis by (intro exI [of _ 0]) auto
  next
    case False
    let ?k = "nat ?s"
    from False have k: "0 < ?k" "int ?k = ?s" by simp_all
    have "?s \<le> int (length ?c)" by (rule assms)
    then have l: "?k \<le> length dat" by (simp add: nat_le_iff)
    show ?thesis
    proof (cases "?s < int (length ?c)")
      case True
      with False less.prems(2) have "w' = w @ take ?k dat" "r = acc + int ?k"
        by (simp_all add: send_chunks.simps [of net w dat] Let_def)
      with l show ?thesis by blast
    next
      case long: False
      with False less.prems(2) have "send_chunks net (w @ take ?k dat) (drop ?k dat) (acc + int ?k) = (r, w')"
        by (simp add: send_chunks.simps [of net w dat] Let_def)
      moreover have "length (drop ?k dat) < length dat" using k(1) l by simp
      moreover have "0 \<le> acc + int ?k" using less.prems(1) by simp
      ultimately obtain j where j: "j \<le> length (drop ?k dat)" "w' = (w @ take ?k dat) @ take j (drop ?k dat)"
        "r = acc + int ?k + int j \<or> j = 0 \<and> acc + int ?k = 0 \<and> r \<le> 0"
        using less.hyps by blast
      have "r = acc + int (?k + j)" using j(3) k(1) less.prems(1) by auto
      moreover have "w' = w @ take (?k + j) dat" using j(2) by (simp add: take_add)
      moreover have "?k + j \<le> length dat" using j(1) l by simp
      ultimately show ?thesis by blast
    qed
  qed
qed

lemma asm_optimized_send_spec:
  assumes "\<And>w d. net w d \<le> int (length d)" and "asm_optimized_send net supported w dat = (r, w')"
  shows "\<exists>k \<le> length dat. w' = w @ take k dat \<and> (r = int k \<or> k = 0 \<and> r \<le> 0)"
proof (cases "4096 \<le> length dat \<and> supported")
  case True
  then have "send_chunks net w dat 0 = (r, w')" using assms(2) by (auto simp: asm_optimized_send_def split: if_splits)
  from send_chunks_spec [OF assms(1) _ this] show ?thesis by simp
next
  case False
  show ?thesis
  proof (cases "dat = []")
    case True
    with assms(2) show ?thesis by (simp add: asm_optimized_send_def)
  next
    case ne: False
    with False assms(2) have r: "r = net w dat" "w' = w @ take (nat r) dat" by (auto simp: asm_optimized_send_def Let_def)
    have "nat r \<le> length dat" using assms(1) [of w dat] r(1) by (simp add: nat_le_iff)
    with r show ?thesis by (intro exI [of _ "nat r"]) auto
  qed
qed

text \<open>Large data over a connection that takes everything is delivered whole, chunk after chunk.\<close>

lemma send_chunks_all:
  assumes "\<And>w d. net w d = int (length d)"
  shows "send_chunks net w dat acc = (acc + int (length dat), w @ dat)"
proof (induction "length dat" arbitrary: w dat acc rule: less_induct)
  case less
  show ?case
  proof (cases "dat = []")
    case True
    then show ?thesis by (simp add: send_chunks.simps)
  next
    case False
    have "send_chunks net w dat acc = send_chunks net (w @ take 65536 dat) (drop 65536 dat) (acc + int (length (take 65536 dat)))"
      using False by (subst send_chunks.simps) (simp add: assms Let_def min_def)
    also have "\<dots> = (acc + int (length (take 65536 dat)) + int (length (drop 65536 dat)), (w @ take 65536 dat) @ drop 65536 dat)"
      by (rule less.hyps) (use False in simp)
    also have "\<dots> = (acc + int (length dat), w @ dat)" by simp
    finally show ?thesis .
  qed
qed

text \<open>The headers of a key enter its hash with their halves exchanged, and the byte order of a header is
restored by a second conversion.\<close>

lemma cache_key_rotates:
  "asm_compute_cache_key_hash (Some u) (Some h) = asm_opt_hash_string u XOR word_rotl 16 (asm_opt_hash_string h)"
proof -
  have "push_bit 16 x XOR drop_bit 16 x = word_rotl 16 x" for x :: u32
  proof (rule bit_word_eqI)
    fix n
    assume n: "n < LENGTH(32)"
    show "bit (push_bit 16 x XOR drop_bit 16 x) n = bit (word_rotl 16 x) n"
    proof (cases "n < 16")
      case True
      then have "(n + 16) mod 32 = 16 + n" by simp
      with True n show ?thesis by (simp add: bit_simps bit_word_rotl_iff add.commute)
    next
      case False
      with n have "(n + 16) mod 32 = n - 16" by (simp add: mod_if)
      moreover have "\<not> bit x (16 + n)" using False by (intro impossible_bit) simp
      ultimately show ?thesis using False n by (simp add: bit_simps bit_word_rotl_iff)
    qed
  qed
  then show ?thesis by (simp add: asm_compute_cache_key_hash_def Let_def xor.assoc)
qed

lemma checksum_ignores_text:
  assumes "4 \<le> length d" "\<forall>b\<in>set d. off_table b"
  shows "asm_prepare_compression_data (Some d) True = (0, Some 0xFFFFFFFF)"
proof -
  have "d \<noteq> []" using assms(1) by auto
  with asm_crc32_constant [OF assms] show ?thesis by (simp add: asm_prepare_compression_data_def)
qed

text \<open>A request line without its parts leaves everything as it was; so does one whose method is refused,
where the blocks come from malloc.\<close>

lemma parse_line_none:
  assumes "clean s" "7 \<le> length sl" "split_request s = None"
  shows "asm_parse_http_request_line os cpu sl (in_memory sl s) (length s) info st = Some (Inr (-1, info, st))"
  using parse_request_eq [OF assms(1,2), of cpu] assms(3) by (simp add: asm_parse_http_request_line_def)

text \<open>Behind an allocation that faults (as the first one of a class in a fresh pool does when nothing is
mapped behind its area) the parsing faults.\<close>

lemma parse_line_faults:
  assumes "clean s" "7 \<le> length sl" "split_request s = Some (m, p, v)"
    and "ai_pool st = Some pool" "mempool_alloc os pool (ai_machine st) (length m + 1) = Inl BadPointer"
  shows "asm_parse_http_request_line os cpu sl (in_memory sl s) (length s) info st = Some (Inl BadPointer)"
  using parse_request_eq [OF assms(1,2), of cpu] assms(3-5)
  by (simp add: asm_parse_http_request_line_def info_alloc_def)

end
