(* ===== verification/HttpModule.thy ===== *)
theory HttpModule
  imports AsmIntegration
begin

text \<open>
  The start and the end of the HTTP module (src/http/http.c): the integration of the optimised
  routines and the pool manager, over the memory they share. \<open>osf\<close> gives the answers of the kernel
  while the pool of a class is made; \<open>mgr0\<close> stands for the null pointers of a new manager.
\<close>

section \<open>The module\<close>

record http_module =
  mo_integration :: integration
  mo_manager :: "mempool_manager option"

fun destroy_pools :: "mempool_type_t list \<Rightarrow> mempool_manager \<Rightarrow> machine \<Rightarrow> machine run option" where
  "destroy_pools [] mgr ma = Some (Inr ma)"
| "destroy_pools (t # ts) mgr ma = bind_option (mempool_destroy (mgr t) ma) (destroy_pools ts mgr)"

definition mempool_manager_destroy :: "mempool_manager \<Rightarrow> machine \<Rightarrow> machine run option" where
  "mempool_manager_destroy mgr ma = destroy_pools mempool_types mgr ma"

definition http_module_init ::
  "pool_os \<Rightarrow> (mempool_type_t \<Rightarrow> pool_os) \<Rightarrow> mempool_manager \<Rightarrow> bool \<Rightarrow> http_module \<Rightarrow> http_module run" where
  "http_module_init os osf mgr0 supported st =
     bindR (asm_integration_init os supported (mo_integration st)) (\<lambda>(r, ai).
     bindR (create_pools osf mempool_types (mgr0, ai_machine ai)) (\<lambda>(mgr, ma).
     Inr \<lparr>mo_integration = ai\<lparr>ai_machine := ma\<rparr>, mo_manager = Some mgr\<rparr>))"

definition http_module_cleanup :: "http_module \<Rightarrow> http_module run option" where
  "http_module_cleanup st =
     bind_option
       (case mo_manager st of
          None \<Rightarrow> Some (Inr st)
        | Some mgr \<Rightarrow>
            bind_option (mempool_manager_destroy mgr (ai_machine (mo_integration st))) (\<lambda>ma.
            Some (Inr \<lparr>mo_integration = (mo_integration st)\<lparr>ai_machine := ma\<rparr>, mo_manager = None\<rparr>)))
       (\<lambda>st. bind_option (asm_integration_cleanup (mo_integration st)) (\<lambda>ai.
          Some (Inr (st\<lparr>mo_integration := ai\<rparr>))))"

section \<open>New pools\<close>

fun area_size :: "mempool_type_t \<Rightarrow> nat" where
  "area_size MEMPOOL_TYPE_SMALL = 1048576"
| "area_size MEMPOOL_TYPE_MEDIUM = 4194304"
| "area_size MEMPOOL_TYPE_LARGE = 16777216"
| "area_size MEMPOOL_TYPE_HUGE = 67108864"

text \<open>Areas are mapped within the address space and not at 0.\<close>

definition maps_well :: "pool_os \<Rightarrow> bool" where
  "maps_well os \<longleftrightarrow> (\<forall>t a. os_mmap os t = Some a \<longrightarrow> 0 < a \<and> a + area_size t \<le> 2 ^ 64)"

text \<open>A class has its area, and its first free block lies in it.\<close>

definition holds_area :: "mempool \<Rightarrow> mempool_type_t \<Rightarrow> nat \<Rightarrow> bool" where
  "holds_area pool t a \<longleftrightarrow> preallocated_pools pool t = a \<and> preallocated_sizes pool t = area_size t \<and>
     0 < a \<and> a \<le> free_blocks pool t \<and> free_blocks pool t < a + area_size t"

definition default_pool :: "mempool \<Rightarrow> bool" where
  "default_pool pool \<longleftrightarrow> block_sizes pool = type_block_size \<and> pool_sizes pool = area_size"

lemma blocks_fill: "type_block_size t * (area_size t div type_block_size t) = area_size t" "0 < area_size t div type_block_size t"
  "16 \<le> type_block_size t" "type_block_size t < 2 ^ 32"
  by (cases t; simp)+

lemma prealloc_holds:
  assumes "maps_well os" "default_pool pool" "free_blocks pool t = 0"
  shows "\<exists>r pool' ma'. mempool_prealloc os pool ma t (pool_sizes pool t div block_sizes pool t) = Inr (r, pool', ma') \<and>
    default_pool pool' \<and> (\<forall>a. os_mmap os t = Some a \<longrightarrow> holds_area pool' t a) \<and>
    (\<forall>u. u \<noteq> t \<longrightarrow> free_blocks pool' u = free_blocks pool u \<and> (\<forall>a. holds_area pool' u a = holds_area pool u a))"
proof (cases "os_mmap os t")
  case None
  with assms(2) show ?thesis by (simp add: mempool_prealloc_def Let_def)
next
  case (Some a)
  let ?n = "area_size t div type_block_size t"
  have b: "block_sizes pool t = type_block_size t" "pool_sizes pool t = area_size t"
    using assms(2) by (simp_all add: default_pool_def)
  have a: "0 < a" "a + area_size t \<le> 2 ^ 64" using assms(1) Some by (auto simp: maps_well_def)
  have "a + block_sizes pool t * ?n \<le> 2 ^ 64" "16 \<le> block_sizes pool t" "block_sizes pool t < 2 ^ 32"
    using a(2) b blocks_fill [of t] by simp_all
  from prealloc_run [OF Some a(1) this(1) assms(3) this(2,3), of ma] obtain h m where
    r: "mempool_prealloc os pool ma t ?n =
      Inr (0, pool\<lparr>free_blocks := (free_blocks pool)(t := h), preallocated_pools := (preallocated_pools pool)(t := a),
                   preallocated_sizes := (preallocated_sizes pool)(t := area_size t)\<rparr>, ma\<lparr>ma_bytes := m\<rparr>)"
    and c: "Mempool.chain m (type_block_size t) h (rev (blocks_of a (type_block_size t) ?n))"
    using b(1) blocks_fill(1) [of t] by auto
  have h: "a \<le> h \<and> h < a + area_size t"
  proof -
    obtain k where k: "?n = Suc k" using blocks_fill(2) [of t] by (cases ?n) auto
    have "h = a + k * type_block_size t" using c unfolding k by (simp add: blocks_of_def)
    moreover have "area_size t = k * type_block_size t + type_block_size t"
      using blocks_fill(1) [of t] unfolding k by (simp add: mult.commute)
    ultimately show ?thesis using blocks_fill(3) [of t] by simp
  qed
  show ?thesis using r Some assms(2) h a b by (auto simp: default_pool_def holds_area_def)
qed

lemma prealloc_all_holds:
  assumes "maps_well os" "default_pool pool" "distinct ts" "\<forall>t\<in>set ts. free_blocks pool t = 0"
  shows "\<exists>pool' ma'. prealloc_all os ts (pool, ma) = Inr (pool', ma') \<and>
    (\<forall>t\<in>set ts. \<forall>a. os_mmap os t = Some a \<longrightarrow> holds_area pool' t a) \<and>
    (\<forall>u. u \<notin> set ts \<longrightarrow> (\<forall>a. holds_area pool' u a = holds_area pool u a))"
  using assms
proof (induction ts arbitrary: pool ma)
  case (Cons t ts)
  from prealloc_holds [OF Cons.prems(1,2), of t ma] Cons.prems(4) obtain r p m where
    1: "mempool_prealloc os pool ma t (pool_sizes pool t div block_sizes pool t) = Inr (r, p, m)" "default_pool p"
      "\<forall>a. os_mmap os t = Some a \<longrightarrow> holds_area p t a"
      "\<forall>u. u \<noteq> t \<longrightarrow> free_blocks p u = free_blocks pool u \<and> (\<forall>a. holds_area p u a = holds_area pool u a)" by auto
  have "\<forall>u\<in>set ts. free_blocks p u = 0" using 1(4) Cons.prems(3,4) by (metis distinct.simps(2) list.set_intros(2))
  with Cons.IH [OF Cons.prems(1) 1(2), of m] Cons.prems(3) obtain p' m' where
    2: "prealloc_all os ts (p, m) = Inr (p', m')" "\<forall>t\<in>set ts. \<forall>a. os_mmap os t = Some a \<longrightarrow> holds_area p' t a"
      "\<forall>u. u \<notin> set ts \<longrightarrow> (\<forall>a. holds_area p' u a = holds_area p u a)" by auto
  have t: "t \<notin> set ts" using Cons.prems(3) by simp
  show ?case
  proof (intro exI conjI)
    show "prealloc_all os (t # ts) (pool, ma) = Inr (p', m')" using 1(1) 2(1) by simp
    show "\<forall>x\<in>set (t # ts). \<forall>a. os_mmap os x = Some a \<longrightarrow> holds_area p' x a" using 1(3) 2(2,3) t by simp
    show "\<forall>u. u \<notin> set (t # ts) \<longrightarrow> (\<forall>a. holds_area p' u a = holds_area pool u a)" using 1(4) 2(3) by simp
  qed
qed simp

lemma mempool_create_holds:
  assumes "maps_well os"
  shows "\<exists>pool ma'. mempool_create os ma = Inr (pool, ma') \<and> (\<forall>t a. os_mmap os t = Some a \<longrightarrow> holds_area pool t a)"
proof -
  let ?c = mempool_get_default_config
  let ?pool = "\<lparr>free_blocks = (\<lambda>t. 0), block_sizes = type_block_size,
                  pool_sizes = (\<lambda>t. case t of MEMPOOL_TYPE_SMALL \<Rightarrow> small_pool_size ?c
                                            | MEMPOOL_TYPE_MEDIUM \<Rightarrow> medium_pool_size ?c
                                            | MEMPOOL_TYPE_LARGE \<Rightarrow> large_pool_size ?c
                                            | MEMPOOL_TYPE_HUGE \<Rightarrow> huge_pool_size ?c),
                  mp_stats = no_stats, use_asm_opt = enable_asm_opt ?c, alignment = mc_alignment ?c,
                  preallocated_pools = (\<lambda>t. 0), preallocated_sizes = (\<lambda>t. 0),
                  mp_gc_threshold = mc_gc_threshold ?c, last_gc_time = 0\<rparr>"
  have "(case t of MEMPOOL_TYPE_SMALL \<Rightarrow> small_pool_size ?c | MEMPOOL_TYPE_MEDIUM \<Rightarrow> medium_pool_size ?c
      | MEMPOOL_TYPE_LARGE \<Rightarrow> large_pool_size ?c | MEMPOOL_TYPE_HUGE \<Rightarrow> huge_pool_size ?c) = area_size t" for t
    by (cases t) (simp_all add: mempool_get_default_config_def)
  then have d: "default_pool ?pool" by (simp add: default_pool_def)
  have ts: "distinct mempool_types" "set mempool_types = UNIV"
    by (auto simp: mempool_types_def intro: mempool_type_t.exhaust)
  from prealloc_all_holds [OF assms d ts(1), of ma] ts(2) obtain p m where
    p: "prealloc_all os mempool_types (?pool, ma) = Inr (p, m)" "\<forall>t a. os_mmap os t = Some a \<longrightarrow> holds_area p t a" by auto
  then show ?thesis by (simp add: mempool_create_def mempool_create_with_config_def holds_area_def)
qed

lemma create_pools_hold:
  assumes "\<And>t. maps_well (osf t)" "distinct ts"
  shows "\<exists>mgr' ma'. create_pools osf ts (mgr, ma) = Inr (mgr', ma') \<and> (\<forall>u. u \<notin> set ts \<longrightarrow> mgr' u = mgr u) \<and>
    (\<forall>u\<in>set ts. \<forall>t a. os_mmap (osf u) t = Some a \<longrightarrow> holds_area (mgr' u) t a)"
  using assms(2)
proof (induction ts arbitrary: mgr ma)
  case (Cons t ts)
  from mempool_create_holds [OF assms(1) [of t], of ma] obtain p m where
    1: "mempool_create (osf t) ma = Inr (p, m)" "\<forall>x a. os_mmap (osf t) x = Some a \<longrightarrow> holds_area p x a" by blast
  have "distinct ts" using Cons.prems by simp
  from Cons.IH [OF this, of "mgr(t := p)" m] obtain mgr' ma' where
    2: "create_pools osf ts (mgr(t := p), m) = Inr (mgr', ma')" "\<forall>u. u \<notin> set ts \<longrightarrow> mgr' u = (mgr(t := p)) u"
      "\<forall>u\<in>set ts. \<forall>t a. os_mmap (osf u) t = Some a \<longrightarrow> holds_area (mgr' u) t a" by blast
  have t: "t \<notin> set ts" using Cons.prems by simp
  have "mgr' t = p" using 2(2) t by simp
  with 1 2 t show ?case by auto
qed simp

section \<open>Unmapped areas\<close>

lemma destroy_faults:
  assumes "holds_area pool MEMPOOL_TYPE_SMALL a"
  shows "mempool_destroy pool ma = Some (Inl BadPointer)"
proof -
  let ?b = "free_blocks pool MEMPOOL_TYPE_SMALL" and ?m = "unmap_all mempool_types pool (ma_bytes ma)"
  have gone: "unmap_all ts pool m x = None" if "m x = None" for ts m x
    using that by (induction ts arbitrary: m) (auto simp: unmap_area_def)
  have a: "preallocated_pools pool MEMPOOL_TYPE_SMALL = a" "0 < a" "a \<le> ?b"
    "?b < a + preallocated_sizes pool MEMPOOL_TYPE_SMALL" using assms by (simp_all add: holds_area_def)
  have "?m ?b = None"
    unfolding mempool_types_def unmap_all.simps(2) [of MEMPOOL_TYPE_SMALL] by (intro gone) (use a in \<open>simp add: unmap_area_def\<close>)
  then have "block_next ?m ?b = Inl BadPointer" by (auto simp: block_next_def load_def mapped_iff)
  then have "free_chain ?b (ma\<lparr>ma_bytes := ?m\<rparr>) = Some (Inl BadPointer)"
    using a(2,3) by (simp add: free_chain.simps [of ?b])
  then show ?thesis by (simp add: mempool_destroy_def mempool_types_def)
qed

section \<open>Properties\<close>

text \<open>C40. The HTTP module can be started and not stopped: whenever the kernel maps an area for the small
blocks of the first pool, the cleanup of a module that was just started, and has served nothing
yet, is a fault, because each pool first unmaps its areas and then walks the free list that lies
in them. It is the last call of a server that was started from the command line.\<close>

theorem http_module_never_stops:
  assumes "maps_well os" "\<And>t. maps_well (osf t)" "os_mmap (osf MEMPOOL_TYPE_SMALL) MEMPOOL_TYPE_SMALL \<noteq> None"
  shows "\<exists>st'. http_module_init os osf mgr0 supported st = Inr st' \<and> http_module_cleanup st' = Some (Inl BadPointer)"
proof -
  obtain r ai where ai: "asm_integration_init os supported (mo_integration st) = Inr (r, ai)"
  proof -
    obtain pool ma where "mempool_create os (ai_machine (mo_integration st)) = Inr (pool, ma)"
      using mempool_create_holds [OF assms(1), of "ai_machine (mo_integration st)"] by blast
    then have "\<exists>x. asm_integration_init os supported (mo_integration st) = Inr x" by (simp add: asm_integration_init_def)
    with that show thesis by auto
  qed
  have ts: "distinct mempool_types" "MEMPOOL_TYPE_SMALL \<in> set mempool_types" by (simp_all add: mempool_types_def)
  from create_pools_hold [where osf = osf and mgr = mgr0 and ma = "ai_machine ai", OF assms(2) ts(1)] ts(2) assms(3) obtain mgr ma a where
    m: "create_pools osf mempool_types (mgr0, ai_machine ai) = Inr (mgr, ma)" "holds_area (mgr MEMPOOL_TYPE_SMALL) MEMPOOL_TYPE_SMALL a"
    by blast
  have "mempool_manager_destroy mgr x = Some (Inl BadPointer)" for x
    using destroy_faults [OF m(2), of x] by (simp add: mempool_manager_destroy_def mempool_types_def)
  with ai m(1) show ?thesis by (simp add: http_module_init_def http_module_cleanup_def)
qed

definition module_os :: pool_os where
  "module_os = \<lparr>os_mmap = (\<lambda>t. Some 4096), os_malloc = (\<lambda>n. None), os_svc = (\<lambda>a b c d e. 0), os_now = 0\<rparr>"

definition idle_module :: http_module where
  "idle_module = \<lparr>mo_integration = \<lparr>ai_initialized = False, ai_pool = None, ai_machine = \<lparr>ma_bytes = (\<lambda>x. None), ma_chunks = []\<rparr>\<rparr>,
     mo_manager = None\<rparr>"

theorem http_module_never_stops_witness:
  "\<exists>st'. http_module_init module_os (\<lambda>t. module_os) (\<lambda>t. sample_pool) True idle_module = Inr st' \<and>
     http_module_cleanup st' = Some (Inl BadPointer)"
proof -
  have "4096 + area_size t \<le> 2 ^ 64" for t by (cases t) simp_all
  then have "maps_well module_os" by (simp add: maps_well_def module_os_def)
  then show ?thesis using http_module_never_stops [of module_os "\<lambda>t. module_os"] by (simp add: module_os_def)
qed

end
