(* ===== verification/LbHealth.thy ===== *)
theory LbHealth
  imports HealthCheck
begin

text \<open>
  The health check managers of the load balancer's groups (src/proxy/load_balancer.c from
  lb_start_health_check_manager on, the loop of free_core_config in src/core/core.c): which
  managers are allocated, which of them have a thread, and which group points to which. A manager
  is an address; a use of one that has been released is the fault BadPointer. pthread_join returns:
  the thread leaves its loop once \<open>running\<close> is false.
\<close>

section \<open>Managers and their threads\<close>

record check_world =
  cw_managers :: "nat \<Rightarrow> health_check_manager option"
  cw_threads :: "nat set"
  cw_next :: nat
  cw_slot :: "string \<Rightarrow> nat option"

definition no_checks :: check_world where
  "no_checks = \<lparr>cw_managers = (\<lambda>a. None), cw_threads = {}, cw_next = 0, cw_slot = (\<lambda>n. None)\<rparr>"

definition manager_at :: "nat \<Rightarrow> check_world \<Rightarrow> health_check_manager run" where
  "manager_at a w = (case cw_managers w a of None \<Rightarrow> Inl BadPointer | Some m \<Rightarrow> Inr m)"

definition stop_manager :: "nat \<Rightarrow> check_world \<Rightarrow> check_world run" where
  "stop_manager a w =
     bindR (manager_at a w) (\<lambda>m.
       Inr (if running m
            then w\<lparr>cw_managers := (cw_managers w)(a := Some (snd (health_check_manager_stop m))), cw_threads := cw_threads w - {a}\<rparr>
            else w))"

definition health_check_manager_free :: "nat \<Rightarrow> check_world \<Rightarrow> check_world run" where
  "health_check_manager_free a w =
     bindR (stop_manager a w) (\<lambda>w. Inr (w\<lparr>cw_managers := (cw_managers w)(a := None)\<rparr>))"

definition start_manager :: "bool \<Rightarrow> nat \<Rightarrow> check_world \<Rightarrow> (int \<times> check_world) run" where
  "start_manager spawn a w =
     bindR (manager_at a w) (\<lambda>m.
       let (r, m') = health_check_manager_start spawn m in
       Inr (r, w\<lparr>cw_managers := (cw_managers w)(a := Some m'),
                 cw_threads := if running m' \<and> \<not> running m then insert a (cw_threads w) else cw_threads w\<rparr>))"

text \<open>The second half of the start: a new manager for a group that has none.\<close>

definition attach_manager ::
  "int \<Rightarrow> bool \<Rightarrow> upstream_group \<Rightarrow> health_check_config \<Rightarrow> check_world \<Rightarrow> (int \<times> check_world) run" where
  "attach_manager now spawn g c w =
     (let a = cw_next w;
          w = w\<lparr>cw_managers := (cw_managers w)(a := Some (health_check_manager_create now g c)), cw_next := a + 1,
                cw_slot := (cw_slot w)(g_name g := Some a)\<rparr>
      in bindR (start_manager spawn a w) (\<lambda>(r, w).
           if r \<noteq> 0
           then bindR (health_check_manager_free a w) (\<lambda>w. Inr (-1, w\<lparr>cw_slot := (cw_slot w)(g_name g := None)\<rparr>))
           else Inr (0, w)))"

definition lb_start_health_check_manager ::
  "int \<Rightarrow> bool \<Rightarrow> upstream_group \<Rightarrow> health_check_config \<Rightarrow> check_world \<Rightarrow> (int \<times> check_world) run" where
  "lb_start_health_check_manager now spawn g c w =
     bindR (case cw_slot w (g_name g) of
              None \<Rightarrow> Inr w
            | Some a \<Rightarrow> bindR (stop_manager a w) (health_check_manager_free a)) (attach_manager now spawn g c)"

definition lb_stop_health_check_manager :: "string \<Rightarrow> check_world \<Rightarrow> check_world run" where
  "lb_stop_health_check_manager n w =
     (case cw_slot w n of
        None \<Rightarrow> Inr w
      | Some a \<Rightarrow>
          bindR (stop_manager a w) (\<lambda>w. bindR (health_check_manager_free a w) (\<lambda>w.
          Inr (w\<lparr>cw_slot := (cw_slot w)(n := None)\<rparr>))))"

definition lb_is_health_check_running :: "string \<Rightarrow> check_world \<Rightarrow> bool run" where
  "lb_is_health_check_running n w =
     (case cw_slot w n of
        None \<Rightarrow> Inr False
      | Some a \<Rightarrow> bindR (manager_at a w) (\<lambda>m. Inr (health_check_manager_is_running m)))"

text \<open>The loop of free_core_config over the groups.\<close>

fun stop_group_checks :: "string list \<Rightarrow> check_world \<Rightarrow> check_world run" where
  "stop_group_checks [] w = Inr w"
| "stop_group_checks (n # ns) w =
     bindR (lb_is_health_check_running n w) (\<lambda>r.
     bindR (if r then lb_stop_health_check_manager n w else Inr w) (stop_group_checks ns))"

section \<open>Every thread belongs to a group\<close>

text \<open>The managers that are allocated are those of the groups, all of them run, each with its thread.\<close>

definition checks_ok :: "check_world \<Rightarrow> bool" where
  "checks_ok w \<longleftrightarrow>
     (\<forall>a m. cw_managers w a = Some m \<longrightarrow> running m \<and> cw_slot w (g_name (m_group m)) = Some a \<and> a < cw_next w) \<and>
     (\<forall>n a. cw_slot w n = Some a \<longrightarrow> (\<exists>m. cw_managers w a = Some m \<and> g_name (m_group m) = n)) \<and>
     cw_threads w = {a. cw_managers w a \<noteq> None}"

lemma checks_okD:
  assumes "checks_ok w" "cw_slot w n = Some a"
  obtains m where "cw_managers w a = Some m" "g_name (m_group m) = n" "running m" "a \<in> cw_threads w"
  using assms unfolding checks_ok_def by (metis (mono_tags, lifting) mem_Collect_eq option.distinct(1))

lemma checks_okI:
  assumes "\<And>a m. cw_managers w a = Some m \<Longrightarrow> running m \<and> cw_slot w (g_name (m_group m)) = Some a \<and> a < cw_next w"
    and "\<And>n a. cw_slot w n = Some a \<Longrightarrow> \<exists>m. cw_managers w a = Some m \<and> g_name (m_group m) = n"
    and "cw_threads w = {a. cw_managers w a \<noteq> None}"
  shows "checks_ok w"
  using assms unfolding checks_ok_def by simp

lemma checks_ok_manager:
  "checks_ok w \<Longrightarrow> cw_managers w a = Some m \<Longrightarrow> running m \<and> cw_slot w (g_name (m_group m)) = Some a \<and> a < cw_next w"
  unfolding checks_ok_def by blast

lemma checks_ok_slot:
  "checks_ok w \<Longrightarrow> cw_slot w n = Some a \<Longrightarrow> \<exists>m. cw_managers w a = Some m \<and> g_name (m_group m) = n"
  unfolding checks_ok_def by blast

lemma checks_ok_threads: "checks_ok w \<Longrightarrow> cw_threads w = {a. cw_managers w a \<noteq> None}"
  unfolding checks_ok_def by blast

lemma checks_ok_new: "checks_ok no_checks"
  by (simp add: checks_ok_def no_checks_def)

lemma checks_ok_inj: "checks_ok w \<Longrightarrow> cw_slot w n = Some a \<Longrightarrow> cw_slot w n' = Some a \<Longrightarrow> n' = n"
  by (metis checks_okD option.inject)

text \<open>Stopping and releasing the manager of a group takes it and its thread away.\<close>

definition without :: "string \<Rightarrow> nat \<Rightarrow> check_world \<Rightarrow> check_world" where
  "without n a w = w\<lparr>cw_managers := (cw_managers w)(a := None), cw_threads := cw_threads w - {a}, cw_slot := (cw_slot w)(n := None)\<rparr>"

lemma without_sel [simp]:
  "cw_managers (without n a w) = (cw_managers w)(a := None)" "cw_threads (without n a w) = cw_threads w - {a}"
  "cw_slot (without n a w) = (cw_slot w)(n := None)" "cw_next (without n a w) = cw_next w"
  by (simp_all add: without_def)

lemma release_manager:
  assumes "cw_managers w a = Some m" "running m"
  shows "\<exists>w1. stop_manager a w = Inr w1 \<and> health_check_manager_free a w1 =
    Inr (w\<lparr>cw_managers := (cw_managers w)(a := None), cw_threads := cw_threads w - {a}\<rparr>)"
  using assms
  by (simp add: stop_manager_def manager_at_def health_check_manager_free_def health_check_manager_stop_def)

lemma release_slot:
  assumes "checks_ok w" "cw_slot w n = Some a"
  shows "checks_ok (without n a w)"
proof -
  have "cw_slot w n' \<noteq> Some a" if "n' \<noteq> n" for n' using checks_ok_inj [OF assms] that by blast
  with assms show ?thesis unfolding checks_ok_def by auto
qed

lemma lb_stop_ok:
  assumes "checks_ok w"
  shows "\<exists>w'. lb_stop_health_check_manager n w = Inr w' \<and> checks_ok w' \<and> cw_slot w' = (cw_slot w)(n := None)"
proof (cases "cw_slot w n")
  case None
  then have "(cw_slot w)(n := None) = cw_slot w" by (simp add: fun_upd_idem)
  with None assms show ?thesis by (simp add: lb_stop_health_check_manager_def)
next
  case (Some a)
  from checks_okD [OF assms Some] obtain m where m: "cw_managers w a = Some m" "running m" by metis
  from release_manager [OF this] obtain w1 where "stop_manager a w = Inr w1" "health_check_manager_free a w1 =
    Inr (w\<lparr>cw_managers := (cw_managers w)(a := None), cw_threads := cw_threads w - {a}\<rparr>)" by blast
  with Some have "lb_stop_health_check_manager n w = Inr (without n a w)"
    by (simp add: lb_stop_health_check_manager_def without_def)
  with release_slot [OF assms Some] show ?thesis by simp
qed

text \<open>A start replaces the manager of the group, whatever it was; when the thread cannot be created the
group is left without one.\<close>

text \<open>The slot of the group may still hold the manager that has been released.\<close>

definition detached :: "string \<Rightarrow> check_world \<Rightarrow> check_world" where
  "detached n w = w\<lparr>cw_slot := (cw_slot w)(n := None)\<rparr>"

lemma attach_ok:
  assumes ok: "checks_ok (detached (g_name g) w)"
  shows "\<exists>w'. attach_manager now spawn g c w = Inr (if spawn then 0 else -1, w') \<and> checks_ok w' \<and>
    (cw_slot w' (g_name g) \<noteq> None \<longleftrightarrow> spawn) \<and> (\<forall>n. n \<noteq> g_name g \<longrightarrow> cw_slot w' n = cw_slot w n)"
proof -
  let ?n = "g_name g" and ?a = "cw_next w" and ?m = "health_check_manager_create now g c"
  let ?d = "detached ?n w"
  have sel: "cw_managers ?d = cw_managers w" "cw_threads ?d = cw_threads w" "cw_next ?d = ?a"
    "\<And>n. cw_slot ?d n = (if n = ?n then None else cw_slot w n)" by (simp_all add: detached_def)
  have thr: "cw_threads w = {b. cw_managers w b \<noteq> None}"
    using checks_ok_threads [OF ok] by (simp add: sel)
  have full: "running x \<and> cw_slot ?d (g_name (m_group x)) = Some b \<and> b < ?a" if "cw_managers w b = Some x" for b x
    using checks_ok_manager [OF ok, of b x] that by (simp only: sel)
  have other: "g_name (m_group x) \<noteq> ?n" if "cw_managers w b = Some x" for b x
    using full [OF that] by (auto simp: sel)
  have mgr: "running x \<and> cw_slot w (g_name (m_group x)) = Some b \<and> b < ?a" if "cw_managers w b = Some x" for b x
    using full [OF that] other [OF that] by (simp add: sel)
  have new: "cw_managers w ?a = None"
  proof (cases "cw_managers w ?a")
    case (Some x)
    with full [OF Some] show ?thesis by simp
  qed simp
  have sl: "\<exists>x. cw_managers w b = Some x \<and> g_name (m_group x) = n" if "n \<noteq> ?n" "cw_slot w n = Some b" for n b
    using checks_ok_slot [OF ok, of n b] that by (simp add: sel)
  have slot: "cw_slot w n \<noteq> Some ?a" if "n \<noteq> ?n" for n
    using sl [OF that, of ?a] new by auto
  have m: "\<not> running ?m" "m_group ?m = g" by (simp_all add: health_check_manager_create_def)
  show ?thesis
  proof (cases spawn)
    case True
    let ?w = "w\<lparr>cw_managers := (cw_managers w)(?a := Some (?m\<lparr>running := True\<rparr>)), cw_next := ?a + 1,
                cw_slot := (cw_slot w)(?n := Some ?a), cw_threads := insert ?a (cw_threads w)\<rparr>"
    have "attach_manager now spawn g c w = Inr (0, ?w)"
      using True by (simp add: attach_manager_def Let_def start_manager_def manager_at_def health_check_manager_start_def m)
    moreover have "checks_ok ?w"
    proof (rule checks_okI)
      fix b x assume b: "cw_managers ?w b = Some x"
      show "running x \<and> cw_slot ?w (g_name (m_group x)) = Some b \<and> b < cw_next ?w"
      proof (cases "b = ?a")
        case True
        with b m show ?thesis by auto
      next
        case False
        with b have x: "cw_managers w b = Some x" by simp
        with mgr [OF x] other [OF x] show ?thesis by simp
      qed
    next
      fix n b assume b: "cw_slot ?w n = Some b"
      show "\<exists>x. cw_managers ?w b = Some x \<and> g_name (m_group x) = n"
      proof (cases "n = ?n")
        case True
        with b m show ?thesis by simp
      next
        case False
        with b have x: "cw_slot w n = Some b" by simp
        with slot [OF False] sl [OF False x] show ?thesis by auto
      qed
    next
      show "cw_threads ?w = {b. cw_managers ?w b \<noteq> None}" using thr by auto
    qed
    ultimately show ?thesis using True by simp
  next
    case False
    let ?w = "w\<lparr>cw_next := ?a + 1, cw_slot := (cw_slot w)(?n := None)\<rparr>"
    have "(cw_managers w)(?a := None) = cw_managers w" using new by (simp add: fun_upd_idem)
    then have "attach_manager now spawn g c w = Inr (-1, ?w)"
      using False by (simp add: attach_manager_def Let_def start_manager_def manager_at_def health_check_manager_start_def m
          health_check_manager_free_def stop_manager_def)
    moreover have "checks_ok ?w"
    proof (rule checks_okI)
      fix b x assume b: "cw_managers ?w b = Some x"
      then have x: "cw_managers w b = Some x" by simp
      from mgr [OF x] other [OF x]
      show "running x \<and> cw_slot ?w (g_name (m_group x)) = Some b \<and> b < cw_next ?w" by simp
    next
      fix n b assume b: "cw_slot ?w n = Some b"
      then have "n \<noteq> ?n" "cw_slot w n = Some b" by (auto split: if_splits)
      from sl [OF this] show "\<exists>x. cw_managers ?w b = Some x \<and> g_name (m_group x) = n" by simp
    next
      show "cw_threads ?w = {b. cw_managers ?w b \<noteq> None}" using thr by simp
    qed
    ultimately show ?thesis using False by simp
  qed
qed

lemma lb_start_ok:
  assumes "checks_ok w"
  shows "\<exists>w'. lb_start_health_check_manager now spawn g c w = Inr (if spawn then 0 else -1, w') \<and> checks_ok w' \<and>
    (cw_slot w' (g_name g) \<noteq> None \<longleftrightarrow> spawn) \<and> (\<forall>n. n \<noteq> g_name g \<longrightarrow> cw_slot w' n = cw_slot w n)"
proof (cases "cw_slot w (g_name g)")
  case None
  then have "detached (g_name g) w = w" by (simp add: detached_def fun_upd_idem)
  with assms None attach_ok [of g w now spawn c] show ?thesis by (simp add: lb_start_health_check_manager_def)
next
  case (Some a)
  let ?u = "w\<lparr>cw_managers := (cw_managers w)(a := None), cw_threads := cw_threads w - {a}\<rparr>"
  from checks_okD [OF assms Some] obtain m where m: "cw_managers w a = Some m" "running m" by metis
  from release_manager [OF this] obtain w1 where "stop_manager a w = Inr w1" "health_check_manager_free a w1 = Inr ?u" by blast
  then have s: "lb_start_health_check_manager now spawn g c w = attach_manager now spawn g c ?u"
    using Some by (simp add: lb_start_health_check_manager_def)
  have "detached (g_name g) ?u = without (g_name g) a w" by (simp add: detached_def without_def)
  with release_slot [OF assms Some] attach_ok [of g ?u now spawn c] show ?thesis unfolding s by simp
qed

section \<open>Sequences of starts and stops\<close>

datatype check_op = StartCheck int bool upstream_group health_check_config | StopCheck string

definition check_step :: "check_op \<Rightarrow> check_world \<Rightarrow> check_world run" where
  "check_step x w =
     (case x of
        StartCheck now spawn g c \<Rightarrow> bindR (lb_start_health_check_manager now spawn g c w) (\<lambda>(r, w). Inr w)
      | StopCheck n \<Rightarrow> lb_stop_health_check_manager n w)"

fun check_steps :: "check_op list \<Rightarrow> check_world \<Rightarrow> check_world run" where
  "check_steps [] w = Inr w"
| "check_steps (x # xs) w = bindR (check_step x w) (check_steps xs)"

lemma check_steps_ok: "checks_ok w \<Longrightarrow> \<exists>w'. check_steps xs w = Inr w' \<and> checks_ok w'"
proof (induction xs arbitrary: w)
  case (Cons x xs)
  have "\<exists>w1. check_step x w = Inr w1 \<and> checks_ok w1"
  proof (cases x)
    case (StartCheck now spawn g c)
    with lb_start_ok [OF Cons.prems, of now spawn g c] show ?thesis by (auto simp: check_step_def)
  next
    case (StopCheck n)
    with lb_stop_ok [OF Cons.prems, of n] show ?thesis by (auto simp: check_step_def)
  qed
  with Cons.IH show ?case by auto
qed simp

lemma stop_group_ok:
  "checks_ok w \<Longrightarrow> \<exists>w'. stop_group_checks ns w = Inr w' \<and> checks_ok w' \<and>
     (\<forall>n. cw_slot w' n = (if n \<in> set ns then None else cw_slot w n))"
proof (induction ns arbitrary: w)
  case (Cons n ns)
  have "\<exists>w1. bindR (lb_is_health_check_running n w) (\<lambda>r. if r then lb_stop_health_check_manager n w else Inr w) = Inr w1 \<and>
      checks_ok w1 \<and> cw_slot w1 = (cw_slot w)(n := None)"
  proof (cases "cw_slot w n")
    case None
    then have "(cw_slot w)(n := None) = cw_slot w" by (simp add: fun_upd_idem)
    with None Cons.prems show ?thesis by (simp add: lb_is_health_check_running_def)
  next
    case (Some a)
    from checks_okD [OF Cons.prems Some] obtain m where "cw_managers w a = Some m" "running m" by metis
    with Some lb_stop_ok [OF Cons.prems, of n] show ?thesis
      by (simp add: lb_is_health_check_running_def manager_at_def health_check_manager_is_running_def)
  qed
  then obtain w1 where w1: "bindR (lb_is_health_check_running n w) (\<lambda>r. if r then lb_stop_health_check_manager n w else Inr w) = Inr w1"
    "checks_ok w1" "cw_slot w1 = (cw_slot w)(n := None)" by blast
  have s: "stop_group_checks (n # ns) w = stop_group_checks ns w1"
    using w1(1) by (cases "lb_is_health_check_running n w") (auto simp: bindR_Inr_iff)
  from Cons.IH [OF w1(2)] w1(3) show ?case unfolding s by auto
qed simp

text \<open>C38. The threads of the health checks over any sequence of starts and stops for any groups, whether
threads can be created or not: no manager is used after its release, every manager that is
allocated belongs to the one group that points to it, runs, and has a thread, so no group has two;
and the loop with which the server shuts down, over all groups that have a manager, leaves no
manager and no thread.\<close>

theorem health_threads_owned:
  "\<exists>w. check_steps xs no_checks = Inr w \<and>
     (\<forall>a. a \<in> cw_threads w \<longleftrightarrow> (\<exists>n. cw_slot w n = Some a)) \<and>
     (\<forall>n n' a. cw_slot w n = Some a \<and> cw_slot w n' = Some a \<longrightarrow> n = n') \<and>
     (\<forall>ns. (\<forall>n. cw_slot w n \<noteq> None \<longrightarrow> n \<in> set ns) \<longrightarrow>
        (\<exists>w'. stop_group_checks ns w = Inr w' \<and> cw_threads w' = {} \<and> cw_managers w' = (\<lambda>a. None)))"
proof -
  from check_steps_ok [OF checks_ok_new, of xs] obtain w where w: "check_steps xs no_checks = Inr w" "checks_ok w" by blast
  have "a \<in> cw_threads w \<longleftrightarrow> (\<exists>n. cw_slot w n = Some a)" for a
    using w(2) unfolding checks_ok_def by fastforce
  moreover have "n = n'" if "cw_slot w n = Some a \<and> cw_slot w n' = Some a" for n n' a
    using checks_ok_inj [OF w(2), of n' a n] that by simp
  moreover have "\<exists>w'. stop_group_checks ns w = Inr w' \<and> cw_threads w' = {} \<and> cw_managers w' = (\<lambda>a. None)"
    if ns: "\<forall>n. cw_slot w n \<noteq> None \<longrightarrow> n \<in> set ns" for ns
  proof -
    from stop_group_ok [OF w(2), of ns] obtain w' where
      s: "stop_group_checks ns w = Inr w'" "checks_ok w'" "\<forall>n. cw_slot w' n = (if n \<in> set ns then None else cw_slot w n)" by blast
    have none: "cw_slot w' n = None" for n using s(3) ns by auto
    have "cw_managers w' a = None" for a
      using s(2) none unfolding checks_ok_def by (metis not_None_eq)
    then have "cw_managers w' = (\<lambda>a. None)" by (rule ext)
    moreover have "cw_threads w' = {}" using s(2) \<open>\<And>a. cw_managers w' a = None\<close> unfolding checks_ok_def by simp
    ultimately show ?thesis using s(1) by simp
  qed
  ultimately show ?thesis using w(1) by blast
qed

theorem health_threads_owned_witness:
  "\<exists>w w'. check_steps [StartCheck 0 True sample_group health_check_config_create, StartCheck 5 True sample_group health_check_config_create]
      no_checks = Inr w \<and> (\<forall>n n' a. cw_slot w n = Some a \<and> cw_slot w n' = Some a \<longrightarrow> n = n')"
  using health_threads_owned [of "[StartCheck 0 True sample_group health_check_config_create, StartCheck 5 True sample_group health_check_config_create]"]
  by blast

end
