(* ===== verification/Release.thy ===== *)
theory Release
  imports Prelude "HOL-Library.Multiset"
begin

text \<open>
  The release of the configuration (the free functions of src/core/config.c, src/core/core.c,
  src/proxy/load_balancer.c, src/utils/compress.c, cache.c and bandwidth.c) at the level of the
  heap: a block is its address, 0 is NULL, and the heap is the set of addresses that are
  allocated. A structure is what its fields point to; a linked list is the list of its nodes. To
  free an address that is not allocated is the fault BadPointer. The cache and its entries are
  given by their addresses; their pointers are those of Cache.
\<close>

section \<open>Blocks\<close>

type_synonym blocks = "nat set"

definition free_at :: "nat \<Rightarrow> blocks \<Rightarrow> blocks run" where
  "free_at a live = (if a = 0 then Inr live else if a \<in> live then Inr (live - {a}) else Inl BadPointer)"

record directive_mem =
  dm_key :: nat
  dm_value :: nat

record location_mem =
  lm_at :: nat
  lm_path :: nat
  lm_array :: nat
  lm_directives :: "directive_mem list"

record server_mem =
  sm_at :: nat
  sm_array :: nat
  sm_directives :: "directive_mem list"
  sm_locations :: "location_mem list"

record entry_mem =
  em_at :: nat
  em_host :: nat

record upstream_mem =
  um_at :: nat
  um_name :: nat
  um_array :: nat
  um_directives :: "directive_mem list"
  um_servers :: "entry_mem list"

record http_mem =
  hm_at :: nat
  hm_array :: nat
  hm_directives :: "directive_mem list"
  hm_servers :: "server_mem list"
  hm_upstreams :: "upstream_mem list"

text \<open>The settings of the compression and of the cache: an array of strings.\<close>

record types_mem =
  tm_at :: nat
  tm_array :: nat
  tm_strings :: "nat list"

record rule_mem =
  rm_at :: nat
  rm_path :: nat
  rm_mime :: nat
  rm_ip :: nat

record bandwidth_mem =
  bm_at :: nat
  bm_rules :: "rule_mem list"

record config_mem =
  km_at :: nat
  km_http :: "http_mem option"
  km_compress :: "types_mem option"
  km_cache :: "types_mem option"
  km_bandwidth :: "bandwidth_mem option"

section \<open>The configuration\<close>

definition free_directive :: "directive_mem \<Rightarrow> blocks \<Rightarrow> blocks run" where
  "free_directive d live = bindR (free_at (dm_key d) live) (free_at (dm_value d))"

fun free_directives :: "directive_mem list \<Rightarrow> blocks \<Rightarrow> blocks run" where
  "free_directives [] live = Inr live"
| "free_directives (d # ds) live = bindR (free_directive d live) (free_directives ds)"

text \<open>A node releases its successors before itself.\<close>

fun free_location_block :: "location_mem list \<Rightarrow> blocks \<Rightarrow> blocks run" where
  "free_location_block [] live = Inr live"
| "free_location_block (l # ls) live =
     bindR (free_at (lm_path l) live) (\<lambda>live.
     bindR (free_directives (lm_directives l) live) (\<lambda>live.
     bindR (free_at (lm_array l) live) (\<lambda>live.
     bindR (free_location_block ls live) (free_at (lm_at l)))))"

fun free_server_block :: "server_mem list \<Rightarrow> blocks \<Rightarrow> blocks run" where
  "free_server_block [] live = Inr live"
| "free_server_block (s # ss) live =
     bindR (free_directives (sm_directives s) live) (\<lambda>live.
     bindR (free_at (sm_array s) live) (\<lambda>live.
     bindR (free_location_block (sm_locations s) live) (\<lambda>live.
     bindR (free_server_block ss live) (free_at (sm_at s)))))"

fun free_upstream_server_entry :: "entry_mem list \<Rightarrow> blocks \<Rightarrow> blocks run" where
  "free_upstream_server_entry [] live = Inr live"
| "free_upstream_server_entry (e # es) live =
     bindR (free_at (em_host e) live) (\<lambda>live.
     bindR (free_upstream_server_entry es live) (free_at (em_at e)))"

fun free_upstream_block :: "upstream_mem list \<Rightarrow> blocks \<Rightarrow> blocks run" where
  "free_upstream_block [] live = Inr live"
| "free_upstream_block (u # us) live =
     bindR (free_at (um_name u) live) (\<lambda>live.
     bindR (free_directives (um_directives u) live) (\<lambda>live.
     bindR (free_at (um_array u) live) (\<lambda>live.
     bindR (free_upstream_server_entry (um_servers u) live) (\<lambda>live.
     bindR (free_upstream_block us live) (free_at (um_at u))))))"

definition free_http_block :: "http_mem \<Rightarrow> blocks \<Rightarrow> blocks run" where
  "free_http_block h live =
     bindR (free_directives (hm_directives h) live) (\<lambda>live.
     bindR (free_at (hm_array h) live) (\<lambda>live.
     bindR (free_server_block (hm_servers h) live) (\<lambda>live.
     bindR (free_upstream_block (hm_upstreams h) live) (free_at (hm_at h)))))"

fun free_strings :: "nat list \<Rightarrow> blocks \<Rightarrow> blocks run" where
  "free_strings [] live = Inr live"
| "free_strings (a # as) live = bindR (free_at a live) (free_strings as)"

definition free_types :: "types_mem \<Rightarrow> blocks \<Rightarrow> blocks run" where
  "free_types c live =
     bindR (if tm_array c = 0 then Inr live
            else bindR (free_strings (tm_strings c) live) (free_at (tm_array c))) (free_at (tm_at c))"

definition compress_config_free :: "types_mem \<Rightarrow> blocks \<Rightarrow> blocks run" where
  "compress_config_free c live = free_types c live"

definition cache_config_free :: "types_mem \<Rightarrow> blocks \<Rightarrow> blocks run" where
  "cache_config_free c live = free_types c live"

fun free_rules :: "rule_mem list \<Rightarrow> blocks \<Rightarrow> blocks run" where
  "free_rules [] live = Inr live"
| "free_rules (r # rs) live =
     bindR (free_at (rm_path r) live) (\<lambda>live.
     bindR (free_at (rm_mime r) live) (\<lambda>live.
     bindR (free_at (rm_ip r) live) (\<lambda>live.
     bindR (free_at (rm_at r) live) (free_rules rs))))"

definition bandwidth_config_free :: "bandwidth_mem \<Rightarrow> blocks \<Rightarrow> blocks run" where
  "bandwidth_config_free b live = bindR (free_rules (bm_rules b) live) (free_at (bm_at b))"

text \<open>A part that is NULL is left alone.\<close>

fun free_part :: "('a \<Rightarrow> blocks \<Rightarrow> blocks run) \<Rightarrow> 'a option \<Rightarrow> blocks \<Rightarrow> blocks run" where
  "free_part f None live = Inr live"
| "free_part f (Some x) live = f x live"

definition free_config :: "config_mem \<Rightarrow> blocks \<Rightarrow> blocks run" where
  "free_config c live =
     bindR (free_part free_http_block (km_http c) live) (\<lambda>live.
     bindR (free_part compress_config_free (km_compress c) live) (\<lambda>live.
     bindR (free_part cache_config_free (km_cache c) live) (\<lambda>live.
     bindR (free_part bandwidth_config_free (km_bandwidth c) live) (free_at (km_at c)))))"

section \<open>The core configuration\<close>

record lb_server_mem =
  ls_at :: nat
  ls_host :: nat
  ls_uri :: nat

record group_mem =
  gm_at :: nat
  gm_name :: nat
  gm_uri :: nat
  gm_servers :: "lb_server_mem list"

record lb_mem =
  bl_at :: nat
  bl_groups :: "group_mem list"

record cached_mem =
  ce_at :: nat
  ce_key :: nat
  ce_etag :: nat
  ce_content_type :: nat
  ce_content :: nat

record cache_mem =
  cm_at :: nat
  cm_table :: nat
  cm_entries :: "cached_mem list"

text \<open>The listening sockets: an array of pairs of the certificate and its key.\<close>

record core_mem =
  om_at :: nat
  om_sockets :: nat
  om_certificates :: "(nat \<times> nat) list"
  om_cache :: "cache_mem option"
  om_lb :: "lb_mem option"
  om_raw :: "config_mem option"

definition upstream_server_free :: "lb_server_mem \<Rightarrow> blocks \<Rightarrow> blocks run" where
  "upstream_server_free s live =
     bindR (free_at (ls_host s) live) (\<lambda>live. bindR (free_at (ls_uri s) live) (free_at (ls_at s)))"

fun free_servers :: "lb_server_mem list \<Rightarrow> blocks \<Rightarrow> blocks run" where
  "free_servers [] live = Inr live"
| "free_servers (s # ss) live = bindR (upstream_server_free s live) (free_servers ss)"

definition upstream_group_free :: "group_mem \<Rightarrow> blocks \<Rightarrow> blocks run" where
  "upstream_group_free g live =
     bindR (free_servers (gm_servers g) live) (\<lambda>live.
     bindR (free_at (gm_name g) live) (\<lambda>live.
     bindR (free_at (gm_uri g) live) (free_at (gm_at g))))"

fun free_groups :: "group_mem list \<Rightarrow> blocks \<Rightarrow> blocks run" where
  "free_groups [] live = Inr live"
| "free_groups (g # gs) live = bindR (upstream_group_free g live) (free_groups gs)"

definition lb_config_free :: "lb_mem \<Rightarrow> blocks \<Rightarrow> blocks run" where
  "lb_config_free b live = bindR (free_groups (bl_groups b) live) (free_at (bl_at b))"

fun free_entries :: "cached_mem list \<Rightarrow> blocks \<Rightarrow> blocks run" where
  "free_entries [] live = Inr live"
| "free_entries (e # es) live =
     bindR (free_at (ce_key e) live) (\<lambda>live.
     bindR (free_at (ce_etag e) live) (\<lambda>live.
     bindR (free_at (ce_content_type e) live) (\<lambda>live.
     bindR (free_at (ce_content e) live) (\<lambda>live.
     bindR (free_at (ce_at e) live) (free_entries es)))))"

definition free_cache_manager :: "cache_mem \<Rightarrow> blocks \<Rightarrow> blocks run" where
  "free_cache_manager c live =
     bindR (free_entries (cm_entries c) live) (\<lambda>live. bindR (free_at (cm_table c) live) (free_at (cm_at c)))"

fun free_certificates :: "(nat \<times> nat) list \<Rightarrow> blocks \<Rightarrow> blocks run" where
  "free_certificates [] live = Inr live"
| "free_certificates ((c, k) # cs) live =
     bindR (free_at c live) (\<lambda>live. bindR (free_at k live) (free_certificates cs))"

text \<open>The health checks have been stopped before (LbHealth).\<close>

definition free_core :: "core_mem \<Rightarrow> blocks \<Rightarrow> blocks run" where
  "free_core c live =
     bindR (if om_sockets c = 0 then Inr live
            else bindR (free_certificates (om_certificates c) live) (free_at (om_sockets c))) (\<lambda>live.
     bindR (free_part free_cache_manager (om_cache c) live) (\<lambda>live.
     bindR (free_part lb_config_free (om_lb c) live) (\<lambda>live.
     bindR (free_part free_config (om_raw c) live) (free_at (om_at c)))))"

section \<open>What a structure owns\<close>

text \<open>The blocks of a structure, with their multiplicities: a block to which two fields point counts twice.\<close>

definition directives_own :: "directive_mem list \<Rightarrow> nat multiset" where
  "directives_own ds = (\<Sum>d\<leftarrow>ds. {#dm_key d, dm_value d#})"

definition location_owns :: "location_mem \<Rightarrow> nat multiset" where
  "location_owns l = {#lm_at l, lm_path l, lm_array l#} + directives_own (lm_directives l)"

definition server_owns :: "server_mem \<Rightarrow> nat multiset" where
  "server_owns s = {#sm_at s, sm_array s#} + directives_own (sm_directives s) + (\<Sum>l\<leftarrow>sm_locations s. location_owns l)"

definition upstream_owns :: "upstream_mem \<Rightarrow> nat multiset" where
  "upstream_owns u = {#um_at u, um_name u, um_array u#} + directives_own (um_directives u) +
     (\<Sum>e\<leftarrow>um_servers u. {#em_at e, em_host e#})"

definition http_owns :: "http_mem \<Rightarrow> nat multiset" where
  "http_owns h = {#hm_at h, hm_array h#} + directives_own (hm_directives h) +
     (\<Sum>s\<leftarrow>hm_servers h. server_owns s) + (\<Sum>u\<leftarrow>hm_upstreams h. upstream_owns u)"

definition types_own :: "types_mem \<Rightarrow> nat multiset" where
  "types_own c = {#tm_at c#} + (if tm_array c = 0 then {#} else {#tm_array c#} + mset (tm_strings c))"

definition bandwidth_owns :: "bandwidth_mem \<Rightarrow> nat multiset" where
  "bandwidth_owns b = {#bm_at b#} + (\<Sum>r\<leftarrow>bm_rules b. {#rm_at r, rm_path r, rm_mime r, rm_ip r#})"

definition part_owns :: "('a \<Rightarrow> nat multiset) \<Rightarrow> 'a option \<Rightarrow> nat multiset" where
  "part_owns f p = (case p of None \<Rightarrow> {#} | Some x \<Rightarrow> f x)"

definition config_owns :: "config_mem \<Rightarrow> nat multiset" where
  "config_owns c = {#km_at c#} + part_owns http_owns (km_http c) + part_owns types_own (km_compress c) +
     part_owns types_own (km_cache c) + part_owns bandwidth_owns (km_bandwidth c)"

definition group_owns :: "group_mem \<Rightarrow> nat multiset" where
  "group_owns g = {#gm_at g, gm_name g, gm_uri g#} + (\<Sum>s\<leftarrow>gm_servers g. {#ls_at s, ls_host s, ls_uri s#})"

definition lb_owns :: "lb_mem \<Rightarrow> nat multiset" where
  "lb_owns b = {#bl_at b#} + (\<Sum>g\<leftarrow>bl_groups b. group_owns g)"

definition cache_owns :: "cache_mem \<Rightarrow> nat multiset" where
  "cache_owns c = {#cm_at c, cm_table c#} +
     (\<Sum>e\<leftarrow>cm_entries c. {#ce_at e, ce_key e, ce_etag e, ce_content_type e, ce_content e#})"

definition core_owns :: "core_mem \<Rightarrow> nat multiset" where
  "core_owns c = {#om_at c#} +
     (if om_sockets c = 0 then {#} else {#om_sockets c#} + (\<Sum>(crt, pk)\<leftarrow>om_certificates c. {#crt, pk#})) +
     part_owns cache_owns (om_cache c) + part_owns lb_owns (om_lb c) + part_owns config_owns (om_raw c)"

section \<open>A calculus of releases\<close>

text \<open>Blocks can be released if none of them is there twice and all are allocated.\<close>

definition releasable :: "nat multiset \<Rightarrow> blocks \<Rightarrow> bool" where
  "releasable M live \<longleftrightarrow> (\<forall>a. a \<noteq> 0 \<longrightarrow> count M a \<le> (if a \<in> live then 1 else 0))"

definition releases :: "(blocks \<Rightarrow> blocks run) \<Rightarrow> nat multiset \<Rightarrow> bool" where
  "releases f M \<longleftrightarrow> (\<forall>live. 0 \<notin> live \<longrightarrow>
     f live = (if releasable M live then Inr (live - set_mset M) else Inl BadPointer))"

named_theorems release_rules \<open>what the release functions release\<close>

lemma releasable_plus: "releasable (M + N) live \<longleftrightarrow> releasable M live \<and> releasable N (live - set_mset M)"
proof -
  have "count (M + N) a \<le> (if a \<in> live then 1 else 0) \<longleftrightarrow>
      count M a \<le> (if a \<in> live then 1 else 0) \<and> count N a \<le> (if a \<in> live - set_mset M then 1 else 0)" for a
    by (cases "a \<in># M") (auto simp: not_in_iff count_greater_zero_iff [symmetric] simp del: count_greater_zero_iff)
  then show ?thesis unfolding releasable_def by blast
qed

lemma releases_nothing [release_rules]: "releases Inr {#}"
  by (simp add: releases_def releasable_def)

lemma releases_at [release_rules]: "releases (free_at a) {#a#}"
  by (auto simp: releases_def releasable_def free_at_def)

lemma releases_then:
  assumes "releases f M" "releases g N"
  shows "releases (\<lambda>live. bindR (f live) g) (M + N)"
  unfolding releases_def
proof (intro allI impI)
  fix live :: blocks
  assume live: "0 \<notin> live"
  then have "0 \<notin> live - set_mset M" by simp
  moreover have "live - set_mset (M + N) = live - set_mset M - set_mset N" by auto
  ultimately show "bindR (f live) g =
      (if releasable (M + N) live then Inr (live - set_mset (M + N)) else Inl BadPointer)"
    using assms live unfolding releases_def by (simp add: releasable_plus)
qed

lemma releasesI: "releases g M \<Longrightarrow> M = N \<Longrightarrow> (\<And>live. f live = g live) \<Longrightarrow> releases f N"
  by (simp add: releases_def)

lemma releases_directive [release_rules]: "releases (free_directive d) {#dm_key d, dm_value d#}"
  by (rule releasesI [OF releases_then [OF releases_at releases_at]]) (simp_all add: free_directive_def)

lemma releases_directives [release_rules]: "releases (free_directives ds) (directives_own ds)"
proof (induction ds)
  case (Cons d ds)
  show ?case
    by (rule releasesI [OF releases_then [OF releases_directive Cons]]) (simp_all add: directives_own_def)
qed (simp add: releases_def releasable_def directives_own_def)

lemma releases_location [release_rules]: "releases (free_location_block ls) (\<Sum>l\<leftarrow>ls. location_owns l)"
proof (induction ls)
  case (Cons l ls)
  show ?case
    by (rule releasesI [OF releases_then [OF releases_at [of "lm_path l"] releases_then [OF releases_directives [of "lm_directives l"]
      releases_then [OF releases_at [of "lm_array l"] releases_then [OF Cons releases_at [of "lm_at l"]]]]]])
      (simp_all add: location_owns_def)
qed (simp add: releases_def releasable_def)

lemma releases_server [release_rules]: "releases (free_server_block ss) (\<Sum>s\<leftarrow>ss. server_owns s)"
proof (induction ss)
  case (Cons s ss)
  show ?case
    by (rule releasesI [OF releases_then [OF releases_directives [of "sm_directives s"] releases_then [OF releases_at [of "sm_array s"]
      releases_then [OF releases_location [of "sm_locations s"] releases_then [OF Cons releases_at [of "sm_at s"]]]]]])
      (simp_all add: server_owns_def)
qed (simp add: releases_def releasable_def)

lemma releases_entry [release_rules]: "releases (free_upstream_server_entry es) (\<Sum>e\<leftarrow>es. {#em_at e, em_host e#})"
proof (induction es)
  case (Cons e es)
  show ?case
    by (rule releasesI [OF releases_then [OF releases_at [of "em_host e"] releases_then [OF Cons releases_at [of "em_at e"]]]])
      simp_all
qed (simp add: releases_def releasable_def)

lemma releases_upstream [release_rules]: "releases (free_upstream_block us) (\<Sum>u\<leftarrow>us. upstream_owns u)"
proof (induction us)
  case (Cons u us)
  show ?case
    by (rule releasesI [OF releases_then [OF releases_at [of "um_name u"] releases_then [OF releases_directives [of "um_directives u"]
      releases_then [OF releases_at [of "um_array u"] releases_then [OF releases_entry [of "um_servers u"]
      releases_then [OF Cons releases_at [of "um_at u"]]]]]]])
      (simp_all add: upstream_owns_def)
qed (simp add: releases_def releasable_def)

lemma releases_http [release_rules]: "releases (free_http_block h) (http_owns h)"
  by (rule releasesI [OF releases_then [OF releases_directives [of "hm_directives h"] releases_then [OF releases_at [of "hm_array h"]
    releases_then [OF releases_server [of "hm_servers h"] releases_then [OF releases_upstream [of "hm_upstreams h"]
    releases_at [of "hm_at h"]]]]]])
    (simp_all add: http_owns_def free_http_block_def)

lemma releases_strings [release_rules]: "releases (free_strings as) (mset as)"
proof (induction as)
  case (Cons a as)
  show ?case by (rule releasesI [OF releases_then [OF releases_at [of a] Cons]]) simp_all
qed (simp add: releases_def releasable_def)

lemma releases_array:
  assumes "releases f M"
  shows "releases (\<lambda>live. if a = 0 then Inr live else bindR (f live) (free_at a)) (if a = 0 then {#} else {#a#} + M)"
proof (cases "a = 0")
  case True
  then show ?thesis using releases_nothing by simp
next
  case False
  then show ?thesis using releases_then [OF assms releases_at [of a]] by (simp add: add.commute)
qed

lemma releases_types [release_rules]: "releases (free_types c) (types_own c)"
  by (rule releasesI [OF releases_then [OF releases_array [OF releases_strings [of "tm_strings c"], of "tm_array c"]
    releases_at [of "tm_at c"]]]) (simp_all add: types_own_def free_types_def)

lemma releases_rules [release_rules]:
  "releases (free_rules rs) (\<Sum>r\<leftarrow>rs. {#rm_at r, rm_path r, rm_mime r, rm_ip r#})"
proof (induction rs)
  case (Cons r rs)
  show ?case
    by (rule releasesI [OF releases_then [OF releases_at [of "rm_path r"] releases_then [OF releases_at [of "rm_mime r"]
      releases_then [OF releases_at [of "rm_ip r"] releases_then [OF releases_at [of "rm_at r"] Cons]]]]]) simp_all
qed (simp add: releases_def releasable_def)

lemma releases_bandwidth [release_rules]: "releases (bandwidth_config_free b) (bandwidth_owns b)"
  by (rule releasesI [OF releases_then [OF releases_rules [of "bm_rules b"] releases_at [of "bm_at b"]]])
    (simp_all add: bandwidth_owns_def bandwidth_config_free_def)

text \<open>What the release functions of all structures promise, and what follows for their users.\<close>

locale releaser =
  fixes free :: "'a \<Rightarrow> blocks \<Rightarrow> blocks run" and owns :: "'a \<Rightarrow> nat multiset"
  assumes releases: "releases (free x) (owns x)"
begin

lemma exact:
  "0 \<notin> live \<Longrightarrow> free x live = (if releasable (owns x) live then Inr (live - set_mset (owns x)) else Inl BadPointer)"
  using releases [of x] unfolding releases_def by blast

lemma part: "releases (free_part free p) (part_owns owns p)"
  using releases by (cases p) (simp_all add: part_owns_def releases_def releasable_def)

lemma missing:
  assumes "0 \<notin> live" "a \<in># owns x" "a \<noteq> 0" "a \<notin> live"
  shows "free x live = Inl BadPointer"
proof -
  have "\<not> count (owns x) a \<le> (if a \<in> live then 1 else 0)" using assms(2,4) by (simp add: count_inI)
  then have "\<not> releasable (owns x) live" using assms(3) unfolding releasable_def by blast
  then show ?thesis using exact [OF assms(1)] by simp
qed

end

interpretation http_memory: releaser free_http_block http_owns
  by unfold_locales (rule releases_http)

interpretation compress_memory: releaser compress_config_free types_own
  by unfold_locales (rule releasesI [OF releases_types], simp_all add: compress_config_free_def)

interpretation cache_settings_memory: releaser cache_config_free types_own
  by unfold_locales (rule releasesI [OF releases_types], simp_all add: cache_config_free_def)

interpretation bandwidth_memory: releaser bandwidth_config_free bandwidth_owns
  by unfold_locales (rule releases_bandwidth)

lemma releases_config [release_rules]: "releases (free_config c) (config_owns c)"
  by (rule releasesI [OF releases_then [OF http_memory.part [of "km_http c"] releases_then [OF compress_memory.part [of "km_compress c"]
    releases_then [OF cache_settings_memory.part [of "km_cache c"] releases_then [OF bandwidth_memory.part [of "km_bandwidth c"]
    releases_at [of "km_at c"]]]]]]) (simp_all add: config_owns_def free_config_def)

interpretation config_memory: releaser free_config config_owns
  by unfold_locales (rule releases_config)

lemma releases_group: "releases (upstream_group_free g) (group_owns g)"
proof -
  have "releases (free_servers ss) (\<Sum>s\<leftarrow>ss. {#ls_at s, ls_host s, ls_uri s#})" for ss
  proof (induction ss)
    case (Cons s ss)
    have "releases (upstream_server_free s) {#ls_at s, ls_host s, ls_uri s#}"
      by (rule releasesI [OF releases_then [OF releases_at [of "ls_host s"] releases_then [OF releases_at [of "ls_uri s"]
        releases_at [of "ls_at s"]]]]) (simp_all add: upstream_server_free_def)
    from releases_then [OF this Cons] show ?case by (rule releasesI) simp_all
  qed (simp add: releases_def releasable_def)
  from releases_then [OF this [of "gm_servers g"] releases_then [OF releases_at [of "gm_name g"]
    releases_then [OF releases_at [of "gm_uri g"] releases_at [of "gm_at g"]]]]
  show ?thesis by (rule releasesI) (simp_all add: group_owns_def upstream_group_free_def)
qed

lemma releases_lb [release_rules]: "releases (lb_config_free b) (lb_owns b)"
proof -
  have "releases (free_groups gs) (\<Sum>g\<leftarrow>gs. group_owns g)" for gs
  proof (induction gs)
    case (Cons g gs)
    from releases_then [OF releases_group [of g] Cons] show ?case by (rule releasesI) simp_all
  qed (simp add: releases_def releasable_def)
  from releases_then [OF this [of "bl_groups b"] releases_at [of "bl_at b"]]
  show ?thesis by (rule releasesI) (simp_all add: lb_owns_def lb_config_free_def)
qed

lemma releases_cache [release_rules]: "releases (free_cache_manager c) (cache_owns c)"
proof -
  have "releases (free_entries es) (\<Sum>e\<leftarrow>es. {#ce_at e, ce_key e, ce_etag e, ce_content_type e, ce_content e#})" for es
  proof (induction es)
    case (Cons e es)
    from releases_then [OF releases_at [of "ce_key e"] releases_then [OF releases_at [of "ce_etag e"]
      releases_then [OF releases_at [of "ce_content_type e"] releases_then [OF releases_at [of "ce_content e"]
      releases_then [OF releases_at [of "ce_at e"] Cons]]]]]
    show ?case by (rule releasesI) simp_all
  qed (simp add: releases_def releasable_def)
  from releases_then [OF this [of "cm_entries c"] releases_then [OF releases_at [of "cm_table c"] releases_at [of "cm_at c"]]]
  show ?thesis by (rule releasesI) (simp_all add: cache_owns_def free_cache_manager_def)
qed

interpretation lb_memory: releaser lb_config_free lb_owns
  by unfold_locales (rule releases_lb)

interpretation cache_memory: releaser free_cache_manager cache_owns
  by unfold_locales (rule releases_cache)

lemma releases_core: "releases (free_core c) (core_owns c)"
proof -
  have "releases (free_certificates cs) (\<Sum>(crt, pk)\<leftarrow>cs. {#crt, pk#})" for cs
  proof (induction cs)
    case (Cons x cs)
    obtain crt pk where x: "x = (crt, pk)" by fastforce
    from releases_then [OF releases_at [of crt] releases_then [OF releases_at [of pk] Cons]]
    show ?case by (rule releasesI) (simp_all add: x)
  qed (simp add: releases_def releasable_def)
  from releases_then [OF releases_array [OF this [of "om_certificates c"], of "om_sockets c"]
    releases_then [OF cache_memory.part [of "om_cache c"]
    releases_then [OF lb_memory.part [of "om_lb c"]
    releases_then [OF config_memory.part [of "om_raw c"] releases_at [of "om_at c"]]]]]
  show ?thesis by (rule releasesI) (simp_all add: core_owns_def free_core_def)
qed

interpretation core_memory: releaser free_core core_owns
  by unfold_locales (rule releases_core)

section \<open>Properties\<close>


definition sample_core_mem :: core_mem where
  "sample_core_mem = \<lparr>om_at = 1, om_sockets = 2, om_certificates = [(0, 0), (3, 4)], om_cache = None,
     om_lb = Some \<lparr>bl_at = 5, bl_groups = []\<rparr>,
     om_raw = Some \<lparr>km_at = 6, km_http = Some \<lparr>hm_at = 7, hm_array = 8, hm_directives = [\<lparr>dm_key = 9, dm_value = 0\<rparr>],
       hm_servers = [], hm_upstreams = []\<rparr>, km_compress = None, km_cache = None, km_bandwidth = None\<rparr>\<rparr>"


end
