(* ===== verification/ReleaseRecords.thy ===== *)
theory ReleaseRecords
  imports Release Headers
begin

text \<open>
  The release of the structures that live for one request or one connection, at the level of
  Release: access log entries (src/core/log.c), header settings (src/http/headers.c), push
  messages, channels, subscriptions and clients (src/stream/push.c), results, settings and
  histories of the health checks (src/proxy/health_check.c), requests and answers of the health
  interface (src/proxy/health_api.c), contexts of the compression (src/utils/compress.c). The
  sockets that are closed on the way are those of Push. Beside it the array of header operations,
  which grows with its capacity.
\<close>

section \<open>Log entries\<close>

record log_entry_mem =
  le_at :: nat
  le_client_ip :: nat
  le_remote_user :: nat
  le_method :: nat
  le_uri :: nat
  le_protocol :: nat
  le_referer :: nat
  le_user_agent :: nat
  le_server_name :: nat
  le_upstream_addr :: nat
  le_request_uri :: nat

definition free_access_log_entry :: "log_entry_mem \<Rightarrow> blocks \<Rightarrow> blocks run" where
  "free_access_log_entry e live =
     bindR (free_strings [le_client_ip e, le_remote_user e, le_method e, le_uri e, le_protocol e, le_referer e,
              le_user_agent e, le_server_name e, le_upstream_addr e] live) (free_at (le_at e))"

section \<open>Header settings\<close>

record operations_mem =
  op_at :: nat
  op_array :: nat
  op_pairs :: "(nat \<times> nat) list"

record security_mem =
  sc_at :: nat
  sc_hsts :: nat
  sc_xframe :: nat
  sc_referrer :: nat
  sc_csp :: nat

record standard_mem =
  st_at :: nat
  st_server :: nat
  st_connection :: nat

record context_mem =
  cx_at :: nat
  cx_operations :: "operations_mem option"
  cx_security :: "security_mem option"
  cx_standard :: "standard_mem option"

definition free_header_operations :: "operations_mem \<Rightarrow> blocks \<Rightarrow> blocks run" where
  "free_header_operations x live =
     bindR (free_certificates (op_pairs x) live) (\<lambda>live. bindR (free_at (op_array x) live) (free_at (op_at x)))"

definition free_security_headers :: "security_mem \<Rightarrow> blocks \<Rightarrow> blocks run" where
  "free_security_headers x live = bindR (free_strings [sc_hsts x, sc_xframe x, sc_referrer x, sc_csp x] live) (free_at (sc_at x))"

definition free_standard_headers :: "standard_mem \<Rightarrow> blocks \<Rightarrow> blocks run" where
  "free_standard_headers x live = bindR (free_strings [st_server x, st_connection x] live) (free_at (st_at x))"

definition free_header_context :: "context_mem \<Rightarrow> blocks \<Rightarrow> blocks run" where
  "free_header_context c live =
     bindR (free_part free_header_operations (cx_operations c) live) (\<lambda>live.
     bindR (free_part free_security_headers (cx_security c) live) (\<lambda>live.
     bindR (free_part free_standard_headers (cx_standard c) live) (free_at (cx_at c))))"

text \<open>The array is enlarged before an operation is stored behind the last one.\<close>

definition add_header_operation :: "header_operation \<Rightarrow> header_operation list \<times> nat \<Rightarrow> header_operation list \<times> nat" where
  "add_header_operation op st =
     (case st of (ops, cap) \<Rightarrow>
        (ops @ [op], if length ops \<ge> cap then (if cap = 0 then 4 else cap * 2) else cap))"

section \<open>Compression\<close>

record zcontext_mem =
  zc_at :: nat
  zc_in :: nat
  zc_out :: nat
  zc_initialized :: bool

datatype zlib_call = DeflateEnd | DeflateReset

definition compress_context_free :: "zcontext_mem \<Rightarrow> blocks \<Rightarrow> (zlib_call list \<times> blocks) run" where
  "compress_context_free c live =
     bindR (free_at (zc_in c) live) (\<lambda>live.
     bindR (free_at (zc_out c) live) (\<lambda>live.
     bindR (free_at (zc_at c) live) (\<lambda>live.
     Inr (if zc_initialized c then [DeflateEnd] else [], live))))"

definition compress_context_reset :: "zcontext_mem \<Rightarrow> zlib_call list" where
  "compress_context_reset c = (if zc_initialized c then [DeflateReset] else [])"

section \<open>Push\<close>

record message_mem =
  ms_at :: nat
  ms_id :: nat
  ms_event :: nat
  ms_data :: nat
  ms_origin :: nat

record channel_mem =
  ch_at :: nat
  ch_history :: "message_mem list"
  ch_subscribers :: nat
  ch_name :: nat
  ch_description :: nat

record subscription_mem =
  sb_at :: nat
  sb_id :: nat
  sb_channel :: nat
  sb_filter :: nat

record client_mem =
  cl_at :: nat
  cl_queue :: "message_mem list"
  cl_subscriptions :: "subscription_mem list"
  cl_strings :: "nat list"

record push_config_mem =
  pm_at :: nat
  pm_bind :: nat
  pm_access_log :: nat
  pm_error_log :: nat
  pm_origins :: nat
  pm_origin_strings :: "nat list"

definition push_message_free :: "message_mem \<Rightarrow> blocks \<Rightarrow> blocks run" where
  "push_message_free x live = bindR (free_strings [ms_id x, ms_event x, ms_data x, ms_origin x] live) (free_at (ms_at x))"

fun free_messages :: "message_mem list \<Rightarrow> blocks \<Rightarrow> blocks run" where
  "free_messages [] live = Inr live"
| "free_messages (x # xs) live = bindR (push_message_free x live) (free_messages xs)"

definition push_channel_free :: "channel_mem \<Rightarrow> blocks \<Rightarrow> blocks run" where
  "push_channel_free c live =
     bindR (free_messages (ch_history c) live) (\<lambda>live.
     bindR (free_strings [ch_subscribers c, ch_name c, ch_description c] live) (free_at (ch_at c)))"

definition push_subscription_free :: "subscription_mem \<Rightarrow> blocks \<Rightarrow> blocks run" where
  "push_subscription_free x live = bindR (free_strings [sb_id x, sb_channel x, sb_filter x] live) (free_at (sb_at x))"

fun free_subscriptions :: "subscription_mem list \<Rightarrow> blocks \<Rightarrow> blocks run" where
  "free_subscriptions [] live = Inr live"
| "free_subscriptions (x # xs) live = bindR (push_subscription_free x live) (free_subscriptions xs)"

text \<open>The strings of a client: id, address, user agent and origin.\<close>

definition free_client :: "client_mem \<Rightarrow> blocks \<Rightarrow> blocks run" where
  "free_client c live =
     bindR (free_messages (cl_queue c) live) (\<lambda>live.
     bindR (free_subscriptions (cl_subscriptions c) live) (\<lambda>live.
     bindR (free_strings (cl_strings c) live) (free_at (cl_at c))))"

definition push_config_free :: "push_config_mem \<Rightarrow> blocks \<Rightarrow> blocks run" where
  "push_config_free c live =
     bindR (free_strings [pm_bind c, pm_access_log c, pm_error_log c] live) (\<lambda>live.
     bindR (if pm_origins c = 0 then Inr live
            else bindR (free_strings (pm_origin_strings c) live) (free_at (pm_origins c))) (free_at (pm_at c)))"

section \<open>Health checks\<close>

record check_result_mem =
  cr_at :: nat
  cr_error :: nat

record check_config_mem =
  cc_at :: nat
  cc_uri :: nat
  cc_method :: nat
  cc_expected :: nat
  cc_headers :: nat
  cc_user_agent :: nat

record history_mem =
  hi_at :: nat
  hi_results :: nat
  hi_errors :: "nat list"

record api_request_mem =
  ar_at :: nat
  ar_path :: nat
  ar_method :: nat
  ar_query :: nat
  ar_upstream :: nat
  ar_host :: nat

record api_response_mem =
  ap_at :: nat
  ap_content_type :: nat
  ap_body :: nat

definition health_check_result_free :: "check_result_mem \<Rightarrow> blocks \<Rightarrow> blocks run" where
  "health_check_result_free x live = bindR (free_at (cr_error x) live) (free_at (cr_at x))"

definition health_check_config_free :: "check_config_mem \<Rightarrow> blocks \<Rightarrow> blocks run" where
  "health_check_config_free x live =
     bindR (free_strings [cc_uri x, cc_method x, cc_expected x, cc_headers x, cc_user_agent x] live) (free_at (cc_at x))"

text \<open>The error messages of the results that have been recorded.\<close>

definition health_check_history_free :: "history_mem \<Rightarrow> blocks \<Rightarrow> blocks run" where
  "health_check_history_free x live =
     bindR (free_strings (hi_errors x) live) (\<lambda>live. bindR (free_at (hi_results x) live) (free_at (hi_at x)))"

definition health_api_request_free :: "api_request_mem \<Rightarrow> blocks \<Rightarrow> blocks run" where
  "health_api_request_free x live =
     bindR (free_strings [ar_path x, ar_method x, ar_query x, ar_upstream x, ar_host x] live) (free_at (ar_at x))"

definition health_api_response_free :: "api_response_mem \<Rightarrow> blocks \<Rightarrow> blocks run" where
  "health_api_response_free x live = bindR (free_strings [ap_content_type x, ap_body x] live) (free_at (ap_at x))"

section \<open>What is released\<close>

lemma releases_record:
  assumes "\<And>live. f live = bindR (free_strings as live) (free_at a)"
  shows "releases f ({#a#} + mset as)"
  by (rule releasesI [OF releases_then [OF releases_strings [of as] releases_at [of a]]]) (simp_all add: assms)

lemma releases_list:
  assumes "\<And>x. releases (f x) (M x)" "\<And>live. g [] live = Inr live" "\<And>x xs live. g (x # xs) live = bindR (f x live) (g xs)"
  shows "releases (g xs) (\<Sum>x\<leftarrow>xs. M x)"
proof (induction xs)
  case (Cons x xs)
  from releases_then [OF assms(1) [of x] Cons] show ?case by (rule releasesI) (simp_all add: assms(3))
qed (simp add: releases_def releasable_def assms(2))

lemma releases_log_entry:
  "releases (free_access_log_entry e) ({#le_at e#} + mset [le_client_ip e, le_remote_user e, le_method e, le_uri e,
     le_protocol e, le_referer e, le_user_agent e, le_server_name e, le_upstream_addr e])"
  by (rule releases_record) (simp only: free_access_log_entry_def)

text \<open>The path that a plain HTTP request puts into \<open>request_uri\<close> is never released.\<close>

lemma log_entry_leak:
  assumes "0 \<notin> live" "free_access_log_entry e live = Inr live'" "le_request_uri e \<in> live"
    and "le_request_uri e \<notin> {le_at e, le_client_ip e, le_remote_user e, le_method e, le_uri e,
           le_protocol e, le_referer e, le_user_agent e, le_server_name e, le_upstream_addr e}"
  shows "le_request_uri e \<in> live'"
proof -
  let ?M = "{#le_at e#} + mset [le_client_ip e, le_remote_user e, le_method e, le_uri e,
     le_protocol e, le_referer e, le_user_agent e, le_server_name e, le_upstream_addr e]"
  have "live' = live - set_mset ?M"
    using releases_log_entry [of e] assms(1,2) unfolding releases_def by (cases "releasable ?M live") simp_all
  moreover have "le_request_uri e \<notin> set_mset ?M" using assms(4) by simp
  ultimately show ?thesis using assms(3) by blast
qed

lemma releases_pairs: "releases (free_certificates ps) (\<Sum>(a, b)\<leftarrow>ps. {#a, b#})"
proof (induction ps)
  case (Cons x ps)
  obtain a b where x: "x = (a, b)" by fastforce
  from releases_then [OF releases_at [of a] releases_then [OF releases_at [of b] Cons]]
  show ?case by (rule releasesI) (simp_all add: x)
qed (simp add: releases_def releasable_def)

definition operations_own :: "operations_mem \<Rightarrow> nat multiset" where
  "operations_own x = {#op_at x, op_array x#} + (\<Sum>(a, b)\<leftarrow>op_pairs x. {#a, b#})"

definition security_owns :: "security_mem \<Rightarrow> nat multiset" where
  "security_owns x = {#sc_at x, sc_hsts x, sc_xframe x, sc_referrer x, sc_csp x#}"

definition standard_owns :: "standard_mem \<Rightarrow> nat multiset" where
  "standard_owns x = {#st_at x, st_server x, st_connection x#}"

definition context_owns :: "context_mem \<Rightarrow> nat multiset" where
  "context_owns c = {#cx_at c#} + part_owns operations_own (cx_operations c) + part_owns security_owns (cx_security c) +
     part_owns standard_owns (cx_standard c)"

interpretation operations_memory: releaser free_header_operations operations_own
proof unfold_locales
  show "releases (free_header_operations x) (operations_own x)" for x
    by (rule releasesI [OF releases_then [OF releases_pairs [of "op_pairs x"] releases_then [OF releases_at [of "op_array x"]
      releases_at [of "op_at x"]]]]) (simp_all add: free_header_operations_def operations_own_def)
qed

interpretation security_memory: releaser free_security_headers security_owns
proof unfold_locales
  show "releases (free_security_headers x) (security_owns x)" for x
    using releases_record [OF free_security_headers_def [of x]] by (simp add: add_mset_commute security_owns_def)
qed

interpretation standard_memory: releaser free_standard_headers standard_owns
proof unfold_locales
  show "releases (free_standard_headers x) (standard_owns x)" for x
    using releases_record [OF free_standard_headers_def [of x]] by (simp add: add_mset_commute standard_owns_def)
qed

lemma releases_context: "releases (free_header_context c) (context_owns c)"
  by (rule releasesI [OF releases_then [OF operations_memory.part [of "cx_operations c"] releases_then [OF
    security_memory.part [of "cx_security c"] releases_then [OF standard_memory.part [of "cx_standard c"]
    releases_at [of "cx_at c"]]]]]) (simp_all add: context_owns_def free_header_context_def)

definition message_owns :: "message_mem \<Rightarrow> nat multiset" where
  "message_owns x = {#ms_at x, ms_id x, ms_event x, ms_data x, ms_origin x#}"

lemma releases_messages: "releases (free_messages xs) (\<Sum>x\<leftarrow>xs. message_owns x)"
proof (rule releases_list)
  show "releases (push_message_free x) (message_owns x)" for x
    using releases_record [OF push_message_free_def [of x]] by (simp add: add_mset_commute message_owns_def)
qed simp_all

lemma releases_channel:
  "releases (push_channel_free c) ({#ch_at c, ch_subscribers c, ch_name c, ch_description c#} + (\<Sum>x\<leftarrow>ch_history c. message_owns x))"
  by (rule releasesI [OF releases_then [OF releases_messages [of "ch_history c"] releases_then [OF
    releases_strings [of "[ch_subscribers c, ch_name c, ch_description c]"] releases_at [of "ch_at c"]]]])
    (simp_all add: push_channel_free_def)

lemma releases_client:
  "releases (free_client c) ({#cl_at c#} + mset (cl_strings c) + (\<Sum>x\<leftarrow>cl_queue c. message_owns x) +
     (\<Sum>x\<leftarrow>cl_subscriptions c. {#sb_at x, sb_id x, sb_channel x, sb_filter x#}))"
proof -
  have "releases (free_subscriptions xs) (\<Sum>x\<leftarrow>xs. {#sb_at x, sb_id x, sb_channel x, sb_filter x#})" for xs
  proof (rule releases_list)
    show "releases (push_subscription_free x) {#sb_at x, sb_id x, sb_channel x, sb_filter x#}" for x
      using releases_record [OF push_subscription_free_def [of x]] by (simp add: add_mset_commute)
  qed simp_all
  from releases_then [OF releases_messages [of "cl_queue c"] releases_then [OF this [of "cl_subscriptions c"]
    releases_then [OF releases_strings [of "cl_strings c"] releases_at [of "cl_at c"]]]]
  show ?thesis by (rule releasesI) (simp_all add: free_client_def)
qed

lemma releases_push_config:
  "releases (push_config_free c) ({#pm_at c, pm_bind c, pm_access_log c, pm_error_log c#} +
     (if pm_origins c = 0 then {#} else {#pm_origins c#} + mset (pm_origin_strings c)))"
  by (rule releasesI [OF releases_then [OF releases_strings [of "[pm_bind c, pm_access_log c, pm_error_log c]"]
    releases_then [OF releases_array [OF releases_strings [of "pm_origin_strings c"], of "pm_origins c"] releases_at [of "pm_at c"]]]])
    (simp_all add: push_config_free_def)

lemma releases_check_result: "releases (health_check_result_free x) {#cr_at x, cr_error x#}"
  by (rule releasesI [OF releases_then [OF releases_at [of "cr_error x"] releases_at [of "cr_at x"]]])
    (simp_all add: health_check_result_free_def)

lemma releases_check_config:
  "releases (health_check_config_free x) {#cc_at x, cc_uri x, cc_method x, cc_expected x, cc_headers x, cc_user_agent x#}"
  using releases_record [OF health_check_config_free_def [of x]] by (simp add: add_mset_commute)

lemma releases_check_history: "releases (health_check_history_free x) ({#hi_at x, hi_results x#} + mset (hi_errors x))"
  by (rule releasesI [OF releases_then [OF releases_strings [of "hi_errors x"] releases_then [OF releases_at [of "hi_results x"]
    releases_at [of "hi_at x"]]]]) (simp_all add: health_check_history_free_def)

lemma releases_api:
  "releases (health_api_request_free x) {#ar_at x, ar_path x, ar_method x, ar_query x, ar_upstream x, ar_host x#}"
  "releases (health_api_response_free y) {#ap_at y, ap_content_type y, ap_body y#}"
  using releases_record [OF health_api_request_free_def [of x]] releases_record [OF health_api_response_free_def [of y]] by (simp_all add: add_mset_commute)

text \<open>A context that was never initialised is released without a call of zlib.\<close>

lemma compress_context_release:
  assumes "0 \<notin> live" "releasable {#zc_at c, zc_in c, zc_out c#} live"
  shows "compress_context_free c live =
    Inr (if zc_initialized c then [DeflateEnd] else [], live - {zc_at c, zc_in c, zc_out c})"
proof -
  have "releases (\<lambda>live. bindR (free_at (zc_in c) live) (\<lambda>live. bindR (free_at (zc_out c) live) (free_at (zc_at c))))
      {#zc_at c, zc_in c, zc_out c#}"
    by (rule releasesI [OF releases_then [OF releases_at [of "zc_in c"] releases_then [OF releases_at [of "zc_out c"]
      releases_at [of "zc_at c"]]]]) (simp_all add: add_mset_commute)
  with assms have "bindR (free_at (zc_in c) live) (\<lambda>live. bindR (free_at (zc_out c) live) (free_at (zc_at c))) =
      Inr (live - {zc_at c, zc_in c, zc_out c})"
    unfolding releases_def by simp
  then show ?thesis by (auto simp: compress_context_free_def bindR_Inr_iff)
qed

text \<open>No operation is stored behind the array, and the operations keep their order.\<close>

lemma operations_fit:
  assumes "foldl (\<lambda>st op. add_header_operation op st) ([], 0) ops = (ops', cap)"
  shows "ops' = ops \<and> length ops' \<le> cap"
  using assms
proof (induction ops arbitrary: ops' cap rule: rev_induct)
  case (snoc op ops)
  obtain o1 c1 where 1: "foldl (\<lambda>st op. add_header_operation op st) ([], 0) ops = (o1, c1)" by fastforce
  from snoc.IH [OF this] have "o1 = ops" "length o1 \<le> c1" by blast+
  with snoc.prems 1 show ?case by (auto simp: add_header_operation_def Suc_le_eq split: if_splits)
qed simp

end
