(* ===== verification/Spec2Isabelle.thy ===== *)
theory Spec2Isabelle
  imports Bandwidth MimeTypes Compress Cache HealthCheck Log ConfigDirectives CoreConf Chunked Headers Proxy AsmSimd
    Http Https Push Mempool Stream HealthApi Net Master AsmSystem AsmIntegration HttpModule LbHealth
    ReleaseRecords
begin

text \<open>
  Verification development of the anx web server (aarch64_http_server): the C sources under
  src/, version 0.8.

  The program. The master process reads a configuration file or its command line, builds the core
  configuration (routing tables, response cache, upstream groups with their health checks,
  listening sockets), opens the sockets and forks workers. A worker waits for events on its
  sockets, accepts clients into a pool of connections and hands a request to the handler of plain
  HTTP or HTTPS. A handler finds the server block and the location of the request and answers
  from a file, the cache, a proxied server or one that the load balancer selects, with the header
  settings, the compression and the bandwidth limit of the configuration. Beside it stand the
  push service, the stream proxy and the health interface, and the routines in assembler for
  aarch64 with their memory pool, which the plain handler uses for strings and memory.

  Conventions. A struct is a record, an enumeration a datatype, a size_t or fixed-width integer a
  word, an int an integer with the conversions of the C library (strtol, atoi) written out. A
  routine returns \<open>'a run\<close>, a value or a fault: \<open>Deadlock\<close> (a thread locks a mutex it holds),
  \<open>BadPointer\<close> (NULL, wild or released memory), \<open>OutOfRange\<close> (behind an array or buffer) or \<open>Diverges\<close>
  (a loop that repeats its state). Loops that may not end are \<open>partial_function (option)\<close>, where
  \<open>None\<close> is not to return. Lists linked by pointers are lists where only their order matters
  and a heap of nodes where the code changes pointers (Cache, Mempool). A buffer that snprintf fills is the
  text cut at its size. A double is a rational. Allocation succeeds where a theory does not say otherwise.
  Readings of the clock, random numbers and the answers of the kernel, of zlib, of OpenSSL, of
  fnmatch and of the Rust command-line parser are parameters; what the code relies on is a
  hypothesis of the theorem that needs it, as that send returns at most the length it was given.

  Theories and sources (functions keep their names):

  \<^item> Prelude: words, faults, the string functions of the C library. MimeTypes, Sockets: contracts
    that two components share.
  \<^item> Config, ConfigDirectives (core/config.c): tokenizer, block parser, directives. CoreConf
    (core/core.c): find_route, create_core_config. Log (core/log.c). Master (core/main.c). Net (core/net.c).
  \<^item> Cache (utils/cache.c), Compress (utils/compress.c), Bandwidth (utils/bandwidth.c).
  \<^item> LoadBalancer, LbHealth (proxy/load_balancer.c), HealthCheck (proxy/health_check.c), HealthApi
    (proxy/health_api.c), Proxy (proxy/proxy.c, proxy/lb_proxy.c).
  \<^item> Chunked, Headers (http/chunked.c, http/headers.c), Http (http/http.c, http/http_module.c), Https
    (http/https.c, utils/util.c), HttpModule (start and end of http/http.c).
  \<^item> Push (stream/push.c), Stream (stream/stream.c).
  \<^item> AsmMem, AsmStr, AsmCodec, AsmHttp, AsmSimd, AsmSystem (utils/asm/asm_opt.c, by kind of routine), AsmText (the
    string routines as the handlers call them), AsmIntegration (utils/asm/asm_integration.c), Mempool
    (utils/asm/asm_mempool.c).
  \<^item> Release, ReleaseRecords: the free functions of all of these, on a heap of blocks.

  State. The cache is a heap of entries with its LRU list, hash chains, statistics and mutex; an
  upstream group its list of servers, the position of round robin and counters, the sessions a table
  that keeps addresses of servers; a bandwidth controller its tokens and the time of the last refill; a worker
  its array of connections and the events it has seen; a memory pool its free lists in a map
  from addresses to bytes; a push manager its clients with what has been written to each.

  What is shown.

  \<^item> Functional behaviour, on every branch: weighted round robin over a whole cycle, the other
    strategies, cache lookups, routing, header operations, the text of proxied requests, the answers of both
    handlers, of the health interface and of the relay.
  \<^item> Invariants over every sequence of operations: the LRU list and the chains of the cache, sane
    settings after any configuration, balanced connection counts, the limit of push clients, one health check thread
    for a group (LbHealth).
  \<^item> Refinement and equivalence: the cache and the groups implement maps, the ring of check results the list of
    the last ones, the free lists a stack; the vector routines compute what the C library does.
  \<^item> Round trips: a printed configuration, chunks, events, base64 and proxy URLs are read back.
  \<^item> From the text of a configuration to the router (below): which block of the file answers a request.
  \<^item> Memory: a release frees exactly what a structure owns (Release). Requests stay in the document root (Http).
  \<^item> Failures: where the code does not do what it means to, the theorem says what it does: requests that are
    read and never answered (Net), the cache that is never filled (Https), an
    insertion into a full cache that never returns (Cache), a module that cannot be stopped (HttpModule), the end of the master process
    (Master).

  Bounds and fuel. The fuel of the parser loops is one more than the number of tokens, which is
  enough because every iteration that changes the index moves it forward. The tokenizer keeps its 2048
  tokens, a directive its 1024 characters, the pool of connections its size, a batch its
  32 clients. The walks over the cache's list have as fuel the number of entries it may hold; a walk that is longer is in a
  cycle. All other recursions are structural or have a measure.

  Not modelled: text that is only printed (statistics, version, dumps of the configuration);
  the benchmark of asm_integration.c; the formatting of dates; the code behind the endless loop of the workers;
  lb_health_check_thread, which nothing starts; lb_parse_config_block and the other parsers that
  are stubs in the code; functions that push.h, stream.h and asm_core.h declare and no source
  defines; the Rust modules and the interface to them in anx_rust.h. Interleavings of threads are
  represented where critical sections are separate steps (Push, Stream, LbHealth), not within them.
\<close>

section \<open>From the text of the configuration to the answer of the router\<close>

text \<open>The servers and the locations as the source lists them; the parser links them in front of
each other, so its lists are reversed.\<close>

fun source_servers :: "http_item list \<Rightarrow> server_item list list" where
  "source_servers [] = []"
| "source_servers (HServer s # r) = s # source_servers r"
| "source_servers (_ # r) = source_servers r"

fun source_locations :: "server_item list \<Rightarrow> location_block list" where
  "source_locations [] = []"
| "source_locations (SLoc p ds # r) = location_of p ds # source_locations r"
| "source_locations (_ # r) = source_locations r"

lemma foldl_servers: "h_servers (foldl add_http_item h items) = rev (List.map server_of (source_servers items)) @ h_servers h"
  by (induction items arbitrary: h rule: source_servers.induct) simp_all

lemma http_of_servers: "h_servers (http_of items) = rev (List.map server_of (source_servers items))"
  by (simp add: http_of_def foldl_servers)

lemma foldl_locations: "s_locations (foldl add_server_item s items) = rev (source_locations items) @ s_locations s"
  by (induction items arbitrary: s rule: source_locations.induct) simp_all

lemma server_of_locations: "s_locations (server_of items) = rev (source_locations items)"
  by (simp add: server_of_def foldl_locations)

text \<open>No directive changes the blocks.\<close>

lemma apply_directive_http: "apply_directive cfg d = Inr cfg' \<Longrightarrow> cf_http cfg' = cf_http cfg"
  by (cases "d_value d") (auto simp: apply_directive_def handle_compression_directive_def handle_cache_directive_def
      handle_bandwidth_directive_def split: option.splits if_splits)

lemma apply_directives_http: "apply_directives cfg ds = Inr cfg' \<Longrightarrow> cf_http cfg' = cf_http cfg"
proof (induction ds arbitrary: cfg)
  case (Cons d ds)
  then obtain c where "apply_directive cfg d = Inr c" "apply_directives c ds = Inr cfg'"
    by (auto simp: bindR_Inr_iff)
  with Cons.IH [of c] apply_directive_http [of cfg d c] show ?case by simp
qed simp

lemma parse_config_http:
  assumes "parse_config file (Some src) = Inr (dir, Some cfg)" "parse_blocks src = Inr http"
  shows "cf_http cfg = http"
proof -
  have "(case http of None \<Rightarrow> Inr (new_config\<lparr>cf_http := http\<rparr>)
      | Some h \<Rightarrow> apply_directives (new_config\<lparr>cf_http := http\<rparr>) (h_directives h)) = Inr cfg"
    using assms by (auto simp: parse_config_def bindR_Inr_iff Let_def)
  then show ?thesis using apply_directives_http by (cases http) fastforce+
qed

text \<open>The first of the reversed list is the last of the file.\<close>

lemma find_rev: "List.find P (rev xs) = (if List.filter P xs = [] then None else Some (last (List.filter P xs)))"
proof (induction xs rule: rev_induct)
  case (snoc x xs)
  then show ?case by simp
qed simp

lemma filter_and: "List.filter (\<lambda>s. P s \<and> Q s) xs = List.filter Q (List.filter P xs)"
  by (simp add: conj_commute)

lemma best_location_rev:
  assumes "best_location u (s_locations (server_of ss)) 0 best"
  shows "case best of
       None \<Rightarrow> \<forall>b\<in>set (source_locations ss). (\<exists>t. u = l_path b @ t) \<longrightarrow> l_path b = []
     | Some b \<Rightarrow> \<exists>xs ys. source_locations ss = xs @ b # ys \<and> (\<exists>t. u = l_path b @ t) \<and> l_path b \<noteq> [] \<and>
         (\<forall>c\<in>set (xs @ ys). (\<exists>t. u = l_path c @ t) \<longrightarrow> length (l_path c) \<le> length (l_path b)) \<and>
         (\<forall>c\<in>set ys. (\<exists>t. u = l_path c @ t) \<longrightarrow> length (l_path c) < length (l_path b))"
proof (cases best)
  case None
  with assms show ?thesis by (simp add: best_location_def server_of_locations)
next
  case (Some b)
  with assms obtain xs ys where b: "rev (source_locations ss) = xs @ b # ys" "\<exists>t. u = l_path b @ t" "0 < length (l_path b)"
    "\<forall>c\<in>set (rev (source_locations ss)). (\<exists>t. u = l_path c @ t) \<longrightarrow> length (l_path c) \<le> length (l_path b)"
    "\<forall>c\<in>set xs. (\<exists>t. u = l_path c @ t) \<longrightarrow> length (l_path c) < length (l_path b)"
    unfolding Some best_location_def server_of_locations option.case by (elim exE conjE) blast
  from b(1) have "source_locations ss = rev ys @ b # rev xs" by (metis rev_rev_ident rev_append rev.simps(2) append_assoc append_Cons append_Nil)
  then show ?thesis unfolding Some option.case using b(2-5)
    by (intro exI [of _ "rev ys"] exI [of _ "rev xs"]) auto
qed

lemma find_route_total:
  assumes "\<And>s. s \<in> set (h_servers h) \<Longrightarrow> \<exists>b. listens_on p (s_directives s) = Inr b"
  shows "\<exists>r. find_route (Some h) name u p = Inr r"
proof -
  obtain m d where "find_server name p (h_servers h) None = Inr (m, d)"
    using find_server_total [of "h_servers h" p name None] assms by auto
  then show ?thesis by (cases "h_servers h") (simp_all add: find_route_def Let_def)
qed

definition last_listening :: "int \<Rightarrow> string option \<Rightarrow> server_block list \<Rightarrow> server_block" where
  "last_listening p name srvs =
     (let on = List.filter (\<lambda>s. listens_on p (s_directives s) = Inr True) srvs;
          named = List.filter (\<lambda>s. name \<noteq> None \<and> get_directive_value ''server_name'' (s_directives s) = name) on
      in if named \<noteq> [] then last named else if on \<noteq> [] then last on else last srvs)"

lemma chosen_rev:
  assumes "srvs \<noteq> []"
  shows "(case List.find (\<lambda>s. listens_on p (s_directives s) = Inr True \<and> name \<noteq> None \<and>
              get_directive_value ''server_name'' (s_directives s) = name) (rev srvs) of
             Some s \<Rightarrow> s
           | None \<Rightarrow> (case List.find (\<lambda>s. listens_on p (s_directives s) = Inr True) (rev srvs) of
                Some s \<Rightarrow> s | None \<Rightarrow> hd (rev srvs))) = last_listening p name srvs"
  unfolding find_rev last_listening_def
    filter_and [of "\<lambda>s. listens_on p (s_directives s) = Inr True"
      "\<lambda>s. name \<noteq> None \<and> get_directive_value ''server_name'' (s_directives s) = name"]
  using assms by (simp add: Let_def hd_rev)

lemma last_listening_in: "srvs \<noteq> [] \<Longrightarrow> last_listening p name srvs \<in> set srvs"
proof -
  have "last (List.filter P xs) \<in> set xs" if "List.filter P xs \<noteq> []" for P and xs :: "server_block list"
    using last_in_set [OF that] by simp
  moreover assume "srvs \<noteq> []"
  ultimately show ?thesis unfolding last_listening_def Let_def
    by (metis (no_types, lifting) filter_is_subset last_in_set subset_code(1))
qed

lemma last_listening_on:
  assumes "s \<in> set srvs" "listens_on p (s_directives s) = Inr True"
  shows "listens_on p (s_directives (last_listening p name srvs)) = Inr True"
proof -
  let ?on = "List.filter (\<lambda>s. listens_on p (s_directives s) = Inr True) srvs"
  have on: "?on \<noteq> []" using assms by (auto simp: filter_empty_conv)
  have "last_listening p name srvs \<in> set ?on"
  proof (cases "List.filter (\<lambda>s. name \<noteq> None \<and> get_directive_value ''server_name'' (s_directives s) = name) ?on = []")
    case True
    with on show ?thesis unfolding last_listening_def Let_def by (metis last_in_set)
  next
    case False
    from last_in_set [OF this] have "last (List.filter (\<lambda>s. name \<noteq> None \<and> get_directive_value ''server_name'' (s_directives s) = name) ?on) \<in> set ?on"
      by (rule subsetD [OF filter_is_subset])
    with False show ?thesis unfolding last_listening_def Let_def by metis
  qed
  then show ?thesis by simp
qed

text \<open>C14. From the text of a configuration file to the answer of the router. For every well-formed source
in any layout: if the file is accepted and the server is built from it, then routing never
fails, for any name, path and port. Of several blocks that listen on the port it takes the one
that carries the name of the request, else one that listens, else any, and always the last such block
of the file; it listens on the port whenever one of the sockets of the server does. In the
block it takes the longest location that is a prefix of the path, of equal ones the last of the
file, and none only if no path but the empty one is a prefix.\<close>

theorem config_text_serves:
  assumes "\<forall>x\<in>set items. http_item_ok x" "list_all gap_ok gs" "layout_ok l"
    and "List.map fst l = http_tokens items" "length l \<le> MAX_TOKENS"
    and "parse_config path (Some (gaps gs @ layout l)) = Inr (dir, Some cfg)"
    and "create_core_config now spawn dir (Some cfg) = Inr (Some cc)" "source_servers items \<noteq> []"
  shows "\<exists>r ss. find_route (cf_http cfg) name (Some u) p = Inr r \<and> ss \<in> set (source_servers items) \<and>
    r_server r = Some (server_of ss) \<and>
    server_of ss = last_listening p name (List.map server_of (source_servers items)) \<and>
    (p \<in> ls_port ` set (listening_sockets cc) \<longrightarrow> listens_on p (s_directives (server_of ss)) = Inr True) \<and>
    (case r_location r of
       None \<Rightarrow> \<forall>b\<in>set (source_locations ss). (\<exists>t. u = l_path b @ t) \<longrightarrow> l_path b = []
     | Some b \<Rightarrow> \<exists>xs ys. source_locations ss = xs @ b # ys \<and> (\<exists>t. u = l_path b @ t) \<and> l_path b \<noteq> [] \<and>
         (\<forall>c\<in>set (xs @ ys). (\<exists>t. u = l_path c @ t) \<longrightarrow> length (l_path c) \<le> length (l_path b)) \<and>
         (\<forall>c\<in>set ys. (\<exists>t. u = l_path c @ t) \<longrightarrow> length (l_path c) < length (l_path b)))"
proof -
  let ?srvs = "List.map server_of (source_servers items)"
  have http: "cf_http cfg = Some (http_of items)"
    by (rule parse_config_http [OF assms(6) parse_layout [OF assms(1-5)]])
  have ne: "?srvs \<noteq> []" using assms(8) by simp
  have hs: "h_servers (http_of items) = rev ?srvs" by (rule http_of_servers)
  obtain socks where socks: "all_sockets dir (rev ?srvs) = Inr socks" "listening_sockets cc = socks"
    using assms(7) http by (auto simp: create_core_config_def bindR_Inr_iff Let_def hs)
  have reads: "\<exists>b. listens_on p (s_directives s) = Inr b" if "s \<in> set ?srvs" for s
    using all_sockets_listens [OF socks(1), of s p] that by simp
  then obtain r where r: "find_route (Some (http_of items)) name (Some u) p = Inr r"
    using find_route_total [of "http_of items" p name "Some u"] hs by auto
  let ?s = "last_listening p name ?srvs"
  from find_route_routes [OF r] ne hs have srv: "r_server r = Some ?s" and
    best: "best_location u (s_locations ?s) 0 (r_location r)"
    unfolding hs chosen_rev [OF ne] by simp_all
  obtain ss where ss: "ss \<in> set (source_servers items)" "?s = server_of ss"
    using last_listening_in [OF ne, of p name] by auto
  have "listens_on p (s_directives ?s) = Inr True" if "p \<in> ls_port ` set socks"
  proof -
    have "p \<in> set (concat (List.map (\<lambda>s. List.map listen_port (listen_values (s_directives s))) (rev ?srvs)))"
      using that all_sockets_ports [OF socks(1)] by (metis set_map)
    then obtain s where s: "s \<in> set ?srvs" "\<exists>v\<in>set (listen_values (s_directives s)). listen_port v = p" by auto
    with reads [OF s(1)] listens_on_values [of p "s_directives s"] have "listens_on p (s_directives s) = Inr True" by auto
    from last_listening_on [OF s(1) this] show ?thesis .
  qed
  with http r srv ss socks(2) best_location_rev [of u ss "r_location r"] best show ?thesis by auto
qed

text \<open>Two servers on one port: the second of the file answers, and its root is the location although the
first has a longer one.\<close>

definition twin_items :: "http_item list" where
  "twin_items = [HServer [SDir (''listen'', [''80'']), SLoc ''/a'' []], HServer [SDir (''listen'', [''80'']), SLoc ''/'' []]]"

definition twin_layout :: "(string \<times> gap list) list" where
  "twin_layout = List.map (\<lambda>t. (t, [Blank CHR '' ''])) (http_tokens twin_items)"

lemma twin_ok: "\<forall>x\<in>set twin_items. http_item_ok x" "layout_ok twin_layout" "List.map fst twin_layout = http_tokens twin_items"
  "length twin_layout \<le> MAX_TOKENS"
  by (simp_all add: twin_items_def twin_layout_def dir_ok_def plain_word_def isspace_def is_punct_def http_tokens_def
      dir_tokens_def MAX_TOKENS_def)

lemma twin_listens: "listens_on 80 (s_directives (server_of [SDir (''listen'', [''80'']), SLoc ''/'' []])) = Inr True"
  by code_simp

lemma twin_parsed:
  "\<exists>cfg. parse_config ''anx.conf'' (Some (gaps [] @ layout twin_layout)) = Inr ([], Some cfg) \<and>
     (\<exists>cc. create_core_config 0 (\<lambda>_. True) [] (Some cfg) = Inr (Some cc))"
proof -
  have r: "parse_blocks (gaps [] @ layout twin_layout) = Inr (Some (http_of twin_items))"
    using parse_layout [OF twin_ok(1) _ twin_ok(2-4), of "[]"] by simp
  let ?cfg = "new_config\<lparr>cf_http := Some (http_of twin_items)\<rparr>"
  have "h_directives (http_of twin_items) = []" by (simp add: twin_items_def http_of_def)
  then have p: "parse_config ''anx.conf'' (Some (gaps [] @ layout twin_layout)) = Inr ([], Some ?cfg)"
    by (simp add: parse_config_def r set_config_dir_def Let_def)
  have "\<exists>cc. create_core_config 0 (\<lambda>_. True) [] (Some ?cfg) = Inr (Some cc)"
    by (simp add: create_core_config_def twin_items_def http_of_def server_of_def dir_of_def Let_def)
  with p show ?thesis by blast
qed

theorem config_text_serves_witness:
  "\<exists>cfg r. parse_config ''anx.conf'' (Some (gaps [] @ layout twin_layout)) = Inr ([], Some cfg) \<and>
     find_route (cf_http cfg) None (Some ''/a'') 80 = Inr r \<and>
     r_server r = Some (server_of [SDir (''listen'', [''80'']), SLoc ''/'' []]) \<and>
     r_location r = Some (location_of ''/'' [])"
proof -
  from twin_parsed obtain cfg cc where p: "parse_config ''anx.conf'' (Some (gaps [] @ layout twin_layout)) = Inr ([], Some cfg)"
    "create_core_config 0 (\<lambda>_. True) [] (Some cfg) = Inr (Some cc)" by blast
  have s: "source_servers twin_items \<noteq> []" by (simp add: twin_items_def)
  have g: "list_all gap_ok []" by simp
  note served = config_text_serves [OF twin_ok(1) g twin_ok(2-4) p s, of None "''/a''" 80]
  then obtain r ss where r: "find_route (cf_http cfg) None (Some ''/a'') 80 = Inr r" "ss \<in> set (source_servers twin_items)"
    "r_server r = Some (server_of ss)"
    "server_of ss = last_listening 80 None (List.map server_of (source_servers twin_items))"
    and none: "r_location r = None \<Longrightarrow> \<forall>b\<in>set (source_locations ss). (\<exists>t. ''/a'' = l_path b @ t) \<longrightarrow> l_path b = []"
    and some: "\<And>b. r_location r = Some b \<Longrightarrow> b \<in> set (source_locations ss)"
  proof (elim exE conjE)
    fix r ss
    assume *: "find_route (cf_http cfg) None (Some ''/a'') 80 = Inr r" "ss \<in> set (source_servers twin_items)"
      "r_server r = Some (server_of ss)"
      "server_of ss = last_listening 80 None (List.map server_of (source_servers twin_items))"
      "case r_location r of
       None \<Rightarrow> \<forall>b\<in>set (source_locations ss). (\<exists>t. ''/a'' = l_path b @ t) \<longrightarrow> l_path b = []
     | Some b \<Rightarrow> \<exists>xs ys. source_locations ss = xs @ b # ys \<and> (\<exists>t. ''/a'' = l_path b @ t) \<and> l_path b \<noteq> [] \<and>
         (\<forall>c\<in>set (xs @ ys). (\<exists>t. ''/a'' = l_path c @ t) \<longrightarrow> length (l_path c) \<le> length (l_path b)) \<and>
         (\<forall>c\<in>set ys. (\<exists>t. ''/a'' = l_path c @ t) \<longrightarrow> length (l_path c) < length (l_path b))"
    show thesis
    proof (rule that [OF *(1-4)])
      show "r_location r = None \<Longrightarrow> \<forall>b\<in>set (source_locations ss). (\<exists>t. ''/a'' = l_path b @ t) \<longrightarrow> l_path b = []"
        using *(5) by simp
      show "r_location r = Some b \<Longrightarrow> b \<in> set (source_locations ss)" for b
        using *(5) by auto
    qed
  qed
  have "last_listening 80 None (List.map server_of (source_servers twin_items)) = server_of [SDir (''listen'', [''80'']), SLoc ''/'' []]"
    by (simp add: last_listening_def twin_items_def Let_def twin_listens)
  with r have s: "server_of ss = server_of [SDir (''listen'', [''80'']), SLoc ''/'' []]" by simp
  with r(2) have ss: "ss = [SDir (''listen'', [''80'']), SLoc ''/'' []]"
    by (auto simp: twin_items_def server_of_def location_of_def)
  have "r_location r = Some (location_of ''/'' [])"
  proof (cases "r_location r")
    case None
    from none [OF None] show ?thesis unfolding ss by (simp add: location_of_def)
  next
    case (Some b)
    from some [OF Some] Some show ?thesis unfolding ss by simp
  qed
  with p(1) r(1,3) s show ?thesis by auto
qed

end
